(* ===== verification/Spyre_Prelude.thy ===== *)
theory Spyre_Prelude
  imports Complex_Main "HOL-Library.List_Lexorder" "HOL-Library.Char_ord"
    "HOL-Library.Product_Lexorder"
begin

text \<open>
  The vocabulary every component of the development shares: Python's exceptions as values,
  half-open address intervals, rounding to an alignment boundary, and the list and
  arithmetic lemmas that more than one component uses.

  Python integers are unbounded, so they are modelled by \<^typ>\<open>int\<close>; Python's floor
  division and modulus agree with \<open>div\<close> and \<open>mod\<close> on \<^typ>\<open>int\<close>.  Python compares strings
  and tuples lexicographically, which is what the imported order instances give.
\<close>

section \<open>Collections of rules\<close>

named_theorems interval_simps \<open>half-open intervals as linear arithmetic\<close>
named_theorems align_simps \<open>rounding to an alignment boundary\<close>

section \<open>Exceptions as values\<close>

text \<open>
  One constructor per exception class the modelled code raises.  The argument is the
  constant part of the message; values interpolated into a message are left out.
\<close>

datatype py_error =
    TypeError string
  | ValueError string
  | AssertionError string
  | IndexError
  | KeyError
  | ZeroDivisionError
  | AttributeError
  | RuntimeError string
  | ShardPlanningUnavailableError string

type_synonym 'a result = "py_error + 'a"

text \<open>Run a check that returns nothing, then continue: the first exception wins.\<close>

definition and_then :: "unit result \<Rightarrow> 'a result \<Rightarrow> 'a result" where
  "and_then c k = (case c of Inl e \<Rightarrow> Inl e | Inr _ \<Rightarrow> k)"

definition raise_if :: "bool \<Rightarrow> py_error \<Rightarrow> unit result" where
  "raise_if b e = (if b then Inl e else Inr ())"

lemma and_then_Inr [simp]: "and_then c k = Inr x \<longleftrightarrow> c = Inr () \<and> k = Inr x"
  by (auto simp: and_then_def split: sum.splits)

lemma raise_if_Inr [simp]: "raise_if b e = Inr u \<longleftrightarrow> \<not> b"
  by (simp add: raise_if_def)

lemma raise_if_Inl [simp]: "raise_if b e = Inl e' \<longleftrightarrow> b \<and> e' = e"
  by (auto simp: raise_if_def)

lemma and_then_unfold:
  "and_then (raise_if b e) k = (if b then Inl e else k)"
  by (simp add: and_then_def raise_if_def)

text \<open>
  Sequencing of calls that may raise: \<open>rbind\<close> is a call followed by the code that uses its
  value, \<open>traverse\<close> a comprehension \<open>tuple(f(x) for x in xs)\<close> whose body may raise.
\<close>

definition rbind :: "'a result \<Rightarrow> ('a \<Rightarrow> 'b result) \<Rightarrow> 'b result" where
  "rbind c k = (case c of Inl e \<Rightarrow> Inl e | Inr x \<Rightarrow> k x)"

lemma rbind_simps [simp]: "rbind (Inl e) k = Inl e" "rbind (Inr x) k = k x"
  by (simp_all add: rbind_def)

lemma rbind_Inr: "rbind c k = Inr y \<longleftrightarrow> (\<exists>x. c = Inr x \<and> k x = Inr y)"
  by (cases c) simp_all

lemma rbind_InrE [elim!]:
  assumes "rbind c k = Inr y"
  obtains x where "c = Inr x" "k x = Inr y"
  using assms by (auto simp: rbind_Inr)

primrec traverse :: "('a \<Rightarrow> 'b result) \<Rightarrow> 'a list \<Rightarrow> 'b list result" where
  "traverse f [] = Inr []"
| "traverse f (x # xs) = rbind (f x) (\<lambda>y. rbind (traverse f xs) (\<lambda>ys. Inr (y # ys)))"

lemma traverse_Inr: "traverse f xs = Inr ys \<longleftrightarrow> list_all2 (\<lambda>x y. f x = Inr y) xs ys"
  by (induction xs arbitrary: ys) (auto simp: rbind_Inr list_all2_Cons1)

lemma traverse_member: "traverse f xs = Inr ys \<Longrightarrow> x \<in> set xs \<Longrightarrow> \<exists>y. f x = Inr y"
  by (induction xs arbitrary: ys) auto

lemma traverse_map: "\<forall>x \<in> set xs. f x = Inr (h x) \<Longrightarrow> traverse f xs = Inr (map h xs)"
  by (induction xs) auto

lemma traverse_total: "\<forall>x \<in> set xs. \<exists>y. f x = Inr y \<Longrightarrow> \<exists>ys. traverse f xs = Inr ys"
  by (induction xs) auto

section \<open>Half-open intervals\<close>

text \<open>\<open>ivl_disjoint a s b t\<close>: the blocks \<open>[a, a + s)\<close> and \<open>[b, b + t)\<close> share no address.\<close>

definition ivl_disjoint :: "int \<Rightarrow> int \<Rightarrow> int \<Rightarrow> int \<Rightarrow> bool" where
  [interval_simps]: "ivl_disjoint a s b t \<longleftrightarrow> a + s \<le> b \<or> b + t \<le> a"

lemma ivl_disjoint_sym: "ivl_disjoint a s b t \<Longrightarrow> ivl_disjoint b t a s"
  by (auto simp: interval_simps)

lemma ivl_disjoint_sub:
  "ivl_disjoint a s b t \<Longrightarrow> a \<le> a' \<Longrightarrow> a' + s' \<le> a + s \<Longrightarrow> ivl_disjoint a' s' b t"
  by (auto simp: interval_simps)

text \<open>Disjointness in the sense of the blocks' addresses.\<close>

lemma ivl_disjoint_no_common:
  "ivl_disjoint a s b t \<Longrightarrow> \<not> (a \<le> x \<and> x < a + s \<and> b \<le> x \<and> x < b + t)"
  by (auto simp: interval_simps)

section \<open>Rounding to a boundary\<close>

text \<open>Rounding up, as the code writes it in three places: \<open>((n + k - 1) // k) * k\<close>.\<close>

definition round_up :: "int \<Rightarrow> int \<Rightarrow> int" where
  "round_up n k = ((n + k - 1) div k) * k"

lemma round_up_dvd [align_simps, simp]: "k dvd round_up n k"
  by (simp add: round_up_def)

lemma mult_div_bounds:
  "0 < (k::int) \<Longrightarrow> n div k * k \<le> n \<and> n < n div k * k + k"
proof -
  assume k: "0 < k"
  have "n div k * k + n mod k = n" by simp
  moreover have "0 \<le> n mod k" "n mod k < k" using k by simp_all
  ultimately show ?thesis by linarith
qed

lemma div_less_of_less_mult: "0 < (k::int) \<Longrightarrow> x < n * k \<Longrightarrow> x div k < n"
proof -
  assume k: "0 < k" and x: "x < n * k"
  have "x div k * k < n * k" using mult_div_bounds [OF k, of x] x by linarith
  then show ?thesis using k by simp
qed

lemma div_eq_block: "0 < (k::int) \<Longrightarrow> j * k \<le> x \<Longrightarrow> x < j * k + k \<Longrightarrow> x div k = j"
  by (rule int_div_pos_eq [of _ _ _ "x - j * k"]) (simp_all add: algebra_simps)

lemma div_block_iff: "0 < (k::int) \<Longrightarrow> x div k = j \<longleftrightarrow> j * k \<le> x \<and> x < j * k + k"
  using mult_div_bounds [of k x] div_eq_block [of k j x] by auto

text \<open>Cores are numbered by integers in the code and indexed by naturals in lists.\<close>

lemma all_cores_nat: "(\<forall>c. 0 \<le> c \<longrightarrow> c < n \<longrightarrow> P c) \<longleftrightarrow> (\<forall>i < nat n. P (int i))"
proof
  assume h: "\<forall>i < nat n. P (int i)"
  show "\<forall>c. 0 \<le> c \<longrightarrow> c < n \<longrightarrow> P c"
  proof (intro allI impI)
    fix c :: int assume "0 \<le> c" "c < n"
    then show "P c" using h [rule_format, of "nat c"] by simp
  qed
qed simp

lemma round_up_ge [align_simps]: "0 < k \<Longrightarrow> n \<le> round_up n k"
  using mult_div_bounds [of k "n + k - 1"] by (simp add: round_up_def)

lemma round_up_less [align_simps]: "0 < k \<Longrightarrow> round_up n k < n + k"
  using mult_div_bounds [of k "n + k - 1"] by (simp add: round_up_def)

text \<open>The rounded value is the least multiple at or above the argument.\<close>

lemma round_up_least: "0 < k \<Longrightarrow> k dvd m \<Longrightarrow> n \<le> m \<Longrightarrow> round_up n k \<le> m"
proof -
  assume k: "0 < k" and dvd: "k dvd m" and le: "n \<le> m"
  obtain q where q: "m = k * q" using dvd by blast
  have "round_up n k < k * (q + 1)"
    using round_up_less [OF k, of n] le q by (simp add: algebra_simps)
  moreover obtain r where r: "round_up n k = k * r"
    using round_up_dvd by blast
  ultimately have "r < q + 1" using k by simp
  then show ?thesis using k q r by simp
qed

lemma round_up_id: "0 < k \<Longrightarrow> k dvd n \<Longrightarrow> round_up n k = n"
  using round_up_least [of k n n] round_up_ge [of k n] by simp

text \<open>Ceiling division without a floating intermediate: \<open>-(-a // b)\<close>.\<close>

lemma neg_div_eq_round_up: "0 < k \<Longrightarrow> - ((- n) div k) * k = round_up n k"
proof -
  assume k: "0 < k"
  define c where "c = - ((- n) div k) * k"
  have b: "n \<le> c" "c < n + k"
    using mult_div_bounds [OF k, of "- n"] unfolding c_def by linarith+
  have "k dvd c" by (simp add: c_def)
  then have "round_up n k \<le> c" using round_up_least [OF k] b by blast
  moreover have "k dvd c - round_up n k" by (simp add: \<open>k dvd c\<close>)
  moreover have "c - round_up n k < k"
    using b(2) round_up_ge [OF k, of n] by linarith
  ultimately have "c = round_up n k"
    using zdvd_imp_le [of k "c - round_up n k"] by fastforce
  then show ?thesis by (simp add: c_def)
qed

lemmas round_up_bounds = round_up_ge round_up_less

section \<open>Lists\<close>

lemma foldl_max_ge_init: "w \<le> foldl (\<lambda>w x. max w (f x)) (w::int) xs"
proof (induction xs arbitrary: w)
  case (Cons x xs)
  have "max w (f x) \<le> foldl (\<lambda>w x. max w (f x)) (max w (f x)) xs" by (rule Cons.IH)
  then show ?case by simp
qed simp

lemma foldl_max_ge: "x \<in> set xs \<Longrightarrow> f x \<le> foldl (\<lambda>w x. max w (f x)) (w::int) xs"
proof (induction xs arbitrary: w)
  case (Cons y ys)
  then show ?case
  proof (cases "x = y")
    case True
    have "max w (f y) \<le> foldl (\<lambda>w x. max w (f x)) (max w (f y)) ys"
      by (rule foldl_max_ge_init)
    with True show ?thesis by simp
  next
    case False
    with Cons show ?thesis by simp
  qed
qed simp

lemma foldl_max_le:
  "w \<le> B \<Longrightarrow> (\<And>x. x \<in> set xs \<Longrightarrow> f x \<le> B) \<Longrightarrow> foldl (\<lambda>w x. max w (f x)) (w::int) xs \<le> B"
  by (induction xs arbitrary: w) auto

lemma prod_list_pos: "\<forall>s \<in> set ss. 0 < s \<Longrightarrow> 0 < prod_list (ss :: int list)"
  by (induction ss) auto

lemma sorted_map_fst: "sorted (xs :: (int \<times> int) list) \<Longrightarrow> sorted (map fst xs)"
  by (induction xs) (auto simp: less_eq_prod_def)

lemma map_filter_iff: "y \<in> set (List.map_filter f xs) \<longleftrightarrow> (\<exists>x \<in> set xs. f x = Some y)"
  unfolding List.map_filter_def by force

lemma sorted_wrt_pair:
  "sorted_wrt R xs \<Longrightarrow> x \<in> set xs \<Longrightarrow> y \<in> set xs \<Longrightarrow> x \<noteq> y \<Longrightarrow> R x y \<or> R y x"
  by (induction xs) auto

end
