(* ===== verification/Sharding.thy ===== *)
theory Sharding
  imports Spyre_Prelude
begin

text \<open>
  Equal-shard planning and the placement receipt: \<open>torch_spyre/sharding.py\<close>,
  \<open>torch_spyre/_native_placement.py\<close> and \<open>torch_spyre/_sharded_api.py\<close>.

  The code checks the dynamic type of almost every argument, so arguments are values of
  \<open>pyobj\<close>, one constructor per shape the code distinguishes (\<open>PyOther\<close> is an object that is
  none of the others and neither a sequence nor a mapping).  PyTorch's
  \<open>Shard.local_shard_size_and_offset\<close> and the native backend \<open>_C\<close> are not part of the
  repository: they are arguments (\<open>shard_helper\<close>, \<open>native_ops\<close>), and nothing is assumed of
  them except where a statement says so.  \<open>to_sharded\<close> returns, next to its result, the
  calls it made into the backend, in order.
\<close>

section \<open>Values\<close>

datatype pyobj =
    PyInt int
  | PyBool bool
  | PyNone
  | PyStr string
  | PyTuple "pyobj list"
  | PyList "pyobj list"
  | PyDict "(string \<times> pyobj) list"
  | PyShard pyobj
  | PyOther

definition SUPPORTED_SHARD_COUNTS :: "int list" where
  "SUPPORTED_SHARD_COUNTS = [8, 16]"

record ShardRange =
  sr_shard_ordinal :: int
  sr_tensor_dim :: int
  sr_logical_offset :: int
  sr_logical_extent :: int

fun require_exact_int :: "string \<Rightarrow> pyobj \<Rightarrow> int result" where
  "require_exact_int name (PyInt n) = Inr n"
| "require_exact_int name _ = Inl (TypeError (name @ '' must be a concrete int''))"

record ShardChunkBinding =
  cb_shard_range :: ShardRange
  cb_placement_slot_id :: int
  cb_core_id :: int

record ShardPlacementEntry =
  pe_shard_ordinal :: int
  pe_core_id :: int
  pe_byte_length :: int
  pe_is_device_addressable :: bool
  pe_physical :: "(string \<times> int) list"

record ShardedReceipt =
  rc_num_shards :: int
  rc_shard_device_bytes :: int
  rc_total_bytes :: int
  rc_entries :: "ShardPlacementEntry list"

fun find_entry :: "ShardPlacementEntry list \<Rightarrow> int \<Rightarrow> ShardPlacementEntry result" where
  "find_entry [] k = Inl KeyError"
| "find_entry (c # cs) k = (if pe_shard_ordinal c = k then Inr c else find_entry cs k)"

definition receipt_entry :: "ShardedReceipt \<Rightarrow> int \<Rightarrow> ShardPlacementEntry result" where
  "receipt_entry r k = find_entry (rc_entries r) k"

section \<open>The neutral receipt\<close>

text \<open>The per-entry part of \<open>validate_sharded_receipt\<close>: the first offending entry raises.\<close>

fun validate_entries :: "int \<Rightarrow> ShardPlacementEntry list \<Rightarrow> unit result" where
  "validate_entries nbytes [] = Inr ()"
| "validate_entries nbytes (e # es) =
     and_then (raise_if (pe_byte_length e \<noteq> nbytes)
       (ValueError ''placement receipt shards must be equal-sized''))
    (and_then (raise_if (pe_byte_length e \<le> 0)
       (ValueError ''placement receipt shard byte_length must be positive''))
    (and_then (raise_if (\<not> pe_is_device_addressable e)
       (ValueError ''shard is not device addressable''))
    (validate_entries nbytes es)))"

definition validate_sharded_receipt ::
  "ShardedReceipt \<Rightarrow> pyobj \<Rightarrow> int \<Rightarrow> unit result" where
  "validate_sharded_receipt r num_shards nbytes =
     rbind (require_exact_int ''num_shards'' num_shards) (\<lambda>n.
     and_then (raise_if (n \<le> 0)
       (ValueError ''placement receipt must describe at least one shard''))
    (and_then (raise_if (int (length (rc_entries r)) \<noteq> n)
       (ValueError ''placement receipt must contain one entry per shard''))
    (and_then (raise_if (set (map pe_shard_ordinal (rc_entries r)) \<noteq> set [0..n - 1])
       (ValueError ''placement receipt shard ordinals must be exactly 0..N-1''))
    (and_then (raise_if (int (length (remdups (map pe_core_id (rc_entries r)))) \<noteq> n)
       (ValueError ''placement receipt must bind one core per shard''))
    (and_then (validate_entries nbytes (rc_entries r))
    (raise_if (rc_total_bytes r < nbytes * n)
       (ValueError ''placement receipt total must cover the requested bytes'')))))))"

section \<open>Planning equal shards\<close>

definition require_shard_count :: "pyobj \<Rightarrow> int result" where
  "require_shard_count v =
     rbind (require_exact_int ''num_shards'' v) (\<lambda>n.
     and_then (raise_if (n \<notin> set SUPPORTED_SHARD_COUNTS)
       (ValueError ''num_shards must be 8 or 16''))
     (Inr n))"

text \<open>
  The PyTorch helper: \<open>None\<close> when \<open>Shard\<close> has no callable of that name; a call may raise
  (\<open>Inl\<close>) or return any value.
\<close>

type_synonym shard_helper = "(int \<Rightarrow> int \<Rightarrow> int \<Rightarrow> pyobj result) option"

definition require_supported_helper ::
  "shard_helper \<Rightarrow> (int \<Rightarrow> int \<Rightarrow> int \<Rightarrow> pyobj result) result" where
  "require_supported_helper h = (case h of
     None \<Rightarrow> Inl (ShardPlanningUnavailableError
       ''PyTorch Shard.local_shard_size_and_offset is unavailable'')
   | Some f \<Rightarrow> Inr f)"

fun placement_dim :: "pyobj \<Rightarrow> pyobj result" where
  "placement_dim (PyShard d) = Inr d"
| "placement_dim _ =
     Inl (TypeError ''placement must be exactly torch.distributed.tensor.Shard'')"

fun shard_dim_int :: "pyobj \<Rightarrow> int result" where
  "shard_dim_int (PyInt d) = Inr d"
| "shard_dim_int _ = Inl (TypeError ''Shard.dim must be a concrete int'')"

text \<open>Unpacking of the helper's value into extent and offset.\<close>

definition unpack_geometry :: "pyobj result \<Rightarrow> (int \<times> int) result" where
  "unpack_geometry res = (case res of
     Inl _ \<Rightarrow> Inl (ShardPlanningUnavailableError ''PyTorch shard range helper failed'')
   | Inr v \<Rightarrow>
       (case v of
          PyTuple xs \<Rightarrow>
            if length xs \<noteq> 2 then Inl (ShardPlanningUnavailableError
              ''PyTorch shard range helper returned an incompatible result'')
            else (case (xs ! 0, xs ! 1) of
              (PyInt e, PyInt off) \<Rightarrow> Inr (e, off)
            | _ \<Rightarrow> Inl (ShardPlanningUnavailableError
                ''PyTorch shard range helper returned non-concrete geometry''))
        | _ \<Rightarrow> Inl (ShardPlanningUnavailableError
              ''PyTorch shard range helper returned an incompatible result'')))"

definition check_geometry :: "int \<Rightarrow> int \<Rightarrow> int \<Rightarrow> unit result" where
  "check_geometry global_extent e off =
     and_then (raise_if (e < 0 \<or> off < 0) (ShardPlanningUnavailableError
       ''PyTorch shard range helper returned negative geometry''))
    (and_then (raise_if (off > global_extent \<or> e > global_extent)
       (ShardPlanningUnavailableError
       ''PyTorch shard range helper returned out-of-range geometry''))
    (raise_if (off + e > global_extent) (ShardPlanningUnavailableError
       ''PyTorch shard range helper returned a range past the global extent'')))"

definition compute_shard_range ::
  "shard_helper \<Rightarrow> pyobj \<Rightarrow> pyobj \<Rightarrow> pyobj \<Rightarrow> pyobj \<Rightarrow> pyobj \<Rightarrow> ShardRange result" where
  "compute_shard_range h placement tensor_rank global_extent shard_count shard_ordinal =
     rbind (placement_dim placement) (\<lambda>dim.
     rbind (require_exact_int ''tensor_rank'' tensor_rank) (\<lambda>rank.
     rbind (require_exact_int ''global_extent'' global_extent) (\<lambda>ext.
     rbind (require_exact_int ''shard_count'' shard_count) (\<lambda>count.
     rbind (require_exact_int ''shard_ordinal'' shard_ordinal) (\<lambda>ordinal.
     and_then (raise_if (rank \<le> 0) (ValueError ''tensor_rank must be positive''))
    (and_then (raise_if (ext < 0) (ValueError ''global_extent must be nonnegative''))
    (and_then (raise_if (count \<le> 0) (ValueError ''shard_count must be positive''))
    (and_then (raise_if (\<not> (0 \<le> ordinal \<and> ordinal < count))
       (ValueError ''shard_ordinal must be within shard_count''))
    (rbind (shard_dim_int dim) (\<lambda>d.
     and_then (raise_if (\<not> (- rank \<le> d \<and> d < rank))
       (ValueError ''Shard.dim is outside the tensor rank''))
    (rbind (require_supported_helper h) (\<lambda>helper.
     rbind (unpack_geometry (helper ext count ordinal)) (\<lambda>(logical_extent, logical_offset).
     and_then (check_geometry ext logical_extent logical_offset)
     (Inr \<lparr>sr_shard_ordinal = ordinal, sr_tensor_dim = d mod rank,
           sr_logical_offset = logical_offset,
           sr_logical_extent = logical_extent\<rparr>))))))))))))))"

fun as_sequence :: "pyobj \<Rightarrow> pyobj list result" where
  "as_sequence (PyTuple xs) = Inr xs"
| "as_sequence (PyList xs) = Inr xs"
| "as_sequence (PyStr s) = Inr (map (\<lambda>c. PyStr [c]) s)"
| "as_sequence (PyDict kvs) = Inr (map (\<lambda>kv. PyStr (fst kv)) kvs)"
| "as_sequence _ = Inl (TypeError ''global_shape must be a concrete sequence'')"

fun check_extents :: "pyobj list \<Rightarrow> int list result" where
  "check_extents [] = Inr []"
| "check_extents (PyInt e # es) =
     and_then (raise_if (e \<le> 0) (ValueError ''global_shape entries must be positive''))
     (rbind (check_extents es) (\<lambda>ys. Inr (e # ys)))"
| "check_extents (_ # es) = Inl (TypeError ''global_shape entries must be concrete ints'')"

fun check_ranges :: "int \<Rightarrow> int \<Rightarrow> int \<Rightarrow> ShardRange list \<Rightarrow> int result" where
  "check_ranges tdim expected_extent expected_offset [] = Inr expected_offset"
| "check_ranges tdim expected_extent expected_offset (r # rs) =
     and_then (raise_if (sr_tensor_dim r \<noteq> tdim)
       (ValueError ''shard dimensions are inconsistent''))
    (and_then (raise_if (sr_logical_extent r \<noteq> expected_extent)
       (ValueError ''shards must be equal''))
    (and_then (raise_if (sr_logical_offset r \<noteq> expected_offset)
       (ValueError ''shards must be ordered and gap-free''))
    (check_ranges tdim expected_extent (expected_offset + sr_logical_extent r) rs)))"

definition plan_equal_shards ::
  "shard_helper \<Rightarrow> pyobj \<Rightarrow> pyobj \<Rightarrow> pyobj \<Rightarrow> ShardRange list result" where
  "plan_equal_shards h global_shape placement shard_count =
     rbind (as_sequence global_shape) (\<lambda>entries.
     and_then (raise_if (entries = []) (ValueError ''scalar shapes are not supported''))
    (rbind (check_extents entries) (\<lambda>shape.
     rbind (placement_dim placement) (\<lambda>dimobj.
     rbind (shard_dim_int dimobj) (\<lambda>dim.
     let rank = int (length shape);
         normalized_dim = dim mod rank;
         extent = shape ! nat normalized_dim in
     rbind (require_shard_count shard_count) (\<lambda>count.
     rbind (traverse (\<lambda>k. compute_shard_range h placement (PyInt rank) (PyInt extent)
                (PyInt count) (PyInt k)) [0..count - 1]) (\<lambda>ranges.
     let expected_extent = sr_logical_extent (hd ranges) in
     and_then (raise_if (expected_extent \<le> 0) (ValueError ''shards must be non-empty''))
    (rbind (check_ranges normalized_dim expected_extent 0 ranges) (\<lambda>covered.
     and_then (raise_if (covered \<noteq> extent)
       (ValueError ''shards must cover the global extent exactly''))
    (Inr ranges))))))))))"

record SpyreShardingSpec =
  sp_placement :: pyobj
  sp_num_shards :: int

definition SpyreShardingSpec_post_init :: "pyobj \<Rightarrow> pyobj \<Rightarrow> SpyreShardingSpec result" where
  "SpyreShardingSpec_post_init placement num_shards =
     rbind (placement_dim placement) (\<lambda>_.
     rbind (require_shard_count num_shards) (\<lambda>n.
     Inr \<lparr>sp_placement = placement, sp_num_shards = n\<rparr>))"

definition spec_plan ::
  "shard_helper \<Rightarrow> SpyreShardingSpec \<Rightarrow> pyobj \<Rightarrow> ShardRange list result" where
  "spec_plan h spec global_shape =
     plan_equal_shards h global_shape (sp_placement spec) (PyInt (sp_num_shards spec))"

definition spec_bindings ::
  "shard_helper \<Rightarrow> SpyreShardingSpec \<Rightarrow> pyobj \<Rightarrow> ShardChunkBinding list result" where
  "spec_bindings h spec global_shape =
     rbind (spec_plan h spec global_shape) (\<lambda>ranges.
     Inr (map (\<lambda>r. \<lparr>cb_shard_range = r, cb_placement_slot_id = sr_shard_ordinal r,
                     cb_core_id = sr_shard_ordinal r\<rparr>) ranges))"

section \<open>The native placement adapter\<close>

definition SUPPORTED_LOGICAL_CHUNK_COUNTS :: "int list" where
  "SUPPORTED_LOGICAL_CHUNK_COUNTS = [8, 16]"

definition DISPATCHABLE_TENSOR_SEGMENTS :: "int list" where
  "DISPATCHABLE_TENSOR_SEGMENTS = [1, 2, 3, 4, 5, 6]"

definition DEVICE_ALIGNMENT_BYTES :: int where
  "DEVICE_ALIGNMENT_BYTES = 128"

fun require_exact_bool :: "string \<Rightarrow> pyobj \<Rightarrow> bool result" where
  "require_exact_bool name (PyBool b) = Inr b"
| "require_exact_bool name _ = Inl (TypeError (name @ '' must be a concrete bool''))"

definition field_of :: "(string \<times> pyobj) list \<Rightarrow> string \<Rightarrow> pyobj result" where
  "field_of rec name = (case map_of rec name of
     Some v \<Rightarrow> Inr v
   | None \<Rightarrow> Inl (ValueError (''chunk is missing '' @ name)))"

definition integer_field :: "(string \<times> pyobj) list \<Rightarrow> string \<Rightarrow> int result" where
  "integer_field rec name = rbind (field_of rec name) (require_exact_int name)"

definition require_logical_chunk_count :: "pyobj \<Rightarrow> int result" where
  "require_logical_chunk_count v =
     rbind (require_exact_int ''logical_chunks'' v) (\<lambda>n.
     and_then (raise_if (n \<notin> set SUPPORTED_LOGICAL_CHUNK_COUNTS)
       (ValueError ''segment emulation supports 8 or 16 logical chunks''))
     (Inr n))"

fun native_sequence :: "pyobj \<Rightarrow> pyobj list result" where
  "native_sequence (PyTuple xs) = Inr xs"
| "native_sequence (PyList xs) = Inr xs"
| "native_sequence _ = Inl (TypeError ''native chunks must be a concrete sequence'')"

fun as_mapping :: "pyobj \<Rightarrow> (string \<times> pyobj) list result" where
  "as_mapping (PyDict kvs) = Inr kvs"
| "as_mapping _ = Inl (TypeError ''segment-emulated chunks must be mappings'')"

definition native_ordinal :: "pyobj \<Rightarrow> int result" where
  "native_ordinal native =
     rbind (as_mapping native) (\<lambda>rec. integer_field rec ''logical_chunk_id'')"

text \<open>The fields of one native record, read in the order the code reads them.\<close>

record native_chunk =
  nc_logical_chunk_id :: int
  nc_logical_core_id :: int
  nc_physical_domain_id :: int
  nc_region_id :: int
  nc_segment_id :: int
  nc_segment_offset_bytes :: int
  nc_size_bytes :: int
  nc_is_device_addressable :: bool

definition read_chunk :: "pyobj \<Rightarrow> native_chunk result" where
  "read_chunk native =
     rbind (as_mapping native) (\<lambda>rec.
     rbind (integer_field rec ''logical_chunk_id'') (\<lambda>cid.
     rbind (integer_field rec ''logical_core_id'') (\<lambda>core.
     rbind (integer_field rec ''physical_domain_id'') (\<lambda>domain.
     rbind (integer_field rec ''region_id'') (\<lambda>region.
     rbind (integer_field rec ''segment_id'') (\<lambda>segment.
     rbind (integer_field rec ''segment_offset_bytes'') (\<lambda>off.
     rbind (integer_field rec ''size_bytes'') (\<lambda>nbytes.
     rbind (rbind (field_of rec ''is_device_addressable'')
              (require_exact_bool ''is_device_addressable'')) (\<lambda>addressable.
     Inr \<lparr>nc_logical_chunk_id = cid, nc_logical_core_id = core,
          nc_physical_domain_id = domain, nc_region_id = region,
          nc_segment_id = segment, nc_segment_offset_bytes = off,
          nc_size_bytes = nbytes, nc_is_device_addressable = addressable\<rparr>)))))))))"

definition check_chunk :: "int \<Rightarrow> native_chunk \<Rightarrow> unit result" where
  "check_chunk shard_device_bytes c =
     and_then (raise_if (nc_logical_core_id c \<noteq> nc_logical_chunk_id c)
       (ValueError ''logical core ID must equal logical chunk ID''))
    (and_then (raise_if (\<not> nc_is_device_addressable c)
       (ValueError ''chunk is not device addressable''))
    (and_then (raise_if (nc_segment_id c \<notin> set DISPATCHABLE_TENSOR_SEGMENTS)
       (ValueError ''chunk is not in a dispatchable Tensor segment''))
    (and_then (raise_if (nc_size_bytes c \<le> 0 \<or> nc_size_bytes c \<noteq> shard_device_bytes)
       (ValueError ''segment-emulated chunks must be equal-sized''))
    (and_then (raise_if (nc_size_bytes c mod DEVICE_ALIGNMENT_BYTES \<noteq> 0)
       (ValueError ''chunk size is not device aligned''))
    (and_then (raise_if (nc_segment_offset_bytes c < 0)
       (ValueError ''chunk has a negative segment offset''))
    (raise_if (nc_segment_offset_bytes c mod DEVICE_ALIGNMENT_BYTES \<noteq> 0)
       (ValueError ''chunk offset is not device aligned'')))))))"

text \<open>\<open>setdefault(segment, []).append(extent)\<close> on a dict that keeps insertion order.\<close>

type_synonym extent_map = "(int \<times> (int \<times> int) list) list"

fun add_extent :: "extent_map \<Rightarrow> int \<Rightarrow> int \<times> int \<Rightarrow> extent_map" where
  "add_extent [] s x = [(s, [x])]"
| "add_extent ((t, xs) # m) s x =
     (if t = s then (t, xs @ [x]) # m else (t, xs) # add_extent m s x)"

definition chunk_entry :: "native_chunk \<Rightarrow> ShardPlacementEntry" where
  "chunk_entry c =
     \<lparr>pe_shard_ordinal = nc_logical_chunk_id c, pe_core_id = nc_logical_core_id c,
      pe_byte_length = nc_size_bytes c,
      pe_is_device_addressable = nc_is_device_addressable c,
      pe_physical = [(''physical_domain_id'', nc_physical_domain_id c),
                     (''region_id'', nc_region_id c),
                     (''segment_id'', nc_segment_id c),
                     (''segment_offset_bytes'', nc_segment_offset_bytes c)]\<rparr>"

definition chunk_extent :: "native_chunk \<Rightarrow> int \<times> int" where
  "chunk_extent c =
     (nc_segment_offset_bytes c, nc_segment_offset_bytes c + nc_size_bytes c)"

fun build_entries ::
  "int \<Rightarrow> pyobj list \<Rightarrow> ShardPlacementEntry list \<Rightarrow> extent_map
   \<Rightarrow> (ShardPlacementEntry list \<times> extent_map) result" where
  "build_entries nbytes [] entries m = Inr (entries, m)"
| "build_entries nbytes (native # rest) entries m =
     rbind (read_chunk native) (\<lambda>c.
     and_then (check_chunk nbytes c)
     (build_entries nbytes rest (entries @ [chunk_entry c])
        (add_extent m (nc_segment_id c) (chunk_extent c))))"

text \<open>\<open>pairwise\<close> over the sorted extents of one segment.\<close>

fun pairwise_overlap :: "(int \<times> int) list \<Rightarrow> bool" where
  "pairwise_overlap (x # y # zs) = (fst y < snd x \<or> pairwise_overlap (y # zs))"
| "pairwise_overlap _ = False"

fun check_segments :: "extent_map \<Rightarrow> unit result" where
  "check_segments [] = Inr ()"
| "check_segments ((_, xs) # m) =
     and_then (raise_if (pairwise_overlap (sort xs))
       (ValueError ''chunks overlap within a physical segment''))
     (check_segments m)"

definition sharded_receipt_from_native ::
  "pyobj \<Rightarrow> pyobj \<Rightarrow> int \<Rightarrow> int \<Rightarrow> ShardedReceipt result" where
  "sharded_receipt_from_native native_chunks num_shards shard_device_bytes total_bytes =
     rbind (require_logical_chunk_count num_shards) (\<lambda>count.
     rbind (native_sequence native_chunks) (\<lambda>chunks.
     and_then (raise_if (int (length chunks) \<noteq> count)
       (ValueError ''receipt must contain exactly one record per logical chunk''))
    (rbind (traverse native_ordinal chunks) (\<lambda>ordinals.
     and_then (raise_if (set ordinals \<noteq> set [0..count - 1])
       (ValueError ''receipt logical chunk IDs must be exactly 0..N-1''))
    (rbind (build_entries shard_device_bytes chunks [] []) (\<lambda>(entries, extents_by_segment).
     and_then (check_segments extents_by_segment)
    (and_then (raise_if (total_bytes \<noteq> shard_device_bytes * count)
       (ValueError ''total_bytes must equal the sum of chunk sizes''))
    (let neutral = \<lparr>rc_num_shards = count, rc_shard_device_bytes = shard_device_bytes,
                    rc_total_bytes = total_bytes, rc_entries = entries\<rparr> in
     and_then (validate_sharded_receipt neutral num_shards shard_device_bytes)
     (Inr neutral)))))))))"

section \<open>The public transfer API\<close>

text \<open>
  What the validation reads of the host tensor.  \<open>ht_class\<close> separates an exact
  \<open>torch.Tensor\<close>, a \<open>torch.nn.Parameter\<close> and any other subclass; extents are \<open>pyobj\<close>
  because a traced tensor may carry symbolic ones.
\<close>

datatype tensor_class = PlainTensor | ParameterTensor | TensorSubclass

record host_tensor =
  ht_class :: tensor_class
  ht_device :: string
  ht_strided :: bool
  ht_shape :: "pyobj list"
  ht_dtype :: string
  ht_contiguous :: bool
  ht_storage_offset :: int
  ht_has_base :: bool
  ht_is_conj :: bool
  ht_is_neg :: bool
  ht_requires_grad :: bool
  ht_storage_nbytes :: int
  ht_numel :: int
  ht_element_size :: int

definition SUPPORTED_TRANSFER_DTYPES :: "string list" where
  "SUPPORTED_TRANSFER_DTYPES =
     [''bool'', ''bfloat16'', ''float16'', ''float32'', ''int32'', ''uint8'']"

fun positive_extent :: "pyobj \<Rightarrow> bool" where
  "positive_extent (PyInt e) = (0 < e)"
| "positive_extent _ = False"

text \<open>\<open>None\<close> is an object that is no tensor at all.\<close>

definition validate_host_transfer_source :: "host_tensor option \<Rightarrow> host_tensor result" where
  "validate_host_transfer_source source = (case source of
     None \<Rightarrow> Inl (TypeError ''source must be a torch.Tensor'')
   | Some s \<Rightarrow>
     and_then (raise_if (ht_class s \<noteq> PlainTensor \<and> ht_class s \<noteq> ParameterTensor)
       (TypeError ''source must be a torch.Tensor or torch.nn.Parameter''))
    (and_then (raise_if (ht_device s \<noteq> ''cpu'')
       (ValueError ''source must be a CPU tensor''))
    (and_then (raise_if (\<not> ht_strided s)
       (ValueError ''source must use strided layout''))
    (and_then (raise_if (length (ht_shape s) = 0)
       (ValueError ''source must not be scalar''))
    (and_then (raise_if (\<exists>e \<in> set (ht_shape s). \<not> positive_extent e)
       (ValueError ''source dimensions must be concrete and positive''))
    (and_then (raise_if (ht_dtype s \<notin> set SUPPORTED_TRANSFER_DTYPES)
       (TypeError ''source dtype is not supported by sharded transfer''))
    (and_then (raise_if (\<not> ht_contiguous s)
       (ValueError ''source must be contiguous''))
    (and_then (raise_if (ht_storage_offset s \<noteq> 0)
       (ValueError ''source must have zero storage offset''))
    (and_then (raise_if (ht_has_base s)
       (ValueError ''source must be a base-like tensor''))
    (and_then (raise_if (ht_is_conj s \<or> ht_is_neg s)
       (ValueError ''source must not carry conjugate or negative view state''))
    (and_then (raise_if (ht_requires_grad s)
       (ValueError ''source must not require gradients''))
    (and_then (raise_if (ht_storage_nbytes s \<noteq> ht_numel s * ht_element_size s)
       (ValueError ''source must use compact storage''))
    (Inr s)))))))))))))"

definition validate_core_match :: "int \<Rightarrow> int \<Rightarrow> unit result" where
  "validate_core_match active_cores num_shards =
     raise_if (num_shards \<noteq> active_cores)
       (ValueError ''to_sharded requires one active core per shard'')"

fun normalize_placement :: "pyobj \<Rightarrow> pyobj result" where
  "normalize_placement (PyList [p]) = Inr p"
| "normalize_placement (PyTuple [p]) = Inr p"
| "normalize_placement (PyList _) = Inl (TypeError ''placement must be a single Shard'')"
| "normalize_placement (PyTuple _) = Inl (TypeError ''placement must be a single Shard'')"
| "normalize_placement p = Inr p"

record ValidatedShardingRequest =
  vr_source :: host_tensor
  vr_spec :: SpyreShardingSpec
  vr_global_shape :: "pyobj list"

definition validate_sharding_request ::
  "shard_helper \<Rightarrow> int \<Rightarrow> host_tensor option \<Rightarrow> pyobj \<Rightarrow> pyobj
   \<Rightarrow> ValidatedShardingRequest result" where
  "validate_sharding_request h active_cores source placement num_shards =
     rbind (normalize_placement placement) (\<lambda>p.
     rbind (require_shard_count num_shards) (\<lambda>n.
     rbind (SpyreShardingSpec_post_init p (PyInt n)) (\<lambda>spec.
     and_then (validate_core_match active_cores (sp_num_shards spec))
    (rbind (validate_host_transfer_source source) (\<lambda>s.
     rbind (spec_plan h spec (PyTuple (ht_shape s))) (\<lambda>_.
     Inr \<lparr>vr_source = s, vr_spec = spec, vr_global_shape = ht_shape s\<rparr>))))))"

record ShardedTensorInfo =
  si_placement :: pyobj
  si_num_shards :: int
  si_shard_device_bytes :: int
  si_receipt :: ShardedReceipt

text \<open>
  The native backend: tensors are opaque handles, and \<open>_C\<close> allocates, reports and copies.
\<close>

record 't native_ops =
  is_initialized :: bool
  is_tensor :: "'t \<Rightarrow> bool"
  device_type :: "'t \<Rightarrow> string"
  spyre_is_sharded :: "'t \<Rightarrow> bool"
  spyre_sharding_info :: "'t \<Rightarrow> (string \<times> pyobj) list"
  spyre_empty_sharded :: "pyobj list \<Rightarrow> string \<Rightarrow> int \<Rightarrow> int \<Rightarrow> 't result"
  copy_tensor :: "host_tensor \<Rightarrow> 't \<Rightarrow> unit result"

datatype native_call = LazyInit | EmptySharded "pyobj list" string int int | CopyTensor

definition is_sharded :: "'t native_ops \<Rightarrow> 't \<Rightarrow> bool" where
  "is_sharded ops t =
     (is_tensor ops t \<and> device_type ops t = ''spyre'' \<and> spyre_is_sharded ops t)"

definition dict_item :: "(string \<times> pyobj) list \<Rightarrow> string \<Rightarrow> pyobj result" where
  "dict_item d key = (case map_of d key of Some v \<Rightarrow> Inr v | None \<Rightarrow> Inl KeyError)"

definition sharding_info :: "'t native_ops \<Rightarrow> 't \<Rightarrow> ShardedTensorInfo result" where
  "sharding_info ops t =
     and_then (raise_if (\<not> is_sharded ops t) (TypeError ''expected a sharded Spyre tensor''))
    (let native = spyre_sharding_info ops t in
     rbind (rbind (dict_item native ''shard_dim'') (require_exact_int ''shard_dim''))
       (\<lambda>shard_dim.
     rbind (rbind (dict_item native ''num_shards'') (require_exact_int ''num_shards''))
       (\<lambda>num_shards.
     rbind (rbind (dict_item native ''shard_device_bytes'')
              (require_exact_int ''shard_device_bytes'')) (\<lambda>nbytes.
     rbind (dict_item native ''chunks'') (\<lambda>chunks.
     rbind (rbind (dict_item native ''total_bytes'') (require_exact_int ''total_bytes''))
       (\<lambda>total.
     rbind (sharded_receipt_from_native chunks (PyInt num_shards) nbytes total) (\<lambda>receipt.
     Inr \<lparr>si_placement = PyShard (PyInt shard_dim), si_num_shards = num_shards,
          si_shard_device_bytes = nbytes, si_receipt = receipt\<rparr>)))))))"

text \<open>\<open>placement.dim % source.dim()\<close>; the request has been validated, so both are ints.\<close>

definition request_dim :: "ValidatedShardingRequest \<Rightarrow> int result" where
  "request_dim req =
     rbind (placement_dim (sp_placement (vr_spec req))) (\<lambda>dimobj.
     rbind (shard_dim_int dimobj) (\<lambda>d.
     Inr (d mod int (length (ht_shape (vr_source req))))))"

definition ensure_spyre_runtime_initialized :: "'t native_ops \<Rightarrow> native_call list" where
  "ensure_spyre_runtime_initialized ops = (if is_initialized ops then [] else [LazyInit])"

definition to_sharded ::
  "'t native_ops \<Rightarrow> shard_helper \<Rightarrow> int \<Rightarrow> host_tensor option \<Rightarrow> pyobj \<Rightarrow> pyobj
   \<Rightarrow> native_call list \<times> 't result" where
  "to_sharded ops h active_cores tensor placement num_shards =
    (let n = (if num_shards = PyNone then PyInt active_cores else num_shards) in
     case validate_sharding_request h active_cores tensor placement n of
       Inl e \<Rightarrow> ([], Inl e)
     | Inr req \<Rightarrow>
       (case request_dim req of
          Inl e \<Rightarrow> ([], Inl e)
        | Inr d \<Rightarrow>
          (let k = sp_num_shards (vr_spec req);
               dt = ht_dtype (vr_source req);
               tr = ensure_spyre_runtime_initialized ops @
                      [EmptySharded (vr_global_shape req) dt d k] in
           case spyre_empty_sharded ops (vr_global_shape req) dt d k of
             Inl e \<Rightarrow> (tr, Inl e)
           | Inr result \<Rightarrow>
             (case sharding_info ops result of
                Inl e \<Rightarrow> (tr, Inl e)
              | Inr _ \<Rightarrow>
                (case copy_tensor ops (vr_source req) result of
                   Inl e \<Rightarrow> (tr @ [CopyTensor], Inl e)
                 | Inr _ \<Rightarrow> (tr @ [CopyTensor], Inr result))))))"

section \<open>When a check passes\<close>

lemma require_exact_int_Inr: "require_exact_int name v = Inr n \<longleftrightarrow> v = PyInt n"
  by (cases v) auto

lemma require_exact_bool_Inr: "require_exact_bool name v = Inr b \<longleftrightarrow> v = PyBool b"
  by (cases v) auto

lemma placement_dim_Inr: "placement_dim p = Inr d \<longleftrightarrow> p = PyShard d"
  by (cases p) auto

lemma shard_dim_int_Inr: "shard_dim_int v = Inr d \<longleftrightarrow> v = PyInt d"
  by (cases v) auto

lemma require_shard_count_Inr:
  "require_shard_count v = Inr n \<longleftrightarrow> v = PyInt n \<and> (n = 8 \<or> n = 16)"
  by (auto simp: require_shard_count_def rbind_Inr require_exact_int_Inr
      SUPPORTED_SHARD_COUNTS_def)

lemma require_logical_chunk_count_Inr:
  "require_logical_chunk_count v = Inr n \<longleftrightarrow> v = PyInt n \<and> (n = 8 \<or> n = 16)"
  by (auto simp: require_logical_chunk_count_def rbind_Inr require_exact_int_Inr
      SUPPORTED_LOGICAL_CHUNK_COUNTS_def)

lemma check_extents_Inr:
  "check_extents xs = Inr ys \<longleftrightarrow> xs = map PyInt ys \<and> (\<forall>y \<in> set ys. 0 < y)"
proof (induction xs arbitrary: ys)
  case (Cons x xs)
  then show ?case by (cases x; cases ys) (auto simp: rbind_Inr)
qed auto

lemma native_sequence_Inr:
  "native_sequence v = Inr xs \<longleftrightarrow> v = PyTuple xs \<or> v = PyList xs"
  by (cases v) auto

lemma as_mapping_Inr: "as_mapping v = Inr kvs \<longleftrightarrow> v = PyDict kvs"
  by (cases v) auto

lemma integer_field_Inr: "integer_field rec name = Inr n \<longleftrightarrow> map_of rec name = Some (PyInt n)"
  by (auto simp: integer_field_def field_of_def rbind_Inr require_exact_int_Inr
      split: option.splits)

lemma check_geometry_Inr:
  "check_geometry ext e off = Inr () \<longleftrightarrow> 0 \<le> e \<and> 0 \<le> off \<and> off + e \<le> ext"
  by (auto simp: check_geometry_def)

lemma validate_entries_Inr:
  "validate_entries nbytes es = Inr () \<longleftrightarrow>
     (\<forall>e \<in> set es. pe_byte_length e = nbytes \<and> 0 < pe_byte_length e
        \<and> pe_is_device_addressable e)"
  by (induction es) (simp_all add: not_le conj_assoc)

lemmas check_Inr = require_exact_int_Inr require_exact_bool_Inr placement_dim_Inr
  shard_dim_int_Inr require_shard_count_Inr require_logical_chunk_count_Inr
  check_extents_Inr native_sequence_Inr as_mapping_Inr integer_field_Inr
  check_geometry_Inr validate_entries_Inr

section \<open>Planning\<close>

text \<open>
  The specification of a plan: shard \<open>k\<close> of \<open>n\<close> covers \<open>[k * e, (k + 1) * e)\<close> of dimension
  \<open>tdim\<close>.
\<close>

definition equal_ranges :: "int \<Rightarrow> int \<Rightarrow> int \<Rightarrow> ShardRange list" where
  "equal_ranges n tdim e = map (\<lambda>k. \<lparr>sr_shard_ordinal = k, sr_tensor_dim = tdim,
     sr_logical_offset = k * e, sr_logical_extent = e\<rparr>) [0..n - 1]"

lemma compute_shard_range_ordinal:
  assumes "compute_shard_range h p (PyInt rank) (PyInt ext) (PyInt n) (PyInt k) = Inr r"
  shows "sr_shard_ordinal r = k"
  using assms by (auto simp: compute_shard_range_def)

lemma check_ranges_Inr:
  "check_ranges tdim e off rs = Inr c \<longleftrightarrow>
     c = off + int (length rs) * e \<and>
     (\<forall>i < length rs. sr_tensor_dim (rs ! i) = tdim \<and> sr_logical_extent (rs ! i) = e
        \<and> sr_logical_offset (rs ! i) = off + int i * e)"
proof (induction rs arbitrary: off)
  case (Cons r rs)
  show ?case
    by (auto simp: Cons.IH All_less_Suc2 algebra_simps)
qed auto

lemma traverse_ordinals:
  assumes "traverse (\<lambda>k. compute_shard_range h p (PyInt rank) (PyInt ext) (PyInt n) (PyInt k))
             [0..n - 1] = Inr rs"
  shows "length rs = nat n" and "\<And>i. i < nat n \<Longrightarrow> sr_shard_ordinal (rs ! i) = int i"
proof -
  have all2: "list_all2 (\<lambda>k r. compute_shard_range h p (PyInt rank) (PyInt ext) (PyInt n)
      (PyInt k) = Inr r) [0..n - 1] rs"
    using assms by (simp add: traverse_Inr)
  then show len: "length rs = nat n" by (auto dest: list_all2_lengthD)
  fix i assume i: "i < nat n"
  then have "compute_shard_range h p (PyInt rank) (PyInt ext) (PyInt n)
      (PyInt ([0..n - 1] ! i)) = Inr (rs ! i)"
    using all2 len by (simp add: list_all2_conv_all_nth)
  then show "sr_shard_ordinal (rs ! i) = int i"
    using compute_shard_range_ordinal i by (simp add: nth_upto)
qed

lemma equal_ranges_eqI:
  assumes "length rs = nat n"
    and "\<And>i. i < nat n \<Longrightarrow> sr_shard_ordinal (rs ! i) = int i"
    and "\<And>i. i < nat n \<Longrightarrow> sr_tensor_dim (rs ! i) = tdim \<and> sr_logical_extent (rs ! i) = e
           \<and> sr_logical_offset (rs ! i) = int i * e"
  shows "rs = equal_ranges n tdim e"
proof (rule nth_equalityI)
  show "length rs = length (equal_ranges n tdim e)" using assms(1) by (simp add: equal_ranges_def)
  fix i assume "i < length rs"
  then have "i < nat n" using assms(1) by simp
  then show "rs ! i = equal_ranges n tdim e ! i"
    using assms(2,3) by (simp add: equal_ranges_def nth_upto)
qed

text \<open>The plan that is admitted is the specified one, whatever the helper returns.\<close>

lemma plan_equal_shards_Inr:
  assumes "plan_equal_shards h gs p c = Inr ranges"
  obtains shape d n e where
    "as_sequence gs = Inr (map PyInt shape)" "shape \<noteq> []" "\<forall>x \<in> set shape. 0 < x"
    "p = PyShard (PyInt d)" "c = PyInt n" "n = 8 \<or> n = 16" "0 < e"
    "n * e = shape ! nat (d mod int (length shape))"
    "ranges = equal_ranges n (d mod int (length shape)) e"
proof -
  note ok = assms [unfolded plan_equal_shards_def Let_def]
  obtain entries where entries: "as_sequence gs = Inr entries"
    using ok by (cases "as_sequence gs") simp_all
  obtain shape where "check_extents entries = Inr shape"
    using ok entries by (cases "check_extents entries") simp_all
  then have shape: "entries = map PyInt shape" "\<forall>x \<in> set shape. 0 < x"
    "check_extents (map PyInt shape) = Inr shape"
    by (simp_all add: check_extents_Inr)
  obtain dimobj where p: "p = PyShard dimobj"
    using ok entries shape by (cases p) simp_all
  obtain d where d: "dimobj = PyInt d"
    using ok entries shape p by (cases dimobj) simp_all
  obtain n where n: "require_shard_count c = Inr n"
    using ok entries shape p d by (cases "require_shard_count c") simp_all
  then have c: "c = PyInt n" "n = 8 \<or> n = 16" by (simp_all add: require_shard_count_Inr)
  let ?len = "int (length shape)"
  let ?ext = "shape ! nat (d mod ?len)"
  let ?tr = "traverse (\<lambda>k. compute_shard_range h p (PyInt ?len) (PyInt ?ext) (PyInt n) (PyInt k))
    [0..n - 1]"
  obtain rs where tr: "?tr = Inr rs"
    using ok entries shape p d n by (cases "?tr") simp_all
  define e where "e = sr_logical_extent (hd rs)"
  obtain covered where cov: "check_ranges (d mod ?len) e 0 rs = Inr covered"
    using ok entries shape p d n tr e_def
    by (cases "check_ranges (d mod ?len) e 0 rs") simp_all
  have "shape \<noteq> [] \<and> 0 < sr_logical_extent (hd rs) \<and> covered = ?ext \<and> rs = ranges"
    using ok entries shape p d n tr cov [unfolded e_def] by (auto simp: not_le)
  then have rest: "shape \<noteq> []" "0 < e" "covered = ?ext" "ranges = rs"
    unfolding e_def by blast+
  note tro = traverse_ordinals [OF tr]
  have "n * e = ?ext"
    using cov rest(3) c(2) unfolding check_ranges_Inr tro(1) by auto
  moreover have "ranges = equal_ranges n (d mod ?len) e"
    using tro cov rest(4) by (intro equal_ranges_eqI) (auto simp: check_ranges_Inr)
  ultimately show thesis
    using that [of shape d n e] entries shape p d c rest by simp
qed

text \<open>
  What the planner relies on in PyTorch's helper, as its documentation has it: an extent that
  the shard count divides is cut into equal consecutive chunks.
\<close>

definition chunks_evenly :: "shard_helper \<Rightarrow> bool" where
  "chunks_evenly h \<longleftrightarrow> (\<exists>f. h = Some f \<and> (\<forall>ext n k. 0 \<le> k \<and> k < n \<and> 0 \<le> ext \<and> n dvd ext \<longrightarrow>
     f ext n k = Inr (PyTuple [PyInt (ext div n), PyInt (k * (ext div n))])))"

lemma compute_shard_range_even:
  assumes h: "chunks_evenly h" and dvd: "n dvd ext" and ext: "0 \<le> ext"
    and rank: "0 < rank" and d: "- rank \<le> d" "d < rank" and k: "0 \<le> k" "k < n"
  shows "compute_shard_range h (PyShard (PyInt d)) (PyInt rank) (PyInt ext) (PyInt n) (PyInt k)
    = Inr \<lparr>sr_shard_ordinal = k, sr_tensor_dim = d mod rank,
           sr_logical_offset = k * (ext div n), sr_logical_extent = ext div n\<rparr>"
proof -
  obtain f where f: "h = Some f"
    "f ext n k = Inr (PyTuple [PyInt (ext div n), PyInt (k * (ext div n))])"
    using h k ext dvd unfolding chunks_evenly_def by blast
  obtain q where q: "ext = n * q" using dvd by blast
  have n: "0 < n" using k by linarith
  have "0 \<le> q" using q ext n by (simp add: zero_le_mult_iff)
  have "q + k * q = (k + 1) * q" by (simp add: algebra_simps)
  also have "\<dots> \<le> n * q" using k \<open>0 \<le> q\<close> by (intro mult_right_mono) simp_all
  finally have geo: "check_geometry ext q (k * q) = Inr ()"
    using \<open>0 \<le> q\<close> k q by (simp add: check_geometry_Inr algebra_simps)
  have "ext div n = q" using q n by simp
  then show ?thesis
    using assms f geo n by (simp add: compute_shard_range_def rbind_Inr check_Inr
        require_supported_helper_def unpack_geometry_def)
qed

lemma traverse_upto:
  assumes "\<And>k. a \<le> k \<Longrightarrow> k \<le> b \<Longrightarrow> f k = Inr (g k)"
  shows "traverse f [a..b] = Inr (map g [a..b])"
  using assms by (simp add: traverse_Inr list_all2_conv_all_nth nth_upto)

lemma plan_equal_shards_even:
  assumes h: "chunks_evenly h" and shape: "shape \<noteq> []" "\<forall>x \<in> set shape. 0 < x"
    and d: "- int (length shape) \<le> d" "d < int (length shape)" and n: "n = 8 \<or> n = 16"
    and dvd: "n dvd shape ! nat (d mod int (length shape))"
  shows "plan_equal_shards h (PyTuple (map PyInt shape)) (PyShard (PyInt d)) (PyInt n)
    = Inr (equal_ranges n (d mod int (length shape))
             (shape ! nat (d mod int (length shape)) div n))"
proof -
  let ?len = "int (length shape)"
  let ?nd = "d mod ?len"
  let ?ext = "shape ! nat ?nd"
  have "nat ?nd < length shape" using shape(1) by (simp add: nat_less_iff)
  then have ext: "0 < ?ext" using shape(2) nth_mem by blast
  define e where "e = ?ext div n"
  have ne: "n * e = ?ext" using dvd by (simp add: e_def)
  then have e: "0 < e" using ext n by (auto simp: zero_less_mult_iff)
  have tr: "traverse (\<lambda>k. compute_shard_range h (PyShard (PyInt d)) (PyInt ?len) (PyInt ?ext)
      (PyInt n) (PyInt k)) [0..n - 1] = Inr (equal_ranges n ?nd e)"
    unfolding equal_ranges_def e_def
    using compute_shard_range_even [OF h dvd] ext shape(1) d by (intro traverse_upto) simp
  have len: "length (equal_ranges n ?nd e) = nat n" by (simp add: equal_ranges_def)
  have nth: "equal_ranges n ?nd e ! i = \<lparr>sr_shard_ordinal = int i, sr_tensor_dim = ?nd,
      sr_logical_offset = int i * e, sr_logical_extent = e\<rparr>" if "i < nat n" for i
    using that by (simp add: equal_ranges_def nth_upto)
  have hd: "sr_logical_extent (hd (equal_ranges n ?nd e)) = e"
    using n nth [of 0] len by (subst hd_conv_nth) auto
  have cr: "check_ranges ?nd e 0 (equal_ranges n ?nd e) = Inr ?ext"
    using len nth ne n by (auto simp: check_ranges_Inr)
  have "check_extents (map PyInt shape) = Inr shape" "require_shard_count (PyInt n) = Inr n"
    using shape(2) n by (simp_all add: check_extents_Inr require_shard_count_Inr)
  then show ?thesis
    using shape(1) tr hd cr e by (simp add: plan_equal_shards_def Let_def flip: e_def)
qed

section \<open>Receipts\<close>

lemma validate_sharded_receipt_Inr:
  "validate_sharded_receipt r v nbytes = Inr () \<longleftrightarrow>
     (\<exists>n. v = PyInt n \<and> 0 < n \<and> int (length (rc_entries r)) = n
        \<and> pe_shard_ordinal ` set (rc_entries r) = {0..n - 1}
        \<and> int (length (remdups (map pe_core_id (rc_entries r)))) = n
        \<and> (\<forall>e \<in> set (rc_entries r). pe_byte_length e = nbytes \<and> 0 < pe_byte_length e
             \<and> pe_is_device_addressable e)
        \<and> nbytes * n \<le> rc_total_bytes r)"
  by (simp add: validate_sharded_receipt_def rbind_Inr check_Inr not_le not_less)

text \<open>As many entries as ordinals, so no ordinal is bound twice; likewise the cores.\<close>

lemma distinct_of_image_card:
  assumes "f ` set xs = {0..int (length xs) - 1}"
  shows "distinct (map f xs)"
  using assms by (intro card_distinct) simp

lemma validated_distinct:
  assumes "validate_sharded_receipt r v nbytes = Inr ()"
  shows "distinct (map pe_shard_ordinal (rc_entries r))"
    and "distinct (map pe_core_id (rc_entries r))"
proof -
  obtain n where len: "int (length (rc_entries r)) = n"
    and img: "pe_shard_ordinal ` set (rc_entries r) = {0..n - 1}"
    and cores: "int (length (remdups (map pe_core_id (rc_entries r)))) = n"
    using assms unfolding validate_sharded_receipt_Inr by blast
  show "distinct (map pe_shard_ordinal (rc_entries r))"
    using distinct_of_image_card img len by blast
  have "length (remdups (map pe_core_id (rc_entries r))) = length (map pe_core_id (rc_entries r))"
    using len cores by simp
  then show "distinct (map pe_core_id (rc_entries r))"
    by (simp only: length_remdups_eq remdups_id_iff_distinct)
qed

lemma find_entry_Inr:
  "find_entry es k = Inr e \<Longrightarrow> e \<in> set es \<and> pe_shard_ordinal e = k"
  by (induction es) (auto split: if_splits)

lemma find_entry_member:
  "distinct (map pe_shard_ordinal es) \<Longrightarrow> e \<in> set es \<Longrightarrow>
     find_entry es (pe_shard_ordinal e) = Inr e"
  by (induction es) (auto simp: rev_image_eqI)

lemma find_entry_KeyError:
  "find_entry es k = Inl err \<longleftrightarrow> err = KeyError \<and> k \<notin> pe_shard_ordinal ` set es"
  by (induction es) auto

text \<open>
  The contract between a backend and everything above it: a receipt that is returned has
  passed \<open>validate_sharded_receipt\<close> for the request it answers.
\<close>

locale placement_backend =
  fixes receipt_of :: "'n \<Rightarrow> pyobj \<Rightarrow> int \<Rightarrow> int \<Rightarrow> ShardedReceipt result"
  assumes honours:
    "receipt_of nat_rec v nbytes tot = Inr r \<Longrightarrow> validate_sharded_receipt r v nbytes = Inr ()"
begin

text \<open>Every shard of the request has exactly one entry, found by its ordinal.\<close>

lemma entry_iff:
  assumes "receipt_of nat_rec (PyInt n) nbytes tot = Inr r"
  shows "receipt_entry r k = Inr e \<longleftrightarrow> e \<in> set (rc_entries r) \<and> pe_shard_ordinal e = k"
  using validated_distinct(1) [OF honours [OF assms]] find_entry_member find_entry_Inr
  by (auto simp: receipt_entry_def)

lemma entry_total:
  assumes "receipt_of nat_rec (PyInt n) nbytes tot = Inr r"
  shows "(\<exists>e. receipt_entry r k = Inr e) \<longleftrightarrow> 0 \<le> k \<and> k < n"
proof -
  have "pe_shard_ordinal ` set (rc_entries r) = {0..n - 1}"
    using honours [OF assms] unfolding validate_sharded_receipt_Inr by blast
  then have "(0 \<le> k \<and> k < n) \<longleftrightarrow> k \<in> pe_shard_ordinal ` set (rc_entries r)" by auto
  then show ?thesis unfolding entry_iff [OF assms] by auto
qed

lemma entry_missing:
  assumes "receipt_of nat_rec (PyInt n) nbytes tot = Inr r" and "\<not> (0 \<le> k \<and> k < n)"
  shows "receipt_entry r k = Inl KeyError"
  using entry_total [OF assms(1), of k] assms(2) find_entry_KeyError
  by (cases "receipt_entry r k") (auto simp: receipt_entry_def)

text \<open>The shards' bytes fit into the total, and no core serves two shards.\<close>

lemma bytes_covered:
  assumes "receipt_of nat_rec (PyInt n) nbytes tot = Inr r"
  shows "(\<Sum>e \<leftarrow> rc_entries r. pe_byte_length e) \<le> rc_total_bytes r"
proof -
  have v: "int (length (rc_entries r)) = n" "nbytes * n \<le> rc_total_bytes r"
    "\<And>e. e \<in> set (rc_entries r) \<Longrightarrow> pe_byte_length e = nbytes"
    using honours [OF assms] unfolding validate_sharded_receipt_Inr by blast+
  have "(\<Sum>e \<leftarrow> rc_entries r. pe_byte_length e) = (\<Sum>e \<leftarrow> rc_entries r. nbytes)"
    using v(3) by (metis (mono_tags, lifting) map_eq_conv)
  then show ?thesis using v(1,2) by (simp add: sum_list_triv mult.commute)
qed

lemma core_injective:
  assumes "receipt_of nat_rec (PyInt n) nbytes tot = Inr r"
    and "receipt_entry r j = Inr a" "receipt_entry r k = Inr b" "pe_core_id a = pe_core_id b"
  shows "j = k"
proof -
  have "inj_on pe_core_id (set (rc_entries r))"
    using validated_distinct(2) [OF honours [OF assms(1)]] by (simp add: distinct_map)
  moreover have "a \<in> set (rc_entries r)" "b \<in> set (rc_entries r)"
    "pe_shard_ordinal a = j" "pe_shard_ordinal b = k"
    using entry_iff [OF assms(1)] assms(2,3) by blast+
  ultimately show ?thesis using assms(4) by (auto dest: inj_onD)
qed

end

subsection \<open>The segment-emulating backend\<close>

lemma build_entries_Inr:
  assumes "build_entries nbytes xs es m = Inr (es', m')"
  obtains cs where "list_all2 (\<lambda>x c. read_chunk x = Inr c) xs cs"
    "\<forall>c \<in> set cs. check_chunk nbytes c = Inr ()" "es' = es @ map chunk_entry cs"
    "m' = foldl (\<lambda>m c. add_extent m (nc_segment_id c) (chunk_extent c)) m cs"
proof -
  have "\<exists>cs. list_all2 (\<lambda>x c. read_chunk x = Inr c) xs cs
    \<and> (\<forall>c \<in> set cs. check_chunk nbytes c = Inr ()) \<and> es' = es @ map chunk_entry cs
    \<and> m' = foldl (\<lambda>m c. add_extent m (nc_segment_id c) (chunk_extent c)) m cs"
    using assms
  proof (induction xs arbitrary: es m)
    case (Cons x xs)
    then obtain c where c: "read_chunk x = Inr c" "check_chunk nbytes c = Inr ()"
      and rest: "build_entries nbytes xs (es @ [chunk_entry c])
        (add_extent m (nc_segment_id c) (chunk_extent c)) = Inr (es', m')"
      by auto
    obtain cs where "list_all2 (\<lambda>x c. read_chunk x = Inr c) xs cs
      \<and> (\<forall>c \<in> set cs. check_chunk nbytes c = Inr ())
      \<and> es' = (es @ [chunk_entry c]) @ map chunk_entry cs
      \<and> m' = foldl (\<lambda>m c. add_extent m (nc_segment_id c) (chunk_extent c))
               (add_extent m (nc_segment_id c) (chunk_extent c)) cs"
      using Cons.IH [OF rest] by blast
    then show ?case using c by (intro exI [of _ "c # cs"]) simp
  qed simp
  then show thesis using that by blast
qed

lemma map_of_add_extent:
  "map_of (add_extent m s x) t =
     (if t = s then Some ((case map_of m s of None \<Rightarrow> [] | Some xs \<Rightarrow> xs) @ [x]) else map_of m t)"
  by (induction m s x rule: add_extent.induct) auto

lemma map_of_fold_extents:
  "c \<in> set cs \<Longrightarrow> nc_segment_id c = s \<Longrightarrow>
   map_of (foldl (\<lambda>m c. add_extent m (nc_segment_id c) (chunk_extent c)) [] cs) s
     = Some (map chunk_extent (filter (\<lambda>c. nc_segment_id c = s) cs))"
proof (induction cs arbitrary: c rule: rev_induct)
  case (snoc x xs)
  let ?m = "foldl (\<lambda>m c. add_extent m (nc_segment_id c) (chunk_extent c)) [] xs"
  have none: "map_of ?m s = None" if "\<forall>c \<in> set xs. nc_segment_id c \<noteq> s"
    using that by (induction xs rule: rev_induct) (simp_all add: map_of_add_extent)
  show ?case
  proof (cases "\<exists>c \<in> set xs. nc_segment_id c = s")
    case True
    then show ?thesis using snoc.IH snoc.prems by (auto simp: map_of_add_extent)
  next
    case False
    then have "filter (\<lambda>c. nc_segment_id c = s) xs = []" by (simp add: filter_empty_conv)
    then show ?thesis using none False snoc.prems by (auto simp: map_of_add_extent)
  qed
qed simp

lemma check_segments_Inr:
  "check_segments m = Inr () \<longleftrightarrow> (\<forall>(s, xs) \<in> set m. \<not> pairwise_overlap (sort xs))"
  by (induction m rule: check_segments.induct) auto

text \<open>Neighbours of a sorted list of nonempty intervals that do not overlap: no two do.\<close>

lemma no_pairwise_overlap:
  assumes "\<not> pairwise_overlap xs" and "\<forall>x \<in> set xs. fst x < snd x"
  shows "sorted_wrt (\<lambda>x y. snd x \<le> fst y) xs"
  using assms
proof (induction xs rule: pairwise_overlap.induct)
  case (1 x y zs)
  have IH: "sorted_wrt (\<lambda>x y. snd x \<le> fst y) (y # zs)" using 1 by simp
  have xy: "snd x \<le> fst y" "fst y < snd y" using 1 by simp_all
  have "snd x \<le> fst z" if "z \<in> set zs" for z
    using IH that xy by (auto dest: order_trans)
  then show ?case using IH xy by simp
qed simp_all

lemma segment_extents_disjoint:
  assumes ov: "\<not> pairwise_overlap (sort (map chunk_extent cs))"
    and pos: "\<forall>c \<in> set cs. 0 < nc_size_bytes c"
    and dist: "distinct cs" and c: "a \<in> set cs" "b \<in> set cs" "a \<noteq> b"
  shows "ivl_disjoint (nc_segment_offset_bytes a) (nc_size_bytes a)
           (nc_segment_offset_bytes b) (nc_size_bytes b)"
proof -
  let ?xs = "sort (map chunk_extent cs)"
  have ne: "\<forall>x \<in> set ?xs. fst x < snd x" using pos by (auto simp: chunk_extent_def)
  have sw: "sorted_wrt (\<lambda>x y. snd x \<le> fst y) ?xs" using no_pairwise_overlap [OF ov ne] .
  have "distinct xs" if "sorted_wrt (\<lambda>x y. snd x \<le> fst y) xs" "\<forall>x \<in> set xs. fst x < snd x"
    for xs :: "(int \<times> int) list"
    using that by (induction xs) (auto simp: not_le [symmetric])
  then have "distinct (map chunk_extent cs)" using sw ne distinct_sort by blast
  then have "chunk_extent a \<noteq> chunk_extent b" using c by (auto simp: distinct_map inj_on_def)
  moreover have "chunk_extent a \<in> set ?xs" "chunk_extent b \<in> set ?xs" using c by simp_all
  ultimately show ?thesis
    using sorted_wrt_pair [OF sw] by (fastforce simp: chunk_extent_def interval_simps)
qed

lemma check_chunk_Inr:
  "check_chunk nbytes c = Inr () \<longleftrightarrow>
     nc_logical_core_id c = nc_logical_chunk_id c \<and> nc_is_device_addressable c
     \<and> nc_segment_id c \<in> {1, 2, 3, 4, 5, 6} \<and> 0 < nc_size_bytes c \<and> nc_size_bytes c = nbytes
     \<and> 128 dvd nc_size_bytes c \<and> 0 \<le> nc_segment_offset_bytes c
     \<and> 128 dvd nc_segment_offset_bytes c"
  by (auto simp: check_chunk_def DISPATCHABLE_TENSOR_SEGMENTS_def DEVICE_ALIGNMENT_BYTES_def)

lemma sharded_receipt_from_native_Inr:
  assumes "sharded_receipt_from_native chunks v nbytes tot = Inr r"
  obtains n cs where "v = PyInt n" "n = 8 \<or> n = 16" "rc_num_shards r = n"
    "rc_entries r = map chunk_entry cs" "tot = nbytes * n" "rc_total_bytes r = tot"
    "\<forall>c \<in> set cs. check_chunk nbytes c = Inr ()"
    "check_segments (foldl (\<lambda>m c. add_extent m (nc_segment_id c) (chunk_extent c)) [] cs) = Inr ()"
    "validate_sharded_receipt r v nbytes = Inr ()"
proof -
  from assms obtain n xs es m where
    n: "require_logical_chunk_count v = Inr n"
    and be: "build_entries nbytes xs [] [] = Inr (es, m)" and cs: "check_segments m = Inr ()"
    and tot: "tot = nbytes * n"
    and r: "r = \<lparr>rc_num_shards = n, rc_shard_device_bytes = nbytes,
                rc_total_bytes = tot, rc_entries = es\<rparr>"
    and val: "validate_sharded_receipt r v nbytes = Inr ()"
    unfolding sharded_receipt_from_native_def Let_def by auto
  obtain cs where "\<forall>c \<in> set cs. check_chunk nbytes c = Inr ()" "es = map chunk_entry cs"
    "m = foldl (\<lambda>m c. add_extent m (nc_segment_id c) (chunk_extent c)) [] cs"
    using build_entries_Inr [OF be] by auto
  then show thesis
    using that [of n cs] n r tot val cs by (simp add: require_logical_chunk_count_Inr)
qed

text \<open>The adapter honours the neutral contract.\<close>

interpretation flex: placement_backend sharded_receipt_from_native
proof
  fix chunks v nbytes tot r
  assume "sharded_receipt_from_native chunks v nbytes tot = Inr r"
  then show "validate_sharded_receipt r v nbytes = Inr ()"
    by (rule sharded_receipt_from_native_Inr)
qed

lemma chunk_entry_simps [simp]:
  "pe_shard_ordinal (chunk_entry c) = nc_logical_chunk_id c"
  "pe_core_id (chunk_entry c) = nc_logical_core_id c"
  "pe_byte_length (chunk_entry c) = nc_size_bytes c"
  "map_of (pe_physical (chunk_entry c)) ''segment_id'' = Some (nc_segment_id c)"
  "map_of (pe_physical (chunk_entry c)) ''segment_offset_bytes'' = Some (nc_segment_offset_bytes c)"
  by (simp_all add: chunk_entry_def)

lemma native_chunks_disjoint:
  assumes chk: "\<forall>c \<in> set cs. check_chunk nbytes c = Inr ()" and dist: "distinct cs"
    and seg: "check_segments
      (foldl (\<lambda>m c. add_extent m (nc_segment_id c) (chunk_extent c)) [] cs) = Inr ()"
    and ab: "a \<in> set cs" "b \<in> set cs" "a \<noteq> b" "nc_segment_id a = nc_segment_id b"
  shows "ivl_disjoint (nc_segment_offset_bytes a) (nc_size_bytes a)
           (nc_segment_offset_bytes b) (nc_size_bytes b)"
proof -
  let ?cs = "filter (\<lambda>c. nc_segment_id c = nc_segment_id a) cs"
  have "\<not> pairwise_overlap (sort (map chunk_extent ?cs))"
    using map_of_SomeD [OF map_of_fold_extents [OF ab(1) refl]] seg
    unfolding check_segments_Inr by blast
  moreover have "\<forall>c \<in> set ?cs. 0 < nc_size_bytes c"
  proof
    fix c assume "c \<in> set ?cs"
    then have "check_chunk nbytes c = Inr ()" using chk by simp
    then show "0 < nc_size_bytes c" by (simp add: check_chunk_Inr)
  qed
  ultimately show ?thesis
    using segment_extents_disjoint dist ab by simp
qed

section \<open>Properties\<close>

text \<open>A concrete helper, cutting into ceiling-sized chunks; the witnesses use it.\<close>

definition ceiling_helper :: "int \<Rightarrow> int \<Rightarrow> int \<Rightarrow> pyobj result" where
  "ceiling_helper ext n k = (let full = (ext + n - 1) div n; start = full * k in
     if ext < start then Inr (PyTuple [PyInt 0, PyInt ext])
     else Inr (PyTuple [PyInt (min ext (start + full) - start), PyInt start]))"

lemma chunks_evenly_ceiling_helper: "chunks_evenly (Some ceiling_helper)"
proof -
  have "ceiling_helper ext n k = Inr (PyTuple [PyInt (ext div n), PyInt (k * (ext div n))])"
    if h: "0 \<le> k" "k < n" "0 \<le> ext" "n dvd ext" for ext n k
  proof -
    obtain q where q: "ext = n * q" using h(4) by blast
    have n: "0 < n" using h by linarith
    have q0: "0 \<le> q" using q h(3) n by (simp add: zero_le_mult_iff)
    have "(n * q + (n - 1)) div n = q" using n by simp
    then have full: "(ext + n - 1) div n = q" using q by (simp add: algebra_simps)
    have "(k + 1) * q \<le> n * q" using h(2) q0 by (intro mult_right_mono) simp_all
    then have "q * k + q \<le> ext" using q by (simp add: algebra_simps)
    moreover have "ext div n = q" using q n by simp
    ultimately show ?thesis
      using full q0 by (simp add: ceiling_helper_def Let_def algebra_simps)
  qed
  then show ?thesis unfolding chunks_evenly_def by blast
qed

lemma plan_of_ints:
  assumes "plan_equal_shards h (PyTuple (map PyInt shape)) (PyShard (PyInt d)) (PyInt n)
             = Inr ranges"
  obtains e where "n = 8 \<or> n = 16" "0 < e" "n * e = shape ! nat (d mod int (length shape))"
    "ranges = equal_ranges n (d mod int (length shape)) e"
proof -
  from assms obtain shape' d' n' e where
    h: "as_sequence (PyTuple (map PyInt shape)) = Inr (map PyInt shape')"
      "PyShard (PyInt d) = PyShard (PyInt d')" "PyInt n = PyInt n'" "n' = 8 \<or> n' = 16" "0 < e"
      "n' * e = shape' ! nat (d' mod int (length shape'))"
      "ranges = equal_ranges n' (d' mod int (length shape')) e"
    by (rule plan_equal_shards_Inr)
  have "map PyInt shape = map PyInt shape'" using h(1) by simp
  then have "shape = shape'" by (rule map_injective) (simp add: inj_def)
  then show thesis using that [of e] h(2-7) by simp
qed

lemma equal_ranges_owner:
  assumes e: "0 < e" and x: "0 \<le> x" "x < n * e"
  shows "\<exists>!r. r \<in> set (equal_ranges n tdim e) \<and> sr_logical_offset r \<le> x
               \<and> x < sr_logical_offset r + sr_logical_extent r"
proof -
  define mk where "mk k = \<lparr>sr_shard_ordinal = k, sr_tensor_dim = tdim,
     sr_logical_offset = k * e, sr_logical_extent = e\<rparr>" for k
  have set_eq: "set (equal_ranges n tdim e) = mk ` {0..n - 1}"
    by (simp add: equal_ranges_def mk_def)
  have k: "0 \<le> x div e" "x div e < n"
    using x e div_less_of_less_mult by (simp_all add: pos_imp_zdiv_nonneg_iff)
  show ?thesis
  proof (rule ex1I [of _ "mk (x div e)"])
    show "mk (x div e) \<in> set (equal_ranges n tdim e) \<and> sr_logical_offset (mk (x div e)) \<le> x
      \<and> x < sr_logical_offset (mk (x div e)) + sr_logical_extent (mk (x div e))"
      using k mult_div_bounds [OF e, of x] unfolding set_eq by (simp add: mk_def)
  next
    fix r assume "r \<in> set (equal_ranges n tdim e) \<and> sr_logical_offset r \<le> x
      \<and> x < sr_logical_offset r + sr_logical_extent r"
    then obtain j where j: "r = mk j" "j * e \<le> x" "x < j * e + e"
      unfolding set_eq by (auto simp: mk_def)
    then show "r = mk (x div e)" using div_eq_block [OF e j(2,3)] by simp
  qed
qed

text \<open>
  C22. An admitted shard plan is a partition.  Whatever PyTorch's helper returns, if
  \<open>plan_equal_shards\<close> returns, there are exactly as many ranges as shards (8 or 16), shard
  \<open>k\<close> has ordinal \<open>k\<close>, all have the same positive extent, and every index of the sharded
  dimension lies in exactly one of them.
\<close>
theorem plan_equal_shards_partition:
  assumes "plan_equal_shards h (PyTuple (map PyInt shape)) (PyShard (PyInt d)) (PyInt n)
             = Inr ranges"
    and "0 \<le> x" and "x < shape ! nat (d mod int (length shape))"
  shows "n \<in> {8, 16} \<and> map sr_shard_ordinal ranges = [0..n - 1]
    \<and> (\<exists>e > 0. map sr_logical_extent ranges = replicate (nat n) e)
    \<and> (\<exists>!r. r \<in> set ranges \<and> sr_logical_offset r \<le> x
               \<and> x < sr_logical_offset r + sr_logical_extent r)"
proof -
  from assms(1) obtain e where n: "n = 8 \<or> n = 16" and e: "0 < e"
    and ext: "n * e = shape ! nat (d mod int (length shape))"
    and r: "ranges = equal_ranges n (d mod int (length shape)) e"
    by (rule plan_of_ints)
  have "map sr_shard_ordinal ranges = [0..n - 1]"
    "map sr_logical_extent ranges = replicate (nat n) e"
    by (simp_all add: r equal_ranges_def comp_def map_replicate_const)
  moreover have "\<exists>!r. r \<in> set ranges \<and> sr_logical_offset r \<le> x
      \<and> x < sr_logical_offset r + sr_logical_extent r"
    unfolding r using equal_ranges_owner [OF e assms(2)] assms(3) ext by simp
  ultimately show ?thesis using n e by blast
qed

theorem plan_equal_shards_partition_witness:
  "map sr_shard_ordinal (equal_ranges 8 1 2) = [0..7] \<and>
   (\<exists>!r. r \<in> set (equal_ranges 8 1 2) \<and> sr_logical_offset r \<le> 5
               \<and> 5 < sr_logical_offset r + sr_logical_extent r)"
  using plan_equal_shards_partition [of "Some ceiling_helper" "[3, 16]" "-1" 8
      "equal_ranges 8 1 2" 5]
    plan_equal_shards_even [OF chunks_evenly_ceiling_helper, of "[3, 16]" "-1" 8]
  by simp

text \<open>
  When a plan exists.  If the helper cuts a divisible extent evenly, as PyTorch documents,
  then for a positive shape, a dimension inside the rank and a supported count, planning
  succeeds exactly when the shard count divides the sharded dimension.
\<close>
lemma plan_succeeds_iff_divisible:
  assumes "chunks_evenly h" and "shape \<noteq> []" and "\<forall>x \<in> set shape. 0 < x"
    and "- int (length shape) \<le> d" and "d < int (length shape)" and "n = 8 \<or> n = 16"
  shows "(\<exists>ranges. plan_equal_shards h (PyTuple (map PyInt shape)) (PyShard (PyInt d)) (PyInt n)
            = Inr ranges) \<longleftrightarrow> n dvd shape ! nat (d mod int (length shape))"
proof
  assume "\<exists>ranges. plan_equal_shards h (PyTuple (map PyInt shape)) (PyShard (PyInt d)) (PyInt n)
    = Inr ranges"
  then obtain ranges e where "n * e = shape ! nat (d mod int (length shape))"
    by (auto elim!: plan_of_ints)
  then show "n dvd shape ! nat (d mod int (length shape))" by (metis dvd_triv_left)
next
  assume "n dvd shape ! nat (d mod int (length shape))"
  then show "\<exists>ranges. plan_equal_shards h (PyTuple (map PyInt shape)) (PyShard (PyInt d)) (PyInt n)
    = Inr ranges"
    using plan_equal_shards_even assms by blast
qed

lemma plan_succeeds_iff_divisible_example:
  "(\<exists>ranges. plan_equal_shards (Some ceiling_helper) (PyTuple (map PyInt [3, 16]))
      (PyShard (PyInt 1)) (PyInt 8) = Inr ranges)
   \<and> \<not> (\<exists>ranges. plan_equal_shards (Some ceiling_helper) (PyTuple (map PyInt [3, 20]))
      (PyShard (PyInt 1)) (PyInt 8) = Inr ranges)"
  using plan_succeeds_iff_divisible [OF chunks_evenly_ceiling_helper, of "[3, 16]" 1 8]
    plan_succeeds_iff_divisible [OF chunks_evenly_ceiling_helper, of "[3, 20]" 1 8]
  by simp

text \<open>Eight native records, two of them in segment 1; the witnesses use them.\<close>

definition sample_chunk :: "int \<Rightarrow> int \<Rightarrow> int \<Rightarrow> pyobj" where
  "sample_chunk k segment off = PyDict
     [(''logical_chunk_id'', PyInt k), (''logical_core_id'', PyInt k),
      (''physical_domain_id'', PyInt 0), (''region_id'', PyInt 7), (''segment_id'', PyInt segment),
      (''segment_offset_bytes'', PyInt off), (''size_bytes'', PyInt 256),
      (''is_device_addressable'', PyBool True)]"

definition sample_chunks :: pyobj where
  "sample_chunks = PyList [sample_chunk 0 1 256, sample_chunk 1 1 0, sample_chunk 2 2 0,
     sample_chunk 3 2 512, sample_chunk 4 3 0, sample_chunk 5 4 0, sample_chunk 6 5 0,
     sample_chunk 7 6 128]"

definition sample_entry :: "int \<Rightarrow> int \<Rightarrow> int \<Rightarrow> ShardPlacementEntry" where
  "sample_entry k segment off =
     \<lparr>pe_shard_ordinal = k, pe_core_id = k, pe_byte_length = 256, pe_is_device_addressable = True,
      pe_physical = [(''physical_domain_id'', 0), (''region_id'', 7), (''segment_id'', segment),
                     (''segment_offset_bytes'', off)]\<rparr>"

definition sample_receipt :: ShardedReceipt where
  "sample_receipt = \<lparr>rc_num_shards = 8, rc_shard_device_bytes = 256, rc_total_bytes = 2048,
     rc_entries = [sample_entry 0 1 256, sample_entry 1 1 0, sample_entry 2 2 0,
       sample_entry 3 2 512, sample_entry 4 3 0, sample_entry 5 4 0, sample_entry 6 5 0,
       sample_entry 7 6 128]\<rparr>"

lemma sample_receipt_built:
  "sharded_receipt_from_native sample_chunks (PyInt 8) 256 2048 = Inr sample_receipt"
  by code_simp

text \<open>
  C21. A receipt built from native records never lets two shards share memory: two entries of
  different shards in the same physical segment have disjoint, device-aligned,
  non-negative byte ranges.
\<close>
theorem native_receipt_disjoint:
  assumes "sharded_receipt_from_native chunks v nbytes tot = Inr r"
    and "a \<in> set (rc_entries r)" and "b \<in> set (rc_entries r)"
    and "pe_shard_ordinal a \<noteq> pe_shard_ordinal b"
    and "map_of (pe_physical a) ''segment_id'' = map_of (pe_physical b) ''segment_id''"
    and "map_of (pe_physical a) ''segment_offset_bytes'' = Some x"
    and "map_of (pe_physical b) ''segment_offset_bytes'' = Some y"
  shows "ivl_disjoint x (pe_byte_length a) y (pe_byte_length b) \<and> 0 \<le> x
    \<and> DEVICE_ALIGNMENT_BYTES dvd x \<and> DEVICE_ALIGNMENT_BYTES dvd pe_byte_length a"
proof -
  from assms(1) obtain cs where r: "rc_entries r = map chunk_entry cs"
    and chk: "\<forall>c \<in> set cs. check_chunk nbytes c = Inr ()"
    and seg: "check_segments (foldl (\<lambda>m c. add_extent m (nc_segment_id c) (chunk_extent c)) [] cs)
      = Inr ()"
    and val: "validate_sharded_receipt r v nbytes = Inr ()"
    by (rule sharded_receipt_from_native_Inr)
  obtain ca cb where c: "ca \<in> set cs" "a = chunk_entry ca" "cb \<in> set cs" "b = chunk_entry cb"
    using assms(2,3) r by auto
  have "distinct (map pe_shard_ordinal (rc_entries r))" by (rule validated_distinct [OF val])
  then have dist: "distinct cs" by (simp add: r distinct_map)
  have ne: "ca \<noteq> cb" using assms(4) c by auto
  have "nc_segment_id ca = nc_segment_id cb" using assms(5) c by simp
  then have "ivl_disjoint (nc_segment_offset_bytes ca) (nc_size_bytes ca)
      (nc_segment_offset_bytes cb) (nc_size_bytes cb)"
    using native_chunks_disjoint [OF chk dist seg c(1,3) ne] by simp
  moreover have "check_chunk nbytes ca = Inr ()" using chk c(1) by blast
  ultimately show ?thesis
    using assms(6,7) c by (auto simp: check_chunk_Inr DEVICE_ALIGNMENT_BYTES_def)
qed

theorem native_receipt_disjoint_witness:
  "ivl_disjoint 256 256 0 256 \<and> DEVICE_ALIGNMENT_BYTES dvd 256"
  using native_receipt_disjoint [OF sample_receipt_built,
      of "sample_entry 0 1 256" "sample_entry 1 1 0" 256 0]
  by (simp add: sample_receipt_def sample_entry_def)

text \<open>
  Looking up a shard in a receipt is the inverse of building it: \<open>entry(k)\<close> returns the
  one entry with ordinal \<open>k\<close> for every shard of the request and raises \<open>KeyError\<close> for every
  other ordinal; shard \<open>k\<close> is bound to core \<open>k\<close>, and the shards' bytes add up to the total.
\<close>
lemma receipt_lookup_roundtrip:
  assumes "sharded_receipt_from_native chunks (PyInt n) nbytes tot = Inr r"
  shows "(\<forall>k e. receipt_entry r k = Inr e \<longleftrightarrow> e \<in> set (rc_entries r) \<and> pe_shard_ordinal e = k)
    \<and> (\<forall>k. (\<exists>e. receipt_entry r k = Inr e \<and> pe_core_id e = k) \<longleftrightarrow> 0 \<le> k \<and> k < n)
    \<and> (\<forall>k. receipt_entry r k = Inl KeyError \<longleftrightarrow> \<not> (0 \<le> k \<and> k < n))
    \<and> (\<Sum>e \<leftarrow> rc_entries r. pe_byte_length e) = rc_total_bytes r"
proof -
  from assms obtain cs where r: "rc_entries r = map chunk_entry cs" "tot = nbytes * n"
      "rc_total_bytes r = tot"
    and chk: "\<forall>c \<in> set cs. check_chunk nbytes c = Inr ()"
    and val: "validate_sharded_receipt r (PyInt n) nbytes = Inr ()"
    by (rule sharded_receipt_from_native_Inr) auto
  have len: "int (length cs) = n"
    using val r(1) unfolding validate_sharded_receipt_Inr by auto
  have "map nc_size_bytes cs = map (\<lambda>c. nbytes) cs"
    using chk by (simp add: check_chunk_Inr)
  then have sizes: "sum_list (map nc_size_bytes cs) = n * nbytes"
    using len by (simp only: sum_list_triv of_int_of_nat_eq of_nat_id)
  have core: "pe_core_id e = pe_shard_ordinal e" if "e \<in> set (rc_entries r)" for e
    using that chk r(1) by (auto simp: check_chunk_Inr)
  have total: "(\<Sum>e \<leftarrow> rc_entries r. pe_byte_length e) = rc_total_bytes r"
    using r sizes by (simp add: comp_def)
  have iff: "receipt_entry r k = Inr e \<longleftrightarrow> e \<in> set (rc_entries r) \<and> pe_shard_ordinal e = k" for k e
    by (rule flex.entry_iff [OF assms])
  moreover have "(\<exists>e. receipt_entry r k = Inr e \<and> pe_core_id e = k) \<longleftrightarrow> 0 \<le> k \<and> k < n" for k
    using flex.entry_total [OF assms, of k] iff core by metis
  moreover have "receipt_entry r k = Inl KeyError \<longleftrightarrow> \<not> (0 \<le> k \<and> k < n)" for k
    using flex.entry_missing [OF assms] flex.entry_total [OF assms, of k] by force
  ultimately show ?thesis using total by blast
qed

lemma receipt_lookup_roundtrip_example:
  "receipt_entry sample_receipt 3 = Inr (sample_entry 3 2 512)
   \<and> receipt_entry sample_receipt 8 = Inl KeyError"
proof -
  note rt = receipt_lookup_roundtrip [OF sample_receipt_built]
  have "sample_entry 3 2 512 \<in> set (rc_entries sample_receipt)"
    "pe_shard_ordinal (sample_entry 3 2 512) = 3"
    by (simp_all add: sample_receipt_def sample_entry_def)
  then show ?thesis using rt by simp
qed

lemma validate_sharding_request_Inr:
  assumes "validate_sharding_request h cores src p n = Inr req"
  obtains ranges where "n = PyInt cores" "cores = 8 \<or> cores = 16" "src = Some (vr_source req)"
    "sp_num_shards (vr_spec req) = cores" "vr_global_shape req = ht_shape (vr_source req)"
    "spec_plan h (vr_spec req) (PyTuple (ht_shape (vr_source req))) = Inr ranges"
proof -
  note ok = assms [unfolded validate_sharding_request_def]
  have src: "validate_host_transfer_source src = Inr s \<Longrightarrow> src = Some s" for s
    by (cases src) (simp_all add: validate_host_transfer_source_def)
  from ok obtain q m spec s ranges where
    "require_shard_count n = Inr m" "SpyreShardingSpec_post_init q (PyInt m) = Inr spec"
    "validate_core_match cores (sp_num_shards spec) = Inr ()"
    "validate_host_transfer_source src = Inr s"
    "spec_plan h spec (PyTuple (ht_shape s)) = Inr ranges"
    "req = \<lparr>vr_source = s, vr_spec = spec, vr_global_shape = ht_shape s\<rparr>"
    by auto
  then show thesis
    using that [of ranges] src
    by (auto simp: SpyreShardingSpec_post_init_def check_Inr validate_core_match_def)
qed

text \<open>
  A rejected request never reaches the backend: the validation's exception is what
  \<open>to_sharded\<close> raises, with no call made, not even the initialisation of the runtime.
\<close>
lemma to_sharded_rejected:
  assumes "validate_sharding_request h cores src p (if n = PyNone then PyInt cores else n) = Inl e"
  shows "to_sharded ops h cores src p n = ([], Inl e)"
  using assms by (simp add: to_sharded_def)

text \<open>A source tensor and a backend that reports the sample placement.\<close>

definition sample_source :: host_tensor where
  "sample_source = \<lparr>ht_class = PlainTensor, ht_device = ''cpu'', ht_strided = True,
     ht_shape = [PyInt 16, PyInt 64], ht_dtype = ''float16'', ht_contiguous = True,
     ht_storage_offset = 0, ht_has_base = False, ht_is_conj = False, ht_is_neg = False,
     ht_requires_grad = False, ht_storage_nbytes = 2048, ht_numel = 1024, ht_element_size = 2\<rparr>"

definition sample_ops :: "nat native_ops" where
  "sample_ops = \<lparr>is_initialized = False, is_tensor = (\<lambda>_. True), device_type = (\<lambda>_. ''spyre''),
     spyre_is_sharded = (\<lambda>_. True),
     spyre_sharding_info = (\<lambda>_. [(''shard_dim'', PyInt 0), (''num_shards'', PyInt 8),
       (''shard_device_bytes'', PyInt 256), (''chunks'', sample_chunks),
       (''total_bytes'', PyInt 2048)]),
     spyre_empty_sharded = (\<lambda>_ _ _ _. Inr 42), copy_tensor = (\<lambda>_ _. Inr ())\<rparr>"

lemma to_sharded_rejected_example:
  "to_sharded sample_ops (Some ceiling_helper) 32 (Some sample_source) (PyShard (PyInt 0)) (PyInt 8)
   = ([], Inl (ValueError ''to_sharded requires one active core per shard''))"
  by (rule to_sharded_rejected) code_simp

text \<open>
  \<open>to_sharded\<close> fails closed.  Data is copied, or a tensor returned, only after the request
  was validated and planned with one shard per active core, the backend allocated, and the
  backend's placement record passed validation; the copy is the last call, and a returned
  tensor is the allocated one, fully copied.
\<close>
lemma to_sharded_fails_closed:
  assumes "to_sharded ops h cores src p n = (calls, out)"
    and "CopyTensor \<in> set calls \<or> (\<exists>t. out = Inr t)"
  shows "\<exists>req t info ranges d. validate_sharding_request h cores src p
              (if n = PyNone then PyInt cores else n) = Inr req
            \<and> sp_num_shards (vr_spec req) = cores \<and> cores \<in> {8, 16}
            \<and> spec_plan h (vr_spec req) (PyTuple (vr_global_shape req)) = Inr ranges
            \<and> spyre_empty_sharded ops (vr_global_shape req) (ht_dtype (vr_source req)) d cores
                = Inr t
            \<and> sharding_info ops t = Inr info \<and> last calls = CopyTensor
            \<and> out \<in> insert (Inr t) (range Inl)
            \<and> (copy_tensor ops (vr_source req) t = Inr () \<longleftrightarrow> out = Inr t)"
proof -
  note run = assms(1) [unfolded to_sharded_def Let_def]
  obtain req where v: "validate_sharding_request h cores src p
      (if n = PyNone then PyInt cores else n) = Inr req"
    using run assms(2) by (cases "validate_sharding_request h cores src p
      (if n = PyNone then PyInt cores else n)") auto
  then obtain ranges where req: "cores = 8 \<or> cores = 16" "sp_num_shards (vr_spec req) = cores"
    "spec_plan h (vr_spec req) (PyTuple (vr_global_shape req)) = Inr ranges"
    by (rule validate_sharding_request_Inr) auto
  note run = run [unfolded v] req(2)
  obtain d where d: "request_dim req = Inr d"
    using run assms(2) by (cases "request_dim req") auto
  let ?em = "spyre_empty_sharded ops (vr_global_shape req) (ht_dtype (vr_source req)) d cores"
  obtain t where t: "?em = Inr t"
    using run d assms(2)
    by (cases ?em) (auto simp: ensure_spyre_runtime_initialized_def split: if_splits)
  obtain info where i: "sharding_info ops t = Inr info"
    using run d t assms(2) by (cases "sharding_info ops t")
      (auto simp: ensure_spyre_runtime_initialized_def split: if_splits)
  have "last calls = CopyTensor \<and> out \<in> insert (Inr t) (range Inl)
    \<and> (copy_tensor ops (vr_source req) t = Inr () \<longleftrightarrow> out = Inr t)"
    using run d t i by (cases "copy_tensor ops (vr_source req) t") auto
  then show ?thesis using v req t i by blast
qed

lemma to_sharded_fails_closed_example:
  "to_sharded sample_ops (Some ceiling_helper) 8 (Some sample_source) (PyList [PyShard (PyInt 0)])
     PyNone = ([LazyInit, EmptySharded [PyInt 16, PyInt 64] ''float16'' 0 8, CopyTensor], Inr 42)
   \<and> (\<exists>info. sharding_info sample_ops 42 = Inr info)"
proof -
  have run: "to_sharded sample_ops (Some ceiling_helper) 8 (Some sample_source)
      (PyList [PyShard (PyInt 0)]) PyNone
    = ([LazyInit, EmptySharded [PyInt 16, PyInt 64] ''float16'' 0 8, CopyTensor], Inr 42)"
    by code_simp
  show ?thesis using run to_sharded_fails_closed [OF run] by auto
qed

end
