(* ===== verification/Owner_Maps.thy ===== *)
theory Owner_Maps
  imports Spyre_Prelude "HOL-Library.AList"
begin

text \<open>
  Owner maps: which slice of a tensor each physical core holds.  Models the comparison and
  evaluation part of \<open>_inductor/core_mapping.py\<close> (\<open>owner_slots\<close>, \<open>transfer_edges\<close>,
  \<open>core_mappings_equal\<close>, \<open>same_owner_maps\<close>, \<open>PerCoreView\<close>) and \<open>TensorWorkDivision\<close> of
  \<open>_inductor/op_spec.py\<close>.

  An owner formula is a SymPy expression in the symbol \<open>core_id\<close>.  SymPy is not part of the
  repository; what is modelled are the expressions the code builds, and substitution and
  integer evaluation with their mathematical meaning.  SymPy's automatic rewriting preserves
  the value and is not modelled; neither are the \<open>lru_cache\<close> decorators.

  A Python dict is an association list in insertion order without repeated keys.
\<close>

section \<open>Owner formulas\<close>

type_synonym symbol = string

datatype expr =
    CoreId
  | SymE symbol
  | IntE int
  | FloorDiv expr int
  | ModE expr int

text \<open>\<open>expression.subs(core_id, e)\<close>.\<close>

primrec subs_core :: "expr \<Rightarrow> expr \<Rightarrow> expr" where
  "subs_core CoreId e = e"
| "subs_core (SymE s) e = SymE s"
| "subs_core (IntE n) e = IntE n"
| "subs_core (FloorDiv a k) e = FloorDiv (subs_core a e) k"
| "subs_core (ModE a k) e = ModE (subs_core a e) k"

text \<open>
  \<open>as_int\<close>: a value that still contains a symbol, or that divides by zero, is no integer.
\<close>

primrec as_int :: "expr \<Rightarrow> int result" where
  "as_int CoreId = Inl (ValueError ''not an integer'')"
| "as_int (SymE s) = Inl (ValueError ''not an integer'')"
| "as_int (IntE n) = Inr n"
| "as_int (FloorDiv a k) =
     rbind (as_int a) (\<lambda>v. if k = 0 then Inl (ValueError ''not an integer'') else Inr (v div k))"
| "as_int (ModE a k) =
     rbind (as_int a) (\<lambda>v. if k = 0 then Inl (ValueError ''not an integer'') else Inr (v mod k))"

definition owner_at_core :: "expr \<Rightarrow> int \<Rightarrow> expr" where
  "owner_at_core e core = subs_core e (IntE core)"

type_synonym ('k, 'v) dict = "('k \<times> 'v) list"

abbreviation dkeys :: "('k, 'v) dict \<Rightarrow> 'k set" where
  "dkeys d \<equiv> set (map fst d)"

abbreviation dget :: "('k, 'v) dict \<Rightarrow> 'k \<Rightarrow> 'v \<Rightarrow> 'v" where
  "dget d k v \<equiv> (case map_of d k of None \<Rightarrow> v | Some x \<Rightarrow> x)"

section \<open>Evaluating an owner map\<close>

text \<open>One core's row; the first dimension without a slot inside its split raises.\<close>

definition slot_at :: "expr \<Rightarrow> int \<Rightarrow> int \<Rightarrow> int result" where
  "slot_at formula core split =
    (case as_int (owner_at_core formula core) of
       Inl _ \<Rightarrow> Inl (ValueError ''non-integral owner slot'')
     | Inr v \<Rightarrow> and_then (raise_if (\<not> (0 \<le> v \<and> v < split))
                  (ValueError ''owner slot outside split'')) (Inr v))"

fun owner_row :: "('k, expr) dict \<Rightarrow> int \<Rightarrow> ('k, int) dict \<Rightarrow> ('k, int) dict result" where
  "owner_row formulas core [] = Inr []"
| "owner_row formulas core ((d, split) # rest) =
    (case map_of formulas d of
       None \<Rightarrow> Inl KeyError
     | Some f \<Rightarrow> rbind (slot_at f core split) (\<lambda>v.
                 rbind (owner_row formulas core rest) (\<lambda>row. Inr ((d, v) # row))))"

definition owner_slots ::
  "('k, expr) dict \<Rightarrow> ('k, int) dict \<Rightarrow> int \<Rightarrow> ('k, int) dict list result" where
  "owner_slots slots splits num_cores =
     and_then (raise_if (num_cores \<le> 0) (ValueError ''physical core count must be positive''))
    (and_then (raise_if (\<not> dkeys splits \<subseteq> dkeys slots)
       (ValueError ''ownership split and owner-slot dimensions differ''))
    (traverse (\<lambda>core. owner_row slots core splits) [0..num_cores - 1]))"

section \<open>Transfers between two owner maps\<close>

definition overlap :: "int \<Rightarrow> int \<Rightarrow> int \<Rightarrow> int \<Rightarrow> bool" where
  "overlap a an b bn \<longleftrightarrow> a * bn < (b + 1) * an \<and> b * an < (a + 1) * bn"

definition transfer_edges ::
  "('k, int) dict \<Rightarrow> ('k, int) dict \<Rightarrow> (int, ('k, int) dict) dict \<Rightarrow> (int, ('k, int) dict) dict
   \<Rightarrow> (int \<times> int) list" where
  "transfer_edges source_splits destination_splits source_map destination_map =
     [(s_core, d_core). (s_core, s_slice) \<leftarrow> source_map, (d_core, d_slice) \<leftarrow> destination_map,
        \<forall>d \<in> set (map fst source_splits @ map fst destination_splits).
          overlap (dget s_slice d 0) (dget source_splits d 1)
                  (dget d_slice d 0) (dget destination_splits d 1)]"

section \<open>Comparing owner maps\<close>

text \<open>Both sides sorted by key, compared formula by formula on every core.\<close>

definition formulas_agree :: "expr \<Rightarrow> expr \<Rightarrow> int \<Rightarrow> bool" where
  "formulas_agree l r core =
    (case (as_int (owner_at_core l core), as_int (owner_at_core r core)) of
       (Inr a, Inr b) \<Rightarrow> a = b
     | _ \<Rightarrow> False)"

definition core_mappings_equal_cached ::
  "('k \<times> expr) list \<Rightarrow> ('k \<times> expr) list \<Rightarrow> int \<Rightarrow> bool" where
  "core_mappings_equal_cached left right num_cores \<longleftrightarrow>
     (\<forall>((_, lf), (_, rf)) \<in> set (zip left right). \<forall>core \<in> set [0..num_cores - 1].
        formulas_agree lf rf core)"

definition core_mappings_equal ::
  "('k::linorder, expr) dict \<Rightarrow> ('k, expr) dict \<Rightarrow> int \<Rightarrow> bool" where
  "core_mappings_equal left right num_cores =
    (if num_cores \<le> 0 then False
     else if dkeys left \<noteq> dkeys right then False
     else core_mappings_equal_cached (sort_key fst left) (sort_key fst right) num_cores)"

definition split_dims :: "('k, int) dict \<Rightarrow> ('k, int) dict" where
  "split_dims splits = filter (\<lambda>(_, split). split > 1) splits"

text \<open>\<open>{dim: slots[dim] for dim in left}\<close>; \<open>None\<close> is the \<open>KeyError\<close>.\<close>

primrec pick_slots :: "('k, expr) dict \<Rightarrow> 'k list \<Rightarrow> ('k, expr) dict option" where
  "pick_slots slots [] = Some []"
| "pick_slots slots (d # ds) =
    (case (map_of slots d, pick_slots slots ds) of
       (Some f, Some rest) \<Rightarrow> Some ((d, f) # rest)
     | _ \<Rightarrow> None)"

text \<open>Two dicts are equal when they have the same items, in whatever order.\<close>

definition dict_eq :: "('k, 'v) dict \<Rightarrow> ('k, 'v) dict \<Rightarrow> bool" where
  "dict_eq a b \<longleftrightarrow> set a = set b"

definition same_owner_maps ::
  "('k::linorder, int) dict \<Rightarrow> ('k, expr) dict \<Rightarrow> int
   \<Rightarrow> ('k, int) dict \<Rightarrow> ('k, expr) dict \<Rightarrow> int \<Rightarrow> bool" where
  "same_owner_maps left_splits left_slots left_cores right_splits right_slots right_cores =
    (if left_cores \<le> 0 then False
     else if left_cores \<noteq> right_cores then False
     else
      (let left = split_dims left_splits; right = split_dims right_splits in
       if left = [] \<and> right = [] then True
       else if \<not> dict_eq left right then False
       else
        (case (pick_slots left_slots (map fst left), pick_slots right_slots (map fst right)) of
           (Some l, Some r) \<Rightarrow> core_mappings_equal l r left_cores
         | _ \<Rightarrow> False)))"

record PerCoreView =
  work_slice_dims :: "(int \<times> int) list"
  core_to_slot :: "(int \<times> expr) list"
  split_product :: int
  view_num_cores :: "int option"

definition mk_PerCoreView ::
  "(int \<times> int) list \<Rightarrow> (int \<times> expr) list \<Rightarrow> int option \<Rightarrow> PerCoreView" where
  "mk_PerCoreView dims slots n = \<lparr>work_slice_dims = dims, core_to_slot = slots,
     split_product = prod_list (map snd dims), view_num_cores = n\<rparr>"

definition view_cores :: "PerCoreView \<Rightarrow> int" where
  "view_cores v = (case view_num_cores v of Some n \<Rightarrow> n | None \<Rightarrow> split_product v)"

definition same_partition :: "PerCoreView \<Rightarrow> PerCoreView \<Rightarrow> bool" where
  "same_partition v w =
     same_owner_maps (work_slice_dims v) (core_to_slot v) (view_cores v)
       (work_slice_dims w) (core_to_slot w) (view_cores w)"

definition core_slices :: "PerCoreView \<Rightarrow> int \<Rightarrow> (int, (int, int) dict) dict result" where
  "core_slices view num_cores =
     and_then (raise_if (\<exists>n. view_num_cores view = Some n \<and> n \<le> 0)
       (ValueError ''physical core count must be positive''))
    (and_then (raise_if (view_num_cores view \<noteq> None \<and> view_num_cores view \<noteq> Some num_cores)
       (ValueError ''ownership core count differs from the communication domain''))
    (rbind (owner_slots (core_to_slot view) (work_slice_dims view) num_cores) (\<lambda>rows.
     Inr (zip [0..num_cores - 1] rows))))"

record TensorWorkDivision =
  work_slices :: "(symbol, int) dict"
  core_id_to_work_slice :: "(symbol, expr) dict"
  num_cores :: "int option"

definition physical_core_count :: "TensorWorkDivision \<Rightarrow> int" where
  "physical_core_count t =
    (case num_cores t of Some n \<Rightarrow> n | None \<Rightarrow> prod_list (map snd (work_slices t)))"

definition same_ownership :: "TensorWorkDivision \<Rightarrow> TensorWorkDivision \<Rightarrow> bool" where
  "same_ownership t u =
     same_owner_maps (work_slices t) (core_id_to_work_slice t) (physical_core_count t)
       (work_slices u) (core_id_to_work_slice u) (physical_core_count u)"

text \<open>Building a dict from a comprehension: a repeated key keeps its place, the last value wins.\<close>

definition dict_of :: "('k \<times> 'v) list \<Rightarrow> ('k, 'v) dict" where
  "dict_of kvs = fold (\<lambda>(k, v) d. AList.update k v d) kvs []"

primrec rename_syms :: "(symbol, symbol) dict \<Rightarrow> expr \<Rightarrow> expr" where
  "rename_syms m CoreId = CoreId"
| "rename_syms m (SymE s) = SymE (dget m s s)"
| "rename_syms m (IntE n) = IntE n"
| "rename_syms m (FloorDiv a k) = FloorDiv (rename_syms m a) k"
| "rename_syms m (ModE a k) = ModE (rename_syms m a) k"

definition remap_symbols :: "TensorWorkDivision \<Rightarrow> (symbol, symbol) dict \<Rightarrow> TensorWorkDivision" where
  "remap_symbols t m =
     \<lparr>work_slices = dict_of (map (\<lambda>(d, s). (dget m d d, s)) (work_slices t)),
      core_id_to_work_slice =
        dict_of (map (\<lambda>(d, e). (dget m d d, rename_syms m e)) (core_id_to_work_slice t)),
      num_cores = num_cores t\<rparr>"

fun core_slice_row ::
  "(symbol, int) dict \<Rightarrow> int \<Rightarrow> (symbol, expr) dict \<Rightarrow> (symbol, int) dict result" where
  "core_slice_row splits core [] = Inr []"
| "core_slice_row splits core ((d, e) # rest) =
    (case as_int (owner_at_core e core) of
       Inl _ \<Rightarrow> Inl (ValueError ''core owns non-integral slot'')
     | Inr v \<Rightarrow>
       (case map_of splits d of
          None \<Rightarrow> Inl KeyError
        | Some split \<Rightarrow>
            and_then (raise_if (\<not> (0 \<le> v \<and> v < split)) (ValueError ''core owns invalid slot''))
           (rbind (core_slice_row splits core rest) (\<lambda>row. Inr ((d, v) # row)))))"

definition to_core_slices ::
  "TensorWorkDivision \<Rightarrow> int \<Rightarrow> (int, (symbol, int) dict) dict result" where
  "to_core_slices t n =
     and_then (raise_if (n \<le> 0) (ValueError ''physical core count must be positive''))
    (rbind (traverse (\<lambda>core. core_slice_row (work_slices t) core (core_id_to_work_slice t))
              [0..n - 1]) (\<lambda>rows.
     Inr (zip [0..n - 1] rows)))"

section \<open>Lemmas on formulas and dicts\<close>

text \<open>The value of a formula on a core, when it has one.\<close>

definition value_at :: "expr \<Rightarrow> int \<Rightarrow> int option" where
  "value_at e core = (case as_int (owner_at_core e core) of Inl _ \<Rightarrow> None | Inr v \<Rightarrow> Some v)"

lemma value_at_simps [simp]:
  "value_at CoreId c = Some c"
  "value_at (SymE s) c = None"
  "value_at (IntE n) c = Some n"
  "value_at (FloorDiv e k) c =
     (case value_at e c of None \<Rightarrow> None | Some v \<Rightarrow> if k = 0 then None else Some (v div k))"
  "value_at (ModE e k) c =
     (case value_at e c of None \<Rightarrow> None | Some v \<Rightarrow> if k = 0 then None else Some (v mod k))"
  by (auto simp: value_at_def owner_at_core_def split: sum.splits option.splits)

text \<open>Substituting a formula for \<open>core_id\<close> is composition of the values.\<close>

lemma value_at_subs:
  "value_at g c = Some v \<Longrightarrow> value_at (subs_core e g) c = value_at e v"
  by (induction e) (simp_all split: option.splits)

lemma formulas_agree_iff:
  "formulas_agree l r c \<longleftrightarrow> value_at l c \<noteq> None \<and> value_at l c = value_at r c"
  by (auto simp: formulas_agree_def value_at_def split: sum.splits)

lemma slot_at_Inr: "slot_at f core split = Inr v \<longleftrightarrow> value_at f core = Some v \<and> 0 \<le> v \<and> v < split"
  by (auto simp: slot_at_def value_at_def split: sum.splits)

lemma map_of_dget: "map_of d k = Some v \<Longrightarrow> dget d k x = v"
  by simp

lemma pick_slots_eq:
  "pick_slots slots ds = (if \<forall>d \<in> set ds. map_of slots d \<noteq> None
     then Some (map (\<lambda>d. (d, the (map_of slots d))) ds) else None)"
  by (induction ds) (auto split: option.splits)

lemma sorted_keys_unique:
  assumes "distinct (map fst l)" "distinct (map fst r)" "dkeys l = dkeys r"
  shows "map fst (sort_key fst l) = map fst (sort_key fst r)"
proof (rule sorted_distinct_set_unique)
  show "sorted (map fst (sort_key fst l))" "sorted (map fst (sort_key fst r))" by simp_all
  show "distinct (map fst (sort_key fst l))" "distinct (map fst (sort_key fst r))"
    using assms(1,2) by (simp_all add: distinct_map)
  show "set (map fst (sort_key fst l)) = set (map fst (sort_key fst r))"
    using assms(3) by simp
qed

lemma zip_same_keys:
  assumes "map fst xs = map fst ys" "distinct (map fst xs)"
  shows "((k, a), (k', b)) \<in> set (zip xs ys) \<longleftrightarrow> k = k' \<and> (k, a) \<in> set xs \<and> (k, b) \<in> set ys"
  using assms
proof (induction xs arbitrary: ys)
  case (Cons x xs)
  then obtain y ys' where ys: "ys = y # ys'" "fst x = fst y" "map fst xs = map fst ys'"
    by (cases ys) auto
  have "k \<notin> set (map fst xs)" if "k = fst x" using Cons.prems(2) that by simp
  then have "(k, b) \<notin> set ys'" "(k, a) \<notin> set xs" if "k = fst x" for a b
    using that ys(3) by (metis in_set_zipE list.set_map image_eqI fst_conv)+
  then show ?case using Cons.IH [of ys'] Cons.prems ys by (cases x; cases y) auto
qed simp

text \<open>The comparison of two owner maps, by its meaning.\<close>

lemma core_mappings_equal_iff:
  assumes "distinct (map fst l)" "distinct (map fst r)"
  shows "core_mappings_equal l r n \<longleftrightarrow> 0 < n \<and> dkeys l = dkeys r \<and>
     (\<forall>k f g core. map_of l k = Some f \<longrightarrow> map_of r k = Some g \<longrightarrow> 0 \<le> core \<longrightarrow> core < n \<longrightarrow>
        formulas_agree f g core)"
proof (cases "0 < n \<and> dkeys l = dkeys r")
  case True
  have keys: "map fst (sort_key fst l) = map fst (sort_key fst r)"
    using sorted_keys_unique [OF assms] True by blast
  have d: "distinct (map fst (sort_key fst l))" using assms(1) by (simp add: distinct_map)
  have "core_mappings_equal l r n \<longleftrightarrow>
    (\<forall>k f g. (k, f) \<in> set l \<longrightarrow> (k, g) \<in> set r \<longrightarrow> (\<forall>core \<in> {0..n - 1}. formulas_agree f g core))"
    using True zip_same_keys [OF keys d]
    by (fastforce simp: core_mappings_equal_def core_mappings_equal_cached_def)
  then show ?thesis using True assms by (auto simp: map_of_eq_Some_iff)
qed (auto simp: core_mappings_equal_def)

section \<open>Transfer edges\<close>

text \<open>Index \<open>x\<close> of an axis of extent \<open>E\<close> cut into \<open>n\<close> equal slices lies in slice \<open>k\<close>.\<close>

definition in_slice :: "int \<Rightarrow> int \<Rightarrow> int \<Rightarrow> int \<Rightarrow> bool" where
  "in_slice E n k x \<longleftrightarrow> 0 \<le> x \<and> x < E \<and> x div (E div n) = k"

lemma in_slice_bounds:
  assumes "0 < n" "n dvd E" "0 < E" "0 \<le> k" "k < n"
  shows "in_slice E n k x \<longleftrightarrow> k * (E div n) \<le> x \<and> x < (k + 1) * (E div n)"
proof -
  define w where "w = E div n"
  have E: "E = n * w" using assms(2) by (simp add: w_def)
  have w: "0 < w" using E assms(1,3) by (simp add: zero_less_mult_iff)
  have iff: "x div w = k \<longleftrightarrow> k * w \<le> x \<and> x < (k + 1) * w"
    using div_eq_block [OF w, of k x] mult_div_bounds [OF w, of x]
    by (auto simp: algebra_simps)
  have "(k + 1) * w \<le> n * w" "0 \<le> k * w" using assms(4,5) w by (simp_all add: mult_right_mono)
  then show ?thesis using iff E by (auto simp: in_slice_def w_def [symmetric])
qed

lemma overlap_iff_common_index:
  assumes "0 < an" "an dvd E" "0 < bn" "bn dvd E" "0 < E"
    and "0 \<le> a" "a < an" "0 \<le> b" "b < bn"
  shows "overlap a an b bn \<longleftrightarrow> (\<exists>x. in_slice E an a x \<and> in_slice E bn b x)"
proof -
  define wa wb where "wa = E div an" and "wb = E div bn"
  have E: "E = an * wa" "E = bn * wb" using assms by (simp_all add: wa_def wb_def)
  have w: "0 < wa" "0 < wb" using E assms(1,3,5) by (metis zero_less_mult_pos)+
  have ww: "0 < wa * wb" using w by simp
  have lt: "p * bn < q * an \<longleftrightarrow> p * wa < q * wb" for p q
  proof -
    have "p * bn < q * an \<longleftrightarrow> (p * bn) * (wa * wb) < (q * an) * (wa * wb)"
      by (rule mult_less_cancel_right_pos [OF ww, symmetric])
    also have "(p * bn) * (wa * wb) = (p * wa) * E" using E(2) by (simp add: algebra_simps)
    also have "(q * an) * (wa * wb) = (q * wb) * E" using E(1) by (simp add: algebra_simps)
    finally show ?thesis using assms(5) by simp
  qed
  have lt': "p * an < q * bn \<longleftrightarrow> p * wb < q * wa" for p q
  proof -
    have "p * an < q * bn \<longleftrightarrow> (p * an) * (wa * wb) < (q * bn) * (wa * wb)"
      by (rule mult_less_cancel_right_pos [OF ww, symmetric])
    also have "(p * an) * (wa * wb) = (p * wb) * E" using E(1) by (simp add: algebra_simps)
    also have "(q * bn) * (wa * wb) = (q * wa) * E" using E(2) by (simp add: algebra_simps)
    finally show ?thesis using assms(5) by simp
  qed
  have bounds: "in_slice E an a x \<longleftrightarrow> a * wa \<le> x \<and> x < (a + 1) * wa"
    "in_slice E bn b x \<longleftrightarrow> b * wb \<le> x \<and> x < (b + 1) * wb" for x
    using in_slice_bounds assms by (simp_all add: wa_def wb_def)
  have "overlap a an b bn \<longleftrightarrow> a * wa < (b + 1) * wb \<and> b * wb < (a + 1) * wa"
    by (simp only: overlap_def lt lt')
  also have "\<dots> \<longleftrightarrow> (\<exists>x. (a * wa \<le> x \<and> x < (a + 1) * wa) \<and> b * wb \<le> x \<and> x < (b + 1) * wb)"
  proof
    assume "a * wa < (b + 1) * wb \<and> b * wb < (a + 1) * wa"
    then show "\<exists>x. (a * wa \<le> x \<and> x < (a + 1) * wa) \<and> b * wb \<le> x \<and> x < (b + 1) * wb"
      using w by (intro exI [of _ "max (a * wa) (b * wb)"]) (auto simp: max_def algebra_simps)
  qed auto
  finally show ?thesis by (simp only: bounds)
qed

section \<open>Rows of an owner map\<close>

lemma owner_row_Inr:
  "owner_row f core splits = Inr row \<longleftrightarrow>
     (\<forall>(d, split) \<in> set splits. \<exists>e v. map_of f d = Some e \<and> value_at e core = Some v
        \<and> 0 \<le> v \<and> v < split)
     \<and> row = map (\<lambda>(d, split). (d, the (value_at (the (map_of f d)) core))) splits"
proof (induction splits arbitrary: row)
  case (Cons ds rest)
  obtain d split where ds: "ds = (d, split)" by force
  show ?case
  proof (cases "map_of f d")
    case (Some e)
    have "owner_row f core (ds # rest) = Inr row \<longleftrightarrow>
      (\<exists>v. value_at e core = Some v \<and> 0 \<le> v \<and> v < split
         \<and> (\<exists>row'. owner_row f core rest = Inr row' \<and> row = (d, v) # row'))"
      by (auto simp: ds Some rbind_Inr slot_at_Inr)
    then show ?thesis unfolding Cons.IH by (auto simp: ds Some)
  qed (auto simp: ds)
qed auto

lemma owner_slots_Inr:
  assumes "owner_slots f splits n = Inr rows"
  shows "0 < n" and "length rows = nat n"
    and "\<And>i. i < nat n \<Longrightarrow> owner_row f (int i) splits = Inr (rows ! i)"
proof -
  have h: "0 < n" "list_all2 (\<lambda>core row. owner_row f core splits = Inr row) [0..n - 1] rows"
    using assms by (simp_all add: owner_slots_def traverse_Inr not_le)
  then show "0 < n" "length rows = nat n" by (auto dest: list_all2_lengthD)
  fix i assume i: "i < nat n"
  then have "owner_row f ([0..n - 1] ! i) splits = Inr (rows ! i)"
    using h(2) by (auto simp: list_all2_conv_all_nth)
  then show "owner_row f (int i) splits = Inr (rows ! i)" using i by (simp add: nth_upto)
qed

lemma owner_row_set:
  assumes "owner_row f core splits = Inr row" and "distinct (map fst splits)"
  shows "(d, v) \<in> set row \<longleftrightarrow> d \<in> dkeys splits \<and> value_at (the (map_of f d)) core = Some v"
proof -
  have row: "row = map (\<lambda>(d, split). (d, the (value_at (the (map_of f d)) core))) splits"
    and ok: "\<And>d split. (d, split) \<in> set splits \<Longrightarrow>
      \<exists>v. value_at (the (map_of f d)) core = Some v"
    using assms(1) unfolding owner_row_Inr by fastforce+
  show ?thesis unfolding row using ok by force
qed

lemma split_dims_keys: "distinct (map fst d) \<Longrightarrow> distinct (map fst (split_dims d))"
  by (simp add: split_dims_def distinct_map_filter)

lemma dkeys_of_set_eq: "set a = set b \<Longrightarrow> dkeys a = dkeys b"
  by simp

text \<open>Picking the formulas of the split dimensions keeps their values.\<close>

lemma pick_slots_valid:
  assumes "owner_slots f splits n = Inr rows"
  shows "pick_slots f (map fst splits) = Some (map (\<lambda>d. (d, the (map_of f d))) (map fst splits))"
proof -
  have "\<forall>d \<in> set (map fst splits). map_of f d \<noteq> None"
    using owner_slots_Inr(3) [OF assms, of 0] owner_slots_Inr(1) [OF assms]
    unfolding owner_row_Inr by fastforce
  then show ?thesis by (simp add: pick_slots_eq)
qed

lemma map_of_tabulate:
  "map_of (map (\<lambda>d. (d, g d)) ds) d = (if d \<in> set ds then Some (g d) else None)"
  by (induction ds) auto

lemma core_mappings_equal_rows:
  assumes l: "owner_slots lf ls n = Inr rows" "distinct (map fst ls)"
    and r: "owner_slots rf rs n = Inr rows'" "distinct (map fst rs)"
    and same: "set ls = set rs"
  shows "core_mappings_equal (map (\<lambda>d. (d, the (map_of lf d))) (map fst ls))
           (map (\<lambda>d. (d, the (map_of rf d))) (map fst rs)) n
     \<longleftrightarrow> (\<forall>i < nat n. set (rows ! i) = set (rows' ! i))"
proof -
  have n: "0 < n" by (rule owner_slots_Inr(1) [OF l(1)])
  let ?l = "map (\<lambda>d. (d, the (map_of lf d))) (map fst ls)"
  let ?r = "map (\<lambda>d. (d, the (map_of rf d))) (map fst rs)"
  have mo: "map_of ?l d = (if d \<in> dkeys ls then Some (the (map_of lf d)) else None)"
    "map_of ?r d = (if d \<in> dkeys ls then Some (the (map_of rf d)) else None)" for d
    unfolding map_of_tabulate using same by simp_all
  have rows: "(d, v) \<in> set (rows ! i) \<longleftrightarrow>
        d \<in> dkeys ls \<and> value_at (the (map_of lf d)) (int i) = Some v"
    "(d, v) \<in> set (rows' ! i) \<longleftrightarrow>
        d \<in> dkeys ls \<and> value_at (the (map_of rf d)) (int i) = Some v" if "i < nat n" for i d v
    using owner_row_set [OF owner_slots_Inr(3) [OF l(1) that] l(2)]
      owner_row_set [OF owner_slots_Inr(3) [OF r(1) that] r(2)] same by auto
  have def: "value_at (the (map_of lf d)) (int i) \<noteq> None" if "i < nat n" "d \<in> dkeys ls" for i d
    using owner_slots_Inr(3) [OF l(1) that(1)] that(2) unfolding owner_row_Inr by fastforce
  have mem: "map_of ?l d = Some f \<longleftrightarrow> d \<in> dkeys ls \<and> f = the (map_of lf d)"
    "map_of ?r d = Some f \<longleftrightarrow> d \<in> dkeys ls \<and> f = the (map_of rf d)" for d f
    unfolding mo by auto
  have keys: "map fst ?l = map fst ls" "map fst ?r = map fst rs" by (simp_all add: comp_def)
  have "distinct (map fst ?l)" "distinct (map fst ?r)" "dkeys ?l = dkeys ?r"
    unfolding keys using l(2) r(2) same by simp_all
  then have "core_mappings_equal ?l ?r n \<longleftrightarrow> (\<forall>k f g core. map_of ?l k = Some f \<longrightarrow>
      map_of ?r k = Some g \<longrightarrow> 0 \<le> core \<longrightarrow> core < n \<longrightarrow> formulas_agree f g core)"
    using core_mappings_equal_iff n by blast
  also have "\<dots> \<longleftrightarrow> (\<forall>d \<in> dkeys ls. \<forall>c. 0 \<le> c \<longrightarrow> c < n \<longrightarrow>
      formulas_agree (the (map_of lf d)) (the (map_of rf d)) c)"
    unfolding mem by blast
  also have "\<dots> \<longleftrightarrow> (\<forall>i < nat n. \<forall>d \<in> dkeys ls.
      formulas_agree (the (map_of lf d)) (the (map_of rf d)) (int i))"
    unfolding all_cores_nat by blast
  also have "\<dots> \<longleftrightarrow> (\<forall>i < nat n. set (rows ! i) = set (rows' ! i))"
  proof (intro all_cong imp_cong refl)
    fix i assume i: "i < nat n"
    show "(\<forall>d \<in> dkeys ls. formulas_agree (the (map_of lf d)) (the (map_of rf d)) (int i)) \<longleftrightarrow>
      set (rows ! i) = set (rows' ! i)"
    proof
      assume ag: "\<forall>d \<in> dkeys ls. formulas_agree (the (map_of lf d)) (the (map_of rf d)) (int i)"
      have "(d, v) \<in> set (rows ! i) \<longleftrightarrow> (d, v) \<in> set (rows' ! i)" for d v
      proof (cases "d \<in> dkeys ls")
        case True
        then have "value_at (the (map_of lf d)) (int i) = value_at (the (map_of rf d)) (int i)"
          using ag unfolding formulas_agree_iff by blast
        then show ?thesis unfolding rows [OF i] by simp
      qed (simp only: rows [OF i] simp_thms)
      then show "set (rows ! i) = set (rows' ! i)" by (intro set_eqI) (metis surj_pair)
    next
      assume eq: "set (rows ! i) = set (rows' ! i)"
      show "\<forall>d \<in> dkeys ls. formulas_agree (the (map_of lf d)) (the (map_of rf d)) (int i)"
      proof
        fix d assume d: "d \<in> dkeys ls"
        obtain v where v: "value_at (the (map_of lf d)) (int i) = Some v" using def [OF i d] by blast
        then have "(d, v) \<in> set (rows' ! i)" using rows(1) [OF i] d eq by blast
        then have "value_at (the (map_of rf d)) (int i) = Some v" using rows(2) [OF i] by blast
        then show "formulas_agree (the (map_of lf d)) (the (map_of rf d)) (int i)"
          using v by (simp add: formulas_agree_iff)
      qed
    qed
  qed
  finally show ?thesis .
qed

lemma transfer_edges_iff:
  "(s, t) \<in> set (transfer_edges ss ds sm dm) \<longleftrightarrow>
    (\<exists>srow trow. (s, srow) \<in> set sm \<and> (t, trow) \<in> set dm \<and>
       (\<forall>k \<in> set (map fst ss @ map fst ds).
          overlap (dget srow k 0) (dget ss k 1) (dget trow k 0) (dget ds k 1)))"
    (is "?lhs \<longleftrightarrow> ?rhs")
proof
  assume ?lhs
  then show ?rhs unfolding transfer_edges_def by auto
next
  assume ?rhs
  then obtain srow trow where rows: "(s, srow) \<in> set sm" "(t, trow) \<in> set dm"
    and ov: "\<forall>k \<in> set (map fst ss @ map fst ds).
      overlap (dget srow k 0) (dget ss k 1) (dget trow k 0) (dget ds k 1)"
    by blast
  then show ?lhs
    unfolding transfer_edges_def
    by (auto intro!: bexI [OF _ rows(1)] bexI [OF _ rows(2)])
qed

section \<open>Properties\<close>

text \<open>
  C36. Comparing ownership symbolically is comparing it core by core.  For two valid owner maps
  (every slot an integer inside its split), \<open>same_owner_maps\<close> holds exactly when the core
  counts and the split dimensions are the same and every core has the same row of slots.
\<close>
theorem same_owner_maps_exact:
  assumes "owner_slots lf (split_dims ls) n = Inr rows"
    and "owner_slots rf (split_dims rs) m = Inr rows'"
    and "distinct (map fst ls)" and "distinct (map fst rs)"
  shows "same_owner_maps ls lf n rs rf m \<longleftrightarrow>
    n = m \<and> set (split_dims ls) = set (split_dims rs)
      \<and> (\<forall>i < nat n. set (rows ! i) = set (rows' ! i))"
proof (cases "n = m \<and> set (split_dims ls) = set (split_dims rs)")
  case True
  have n: "0 < n" by (rule owner_slots_Inr(1) [OF assms(1)])
  show ?thesis
  proof (cases "split_dims ls = []")
    case empty: True
    then have r: "split_dims rs = []" using True by simp
    have "rows ! i = []" "rows' ! i = []" if "i < nat n" for i
      using owner_slots_Inr(3) [OF assms(1) that] owner_slots_Inr(3) [OF assms(2), of i]
        that True empty r by auto
    then show ?thesis using True n empty r by (simp add: same_owner_maps_def)
  next
    case False
    have "same_owner_maps ls lf n rs rf m \<longleftrightarrow>
      core_mappings_equal (map (\<lambda>d. (d, the (map_of lf d))) (map fst (split_dims ls)))
        (map (\<lambda>d. (d, the (map_of rf d))) (map fst (split_dims rs))) n"
      using True n False pick_slots_valid [OF assms(1)] pick_slots_valid [OF assms(2)]
      by (simp add: same_owner_maps_def dict_eq_def)
    also have "\<dots> \<longleftrightarrow> (\<forall>i < nat n. set (rows ! i) = set (rows' ! i))"
      using core_mappings_equal_rows [OF assms(1) split_dims_keys [OF assms(3)] _
          split_dims_keys [OF assms(4)]] assms(2) True by blast
    finally show ?thesis using True by blast
  qed
next
  case False
  then have "\<not> same_owner_maps ls lf n rs rf m"
    by (auto simp: same_owner_maps_def dict_eq_def Let_def)
  then show ?thesis using False by blast
qed

theorem same_owner_maps_exact_witness:
  "same_owner_maps [(''x'', 2), (''y'', 1)] [(''x'', ModE CoreId 2)] 4
     [(''x'', 2)] [(''x'', ModE (ModE CoreId 4) 2)] 4
   \<and> \<not> same_owner_maps [(''x'', 2)] [(''x'', ModE CoreId 2)] 4
     [(''x'', 2)] [(''x'', FloorDiv CoreId 2)] 4"
proof -
  let ?alt = "[[(''x'', 0)], [(''x'', 1)], [(''x'', 0)], [(''x'', 1)]] :: (symbol, int) dict list"
  let ?blk = "[[(''x'', 0)], [(''x'', 0)], [(''x'', 1)], [(''x'', 1)]] :: (symbol, int) dict list"
  have a: "owner_slots [(''x'', ModE CoreId 2)] (split_dims [(''x'', 2), (''y'', 1)]) 4 = Inr ?alt"
    "owner_slots [(''x'', ModE CoreId 2)] (split_dims [(''x'', 2)]) 4 = Inr ?alt"
    "owner_slots [(''x'', ModE (ModE CoreId 4) 2)] (split_dims [(''x'', 2)]) 4 = Inr ?alt"
    "owner_slots [(''x'', FloorDiv CoreId 2)] (split_dims [(''x'', 2)]) 4 = Inr ?blk"
    by code_simp+
  have "\<not> set (?alt ! 1) = set (?blk ! 1)" "1 < nat 4" by simp_all
  then have "\<not> (\<forall>i < nat 4. set (?alt ! i) = set (?blk ! i))" by blast
  then show ?thesis
    using same_owner_maps_exact [OF a(1) a(3)] same_owner_maps_exact [OF a(2) a(4)]
    by (simp add: split_dims_def)
qed

text \<open>
  C35. Transfer edges are exact.  For axes that both partitions cut evenly, core \<open>s\<close> sends to
  core \<open>t\<close> exactly when some element of the tensor lies in the slice of \<open>s\<close> under the source
  map and in the slice of \<open>t\<close> under the destination map: no transfer is missing, none is
  superfluous.
\<close>
theorem transfer_edges_exact:
  assumes "\<And>k. 0 < E k \<and> 0 < dget ss k 1 \<and> dget ss k 1 dvd E k
             \<and> 0 < dget ds k 1 \<and> dget ds k 1 dvd E k"
    and "\<And>c row k. (c, row) \<in> set sm \<Longrightarrow> 0 \<le> dget row k 0 \<and> dget row k 0 < dget ss k 1"
    and "\<And>c row k. (c, row) \<in> set dm \<Longrightarrow> 0 \<le> dget row k 0 \<and> dget row k 0 < dget ds k 1"
  shows "(s, t) \<in> set (transfer_edges ss ds sm dm) \<longleftrightarrow>
    (\<exists>srow trow x. (s, srow) \<in> set sm \<and> (t, trow) \<in> set dm
       \<and> (\<forall>k. in_slice (E k) (dget ss k 1) (dget srow k 0) (x k)
            \<and> in_slice (E k) (dget ds k 1) (dget trow k 0) (x k)))"
proof -
  have ov: "overlap (dget srow k 0) (dget ss k 1) (dget trow k 0) (dget ds k 1) \<longleftrightarrow>
      (\<exists>x. in_slice (E k) (dget ss k 1) (dget srow k 0) x
         \<and> in_slice (E k) (dget ds k 1) (dget trow k 0) x)"
    if "(s, srow) \<in> set sm" "(t, trow) \<in> set dm" for srow trow k
    using overlap_iff_common_index assms(1) [of k] assms(2) [OF that(1), of k]
      assms(3) [OF that(2), of k] by blast
  have unsplit: "overlap (dget srow k 0) (dget ss k 1) (dget trow k 0) (dget ds k 1)"
    if "(s, srow) \<in> set sm" "(t, trow) \<in> set dm"
      "k \<notin> set (map fst ss @ map fst ds)" for srow trow k
  proof -
    have none: "map_of ss k = None" "map_of ds k = None"
      using that(3) by (simp_all add: map_of_eq_None_iff)
    then have "dget srow k 0 = 0" "dget trow k 0 = 0"
      using assms(2) [OF that(1), of k] assms(3) [OF that(2), of k] by simp_all
    then show ?thesis by (simp add: none overlap_def)
  qed
  have "(s, t) \<in> set (transfer_edges ss ds sm dm) \<longleftrightarrow>
    (\<exists>srow trow. (s, srow) \<in> set sm \<and> (t, trow) \<in> set dm \<and>
       (\<forall>k. overlap (dget srow k 0) (dget ss k 1) (dget trow k 0) (dget ds k 1)))"
    unfolding transfer_edges_iff using unsplit by blast
  also have "\<dots> \<longleftrightarrow> (\<exists>srow trow. (s, srow) \<in> set sm \<and> (t, trow) \<in> set dm \<and>
       (\<forall>k. \<exists>x. in_slice (E k) (dget ss k 1) (dget srow k 0) x
         \<and> in_slice (E k) (dget ds k 1) (dget trow k 0) x))"
    using ov by blast
  also have "\<dots> \<longleftrightarrow> (\<exists>srow trow x. (s, srow) \<in> set sm \<and> (t, trow) \<in> set dm
       \<and> (\<forall>k. in_slice (E k) (dget ss k 1) (dget srow k 0) (x k)
            \<and> in_slice (E k) (dget ds k 1) (dget trow k 0) (x k)))"
    unfolding choice_iff by blast
  finally show ?thesis .
qed

theorem transfer_edges_exact_witness:
  "(0, 2) \<in> set (transfer_edges [(''x'', 2)] [(''x'', 4)]
      [(0, [(''x'', 0)]), (1, [(''x'', 1)])]
      [(0, [(''x'', 3)]), (2, [(''x'', 1)])]) \<longleftrightarrow>
    (\<exists>srow trow x. (0 :: int, srow) \<in> set [(0, [(''x'', 0)]), (1, [(''x'', 1)])]
       \<and> (2 :: int, trow) \<in> set [(0, [(''x'', 3)]), (2, [(''x'', 1)])]
       \<and> (\<forall>k. in_slice 8 (dget [(''x'', 2)] k 1) (dget srow k 0) (x k)
            \<and> in_slice 8 (dget [(''x'', 4)] k 1) (dget trow k 0) (x k)))"
  by (rule transfer_edges_exact [where E = "\<lambda>_. 8"]) (auto split: if_splits)

end
