(* ===== verification/Core_Mapping.thy ===== *)
theory Core_Mapping
  imports Owner_Maps "HOL-Library.Multiset"
begin

text \<open>
  Deriving owner maps: the generators of \<open>_inductor/core_mapping.py\<close>.  A logical work
  division (one split count per loop dimension) is laid out over the physical cores as a
  mixed-radix numbering (\<open>core_to_slice_mapping\<close>), optionally with some dimensions
  occupying contiguous core groups (\<open>derive_core_mapping\<close>, \<open>derive_partition_mapping\<close>).
  The free symbols of a tensor's device coordinates are data of the tensor argument.

  The locale \<open>layout_generator\<close> is what clients rely on: every returned map is an even layout.
  The three generators interpret it.
\<close>

section \<open>The mixed-radix layout\<close>

fun slice_coordinate :: "int \<Rightarrow> int \<Rightarrow> expr" where
  "slice_coordinate stride split =
    (if split = 1 then IntE 0
     else if stride = 1 then ModE CoreId split
     else ModE (FloorDiv CoreId stride) split)"

fun slice_loop ::
  "symbol list \<Rightarrow> int list \<Rightarrow> nat list \<Rightarrow> int \<Rightarrow> (symbol, expr) dict \<Rightarrow> (symbol, expr) dict" where
  "slice_loop dims splits [] stride res = res"
| "slice_loop dims splits (i # is) stride res =
     slice_loop dims splits is (stride * splits ! i)
       (AList.update (dims ! i) (slice_coordinate stride (splits ! i)) res)"

definition dim_order :: "int list \<Rightarrow> nat option \<Rightarrow> nat list result" where
  "dim_order splits contiguous_dim = (case contiguous_dim of
     None \<Rightarrow> Inr [0..<length splits]
   | Some i \<Rightarrow>
       if length splits \<le> i then Inl IndexError
       else if splits ! i > 1 then Inr (i # remove1 i [0..<length splits])
       else Inr [0..<length splits])"

definition core_to_slice_mapping ::
  "symbol list \<Rightarrow> int list \<Rightarrow> int \<Rightarrow> nat option \<Rightarrow> (symbol, expr) dict result" where
  "core_to_slice_mapping dims splits n contiguous_dim =
     and_then (raise_if (length dims \<noteq> length splits)
       (ValueError ''dimension/split count differs''))
    (let logical_cores = prod_list splits in
     if n < logical_cores then
       Inl (ValueError ''num_cores must be a multiple of the logical work split'')
     else if logical_cores = 0 then Inl ZeroDivisionError
     else if n mod logical_cores \<noteq> 0 then
       Inl (ValueError ''num_cores must be a multiple of the logical work split'')
     else rbind (dim_order splits contiguous_dim) (\<lambda>order.
       Inr (slice_loop dims splits order 1 [])))"

record TensorArg =
  is_input :: bool
  coordinate_symbols :: "symbol list list"

definition matmul_reduction_dim :: "symbol list \<Rightarrow> TensorArg list \<Rightarrow> symbol option" where
  "matmul_reduction_dim iteration_space args =
    (let inputs = map (\<lambda>a. concat (coordinate_symbols a)) (filter is_input args);
         outputs = concat (map (\<lambda>a. concat (coordinate_symbols a)) (filter (Not \<circ> is_input) args));
         reduced = filter (\<lambda>d. d \<notin> set outputs \<and> (\<forall>indexed \<in> set inputs. d \<in> set indexed))
                     iteration_space in
     if length reduced = 1 then Some (hd reduced) else None)"

section \<open>Grouped layouts\<close>

definition index_of :: "'a list \<Rightarrow> 'a \<Rightarrow> nat option" where
  "index_of xs x = (if x \<in> set xs then Some (length (takeWhile (\<lambda>y. y \<noteq> x) xs)) else None)"

definition index_of_opt :: "'a list \<Rightarrow> 'a option \<Rightarrow> nat option" where
  "index_of_opt xs v = (case v of None \<Rightarrow> None | Some x \<Rightarrow> index_of xs x)"

definition dict_merge :: "('k, 'v) dict \<Rightarrow> ('k, 'v) dict \<Rightarrow> ('k, 'v) dict" where
  "dict_merge a b = fold (\<lambda>(k, v) d. AList.update k v d) b a"

definition subs_dict :: "(symbol, expr) dict \<Rightarrow> expr \<Rightarrow> (symbol, expr) dict" where
  "subs_dict m e = map (\<lambda>(d, x). (d, subs_core x e)) m"

text \<open>The checks on \<open>grouped_splits\<close>: known dimensions with the operation's split counts.\<close>

fun check_grouped :: "(symbol, int) dict \<Rightarrow> (symbol, int) dict \<Rightarrow> unit result" where
  "check_grouped split_by_dim [] = Inr ()"
| "check_grouped split_by_dim ((d, split) # rest) =
     and_then (raise_if (map_of split_by_dim d \<noteq> Some split)
       (ValueError ''grouped split does not match operation split''))
     (check_grouped split_by_dim rest)"

definition derive_core_mapping ::
  "symbol list \<Rightarrow> int list \<Rightarrow> int \<Rightarrow> symbol option \<Rightarrow> (symbol, int) dict
   \<Rightarrow> (symbol, expr) dict result" where
  "derive_core_mapping dims splits n contiguous_dim grouped_splits =
     and_then (raise_if (length dims \<noteq> length splits)
       (ValueError ''dimension/split count differs''))
    (let split_by_dim = dict_of (zip dims splits) in
     and_then (raise_if (prod_list splits \<noteq> n)
       (ValueError ''operation split product must equal num_cores''))
    (and_then (raise_if (\<not> dkeys grouped_splits \<subseteq> dkeys split_by_dim)
       (ValueError ''grouped dimensions are not in the operation''))
    (and_then (check_grouped split_by_dim grouped_splits)
    (if grouped_splits = [] then
       core_to_slice_mapping dims splits n (index_of_opt dims contiguous_dim)
     else
      (let grouped_dims = map fst grouped_splits;
           local_dims = filter (\<lambda>d. d \<notin> set grouped_dims) dims;
           owner_count = prod_list (map snd grouped_splits) in
       if owner_count \<le> 0 \<or> n mod owner_count \<noteq> 0 then
         Inl (ValueError ''grouped ownership does not divide the operation'')
       else
        (let group_size = n div owner_count;
             local_splits = map (\<lambda>d. the (map_of split_by_dim d)) local_dims in
         if prod_list local_splits \<noteq> group_size then
           Inl (ValueError ''operation splits do not fill each owner group'')
         else
          rbind (core_to_slice_mapping grouped_dims (map snd grouped_splits) owner_count None)
            (\<lambda>owner_mapping.
          rbind (core_to_slice_mapping local_dims local_splits group_size
                   (index_of_opt local_dims contiguous_dim)) (\<lambda>local_mapping.
          Inr (dict_merge (dict_of (subs_dict owner_mapping (FloorDiv CoreId group_size)))
                 (subs_dict local_mapping (ModE CoreId group_size)))))))))))"

definition derive_partition_mapping ::
  "symbol list \<Rightarrow> int list \<Rightarrow> int \<Rightarrow> (symbol, expr) dict result" where
  "derive_partition_mapping dims splits n =
    (let owner_count = prod_list splits in
     if owner_count \<le> 0 \<or> n \<le> 0 \<or> n mod owner_count \<noteq> 0 then
       Inl (ValueError ''partition owner count must divide num_cores'')
     else
      (let group_size = n div owner_count in
       rbind (core_to_slice_mapping dims splits owner_count None) (\<lambda>mapping.
       Inr (subs_dict mapping (FloorDiv CoreId group_size)))))"

section \<open>Mixed-radix digits\<close>

fun digits :: "int list \<Rightarrow> int \<Rightarrow> int list" where
  "digits [] c = []"
| "digits (s # ss) c = c mod s # digits ss (c div s)"

fun undigits :: "int list \<Rightarrow> int list \<Rightarrow> int" where
  "undigits (s # ss) (d # ds) = d + s * undigits ss ds"
| "undigits _ _ = 0"

definition in_ranges :: "int list \<Rightarrow> int list \<Rightarrow> bool" where
  "in_ranges ss ds \<longleftrightarrow> list_all2 (\<lambda>d s. 0 \<le> d \<and> d < s) ds ss"

lemma length_digits [simp]: "length (digits ss c) = length ss"
  by (induction ss arbitrary: c) auto

lemma digits_in_ranges: "\<forall>s \<in> set ss. 0 < s \<Longrightarrow> in_ranges ss (digits ss c)"
  by (induction ss arbitrary: c) (auto simp: in_ranges_def)

lemma digits_nth:
  "\<forall>s \<in> set ss. 0 < s \<Longrightarrow> j < length ss \<Longrightarrow>
     digits ss c ! j = c div prod_list (take j ss) mod (ss ! j)"
proof (induction ss arbitrary: c j)
  case (Cons s ss)
  show ?case
  proof (cases j)
    case (Suc i)
    have "0 < prod_list (take i ss)"
      by (rule prod_list_pos) (use Cons.prems(1) in_set_takeD in fastforce)
    then show ?thesis using Cons Suc by (simp add: zdiv_zmult2_eq)
  qed simp
qed simp

lemma undigits_range:
  "in_ranges ss ds \<Longrightarrow> 0 \<le> undigits ss ds \<and> undigits ss ds < prod_list ss"
proof (induction ss ds rule: undigits.induct)
  case (1 s ss d ds)
  then have d: "0 \<le> d" "d < s" and u: "0 \<le> undigits ss ds" "undigits ss ds + 1 \<le> prod_list ss"
    by (auto simp: in_ranges_def)
  have "s * (undigits ss ds + 1) \<le> s * prod_list ss"
    using d u(2) by (intro mult_left_mono) linarith+
  then show ?case using d u(1) by (simp add: algebra_simps)
qed (auto simp: in_ranges_def)

lemma digits_undigits: "in_ranges ss ds \<Longrightarrow> digits ss (undigits ss ds) = ds"
proof (induction ss ds rule: undigits.induct)
  case (1 s ss d ds)
  then show ?case by (auto simp: in_ranges_def)
qed (auto simp: in_ranges_def)

lemma undigits_digits:
  "\<forall>s \<in> set ss. 0 < s \<Longrightarrow> 0 \<le> c \<Longrightarrow> undigits ss (digits ss c) = c mod prod_list ss"
proof (induction ss arbitrary: c)
  case (Cons s ss)
  then show ?case
    using zmod_zmult2_eq [of "prod_list ss" c s] prod_list_pos [of ss]
    by (simp add: pos_imp_zdiv_nonneg_iff add.commute)
qed simp

text \<open>The cores whose digits are \<open>ds\<close> are one residue class.\<close>

lemma digits_eq_iff:
  assumes pos: "\<forall>s \<in> set ss. 0 < s" and ds: "in_ranges ss ds" and c: "0 \<le> c"
  shows "digits ss c = ds \<longleftrightarrow> c mod prod_list ss = undigits ss ds"
proof
  assume "c mod prod_list ss = undigits ss ds"
  then have "undigits ss (digits ss c) = undigits ss ds" using undigits_digits [OF pos c] by simp
  then show "digits ss c = ds"
    using digits_undigits [OF ds] digits_undigits [OF digits_in_ranges [OF pos]] by metis
qed (use undigits_digits [OF pos c] in auto)

lemma card_residue_class:
  assumes P: "0 < P" and n: "n = k * P" "0 \<le> k" and r: "0 \<le> r" "r < (P::int)"
  shows "card {c. 0 \<le> c \<and> c < n \<and> c mod P = r} = nat k"
proof -
  have "bij_betw (\<lambda>i. i * P + r) {0..<k} {c. 0 \<le> c \<and> c < n \<and> c mod P = r}"
  proof (rule bij_betw_byWitness [where f' = "\<lambda>c. c div P"])
    show "\<forall>i \<in> {0..<k}. (i * P + r) div P = i" using P r by simp
    show "\<forall>c \<in> {c. 0 \<le> c \<and> c < n \<and> c mod P = r}. c div P * P + r = c"
      using div_mult_mod_eq [of _ P] by auto
    show "(\<lambda>i. i * P + r) ` {0..<k} \<subseteq> {c. 0 \<le> c \<and> c < n \<and> c mod P = r}"
    proof
      fix c assume "c \<in> (\<lambda>i. i * P + r) ` {0..<k}"
      then obtain i where "c = i * P + r" "i \<in> {0..<k}" by blast
      then have i: "c = i * P + r" "0 \<le> i" "i < k" by simp_all
      have "(i + 1) * P \<le> k * P" using i P by (intro mult_right_mono) simp_all
      then show "c \<in> {c. 0 \<le> c \<and> c < n \<and> c mod P = r}"
        using r n(1) i P by (simp add: algebra_simps)
    qed
    show "(\<lambda>c. c div P) ` {c. 0 \<le> c \<and> c < n \<and> c mod P = r} \<subseteq> {0..<k}"
      using P n(1) div_less_of_less_mult [of P] by (auto simp: pos_imp_zdiv_nonneg_iff)
  qed
  then show ?thesis using bij_betw_same_card by fastforce
qed

section \<open>Even layouts\<close>

text \<open>
  What every generator promises: each core has a slot inside its split on every dimension,
  and each combination of slots is held by the same number of cores.
\<close>

definition slot_of :: "(symbol, expr) dict \<Rightarrow> symbol \<Rightarrow> int \<Rightarrow> int option" where
  "slot_of m d c = (case map_of m d of None \<Rightarrow> None | Some e \<Rightarrow> value_at e c)"

definition holders :: "symbol list \<Rightarrow> int \<Rightarrow> (symbol, expr) dict \<Rightarrow> (symbol \<Rightarrow> int) \<Rightarrow> int set" where
  "holders dims n m x = {c. 0 \<le> c \<and> c < n \<and> (\<forall>d \<in> set dims. slot_of m d c = Some (x d))}"

definition inside :: "symbol list \<Rightarrow> int list \<Rightarrow> (symbol \<Rightarrow> int) \<Rightarrow> bool" where
  "inside dims splits x \<longleftrightarrow> (\<forall>(d, s) \<in> set (zip dims splits). 0 \<le> x d \<and> x d < s)"

definition slots_inside :: "symbol list \<Rightarrow> int list \<Rightarrow> int \<Rightarrow> (symbol, expr) dict \<Rightarrow> bool" where
  "slots_inside dims splits n m \<longleftrightarrow> (\<forall>c. 0 \<le> c \<and> c < n \<longrightarrow>
     (\<forall>(d, s) \<in> set (zip dims splits). \<exists>v. slot_of m d c = Some v \<and> 0 \<le> v \<and> v < s))"

definition even_layout :: "symbol list \<Rightarrow> int list \<Rightarrow> int \<Rightarrow> (symbol, expr) dict \<Rightarrow> bool" where
  "even_layout dims splits n m \<longleftrightarrow> length dims = length splits \<and> slots_inside dims splits n m
     \<and> (\<forall>x. inside dims splits x \<longrightarrow> card (holders dims n m x) = nat (n div prod_list splits))"

lemma slots_insideD:
  "slots_inside dims splits n m \<Longrightarrow> 0 \<le> c \<Longrightarrow> c < n \<Longrightarrow> (d, s) \<in> set (zip dims splits) \<Longrightarrow>
     \<exists>v. slot_of m d c = Some v \<and> 0 \<le> v \<and> v < s"
  unfolding slots_inside_def by blast

lemma value_slice_coordinate:
  "split \<noteq> 0 \<Longrightarrow> stride \<noteq> 0 \<Longrightarrow>
     value_at (slice_coordinate stride split) c = Some (c div stride mod split)"
  by simp

lemma map_of_slice_loop_other:
  "d \<notin> (!) dims ` set is \<Longrightarrow> map_of (slice_loop dims splits is stride res) d = map_of res d"
  by (induction "is" arbitrary: stride res) (simp_all add: update_conv')

lemma map_of_slice_loop:
  assumes "distinct dims" "distinct is" "\<forall>i \<in> set is. i < length dims" "j < length is"
  shows "map_of (slice_loop dims splits is stride res) (dims ! (is ! j)) =
    Some (slice_coordinate (stride * prod_list (map ((!) splits) (take j is))) (splits ! (is ! j)))"
  using assms(2-)
proof (induction "is" arbitrary: stride res j)
  case (Cons i "is")
  show ?case
  proof (cases j)
    case 0
    have "dims ! i \<notin> (!) dims ` set is"
      using Cons.prems assms(1) by (auto simp: nth_eq_iff_index_eq)
    then show ?thesis using 0 by (simp add: map_of_slice_loop_other update_conv')
  next
    case (Suc k)
    then show ?thesis
      using Cons.IH [of k "stride * splits ! i"] Cons.prems by (simp add: mult.assoc)
  qed
qed simp

lemma prod_list_permute:
  assumes "mset order = mset [0..<length splits]"
  shows "prod_list (map ((!) splits) order) = prod_list (splits :: int list)"
proof -
  have "mset (map ((!) splits) order) = mset (map ((!) splits) [0..<length splits])"
    using assms by simp
  then show ?thesis by (metis map_nth prod_mset_prod_list)
qed

lemma dim_order_mset:
  assumes "dim_order splits cd = Inr order"
  shows "mset order = mset [0..<length splits]"
proof (cases cd)
  case (Some i)
  then have "order = i # remove1 i [0..<length splits] \<and> i < length splits
      \<or> order = [0..<length splits]"
    using assms by (auto simp: dim_order_def split: if_splits)
  then show ?thesis by (auto simp del: upt_Suc)
qed (use assms in \<open>simp add: dim_order_def\<close>)

text \<open>An order of the dimensions visits every index once.\<close>

lemma order_facts:
  assumes "mset order = mset [0..<k]"
  shows "set order = {0..<k}" "distinct order" "length order = k"
    "\<And>j. j < k \<Longrightarrow> order ! j < k" "\<And>i. i < k \<Longrightarrow> \<exists>j < k. order ! j = i"
proof -
  show st: "set order = {0..<k}" using assms by (metis atLeastLessThan_upt set_mset_mset)
  show "distinct order" using assms by (metis distinct_upt mset_eq_imp_distinct_iff)
  show len: "length order = k" using assms by (metis diff_zero length_upt size_mset)
  show "order ! j < k" if "j < k" for j using that st len nth_mem [of j order] by simp
  show "\<exists>j < k. order ! j = i" if "i < k" for i
    using that st len by (metis atLeastLessThan_iff in_set_conv_nth zero_le)
qed

lemma slots_digits:
  assumes dims: "distinct dims" "length dims = length splits"
    and pos: "\<forall>s \<in> set splits. 0 < s" and order: "mset order = mset [0..<length splits]"
    and j: "j < length splits"
  shows "slot_of (slice_loop dims splits order 1 []) (dims ! (order ! j)) c
    = Some (digits (map ((!) splits) order) c ! j)"
proof -
  note set = order_facts(1) [OF order] and dist = order_facts(2) [OF order]
    and len = order_facts(3) [OF order]
  let ?ss = "map ((!) splits) order"
  have pos': "\<forall>s \<in> set ?ss. 0 < s" using pos set by auto
  have "0 < prod_list (take j ?ss)"
    by (rule prod_list_pos) (use pos' in_set_takeD in fastforce)
  moreover have "0 < splits ! (order ! j)" using pos set nth_mem [of j order] j len by simp
  ultimately show ?thesis
    using map_of_slice_loop [OF dims(1) dist, of j splits 1 "[]"] set dims(2) j len
      digits_nth [OF pos', of j c]
    by (simp add: slot_of_def take_map del: slice_coordinate.simps
        add: value_slice_coordinate)
qed

lemma core_to_slice_mapping_Inr:
  assumes "core_to_slice_mapping dims splits n cd = Inr m"
  obtains order where "length dims = length splits" "prod_list splits \<noteq> 0"
    "prod_list splits \<le> n" "prod_list splits dvd n" "dim_order splits cd = Inr order"
    "m = slice_loop dims splits order 1 []"
  using assms
  by (auto simp: core_to_slice_mapping_def Let_def not_less mod_eq_0_iff_dvd split: if_splits)

lemma core_to_slice_even:
  assumes ok: "core_to_slice_mapping dims splits n cd = Inr m"
    and dims: "distinct dims" and pos: "\<forall>s \<in> set splits. 0 < s"
  shows "even_layout dims splits n m"
proof -
  obtain order where len: "length dims = length splits" and dvd: "prod_list splits dvd n"
    and le: "prod_list splits \<le> n" and order: "mset order = mset [0..<length splits]"
    and m: "m = slice_loop dims splits order 1 []"
    using core_to_slice_mapping_Inr [OF ok] dim_order_mset by metis
  note set = order_facts(1) [OF order] and lo = order_facts(3) [OF order]
    and idx = order_facts(4) [OF order] and pos_of = order_facts(5) [OF order]
  let ?ss = "map ((!) splits) order"
  have pos': "\<forall>s \<in> set ?ss. 0 < s" using pos set by auto
  have P: "prod_list ?ss = prod_list splits" by (rule prod_list_permute [OF order])
  have P0: "0 < prod_list splits" by (rule prod_list_pos [OF pos])
  obtain k where k: "n = k * prod_list splits" "0 \<le> k"
    using dvd le P0 by (auto simp: dvd_def mult.commute zero_le_mult_iff)
  note slot = slots_digits [OF dims len pos order]
  have inside_ok: "slots_inside dims splits n m"
    unfolding slots_inside_def
  proof (intro allI impI ballI, clarify)
    fix c d sp assume "(d, sp) \<in> set (zip dims splits)"
    then obtain i where i: "i < length splits" "d = dims ! i" "sp = splits ! i"
      using len by (auto simp: in_set_zip)
    then obtain j where j: "j < length splits" "order ! j = i" using pos_of by blast
    have "in_ranges ?ss (digits ?ss c)" by (rule digits_in_ranges [OF pos'])
    then have "0 \<le> digits ?ss c ! j \<and> digits ?ss c ! j < splits ! i"
      using j lo by (auto simp: in_ranges_def list_all2_conv_all_nth)
    then show "\<exists>v. slot_of m d c = Some v \<and> 0 \<le> v \<and> v < sp"
      using slot [OF j(1), of c] j(2) m i by simp
  qed
  have "card (holders dims n m x) = nat (n div prod_list splits)" if x: "inside dims splits x" for x
  proof -
    define ds where "ds = map (\<lambda>i. x (dims ! i)) order"
    have xi: "0 \<le> x (dims ! i) \<and> x (dims ! i) < splits ! i" if "i < length splits" for i
    proof -
      have "(dims ! i, splits ! i) \<in> set (zip dims splits)" using that len by (auto simp: set_zip)
      then show ?thesis using x unfolding inside_def by blast
    qed
    have ds: "in_ranges ?ss ds"
      using xi idx lo by (auto simp: in_ranges_def ds_def list_all2_conv_all_nth)
    have iff: "(\<forall>d \<in> set dims. slot_of m d c = Some (x d)) \<longleftrightarrow> digits ?ss c = ds" for c
    proof
      assume "\<forall>d \<in> set dims. slot_of m d c = Some (x d)"
      then have "digits ?ss c ! j = x (dims ! (order ! j))" if "j < length splits" for j
        using slot [OF that, of c] idx [OF that] len m nth_mem by auto
      then show "digits ?ss c = ds" using lo by (intro nth_equalityI) (simp_all add: ds_def)
    next
      assume eq: "digits ?ss c = ds"
      have "slot_of m (dims ! i) c = Some (x (dims ! i))" if i: "i < length splits" for i
      proof -
        obtain j where j: "j < length splits" "order ! j = i" using pos_of [OF i] by blast
        then show ?thesis using slot [OF j(1), of c] eq lo m by (auto simp: ds_def)
      qed
      then show "\<forall>d \<in> set dims. slot_of m d c = Some (x d)" using len by (auto simp: in_set_conv_nth)
    qed
    have "holders dims n m x = {c. 0 \<le> c \<and> c < n \<and> c mod prod_list splits = undigits ?ss ds}"
      unfolding holders_def iff using digits_eq_iff [OF pos' ds] P by auto
    moreover have "0 \<le> undigits ?ss ds" "undigits ?ss ds < prod_list splits"
      using undigits_range [OF ds] P by simp_all
    ultimately show ?thesis using card_residue_class [OF P0 k] P0 k(1) by simp
  qed
  then show ?thesis using len inside_ok by (simp add: even_layout_def)
qed

text \<open>
  The interface of the generators: given distinct dimensions and positive splits, a map that
  is returned is an even layout.  What clients use follows from that alone.
\<close>

locale layout_generator =
  fixes gen :: "symbol list \<Rightarrow> int list \<Rightarrow> int \<Rightarrow> (symbol, expr) dict result"
  assumes gen_even: "gen dims splits n = Inr m \<Longrightarrow> distinct dims \<Longrightarrow> \<forall>s \<in> set splits. 0 < s \<Longrightarrow>
    even_layout dims splits n m"
begin

text \<open>Evaluating the map on every core raises nothing.\<close>

lemma rows_valid:
  assumes "gen dims splits n = Inr m" "distinct dims" "\<forall>s \<in> set splits. 0 < s" "0 < n"
  shows "\<exists>rows. owner_slots m (zip dims splits) n = Inr rows"
proof -
  have ev: "slots_inside dims splits n m" "length dims = length splits"
    using gen_even [OF assms(1-3)] by (simp_all add: even_layout_def)
  have slot: "\<exists>e v. map_of m d = Some e \<and> value_at e c = Some v \<and> 0 \<le> v \<and> v < s"
    if "0 \<le> c" "c < n" "(d, s) \<in> set (zip dims splits)" for c d s
    using ev(1) that unfolding slots_inside_def slot_of_def
    by (fastforce split: option.splits)
  have row: "\<exists>row. owner_row m c (zip dims splits) = Inr row" if "0 \<le> c" "c \<le> n - 1" for c
    unfolding owner_row_Inr using slot [of c] that by auto
  then obtain f where f: "\<And>c. 0 \<le> c \<Longrightarrow> c \<le> n - 1 \<Longrightarrow> owner_row m c (zip dims splits) = Inr (f c)"
    by metis
  have keys: "dkeys (zip dims splits) \<subseteq> dkeys m"
  proof
    fix d assume "d \<in> dkeys (zip dims splits)"
    then obtain s where "(d, s) \<in> set (zip dims splits)" by auto
    then obtain e where "map_of m d = Some e" using slot [of 0] assms(4) by blast
    then show "d \<in> dkeys m" by (metis domI dom_map_of_conv_image_fst list.set_map)
  qed
  have "list_all2 (\<lambda>c row. owner_row m c (zip dims splits) = Inr row) [0..n - 1] (map f [0..n - 1])"
    using f by (simp add: list_all2_conv_all_nth nth_upto)
  then have "traverse (\<lambda>c. owner_row m c (zip dims splits)) [0..n - 1] = Inr (map f [0..n - 1])"
    by (simp add: traverse_Inr)
  then show ?thesis using keys assms(4) by (auto simp: owner_slots_def)
qed

text \<open>With as many cores as slices, every slice has exactly one core.\<close>

lemma unique_holder:
  assumes "gen dims splits n = Inr m" "distinct dims" "\<forall>s \<in> set splits. 0 < s"
    and "n = prod_list splits" and "inside dims splits x"
  shows "\<exists>c. holders dims n m x = {c}"
proof -
  have "0 < prod_list splits" by (rule prod_list_pos [OF assms(3)])
  then have "card (holders dims n m x) = 1"
    using gen_even [OF assms(1-3)] assms(4,5) by (simp add: even_layout_def)
  then show ?thesis by (rule card_1_singletonE) blast
qed

end

interpretation slice: layout_generator "\<lambda>dims splits n. core_to_slice_mapping dims splits n cd" for cd
  by unfold_locales (rule core_to_slice_even)

subsection \<open>Substituted and merged maps\<close>

lemma slot_of_subs:
  assumes "value_at e c = Some v"
  shows "slot_of (subs_dict m e) d c = slot_of m d v"
  by (cases "map_of m d") (simp_all add: slot_of_def subs_dict_def map_of_map value_at_subs [OF assms])

lemma map_of_fold_update:
  "map_of (fold (\<lambda>(k, v) d. AList.update k v d) b a) = map_of a ++ map_of (rev b)"
proof (induction b arbitrary: a)
  case (Cons kv b)
  then show ?case by (cases kv) (simp add: update_conv' map_add_upd_left map_add_def fun_eq_iff
        split: option.splits)
qed simp

lemma distinct_fold_update:
  "distinct (map fst a) \<Longrightarrow> distinct (map fst (fold (\<lambda>(k, v) d. AList.update k v d) b a))"
  by (induction b arbitrary: a) (auto simp: distinct_update)

lemma map_of_rev: "distinct (map fst b) \<Longrightarrow> map_of (rev b) = map_of b"
  by (rule map_of_inject_set [THEN iffD2]) (simp_all add: rev_map [symmetric])

lemma map_of_dict_merge:
  "distinct (map fst b) \<Longrightarrow> map_of (dict_merge a b) = map_of a ++ map_of b"
  by (simp add: dict_merge_def map_of_fold_update map_of_rev)

lemma map_of_dict_of: "distinct (map fst b) \<Longrightarrow> map_of (dict_of b) = map_of b"
  by (simp add: dict_of_def map_of_fold_update map_of_rev)

lemma distinct_dict_of: "distinct (map fst (dict_of b))"
  by (simp add: dict_of_def distinct_fold_update)

lemma slice_loop_keys:
  "dkeys (slice_loop dims splits is stride res) = dkeys res \<union> (!) dims ` set is"
  by (induction "is" arbitrary: stride res) (simp_all add: dom_update Un_ac)

lemma slice_loop_distinct:
  "distinct (map fst res) \<Longrightarrow> distinct (map fst (slice_loop dims splits is stride res))"
  by (induction "is" arbitrary: stride res) (simp_all add: distinct_update)

lemma core_to_slice_keys:
  assumes "core_to_slice_mapping dims splits n cd = Inr m"
  shows "distinct (map fst m)" "dkeys m = set dims"
proof -
  obtain order where len: "length dims = length splits"
    and order: "mset order = mset [0..<length splits]"
    and m: "m = slice_loop dims splits order 1 []"
    using core_to_slice_mapping_Inr [OF assms] dim_order_mset by metis
  show "distinct (map fst m)" unfolding m by (rule slice_loop_distinct) simp
  have "(!) dims ` set order = set dims"
    unfolding order_facts(1) [OF order] len [symmetric] by (auto simp: set_conv_nth)
  then show "dkeys m = set dims" unfolding m slice_loop_keys by simp
qed

lemma inside_holder:
  assumes "even_layout dims splits (prod_list splits) m" "\<forall>s \<in> set splits. 0 < s"
    and "inside dims splits x"
  obtains r where "holders dims (prod_list splits) m x = {r}" "0 \<le> r" "r < prod_list splits"
proof -
  have "0 < prod_list splits" by (rule prod_list_pos [OF assms(2)])
  then have "card (holders dims (prod_list splits) m x) = 1"
    using assms(1,3) by (simp add: even_layout_def)
  then obtain r where r: "holders dims (prod_list splits) m x = {r}" by (rule card_1_singletonE)
  then have "r \<in> holders dims (prod_list splits) m x" by simp
  then show thesis using that [OF r] by (simp add: holders_def)
qed

text \<open>Where a core sits in its group.\<close>

lemma group_of_core:
  assumes "0 < g" "n = P * g" "0 \<le> c" "c < (n :: int)"
  shows "0 \<le> c div g" "c div g < P" "0 \<le> c mod g" "c mod g < g"
  using assms div_less_of_less_mult [of g c P] by (simp_all add: pos_imp_zdiv_nonneg_iff)

lemma derive_partition_mapping_Inr:
  assumes "derive_partition_mapping dims splits n = Inr m"
  obtains g m0 where "0 < g" "n = prod_list splits * g" "0 < prod_list splits"
    "core_to_slice_mapping dims splits (prod_list splits) None = Inr m0"
    "m = subs_dict m0 (FloorDiv CoreId g)"
proof -
  let ?P = "prod_list splits"
  have P: "0 < ?P" "0 < n" "n mod ?P = 0"
    and rest: "rbind (core_to_slice_mapping dims splits ?P None)
      (\<lambda>mapping. Inr (subs_dict mapping (FloorDiv CoreId (n div ?P)))) = Inr m"
    using assms by (auto simp: derive_partition_mapping_def Let_def split: if_splits)
  obtain k where k: "n = ?P * k" using P(3) by (auto simp: mod_eq_0_iff_dvd)
  then have "0 < k" using P by (simp add: zero_less_mult_iff)
  moreover have "n div ?P = k" using k P by simp
  ultimately show thesis using that [of k] rest k P by auto
qed

text \<open>A combination of slots is held by one contiguous group of cores.\<close>

lemma partition_holders:
  assumes ok: "derive_partition_mapping dims splits n = Inr m"
    and dims: "distinct dims" and pos: "\<forall>s \<in> set splits. 0 < s" and x: "inside dims splits x"
  obtains r where "0 \<le> r" "r < prod_list splits"
    "holders dims n m x = {r * (n div prod_list splits)..<(r + 1) * (n div prod_list splits)}"
proof -
  from ok obtain g m0 where g: "0 < g" and n: "n = prod_list splits * g"
    and P: "0 < prod_list splits"
    and m0: "core_to_slice_mapping dims splits (prod_list splits) None = Inr m0"
    and m: "m = subs_dict m0 (FloorDiv CoreId g)"
    by (rule derive_partition_mapping_Inr)
  have slot: "slot_of m d c = slot_of m0 d (c div g)" for d c
    unfolding m by (rule slot_of_subs) (use g in simp)
  obtain r where r: "holders dims (prod_list splits) m0 x = {r}" "0 \<le> r" "r < prod_list splits"
    by (rule inside_holder [OF core_to_slice_even [OF m0 dims pos] pos x])
  have "c \<in> holders dims n m x \<longleftrightarrow>
      0 \<le> c \<and> c < n \<and> c div g \<in> holders dims (prod_list splits) m0 x" for c
    using group_of_core [OF g n] by (auto simp: holders_def slot)
  then have mem: "c \<in> holders dims n m x \<longleftrightarrow> 0 \<le> c \<and> c < n \<and> c div g = r" for c
    using r(1) by simp
  have "(r + 1) * g \<le> prod_list splits * g" using r(3) g by (intro mult_right_mono) simp_all
  moreover have "0 \<le> r * g" using r(2) g by simp
  ultimately have "0 \<le> c \<and> c < n \<and> c div g = r \<longleftrightarrow> c \<in> {r * g..<(r + 1) * g}" for c
    using mult_div_bounds [OF g, of c] div_eq_block [OF g, of r c] n by (auto simp: algebra_simps)
  then have "holders dims n m x = {r * g..<(r + 1) * g}" using mem by blast
  moreover have "n div prod_list splits = g" using n P by simp
  ultimately show thesis using that r by simp
qed

lemma derive_partition_even:
  assumes ok: "derive_partition_mapping dims splits n = Inr m"
    and dims: "distinct dims" and pos: "\<forall>s \<in> set splits. 0 < s"
  shows "even_layout dims splits n m"
proof -
  from ok obtain g m0 where g: "0 < g" and n: "n = prod_list splits * g"
    and m0: "core_to_slice_mapping dims splits (prod_list splits) None = Inr m0"
    and m: "m = subs_dict m0 (FloorDiv CoreId g)"
    by (rule derive_partition_mapping_Inr)
  have ev: "even_layout dims splits (prod_list splits) m0" by (rule core_to_slice_even [OF m0 dims pos])
  have slot: "slot_of m d c = slot_of m0 d (c div g)" for d c
    unfolding m by (rule slot_of_subs) (use g in simp)
  have "slots_inside dims splits n m"
    using ev group_of_core [OF g n] unfolding even_layout_def slots_inside_def slot by blast
  moreover have "card (holders dims n m x) = nat (n div prod_list splits)"
    if x: "inside dims splits x" for x
    by (rule partition_holders [OF ok dims pos x]) (simp add: algebra_simps)
  ultimately show ?thesis using ev by (simp add: even_layout_def)
qed

interpretation partition: layout_generator derive_partition_mapping
  by unfold_locales (rule derive_partition_even)

subsection \<open>Grouped layouts are even\<close>

lemma check_grouped_Inr:
  "check_grouped sbd gs = Inr () \<longleftrightarrow> (\<forall>(d, s) \<in> set gs. map_of sbd d = Some s)"
  by (induction gs) auto

text \<open>What a grouped derivation was built from.\<close>

definition grouped_parts ::
  "symbol list \<Rightarrow> int list \<Rightarrow> int \<Rightarrow> (symbol, int) dict \<Rightarrow> (symbol, expr) dict \<Rightarrow> (symbol, int) dict
   \<Rightarrow> int \<Rightarrow> (symbol, expr) dict \<Rightarrow> (symbol, expr) dict \<Rightarrow> nat option \<Rightarrow> bool" where
  "grouped_parts dims splits n gs m ls g om lm cdi \<longleftrightarrow>
     n = prod_list splits \<and> 0 < prod_list (map snd gs) \<and> n = prod_list (map snd gs) * g
     \<and> set gs \<subseteq> set (zip dims splits)
     \<and> ls = map (\<lambda>d. (d, the (map_of (zip dims splits) d))) (filter (\<lambda>d. d \<notin> dkeys gs) dims)
     \<and> prod_list (map snd ls) = g
     \<and> core_to_slice_mapping (map fst gs) (map snd gs) (prod_list (map snd gs)) None = Inr om
     \<and> core_to_slice_mapping (map fst ls) (map snd ls) g cdi = Inr lm
     \<and> m = dict_merge (dict_of (subs_dict om (FloorDiv CoreId g))) (subs_dict lm (ModE CoreId g))"

lemma derive_core_mapping_len:
  "derive_core_mapping dims splits n cd gs = Inr m \<Longrightarrow> length dims = length splits"
  by (simp add: derive_core_mapping_def)

lemma derive_core_mapping_grouped:
  assumes ok: "derive_core_mapping dims splits n cd gs = Inr m" and gs: "gs \<noteq> []"
    and dims: "distinct dims"
  obtains ls g om lm cdi where "grouped_parts dims splits n gs m ls g om lm cdi"
proof -
  have len: "length dims = length splits" by (rule derive_core_mapping_len [OF ok])
  have dz: "distinct (map fst (zip dims splits))" using dims len by simp
  note sbd = map_of_dict_of [OF dz]
  let ?O = "prod_list (map snd gs)"
  let ?loc = "filter (\<lambda>d. d \<notin> dkeys gs) dims"
  let ?ls = "map (\<lambda>d. (d, the (map_of (zip dims splits) d))) ?loc"
  note run = ok [unfolded derive_core_mapping_def Let_def sbd]
  have O: "0 < ?O" "n mod ?O = 0" and n: "n = prod_list splits"
    and cg: "check_grouped (dict_of (zip dims splits)) gs = Inr ()"
    using run gs by (auto split: if_splits)
  obtain g where g: "n = ?O * g" using O(2) by (auto simp: mod_eq_0_iff_dvd)
  then have ng: "n div ?O = g" using O(1) by simp
  have fsts: "map fst ?ls = ?loc" "map snd ?ls = map (\<lambda>d. the (map_of (zip dims splits) d)) ?loc"
    by (simp_all add: comp_def)
  have rest: "prod_list (map snd ?ls) = g"
    "rbind (core_to_slice_mapping (map fst gs) (map snd gs) ?O None) (\<lambda>om.
       rbind (core_to_slice_mapping (map fst ?ls) (map snd ?ls) g (index_of_opt ?loc cd)) (\<lambda>lm.
       Inr (dict_merge (dict_of (subs_dict om (FloorDiv CoreId g))) (subs_dict lm (ModE CoreId g)))))
     = Inr m"
    using run gs O ng unfolding fsts by (auto split: if_splits)
  from rest(2) obtain om lm where
    "core_to_slice_mapping (map fst gs) (map snd gs) ?O None = Inr om"
    "core_to_slice_mapping (map fst ?ls) (map snd ?ls) g (index_of_opt ?loc cd) = Inr lm"
    "m = dict_merge (dict_of (subs_dict om (FloorDiv CoreId g))) (subs_dict lm (ModE CoreId g))"
    by auto
  moreover have "set gs \<subseteq> set (zip dims splits)"
    using cg map_of_SomeD unfolding check_grouped_Inr sbd by fast
  ultimately have "grouped_parts dims splits n gs m ?ls g om lm (index_of_opt ?loc cd)"
    unfolding grouped_parts_def using n O(1) g rest(1) by blast
  then show thesis by (rule that)
qed

lemma grouped_facts:
  assumes gp: "grouped_parts dims splits n gs m ls g om lm cdi"
    and dims: "distinct dims" "length dims = length splits" and dgs: "distinct (map fst gs)"
    and pos: "\<forall>s \<in> set splits. 0 < s"
  shows "0 < g" and "set dims = dkeys gs \<union> dkeys ls" and "set ls \<subseteq> set (zip dims splits)"
    and "\<And>d c. d \<in> dkeys gs \<Longrightarrow> slot_of m d c = slot_of om d (c div g)"
    and "\<And>d c. d \<in> dkeys ls \<Longrightarrow> slot_of m d c = slot_of lm d (c mod g)"
    and "even_layout (map fst gs) (map snd gs) (prod_list (map snd gs)) om"
    and "even_layout (map fst ls) (map snd ls) (prod_list (map snd ls)) lm"
proof -
  note gp' = gp [unfolded grouped_parts_def]
  have sub: "set gs \<subseteq> set (zip dims splits)" using gp' by blast
  have kgs: "dkeys gs \<subseteq> set dims" using sub set_zip_leftD by fastforce
  have ls: "ls = map (\<lambda>d. (d, the (map_of (zip dims splits) d))) (filter (\<lambda>d. d \<notin> dkeys gs) dims)"
    using gp' by blast
  have kls: "map fst ls = filter (\<lambda>d. d \<notin> dkeys gs) dims" by (simp add: ls comp_def)
  then have dls: "distinct (map fst ls)" using dims(1) by simp
  show keys: "set dims = dkeys gs \<union> dkeys ls" unfolding kls using kgs by auto
  show sls: "set ls \<subseteq> set (zip dims splits)"
  proof
    fix y assume "y \<in> set ls"
    then obtain d where d: "y = (d, the (map_of (zip dims splits) d))" "d \<in> set dims"
      using ls by auto
    then obtain v where "map_of (zip dims splits) d = Some v"
      using dims(2) by (metis map_of_zip_is_Some)
    then show "y \<in> set (zip dims splits)" using d map_of_SomeD by fastforce
  qed
  have P: "0 < prod_list splits" by (rule prod_list_pos [OF pos])
  then show g: "0 < g" using gp' by (metis zero_less_mult_pos)
  have om: "core_to_slice_mapping (map fst gs) (map snd gs) (prod_list (map snd gs)) None = Inr om"
    and lm: "core_to_slice_mapping (map fst ls) (map snd ls) (prod_list (map snd ls)) cdi = Inr lm"
    and m: "m = dict_merge (dict_of (subs_dict om (FloorDiv CoreId g))) (subs_dict lm (ModE CoreId g))"
    using gp' by blast+
  have fst_subs: "map fst (subs_dict f e) = map fst f" for f e
    by (simp add: subs_dict_def comp_def case_prod_unfold)
  have mo: "map_of m = map_of (subs_dict om (FloorDiv CoreId g)) ++ map_of (subs_dict lm (ModE CoreId g))"
    unfolding m using core_to_slice_keys(1) [OF om] core_to_slice_keys(1) [OF lm]
    by (simp add: map_of_dict_merge map_of_dict_of fst_subs)
  have dom_lm: "map_of (subs_dict lm (ModE CoreId g)) d = None \<longleftrightarrow> d \<notin> dkeys ls" for d
    using core_to_slice_keys(2) [OF lm] fst_subs [of lm]
    by (metis list.set_map map_of_eq_None_iff)
  have vals: "value_at (FloorDiv CoreId g) c = Some (c div g)" "value_at (ModE CoreId g) c = Some (c mod g)"
    for c using g by simp_all
  show "slot_of m d c = slot_of om d (c div g)" if "d \<in> dkeys gs" for d c
  proof -
    have "d \<notin> dkeys ls" using that kls by simp
    then have "map_of m d = map_of (subs_dict om (FloorDiv CoreId g)) d"
      using mo dom_lm [of d] by (simp add: map_add_def)
    then show ?thesis using slot_of_subs [OF vals(1), of om d c] by (simp add: slot_of_def)
  qed
  show "slot_of m d c = slot_of lm d (c mod g)" if "d \<in> dkeys ls" for d c
  proof -
    have "map_of m d = map_of (subs_dict lm (ModE CoreId g)) d"
      using mo dom_lm [of d] that by (auto simp: map_add_def split: option.splits)
    then show ?thesis using slot_of_subs [OF vals(2), of lm d c] by (simp add: slot_of_def)
  qed
  have "\<forall>s \<in> set (map snd gs). 0 < s" "\<forall>s \<in> set (map snd ls). 0 < s"
    using sub sls pos set_zip_rightD by fastforce+
  then show "even_layout (map fst gs) (map snd gs) (prod_list (map snd gs)) om"
    "even_layout (map fst ls) (map snd ls) (prod_list (map snd ls)) lm"
    using core_to_slice_even [OF om dgs] core_to_slice_even [OF lm dls] by blast+
qed

lemma zip_fst_snd: "zip (map fst xs) (map snd xs) = xs"
  by (induction xs) auto

lemma inside_mono: "set gs \<subseteq> set (zip dims splits) \<Longrightarrow> inside dims splits x \<Longrightarrow>
    inside (map fst gs) (map snd gs) x"
  unfolding inside_def zip_fst_snd by blast

lemma grouped_even:
  assumes gp: "grouped_parts dims splits n gs m ls g om lm cdi"
    and dims: "distinct dims" "length dims = length splits" and dgs: "distinct (map fst gs)"
    and pos: "\<forall>s \<in> set splits. 0 < s"
  shows "even_layout dims splits n m"
proof -
  note gp' = gp [unfolded grouped_parts_def]
  note gf = grouped_facts [OF gp dims dgs pos]
  let ?O = "prod_list (map snd gs)"
  have n: "n = prod_list splits" "n = ?O * g" and sub: "set gs \<subseteq> set (zip dims splits)"
    and pl: "prod_list (map snd ls) = g"
    using gp' by blast+
  note grp = group_of_core [OF gf(1) n(2)]
  have gl: "\<forall>s \<in> set (map snd gs). 0 < s" "\<forall>s \<in> set (map snd ls). 0 < s"
    using sub gf(3) pos set_zip_rightD by fastforce+
  have cover: "(d, s) \<in> set gs \<or> (d, s) \<in> set ls" if ds: "(d, s) \<in> set (zip dims splits)" for d s
  proof -
    have "d \<in> dkeys gs \<or> d \<in> dkeys ls" using ds gf(2) set_zip_leftD by fastforce
    then have "\<exists>s'. (d, s') \<in> set gs \<or> (d, s') \<in> set ls" by force
    then obtain s' where s': "(d, s') \<in> set gs \<or> (d, s') \<in> set ls" ..
    then have "(d, s') \<in> set (zip dims splits)" using sub gf(3) by blast
    then have "s' = s" using ds dims by (metis map_of_zip_inject map_of_is_SomeI map_fst_zip option.inject)
    then show ?thesis using s' by simp
  qed
  have "slots_inside dims splits n m"
    unfolding slots_inside_def
  proof (intro allI impI ballI, clarify)
    fix c d s assume c: "0 \<le> c" "c < n" and "(d, s) \<in> set (zip dims splits)"
    then consider "(d, s) \<in> set gs" | "(d, s) \<in> set ls" using cover by blast
    then show "\<exists>v. slot_of m d c = Some v \<and> 0 \<le> v \<and> v < s"
    proof cases
      case 1
      then have "slot_of m d c = slot_of om d (c div g)" by (intro gf(4)) force
      moreover have "slots_inside (map fst gs) (map snd gs) ?O om"
        using gf(6) by (simp add: even_layout_def)
      ultimately show ?thesis
        using slots_insideD [OF _ grp(1,2) [OF c]] 1 zip_fst_snd by metis
    next
      case 2
      then have "slot_of m d c = slot_of lm d (c mod g)" by (intro gf(5)) force
      moreover have "slots_inside (map fst ls) (map snd ls) g lm"
        using gf(7) pl by (simp add: even_layout_def)
      ultimately show ?thesis
        using slots_insideD [OF _ grp(3,4) [OF c]] 2 zip_fst_snd by metis
    qed
  qed
  moreover have "card (holders dims n m x) = nat (n div prod_list splits)"
    if x: "inside dims splits x" for x
  proof -
    obtain r where r: "holders (map fst gs) ?O om x = {r}" "0 \<le> r" "r < ?O"
      by (rule inside_holder [OF gf(6) gl(1) inside_mono [OF sub x]])
    obtain l where l: "holders (map fst ls) g lm x = {l}" "0 \<le> l" "l < g"
      using inside_holder [OF gf(7) gl(2) inside_mono [OF gf(3) x]] pl by metis
    have "(\<forall>d \<in> set dims. slot_of m d c = Some (x d)) \<longleftrightarrow>
        (\<forall>d \<in> dkeys gs. slot_of om d (c div g) = Some (x d))
        \<and> (\<forall>d \<in> dkeys ls. slot_of lm d (c mod g) = Some (x d))" for c
      unfolding gf(2) ball_Un using gf(4,5) by metis
    then have "c \<in> holders dims n m x \<longleftrightarrow> 0 \<le> c \<and> c < n
        \<and> c div g \<in> holders (map fst gs) ?O om x \<and> c mod g \<in> holders (map fst ls) g lm x" for c
      unfolding holders_def using grp [of c] by blast
    then have mem: "c \<in> holders dims n m x \<longleftrightarrow> 0 \<le> c \<and> c < n \<and> c div g = r \<and> c mod g = l" for c
      using r(1) l(1) by simp
    have "(r + 1) * g \<le> ?O * g" using r(3) gf(1) by (intro mult_right_mono) simp_all
    then have in_n: "0 \<le> r * g + l" "r * g + l < n"
      using r(2) l(2,3) gf(1) n(2) by (simp_all add: algebra_simps)
    have "c = r * g + l" if "c div g = r" "c mod g = l" for c
      using that div_mult_mod_eq [of c g] by simp
    moreover have "(r * g + l) div g = r" "(r * g + l) mod g = l" using l(2,3) by simp_all
    ultimately have "holders dims n m x = {r * g + l}" using mem in_n by blast
    then show ?thesis using n(1) prod_list_pos [OF pos] by simp
  qed
  ultimately show ?thesis using dims(2) by (simp add: even_layout_def)
qed

lemma derive_core_even:
  assumes ok: "derive_core_mapping dims splits n cd gs = Inr m"
    and dims: "distinct dims" and pos: "\<forall>s \<in> set splits. 0 < s" and dgs: "distinct (map fst gs)"
  shows "even_layout dims splits n m"
proof (cases "gs = []")
  case True
  then have "core_to_slice_mapping dims splits n (index_of_opt dims cd) = Inr m"
    using ok by (simp add: derive_core_mapping_def Let_def)
  then show ?thesis using core_to_slice_even dims pos by blast
next
  case False
  then show ?thesis
    using derive_core_mapping_grouped [OF ok False dims] grouped_even
      derive_core_mapping_len [OF ok] dims pos dgs by metis
qed

interpretation grouped: layout_generator
  "\<lambda>dims splits n. derive_core_mapping dims splits n cd (dict_of gs)" for cd gs
  by unfold_locales (rule derive_core_even [OF _ _ _ distinct_dict_of])

text \<open>On as many cores as slices, the slots of a core determine it.\<close>

lemma even_layout_inj:
  assumes ev: "even_layout dims splits (prod_list splits) m" and pos: "\<forall>s \<in> set splits. 0 < s"
    and c: "0 \<le> c" "c < prod_list splits" "0 \<le> c'" "c' < prod_list splits"
    and same: "\<forall>d \<in> set dims. slot_of m d c = slot_of m d c'"
  shows "c = c'"
proof -
  define x where "x d = the (slot_of m d c)" for d
  have si: "slots_inside dims splits (prod_list splits) m" and len: "length dims = length splits"
    using ev by (simp_all add: even_layout_def)
  have "inside dims splits x"
    unfolding inside_def x_def using slots_insideD [OF si c(1,2)] by fastforce
  then obtain r where r: "holders dims (prod_list splits) m x = {r}"
    using inside_holder [OF ev pos] by metis
  have "slot_of m d c = Some (x d)" if hd: "d \<in> set dims" for d
  proof -
    obtain s where "(d, s) \<in> set (zip dims splits)"
      using hd len by (metis in_set_impl_in_set_zip1)
    then show ?thesis using slots_insideD [OF si c(1,2)] by (fastforce simp: x_def)
  qed
  then have "c \<in> holders dims (prod_list splits) m x" "c' \<in> holders dims (prod_list splits) m x"
    using c same by (simp_all add: holders_def)
  then show ?thesis using r by simp
qed

section \<open>Properties\<close>

text \<open>
  The mixed-radix layout is valid and fair.  Whenever \<open>core_to_slice_mapping\<close> returns a
  map, evaluating it on every core yields slots inside their splits, and every combination of
  slots is held by exactly \<open>n / prod(splits)\<close> of the \<open>n\<close> cores, whichever dimension was
  chosen to be contiguous.
\<close>
lemma core_to_slice_mapping_fair:
  assumes "core_to_slice_mapping dims splits n cd = Inr m"
    and "distinct dims" and "\<forall>s \<in> set splits. 0 < s"
  shows "(\<exists>rows. owner_slots m (zip dims splits) n = Inr rows)
    \<and> (\<forall>x. inside dims splits x \<longrightarrow> card (holders dims n m x) = nat (n div prod_list splits))"
proof -
  have "prod_list splits \<le> n" using assms(1) by (rule core_to_slice_mapping_Inr)
  then have "0 < n" using prod_list_pos [OF assms(3)] by linarith
  then show ?thesis
    using slice.rows_valid [OF assms] core_to_slice_even [OF assms] by (simp add: even_layout_def)
qed

lemma core_to_slice_mapping_fair_example:
  "(\<exists>rows. owner_slots [(''k'', ModE CoreId 4), (''m'', ModE (FloorDiv CoreId 4) 2)]
      [(''m'', 2), (''k'', 4)] 16 = Inr rows)
   \<and> card (holders [''m'', ''k''] 16 [(''k'', ModE CoreId 4), (''m'', ModE (FloorDiv CoreId 4) 2)]
        (\<lambda>_. 1)) = 2"
proof -
  have ok: "core_to_slice_mapping [''m'', ''k''] [2, 4] 16 (Some 1)
      = Inr [(''k'', ModE CoreId 4), (''m'', ModE (FloorDiv CoreId 4) 2)]"
    by code_simp
  show ?thesis
    using core_to_slice_mapping_fair [OF ok] by (simp add: inside_def)
qed

text \<open>
  C26. A derived operation mapping is a bijection between cores and work slices, and its grouped
  dimensions occupy contiguous core groups: two cores hold the same grouped slots exactly when
  they are in the same block of \<open>n / owners\<close> consecutive cores.
\<close>
theorem derive_core_mapping_bijective:
  assumes "derive_core_mapping dims splits n cd gs = Inr m"
    and "distinct dims" and "\<forall>s \<in> set splits. 0 < s" and "distinct (map fst gs)"
  shows "(\<forall>x. inside dims splits x \<longrightarrow> (\<exists>c. holders dims n m x = {c}))
    \<and> (gs \<noteq> [] \<longrightarrow> (\<forall>c c'. 0 \<le> c \<and> c < n \<and> 0 \<le> c' \<and> c' < n \<longrightarrow>
         ((\<forall>d \<in> dkeys gs. slot_of m d c = slot_of m d c') \<longleftrightarrow>
          c div (n div prod_list (map snd gs)) = c' div (n div prod_list (map snd gs)))))"
proof (intro conjI impI allI)
  fix x assume "inside dims splits x"
  moreover have "n = prod_list splits" using assms(1) by (simp add: derive_core_mapping_def Let_def)
  moreover have "0 < prod_list splits" by (rule prod_list_pos [OF assms(3)])
  ultimately have "card (holders dims n m x) = 1"
    using derive_core_even [OF assms] by (simp add: even_layout_def)
  then show "\<exists>c. holders dims n m x = {c}" by (rule card_1_singletonE) blast
next
  fix c c' assume gs: "gs \<noteq> []" and c: "0 \<le> c \<and> c < n \<and> 0 \<le> c' \<and> c' < n"
  obtain ls g om lm cdi where gp: "grouped_parts dims splits n gs m ls g om lm cdi"
    by (rule derive_core_mapping_grouped [OF assms(1) gs assms(2)])
  note gf = grouped_facts [OF gp assms(2) derive_core_mapping_len [OF assms(1)] assms(4,3)]
  let ?O = "prod_list (map snd gs)"
  have n: "n = ?O * g" "0 < ?O" and sub: "set gs \<subseteq> set (zip dims splits)"
    using gp unfolding grouped_parts_def by blast+
  have g: "n div ?O = g" using n by simp
  have posg: "\<forall>s \<in> set (map snd gs). 0 < s"
    using sub assms(3) set_zip_rightD by fastforce
  have "(\<forall>d \<in> dkeys gs. slot_of m d c = slot_of m d c') \<longleftrightarrow>
      (\<forall>d \<in> set (map fst gs). slot_of om d (c div g) = slot_of om d (c' div g))"
    using gf(4) by simp
  also have "\<dots> \<longleftrightarrow> c div g = c' div g"
    using even_layout_inj [OF gf(6) posg] group_of_core [OF gf(1) n(1)] c by metis
  finally show "(\<forall>d \<in> dkeys gs. slot_of m d c = slot_of m d c') \<longleftrightarrow>
      c div (n div ?O) = c' div (n div ?O)"
    by (simp only: g)
qed

theorem derive_core_mapping_bijective_witness:
  "(\<exists>c. holders [''b'', ''k''] 4
      [(''b'', ModE (FloorDiv CoreId 2) 2), (''k'', ModE (ModE CoreId 2) 2)] (\<lambda>_. 1) = {c})
   \<and> slot_of [(''b'', ModE (FloorDiv CoreId 2) 2), (''k'', ModE (ModE CoreId 2) 2)] ''b'' 2
     = slot_of [(''b'', ModE (FloorDiv CoreId 2) 2), (''k'', ModE (ModE CoreId 2) 2)] ''b'' 3"
proof -
  have ok: "derive_core_mapping [''b'', ''k''] [2, 2] 4 None [(''b'', 2)]
    = Inr [(''b'', ModE (FloorDiv CoreId 2) 2), (''k'', ModE (ModE CoreId 2) 2)]"
    by code_simp
  note bij = derive_core_mapping_bijective [OF ok]
  have "\<exists>c. holders [''b'', ''k''] 4
      [(''b'', ModE (FloorDiv CoreId 2) 2), (''k'', ModE (ModE CoreId 2) 2)] (\<lambda>_. 1) = {c}"
    using bij by (simp add: inside_def)
  moreover have "slot_of [(''b'', ModE (FloorDiv CoreId 2) 2), (''k'', ModE (ModE CoreId 2) 2)] ''b'' 2
     = slot_of [(''b'', ModE (FloorDiv CoreId 2) 2), (''k'', ModE (ModE CoreId 2) 2)] ''b'' 3"
    using bij [THEN conjunct2, rule_format, of 2 3] by simp
  ultimately show ?thesis by blast
qed

text \<open>
  Tensor owners occupy contiguous groups.  A map derived for a partition with fewer owners
  than cores gives every combination of slots one block of \<open>n / owners\<close> consecutive cores.
\<close>
lemma derive_partition_mapping_blocks:
  assumes "derive_partition_mapping dims splits n = Inr m"
    and "distinct dims" and "\<forall>s \<in> set splits. 0 < s" and "inside dims splits x"
  shows "\<exists>r \<in> {0..<prod_list splits}. holders dims n m x
    = {r * (n div prod_list splits)..<(r + 1) * (n div prod_list splits)}"
  using partition_holders [OF assms] by (metis atLeastLessThan_iff)

lemma derive_partition_mapping_blocks_example:
  "\<exists>r \<in> {0..<4}. holders [''h'', ''w''] 8
      [(''h'', ModE (FloorDiv CoreId 2) 2), (''w'', ModE (FloorDiv (FloorDiv CoreId 2) 2) 2)]
      (\<lambda>_. 1) = {r * 2..<(r + 1) * 2}"
proof -
  have ok: "derive_partition_mapping [''h'', ''w''] [2, 2] 8
    = Inr [(''h'', ModE (FloorDiv CoreId 2) 2), (''w'', ModE (FloorDiv (FloorDiv CoreId 2) 2) 2)]"
    by code_simp
  show ?thesis using derive_partition_mapping_blocks [OF ok, of "\<lambda>_. 1"] by (simp add: inside_def)
qed

end
