(* ===== verification/Operation_Mapping.thy ===== *)
theory Operation_Mapping
  imports Core_Mapping
begin

text \<open>
  Using the layouts of \<open>_inductor/core_mapping.py\<close>: tensor ownership re-expressed in aligned
  loop symbols (\<open>remap_work_division\<close>), verified (\<open>finalize_tensor_work_divisions\<close>),
  reconciled with an operation (\<open>derive_operation_mapping\<close>), recovered from a predicate
  (\<open>select_unique_partition_division\<close>) and sized (\<open>partition_lx_size_bytes\<close>).

  \<open>get_device_size_in_bytes\<close> and \<open>elems_per_stick\<close> are native code and arguments of the one
  definition that uses them; the predicate of the search is an argument too.
\<close>

section \<open>Aligned loop symbols\<close>

text \<open>
  The factors, innermost first.  The loop runs over the segments from the outermost; a factor
  of zero (both arguments of \<open>gcd\<close> zero) makes the division raise.
\<close>

fun distribute_loop :: "int list \<Rightarrow> int \<Rightarrow> int list \<Rightarrow> (int list \<times> int) result" where
  "distribute_loop [] remaining factors = Inr (factors, remaining)"
| "distribute_loop (basis # bases) remaining factors =
    (let factor = gcd remaining basis in
     if factor = 0 then Inl ZeroDivisionError
     else distribute_loop bases (remaining div factor) (factor # factors))"

definition distribute_aligned_split :: "int \<Rightarrow> int list \<Rightarrow> (int list \<times> int) result" where
  "distribute_aligned_split split bases = distribute_loop (rev bases) split []"

fun keeps_blocks_loop :: "bool \<Rightarrow> (int \<times> int) list \<Rightarrow> bool" where
  "keeps_blocks_loop split_inside [] = True"
| "keeps_blocks_loop split_inside ((factor, basis) # rest) =
    (if split_inside \<and> factor > 1 then False
     else keeps_blocks_loop (split_inside \<or> factor < basis) rest)"

definition aligned_split_keeps_blocks :: "int \<Rightarrow> int list \<Rightarrow> bool result" where
  "aligned_split_keeps_blocks split bases =
     rbind (distribute_aligned_split split bases) (\<lambda>(factors, remaining).
     if remaining \<noteq> 1 then Inr False
     else Inr (keeps_blocks_loop False (zip (rev factors) (rev bases))))"





section \<open>Reconciling an operation with its tensors\<close>

definition finalize_division ::
  "symbol list \<Rightarrow> TensorWorkDivision \<Rightarrow> TensorWorkDivision result" where
  "finalize_division iteration_dims division =
    (let slices = split_dims (work_slices division) in
     and_then (raise_if (\<not> dkeys slices \<subseteq> set iteration_dims)
       (ValueError ''tensor ownership dimensions are not aligned''))
    (case pick_slots (core_id_to_work_slice division) (map fst slices) of
       None \<Rightarrow> Inl (ValueError ''tensor ownership has no owner'')
     | Some core_map \<Rightarrow>
        (let verified = \<lparr>work_slices = slices, core_id_to_work_slice = core_map,
                         num_cores = Some (physical_core_count division)\<rparr> in
         rbind (to_core_slices verified (physical_core_count verified)) (\<lambda>_. Inr verified))))"

definition finalize_tensor_work_divisions ::
  "symbol list \<Rightarrow> TensorWorkDivision option list \<Rightarrow> TensorWorkDivision option list result" where
  "finalize_tensor_work_divisions iteration_dims divisions =
     traverse (\<lambda>d. case d of None \<Rightarrow> Inr None
       | Some division \<Rightarrow> rbind (finalize_division iteration_dims division) (\<lambda>v. Inr (Some v)))
     divisions"

fun constrain_dims ::
  "int \<Rightarrow> (symbol, int) dict \<Rightarrow> (symbol, expr) dict \<Rightarrow> (symbol, int) dict \<Rightarrow> (symbol, expr) dict
   \<Rightarrow> (symbol, expr) dict result" where
  "constrain_dims n split_by_dim slots [] constrained = Inr constrained"
| "constrain_dims n split_by_dim slots ((d, split) # rest) constrained =
    (if split \<le> 1 then constrain_dims n split_by_dim slots rest constrained
     else
      (case map_of split_by_dim d of
         None \<Rightarrow> Inl (ValueError ''LX tensor dimension is not in the operation'')
       | Some s \<Rightarrow>
          if s \<noteq> split then Inl (ValueError ''LX tensor split does not match the operation'')
          else
           (case map_of slots d of
              None \<Rightarrow> Inl KeyError
            | Some expression \<Rightarrow>
               (let constrained' = (case map_of constrained d of
                      None \<Rightarrow> constrained @ [(d, expression)] | Some _ \<Rightarrow> constrained);
                    previous = the (map_of constrained' d) in
                if \<not> core_mappings_equal [(d, previous)] [(d, expression)] n then
                  Inl (ValueError ''LX tensors disagree on core ownership'')
                else constrain_dims n split_by_dim slots rest constrained'))))"

fun constrain_tensors ::
  "int \<Rightarrow> (symbol, int) dict \<Rightarrow> TensorWorkDivision option list \<Rightarrow> (symbol, expr) dict
   \<Rightarrow> (symbol, expr) dict result" where
  "constrain_tensors n split_by_dim [] constrained = Inr constrained"
| "constrain_tensors n split_by_dim (None # rest) constrained =
     constrain_tensors n split_by_dim rest constrained"
| "constrain_tensors n split_by_dim (Some division # rest) constrained =
     and_then (raise_if (physical_core_count division \<noteq> n)
       (ValueError ''LX tensor ownership and operation use different core domains''))
    (rbind (constrain_dims n split_by_dim (core_id_to_work_slice division)
              (work_slices division) constrained)
       (\<lambda>constrained'. constrain_tensors n split_by_dim rest constrained'))"

text \<open>\<open>itertools.permutations\<close>, in its order: by position of the first element.\<close>

primrec perms_n :: "nat \<Rightarrow> 'a list \<Rightarrow> 'a list list" where
  "perms_n 0 xs = [[]]"
| "perms_n (Suc n) xs = concat (map (\<lambda>i. map (\<lambda>p. xs ! i # p)
     (perms_n n (take i xs @ drop (Suc i) xs))) [0..<length xs])"

definition permutations :: "'a list \<Rightarrow> 'a list list" where
  "permutations xs = perms_n (length xs) xs"

definition MAX_OWNER_PERMUTATION_DIMS :: nat where
  "MAX_OWNER_PERMUTATION_DIMS = 5"

text \<open>
  \<open>all(core_mappings_equal({dim: m[dim]}, {dim: expression}, n) ...)\<close>; the map has an entry
  for every dimension of the operation, so the lookup does not fail.
\<close>

definition satisfies_owners ::
  "(symbol, expr) dict \<Rightarrow> (symbol, expr) dict \<Rightarrow> int \<Rightarrow> bool" where
  "satisfies_owners m constrained n =
     list_all (\<lambda>(d, e). case map_of m d of None \<Rightarrow> False
       | Some f \<Rightarrow> core_mappings_equal [(d, f)] [(d, e)] n) constrained"

fun try_orders ::
  "symbol list \<Rightarrow> int list \<Rightarrow> int \<Rightarrow> symbol option \<Rightarrow> (symbol, int) dict \<Rightarrow> (symbol, expr) dict
   \<Rightarrow> symbol list list \<Rightarrow> (symbol, expr) dict result" where
  "try_orders dims splits n contiguous_dim split_by_dim constrained [] =
     Inl (ValueError ''no operation core mapping satisfies every LX tensor owner'')"
| "try_orders dims splits n contiguous_dim split_by_dim constrained (order # orders) =
     rbind (derive_core_mapping dims splits n contiguous_dim
              (map (\<lambda>d. (d, the (map_of split_by_dim d))) order)) (\<lambda>candidate.
     if satisfies_owners candidate constrained n then Inr candidate
     else try_orders dims splits n contiguous_dim split_by_dim constrained orders)"

definition derive_operation_mapping ::
  "(symbol, int) dict \<Rightarrow> TensorWorkDivision option list \<Rightarrow> symbol option
   \<Rightarrow> (symbol, expr) dict result" where
  "derive_operation_mapping iteration_space tensor_divisions contiguous_dim =
    (let dims = map fst iteration_space;
         splits = map snd iteration_space;
         n = prod_list splits;
         split_by_dim = dict_of (zip dims splits) in
     rbind (constrain_tensors n split_by_dim tensor_divisions []) (\<lambda>constrained.
     if constrained = [] then derive_core_mapping dims splits n contiguous_dim []
     else
       rbind (derive_core_mapping dims splits n contiguous_dim []) (\<lambda>dflt.
       if satisfies_owners dflt constrained n then Inr dflt
       else if length constrained > MAX_OWNER_PERMUTATION_DIMS then
         Inl (ValueError ''too many aligned tensor-owned dimensions for bounded core-order search'')
       else try_orders dims splits n contiguous_dim split_by_dim constrained
              (permutations (sort (map fst constrained))))))"

section \<open>The sole matching partition\<close>

definition partition_candidate ::
  "(symbol, int) dict \<Rightarrow> int \<Rightarrow> (symbol, expr) dict \<Rightarrow> TensorWorkDivision" where
  "partition_candidate candidate_splits n mapping =
     \<lparr>work_slices = candidate_splits,
      core_id_to_work_slice = map (\<lambda>(d, _). (d, dget mapping d (IntE 0))) candidate_splits,
      num_cores = Some n\<rparr>"

definition partition_of_order ::
  "(symbol, int) dict \<Rightarrow> int \<Rightarrow> symbol list \<Rightarrow> (symbol, expr) dict result" where
  "partition_of_order split_by_dim n order =
     derive_partition_mapping order (map (\<lambda>d. the (map_of split_by_dim d)) order) n"

fun select_loop ::
  "(TensorWorkDivision \<Rightarrow> bool) \<Rightarrow> (symbol, int) dict \<Rightarrow> (symbol, int) dict \<Rightarrow> int
   \<Rightarrow> symbol list list \<Rightarrow> TensorWorkDivision list \<Rightarrow> string list
   \<Rightarrow> (string list \<times> TensorWorkDivision option) result" where
  "select_loop matches split_by_dim candidate_splits n [] accepted reasons =
    (case accepted of
       a # _ \<Rightarrow> Inr (reasons, Some a)
     | [] \<Rightarrow> Inr (reasons @ [''no canonical candidate matched''], None))"
| "select_loop matches split_by_dim candidate_splits n (order # orders) accepted reasons =
    (case partition_of_order split_by_dim n order of
       Inl (ValueError _) \<Rightarrow>
         select_loop matches split_by_dim candidate_splits n orders accepted
           (reasons @ [''unsupported ownership candidate''])
     | Inl e \<Rightarrow> Inl e
     | Inr mapping \<Rightarrow>
        (let candidate = partition_candidate candidate_splits n mapping in
         if matches candidate \<and> \<not> (\<exists>previous \<in> set accepted. same_ownership previous candidate)
         then
          (if accepted \<noteq> [] then
             Inr (reasons @ [''ambiguous ownership: multiple canonical maps matched''], None)
           else select_loop matches split_by_dim candidate_splits n orders [candidate] reasons)
         else select_loop matches split_by_dim candidate_splits n orders accepted reasons))"

definition searched_splits :: "symbol list \<Rightarrow> (symbol, int) dict \<Rightarrow> (symbol, int) dict" where
  "searched_splits dimensions slices = dict_of (List.map_filter (\<lambda>d. let s = dget slices d 1 in
     if s > 1 then Some (d, s) else None) dimensions)"

definition select_unique_partition_division ::
  "symbol list \<Rightarrow> (symbol, int) dict \<Rightarrow> int \<Rightarrow> (TensorWorkDivision \<Rightarrow> bool)
   \<Rightarrow> (string list \<times> TensorWorkDivision option) result" where
  "select_unique_partition_division dimensions slices n matches =
    (let split_by_dim = searched_splits dimensions slices in
     if dkeys split_by_dim \<noteq> dkeys (split_dims slices) then
       Inr ([''unsupported ownership input: candidate dimension keys differ''], None)
     else if split_by_dim = [] then
       Inr ([''no canonical candidate: there are no split dimensions''], None)
     else if length split_by_dim > MAX_OWNER_PERMUTATION_DIMS then
       Inr ([''proof limit: canonical search has too many split dimensions''], None)
     else select_loop matches split_by_dim slices n (permutations (map fst split_by_dim)) [] [])"

section \<open>Storage of one core's slice\<close>

fun local_extents :: "(int, int) dict \<Rightarrow> int \<Rightarrow> int list \<Rightarrow> int list result" where
  "local_extents splits axis [] = Inr []"
| "local_extents splits axis (extent # rest) =
    (let split = dget splits axis 1 in
     and_then (raise_if (extent mod split \<noteq> 0)
       (ValueError ''device extent is not divisible''))
    (rbind (local_extents splits (axis + 1) rest) (\<lambda>ys. Inr (extent div split # ys))))"

definition partition_lx_size_bytes ::
  "(int list \<Rightarrow> int) \<Rightarrow> int \<Rightarrow> int list \<Rightarrow> (int, int) dict \<Rightarrow> int result" where
  "partition_lx_size_bytes device_size_in_bytes elems_per_stick device_size splits =
     and_then (raise_if (device_size = [] \<or> (\<exists>e \<in> set device_size. e \<le> 0))
       (ValueError ''device extents must be positive''))
    (and_then (raise_if (elems_per_stick \<le> 0) (ValueError ''elems_per_stick must be positive''))
    (and_then (raise_if
       (\<exists>(d, s) \<in> set splits. d < 0 \<or> int (length device_size) \<le> d \<or> s \<le> 0)
       (ValueError ''invalid split''))
    (and_then (raise_if (last device_size \<noteq> elems_per_stick)
       (ValueError ''LX size requires one complete final stick dimension''))
    (and_then (raise_if (dget splits (int (length device_size) - 1) 1 \<noteq> 1)
       (ValueError ''the final stick dimension cannot be split''))
    (rbind (local_extents splits 0 device_size) (\<lambda>per_core_size.
     Inr (device_size_in_bytes per_core_size)))))))"

section \<open>Distribution of a split over segments\<close>





section \<open>Remapping keeps the owners\<close>















section \<open>Reconciliation is sound\<close>

definition agree_on :: "int \<Rightarrow> expr \<Rightarrow> expr \<Rightarrow> bool" where
  "agree_on n e f \<longleftrightarrow> (\<forall>c. 0 \<le> c \<and> c < n \<longrightarrow> value_at e c \<noteq> None \<and> value_at e c = value_at f c)"

lemma core_mappings_equal_single:
  "core_mappings_equal [(d, e)] [(d, f)] n \<longleftrightarrow> 0 < n \<and> agree_on n e f"
  by (auto simp: core_mappings_equal_iff formulas_agree_iff agree_on_def split: if_splits)

lemma agree_on_trans: "agree_on n e f \<Longrightarrow> agree_on n e g \<Longrightarrow> agree_on n f g"
  unfolding agree_on_def by metis

text \<open>Entries of \<open>constrained\<close> are never replaced, and agree with every tensor that has one.\<close>

lemma constrain_dims_sound:
  assumes "constrain_dims n sbd slots ws con = Inr con'"
  shows "(\<forall>d e. map_of con d = Some e \<longrightarrow> map_of con' d = Some e)
    \<and> (distinct (map fst con) \<longrightarrow> distinct (map fst con'))
    \<and> (\<forall>(d, s) \<in> set ws. 1 < s \<longrightarrow> (\<exists>e f. map_of con' d = Some e \<and> map_of slots d = Some f
         \<and> agree_on n e f))"
  using assms
proof (induction ws arbitrary: con)
  case (Cons w ws)
  obtain d s where w: "w = (d, s)" by force
  show ?case
  proof (cases "s \<le> 1")
    case True
    then show ?thesis using Cons w by auto
  next
    case False
    define con1 where "con1 = (\<lambda>f. case map_of con d of None \<Rightarrow> con @ [(d, f)] | Some _ \<Rightarrow> con)"
    have con1_facts: "\<forall>k e. map_of con k = Some e \<longrightarrow> map_of (con1 f) k = Some e"
      "map_of (con1 f) d \<noteq> None" "distinct (map fst con) \<longrightarrow> distinct (map fst (con1 f))" for f
      by (cases "map_of con d"; auto simp: con1_def dest: map_of_SomeD)+
    obtain f where f: "map_of slots d = Some f"
      and eq: "core_mappings_equal [(d, the (map_of (con1 f) d))] [(d, f)] n"
      and run: "constrain_dims n sbd slots ws (con1 f) = Inr con'"
      using Cons.prems False w
      by (auto simp: Let_def con1_def [symmetric] split: option.splits if_splits)
        (auto simp: con1_def)
    obtain e where e: "map_of (con1 f) d = Some e" using con1_facts(2) by blast
    then have ag: "agree_on n e f" using eq by (simp add: core_mappings_equal_single)
    note IH = Cons.IH [OF run]
    have "map_of con' d = Some e" using IH e by blast
    then show ?thesis using IH con1_facts(1,3) [of f] f ag w by auto
  qed
qed simp

lemma constrain_tensors_sound:
  assumes "constrain_tensors n sbd ts con = Inr con'"
  shows "(\<forall>d e. map_of con d = Some e \<longrightarrow> map_of con' d = Some e)
    \<and> (distinct (map fst con) \<longrightarrow> distinct (map fst con'))
    \<and> (\<forall>t d s. Some t \<in> set ts \<longrightarrow> (d, s) \<in> set (work_slices t) \<longrightarrow> 1 < s \<longrightarrow>
         (\<exists>e f. map_of con' d = Some e \<and> map_of (core_id_to_work_slice t) d = Some f
            \<and> agree_on n e f))"
  using assms
proof (induction ts arbitrary: con)
  case (Cons t ts)
  show ?case
  proof (cases t)
    case None
    then show ?thesis using Cons by auto
  next
    case (Some u)
    obtain con1 where c1: "constrain_dims n sbd (core_id_to_work_slice u) (work_slices u) con = Inr con1"
      and run: "constrain_tensors n sbd ts con1 = Inr con'"
      using Cons.prems Some by auto
    note A = constrain_dims_sound [OF c1] and B = Cons.IH [OF run]
    have "\<exists>e f. map_of con' d = Some e \<and> map_of (core_id_to_work_slice u) d = Some f \<and> agree_on n e f"
      if "(d, s) \<in> set (work_slices u)" "1 < s" for d s
      using A B that by blast
    then show ?thesis using A B Some by auto
  qed
qed simp

lemma satisfies_owners_iff:
  "satisfies_owners m con n \<longleftrightarrow>
     (\<forall>(d, e) \<in> set con. \<exists>f. map_of m d = Some f \<and> 0 < n \<and> agree_on n f e)"
  unfolding satisfies_owners_def
  by (force simp: list_all_iff core_mappings_equal_single split: option.splits)

lemma agree_on_sym: "agree_on n e f \<Longrightarrow> agree_on n f e"
  unfolding agree_on_def by metis

lemma perms_n_distinct:
  "p \<in> set (perms_n k xs) \<Longrightarrow> distinct xs \<Longrightarrow> distinct p \<and> set p \<subseteq> set xs"
proof (induction k arbitrary: xs p)
  case (Suc k)
  then obtain i q where i: "i < length xs" and q: "q \<in> set (perms_n k (take i xs @ drop (Suc i) xs))"
    and p: "p = xs ! i # q" by auto
  have split: "xs = take i xs @ xs ! i # drop (Suc i) xs" by (rule id_take_nth_drop [OF i])
  then have d: "distinct (take i xs @ drop (Suc i) xs)" "xs ! i \<notin> set (take i xs @ drop (Suc i) xs)"
    using Suc.prems(2) by (metis distinct_append distinct.simps(2) not_distinct_conv_prefix
        Un_iff disjoint_insert(1) list.simps(15) set_append)+
  have "set (take i xs @ drop (Suc i) xs) \<subseteq> set xs"
    using set_take_subset [of i xs] set_drop_subset [of "Suc i" xs] by auto
  then show ?case using Suc.IH [OF q d(1)] d(2) p i by auto
qed simp

lemma try_orders_Inr:
  assumes "try_orders dims splits n cd sbd con orders = Inr m"
  shows "satisfies_owners m con n \<and> (\<exists>order \<in> set orders.
    derive_core_mapping dims splits n cd (map (\<lambda>d. (d, the (map_of sbd d))) order) = Inr m)"
  using assms by (induction orders) (auto split: if_splits)

text \<open>Where the result came from: an evenly laid out mapping that satisfies the owners.\<close>

lemma derive_operation_mapping_cases:
  assumes ok: "derive_operation_mapping space ts cd = Inr m"
  obtains con gs where
    "constrain_tensors (prod_list (map snd space)) (dict_of space) ts [] = Inr con"
    "con = [] \<or> satisfies_owners m con (prod_list (map snd space))"
    "derive_core_mapping (map fst space) (map snd space) (prod_list (map snd space)) cd gs = Inr m"
    "distinct (map fst gs)"
proof -
  let ?n = "prod_list (map snd space)"
  obtain con where con: "constrain_tensors ?n (dict_of space) ts [] = Inr con"
    and rest: "(if con = [] then derive_core_mapping (map fst space) (map snd space) ?n cd []
      else rbind (derive_core_mapping (map fst space) (map snd space) ?n cd []) (\<lambda>dflt.
        if satisfies_owners dflt con ?n then Inr dflt
        else if length con > MAX_OWNER_PERMUTATION_DIMS then
          Inl (ValueError ''too many aligned tensor-owned dimensions for bounded core-order search'')
        else try_orders (map fst space) (map snd space) ?n cd (dict_of space) con
               (permutations (sort (map fst con))))) = Inr m"
    using ok unfolding derive_operation_mapping_def Let_def zip_fst_snd by auto
  have dcon: "distinct (map fst con)" using constrain_tensors_sound [OF con] by simp
  show thesis
  proof (cases "con = []")
    case True
    then show ?thesis using that [of con "[]"] con rest by simp
  next
    case False
    then obtain dflt where dflt:
      "derive_core_mapping (map fst space) (map snd space) ?n cd [] = Inr dflt"
      using rest by auto
    show ?thesis
    proof (cases "satisfies_owners dflt con ?n")
      case True
      then show ?thesis using that [of con "[]"] con rest False dflt by simp
    next
      case no: False
      then have "try_orders (map fst space) (map snd space) ?n cd (dict_of space) con
          (permutations (sort (map fst con))) = Inr m"
        using rest False dflt by (auto split: if_splits)
      then obtain order where sat: "satisfies_owners m con ?n"
        and o: "order \<in> set (permutations (sort (map fst con)))"
        and dcm: "derive_core_mapping (map fst space) (map snd space) ?n cd
            (map (\<lambda>d. (d, the (map_of (dict_of space) d))) order) = Inr m"
        using try_orders_Inr by blast
      have "distinct order"
        using perms_n_distinct o dcon unfolding permutations_def by (metis distinct_sort)
      then show ?thesis using that [OF con _ dcm] sat by (simp add: comp_def)
    qed
  qed
qed

section \<open>The search keeps at most one owner map\<close>

lemma select_loop_accepted:
  assumes "select_loop mt sbd cs n orders [a] rs = Inr (rs', Some t)"
  shows "t = a \<and> (\<forall>order \<in> set orders. \<forall>mp. partition_of_order sbd n order = Inr mp \<longrightarrow>
    mt (partition_candidate cs n mp) \<longrightarrow> same_ownership a (partition_candidate cs n mp))"
  using assms
proof (induction orders arbitrary: rs)
  case (Cons order orders)
  show ?case
  proof (cases "partition_of_order sbd n order")
    case (Inl e)
    then show ?thesis using Cons by (cases e) auto
  next
    case (Inr mp)
    let ?c = "partition_candidate cs n mp"
    have "\<not> (mt ?c \<and> \<not> same_ownership a ?c)" and "select_loop mt sbd cs n orders [a] rs = Inr (rs', Some t)"
      using Cons.prems Inr by (auto simp: Let_def split: if_splits)
    then show ?thesis using Cons.IH Inr by auto
  qed
qed simp

lemma select_loop_found:
  assumes "select_loop mt sbd cs n orders [] rs = Inr (rs', Some t)"
  shows "mt t \<and> (\<exists>order \<in> set orders. \<exists>mp. partition_of_order sbd n order = Inr mp
        \<and> t = partition_candidate cs n mp)
    \<and> (\<forall>order \<in> set orders. \<forall>mp. partition_of_order sbd n order = Inr mp \<longrightarrow>
        mt (partition_candidate cs n mp) \<longrightarrow> partition_candidate cs n mp = t
          \<or> same_ownership t (partition_candidate cs n mp))"
  using assms
proof (induction orders arbitrary: rs)
  case (Cons order orders)
  show ?case
  proof (cases "partition_of_order sbd n order")
    case (Inl e)
    then show ?thesis using Cons by (cases e) auto
  next
    case (Inr mp)
    let ?c = "partition_candidate cs n mp"
    show ?thesis
    proof (cases "mt ?c")
      case True
      then have "select_loop mt sbd cs n orders [?c] rs = Inr (rs', Some t)"
        using Cons.prems Inr by (simp add: Let_def)
      note acc = select_loop_accepted [OF this]
      then show ?thesis using True Inr by auto
    next
      case False
      then have "select_loop mt sbd cs n orders [] rs = Inr (rs', Some t)"
        using Cons.prems Inr by (simp add: Let_def)
      then show ?thesis using Cons.IH False Inr by auto
    qed
  qed
qed simp

section \<open>Properties\<close>



text \<open>
  C11. A derived operation mapping respects every tensor.  If a mapping is returned, every work
  slice has exactly one core, and on each dimension that a tensor with committed owners splits,
  every core works on the slot that it owns of that tensor.
\<close>
theorem derive_operation_mapping_respects_owners:
  assumes "derive_operation_mapping space ts cd = Inr m"
    and "distinct (map fst space)" and "\<forall>s \<in> set (map snd space). 0 < s"
  shows "(\<forall>x. inside (map fst space) (map snd space) x \<longrightarrow>
      (\<exists>c. holders (map fst space) (prod_list (map snd space)) m x = {c}))
    \<and> (\<forall>t d s c. Some t \<in> set ts \<and> (d, s) \<in> set (work_slices t) \<and> 1 < s
         \<and> 0 \<le> c \<and> c < prod_list (map snd space) \<longrightarrow>
         (\<exists>v. slot_of m d c = Some v \<and> slot_of (core_id_to_work_slice t) d c = Some v))"
proof -
  let ?n = "prod_list (map snd space)"
  from assms(1) obtain con gs where
    con: "constrain_tensors ?n (dict_of space) ts [] = Inr con"
    and sat: "con = [] \<or> satisfies_owners m con ?n"
    and dcm: "derive_core_mapping (map fst space) (map snd space) ?n cd gs = Inr m"
    and dgs: "distinct (map fst gs)"
    by (rule derive_operation_mapping_cases)
  have ev: "even_layout (map fst space) (map snd space) ?n m"
    by (rule derive_core_even [OF dcm assms(2,3) dgs])
  have "\<exists>c. holders (map fst space) ?n m x = {c}" if "inside (map fst space) (map snd space) x" for x
    using inside_holder [OF ev assms(3) that] by metis
  moreover have "\<exists>v. slot_of m d c = Some v \<and> slot_of (core_id_to_work_slice t) d c = Some v"
    if h: "Some t \<in> set ts" "(d, s) \<in> set (work_slices t)" "1 < s" "0 \<le> c" "c < ?n" for t d s c
  proof -
    obtain e f where ef: "map_of con d = Some e" "map_of (core_id_to_work_slice t) d = Some f"
      "agree_on ?n e f"
      using constrain_tensors_sound [OF con] h(1-3) by blast
    have "con \<noteq> []" using ef(1) by auto
    then obtain g where g: "map_of m d = Some g" "agree_on ?n g e"
      using sat map_of_SomeD [OF ef(1)] unfolding satisfies_owners_iff by blast
    then have "agree_on ?n g f" using agree_on_trans [OF agree_on_sym [OF g(2)] ef(3)] by blast
    then obtain v where "value_at g c = Some v" "value_at f c = Some v"
      using h(4,5) unfolding agree_on_def by (metis not_None_eq)
    then show ?thesis using g(1) ef(2) by (simp add: slot_of_def)
  qed
  ultimately show ?thesis by blast
qed

theorem derive_operation_mapping_respects_owners_witness:
  "\<exists>v. slot_of [(''m'', ModE (FloorDiv CoreId 2) 2), (''k'', ModE (ModE CoreId 2) 2)] ''m'' 3 = Some v
     \<and> slot_of [(''m'', FloorDiv CoreId 2)] ''m'' 3 = Some v"
proof -
  let ?t = "\<lparr>work_slices = [(''m'', 2)], core_id_to_work_slice = [(''m'', FloorDiv CoreId 2)],
    num_cores = Some 4\<rparr>"
  have run: "derive_operation_mapping [(''m'', 2), (''k'', 2)] [None, Some ?t] None
    = Inr [(''m'', ModE (FloorDiv CoreId 2) 2), (''k'', ModE (ModE CoreId 2) 2)]"
    by code_simp
  show ?thesis
    using derive_operation_mapping_respects_owners [OF run, THEN conjunct2, rule_format, of ?t "''m''" 2 3]
    by simp
qed

text \<open>
  The search for a canonical partition is unambiguous.  A division that it returns is one of
  the canonical candidates, is accepted by the caller's predicate, and every other canonical
  candidate that the predicate accepts is the same ownership.
\<close>
lemma select_unique_partition_unambiguous:
  assumes "select_unique_partition_division dimensions slices n matches = Inr (reasons, Some t)"
  shows "matches t
    \<and> (\<exists>order \<in> set (permutations (map fst (searched_splits dimensions slices))). \<exists>mp.
         partition_of_order (searched_splits dimensions slices) n order = Inr mp
         \<and> t = partition_candidate slices n mp)
    \<and> (\<forall>order \<in> set (permutations (map fst (searched_splits dimensions slices))). \<forall>mp.
         partition_of_order (searched_splits dimensions slices) n order = Inr mp \<longrightarrow>
         matches (partition_candidate slices n mp) \<longrightarrow> partition_candidate slices n mp = t
           \<or> same_ownership t (partition_candidate slices n mp))"
proof -
  have "select_loop matches (searched_splits dimensions slices) slices n
      (permutations (map fst (searched_splits dimensions slices))) [] [] = Inr (reasons, Some t)"
    using assms by (auto simp: select_unique_partition_division_def Let_def split: if_splits)
  then show ?thesis by (rule select_loop_found)
qed

lemma select_unique_partition_unambiguous_example:
  "\<exists>order \<in> set (permutations [''h'', ''w'']). \<exists>mp.
     partition_of_order [(''h'', 2), (''w'', 2)] 4 order = Inr mp
     \<and> partition_candidate [(''h'', 2), (''w'', 2)] 4
         [(''w'', ModE (FloorDiv CoreId 1) 2), (''h'', ModE (FloorDiv (FloorDiv CoreId 1) 2) 2)]
       = partition_candidate [(''h'', 2), (''w'', 2)] 4 mp"
proof -
  let ?c = "partition_candidate [(''h'', 2), (''w'', 2)] 4
    [(''w'', ModE (FloorDiv CoreId 1) 2), (''h'', ModE (FloorDiv (FloorDiv CoreId 1) 2) 2)]"
  have run: "select_unique_partition_division [''h'', ''w''] [(''h'', 2), (''w'', 2)] 4
      (\<lambda>t. slot_of (core_id_to_work_slice t) ''w'' 1 = Some 1) = Inr ([], Some ?c)"
    by code_simp
  have "searched_splits [''h'', ''w''] [(''h'', 2), (''w'', 2)] = [(''h'', 2), (''w'', 2)]"
    by code_simp
  then show ?thesis using select_unique_partition_unambiguous [OF run] by simp
qed

end
