(* ===== verification/Subrange_Transfer.thy ===== *)
theory Subrange_Transfer
  imports Owner_Maps
begin

text \<open>
  Certified transfers of a dense rectangular subrange between cores: the second half of
  \<open>_inductor/core_mapping.py\<close> (\<open>_dense_subrange_partition\<close>,
  \<open>certify_dense_subrange_transfer\<close>, \<open>local_subrange_byte_offset\<close>).

  Shapes, origins and slots are lists with one entry per physical axis, as the code's tuples.
  Entries are integers here, so the code's tests \<open>type(value) is not int\<close> have no counterpart.
  The zipped comprehensions of the code run over tuples of one length and are written by index.
\<close>

section \<open>Partitions of a shape\<close>

definition full_splits :: "int list \<Rightarrow> (int, int) dict \<Rightarrow> int list" where
  "full_splits shape splits = map (\<lambda>i. dget splits (int i) 1) [0..<length shape]"

definition row_slots :: "nat \<Rightarrow> (int, int) dict \<Rightarrow> int list" where
  "row_slots rank row = map (\<lambda>i. dget row (int i) 0) [0..<rank]"

definition check_owner :: "int list \<Rightarrow> (int, int) dict \<Rightarrow> int list result" where
  "check_owner fs row =
    (let rank = length fs; slots = row_slots rank row in
     and_then (raise_if (\<exists>axis \<in> dkeys row. \<not> (0 \<le> axis \<and> axis < int rank))
       (ValueError ''owner has an invalid physical axis''))
    (and_then (raise_if (\<exists>i \<in> set [0..<rank]. (fs ! i > 1 \<and> int i \<notin> dkeys row)
          \<or> \<not> (0 \<le> slots ! i \<and> slots ! i < fs ! i))
       (ValueError ''owner slot is missing, nonintegral or outside its partition''))
    (Inr slots)))"

definition owner_of :: "(int, (int, int) dict) dict \<Rightarrow> int \<Rightarrow> (int, int) dict result" where
  "owner_of owners core = (case map_of owners core of None \<Rightarrow> Inl KeyError | Some row \<Rightarrow> Inr row)"

text \<open>\<open>counts\<close> holds how many cores have each row of slots.\<close>

definition row_counts :: "int list list \<Rightarrow> nat list" where
  "row_counts rows = map (count_list rows) rows"

definition dense_subrange_partition ::
  "int list \<Rightarrow> (int, int) dict \<Rightarrow> (int, (int, int) dict) dict \<Rightarrow> bool
   \<Rightarrow> (int list \<times> int list list \<times> int list) result" where
  "dense_subrange_partition shape splits owners allow_replicas =
    (let rank = length shape; fs = full_splits shape splits;
         cores = int (length owners); partitions = prod_list fs in
     and_then (raise_if (\<exists>axis \<in> dkeys splits. \<not> (0 \<le> axis \<and> axis < int rank))
       (ValueError ''partition has an invalid physical axis''))
    (and_then (raise_if (\<exists>i \<in> set [0..<rank]. fs ! i \<le> 0 \<or> shape ! i mod fs ! i \<noteq> 0)
       (ValueError ''partition must divide each axis and retain complete sticks''))
    (and_then (raise_if (fs = []) IndexError)
    (and_then (raise_if (last fs \<noteq> 1)
       (ValueError ''partition must divide each axis and retain complete sticks''))
    (and_then (raise_if (owners = [])
       (ValueError ''partition requires concrete physical core IDs''))
    (and_then (raise_if (dkeys owners \<noteq> set [0..cores - 1])
       (ValueError ''partition core IDs must describe its complete physical domain''))
    (and_then (raise_if (cores mod partitions \<noteq> 0 \<or> (\<not> allow_replicas \<and> cores \<noteq> partitions))
       (ValueError ''partition owners do not cover the complete domain''))
    (rbind (traverse (\<lambda>core. rbind (owner_of owners core) (check_owner fs)) [0..cores - 1])
       (\<lambda>rows.
     and_then (raise_if (set rows \<noteq> set (product_lists (map (\<lambda>split. [0..split - 1]) fs)))
       (ValueError ''partition owners do not cover the complete domain''))
    (and_then (raise_if (card (set (row_counts rows)) \<noteq> 1
          \<or> (\<not> allow_replicas \<and> Max (set (row_counts rows)) \<noteq> 1))
       (ValueError ''source owners must be unique and destination replicas uniform''))
    (Inr (fs, rows, map (\<lambda>i. shape ! i div fs ! i) [0..<rank]))))))))))))"

section \<open>The certificate\<close>

record SubrangeTransferFragment =
  source_core :: int
  destination_core :: int
  parent_origin :: "int list"
  frag_extent :: "int list"
  source_offset_bytes :: int
  destination_offset_bytes :: int
  source_strides_bytes :: "int list"
  destination_strides_bytes :: "int list"

record DenseSubrangeTransfer =
  parent_shape :: "int list"
  sub_origin :: "int list"
  sub_extent :: "int list"
  element_bytes :: int
  source_splits :: "int list"
  destination_splits :: "int list"
  source_owners :: "int list list"
  destination_owners :: "int list list"
  source_local_shape :: "int list"
  destination_local_shape :: "int list"
  source_reservation_bytes :: int
  destination_reservation_bytes :: int
  fragments :: "SubrangeTransferFragment list"

definition destination_identity ::
  "DenseSubrangeTransfer \<Rightarrow> int list \<times> int list \<times> int list \<times> int \<times> int list \<times> int list list" where
  "destination_identity c = (parent_shape c, sub_origin c, sub_extent c, element_bytes c,
     destination_splits c, destination_owners c)"

definition MAX_SHUFFLE_FANIN :: nat where
  "MAX_SHUFFLE_FANIN = 8"

definition intervals_overlap :: "int \<Rightarrow> int \<Rightarrow> int \<Rightarrow> int \<Rightarrow> bool" where
  "intervals_overlap a_start a_end b_start b_end \<longleftrightarrow> a_start < b_end \<and> b_start < a_end"

definition local_strides :: "int list \<Rightarrow> int \<Rightarrow> int list" where
  "local_strides shape nbytes =
     map (\<lambda>i. prod_list (drop (Suc i) shape) * nbytes) [0..<length shape]"

text \<open>First coordinate of a slot tuple's slice, shifted by an origin.\<close>

definition slice_start :: "int list \<Rightarrow> int list \<Rightarrow> int list \<Rightarrow> int list" where
  "slice_start orig slots shape = map (\<lambda>i. orig ! i + slots ! i * shape ! i) [0..<length shape]"

definition boxes_overlap :: "int list \<Rightarrow> int list \<Rightarrow> int list \<Rightarrow> int list \<Rightarrow> bool" where
  "boxes_overlap a an b bn \<longleftrightarrow> (\<forall>i \<in> set [0..<length a].
     intervals_overlap (a ! i) (a ! i + an ! i) (b ! i) (b ! i + bn ! i))"

definition dot :: "int list \<Rightarrow> int list \<Rightarrow> int" where
  "dot xs ys = (\<Sum>i \<leftarrow> [0..<length ys]. xs ! i * ys ! i)"

definition mk_fragment ::
  "int \<Rightarrow> int \<Rightarrow> int list \<Rightarrow> int list \<Rightarrow> int list \<Rightarrow> int list \<Rightarrow> int \<Rightarrow> SubrangeTransferFragment" where
  "mk_fragment sc dc src_start src_shape dst_start dst_shape nbytes =
    (let rank = length src_shape;
         start = map (\<lambda>i. max (src_start ! i) (dst_start ! i)) [0..<rank];
         widths = map (\<lambda>i. min (src_start ! i + src_shape ! i) (dst_start ! i + dst_shape ! i)
                             - start ! i) [0..<rank];
         ss = local_strides src_shape nbytes; ds = local_strides dst_shape nbytes in
     \<lparr>source_core = sc, destination_core = dc, parent_origin = start, frag_extent = widths,
      source_offset_bytes = dot (map (\<lambda>i. start ! i - src_start ! i) [0..<rank]) ss,
      destination_offset_bytes = dot (map (\<lambda>i. start ! i - dst_start ! i) [0..<rank]) ds,
      source_strides_bytes = ss, destination_strides_bytes = ds\<rparr>)"

definition span_exceeded :: "int \<Rightarrow> int list \<Rightarrow> int list \<Rightarrow> int \<Rightarrow> int \<Rightarrow> bool" where
  "span_exceeded offset widths strides nbytes reserved \<longleftrightarrow>
     offset < 0 \<or> offset mod 128 \<noteq> 0
     \<or> offset + dot (map (\<lambda>w. w - 1) widths) strides + nbytes > reserved"

definition enumerate_int :: "'a list \<Rightarrow> (int \<times> 'a) list" where
  "enumerate_int xs = zip [0..int (length xs) - 1] xs"

fun incoming_fragments ::
  "int \<Rightarrow> int list \<Rightarrow> int list \<Rightarrow> int list \<Rightarrow> int \<Rightarrow> (int \<times> int list) list
   \<Rightarrow> SubrangeTransferFragment list result" where
  "incoming_fragments dc dst_start dst_shape src_shape nbytes [] = Inr []"
| "incoming_fragments dc dst_start dst_shape src_shape nbytes ((sc, slots) # rest) =
    (let src_start = slice_start (replicate (length src_shape) 0) slots src_shape;
         frag = mk_fragment sc dc src_start src_shape dst_start dst_shape nbytes in
     if \<not> boxes_overlap src_start src_shape dst_start dst_shape then
       incoming_fragments dc dst_start dst_shape src_shape nbytes rest
     else if span_exceeded (source_offset_bytes frag) (frag_extent frag)
               (source_strides_bytes frag) nbytes (prod_list src_shape * nbytes)
           \<or> span_exceeded (destination_offset_bytes frag) (frag_extent frag)
               (destination_strides_bytes frag) nbytes (prod_list dst_shape * nbytes) then
       Inl (ValueError ''subrange fragment exceeds its reserved local span'')
     else rbind (incoming_fragments dc dst_start dst_shape src_shape nbytes rest)
            (\<lambda>fs. Inr (frag # fs)))"

definition destination_fragments ::
  "int list \<Rightarrow> int list \<Rightarrow> int list \<Rightarrow> int list list \<Rightarrow> int \<Rightarrow> int \<times> int list
   \<Rightarrow> SubrangeTransferFragment list result" where
  "destination_fragments orig src_shape dst_shape src_rows nbytes = (\<lambda>(dc, slots).
     rbind (incoming_fragments dc (slice_start orig slots dst_shape) dst_shape src_shape nbytes
              (enumerate_int src_rows)) (\<lambda>incoming.
     and_then (raise_if (incoming = [] \<or> length incoming > MAX_SHUFFLE_FANIN)
       (ValueError ''subrange destination exceeds the eight-source fragment limit''))
    (and_then (raise_if
       ((\<Sum>f \<leftarrow> incoming. prod_list (frag_extent f)) \<noteq> prod_list dst_shape)
       (ValueError ''subrange fragments do not completely cover the destination''))
    (Inr incoming))))"

definition geometry_invalid :: "int list \<Rightarrow> int list \<Rightarrow> int list \<Rightarrow> int \<Rightarrow> bool" where
  "geometry_invalid shape orig ext nbytes \<longleftrightarrow>
     length shape < 2 \<or> length orig \<noteq> length shape \<or> length ext \<noteq> length shape
     \<or> nbytes \<notin> {1, 2, 4}
     \<or> (\<exists>i \<in> set [0..<length shape]. shape ! i \<le> 0 \<or> orig ! i < 0 \<or> ext ! i \<le> 0
          \<or> orig ! i + ext ! i > shape ! i)"

definition certify_dense_subrange_transfer ::
  "int list \<Rightarrow> int list \<Rightarrow> int list \<Rightarrow> (int, int) dict \<Rightarrow> (int, int) dict
   \<Rightarrow> (int, (int, int) dict) dict \<Rightarrow> (int, (int, int) dict) dict \<Rightarrow> int
   \<Rightarrow> DenseSubrangeTransfer result" where
  "certify_dense_subrange_transfer shape orig ext src_splits dst_splits src_map dst_map nbytes =
     and_then (raise_if (geometry_invalid shape orig ext nbytes)
       (ValueError ''subrange requires positive static extents inside the parent''))
    (and_then (raise_if (last shape * nbytes \<noteq> 128 \<or> last orig \<noteq> 0 \<or> last ext \<noteq> last shape)
       (ValueError ''subrange must contain complete aligned 128-byte sticks''))
    (rbind (dense_subrange_partition shape src_splits src_map False)
       (\<lambda>(src_full, src_rows, src_shape).
     rbind (dense_subrange_partition ext dst_splits dst_map True)
       (\<lambda>(dst_full, dst_rows, dst_shape).
     rbind (traverse (destination_fragments orig src_shape dst_shape src_rows nbytes)
              (enumerate_int dst_rows)) (\<lambda>frags.
     Inr \<lparr>parent_shape = shape, sub_origin = orig, sub_extent = ext, element_bytes = nbytes,
          source_splits = src_full, destination_splits = dst_full, source_owners = src_rows,
          destination_owners = dst_rows, source_local_shape = src_shape,
          destination_local_shape = dst_shape,
          source_reservation_bytes = prod_list src_shape * nbytes,
          destination_reservation_bytes = prod_list dst_shape * nbytes,
          fragments = concat frags\<rparr>)))))"

definition local_fragment_ok ::
  "DenseSubrangeTransfer \<Rightarrow> int \<times> SubrangeTransferFragment \<Rightarrow> bool" where
  "local_fragment_ok cert = (\<lambda>(core, f).
     source_core f = core \<and> destination_core f = core \<and> destination_offset_bytes f = 0
     \<and> frag_extent f = destination_local_shape cert
     \<and> \<not> (\<exists>i \<in> set [0..<length (frag_extent f)]. frag_extent f ! i > 1
            \<and> source_strides_bytes f ! i \<noteq> destination_strides_bytes f ! i))"

definition local_subrange_byte_offset :: "DenseSubrangeTransfer \<Rightarrow> int result" where
  "local_subrange_byte_offset cert =
    (let count = length (source_owners cert);
         offsets = remdups (map source_offset_bytes (fragments cert)) in
     and_then (raise_if (length (destination_owners cert) \<noteq> count
          \<or> length (fragments cert) \<noteq> count)
       (ValueError ''local subrange needs one fragment on every source core''))
    (and_then (raise_if (\<not> list_all (local_fragment_ok cert) (enumerate_int (fragments cert)))
       (ValueError ''subrange is not a compact same-core read''))
    (and_then (raise_if (length offsets \<noteq> 1)
       (ValueError ''local subrange needs one common byte offset''))
    (Inr (hd offsets)))))"

section \<open>Boxes and slices\<close>

text \<open>A point lies in the box that starts at \<open>a\<close> and has the extents \<open>an\<close>.\<close>

definition in_box :: "int list \<Rightarrow> int list \<Rightarrow> int list \<Rightarrow> bool" where
  "in_box a an p \<longleftrightarrow> length p = length an
     \<and> (\<forall>i < length an. a ! i \<le> p ! i \<and> p ! i < a ! i + an ! i)"

lemma length_slice_start [simp]: "length (slice_start orig slots shape) = length shape"
  by (simp add: slice_start_def)

lemma nth_slice_start [simp]:
  "i < length shape \<Longrightarrow> slice_start orig slots shape ! i = orig ! i + slots ! i * shape ! i"
  by (simp add: slice_start_def)

lemma distinct_of_counts: "\<forall>x \<in> set xs. count_list xs x = 1 \<Longrightarrow> distinct xs"
proof (induction xs)
  case (Cons a xs)
  have "count_list xs a = 0" using Cons.prems by simp
  then have "a \<notin> set xs" by (simp add: count_list_0_iff)
  moreover have "\<forall>x \<in> set xs. count_list xs x = 1"
  proof
    fix x assume "x \<in> set xs"
    then have "x \<noteq> a" "count_list (a # xs) x = 1" using calculation Cons.prems by auto
    then show "count_list xs x = 1" by simp
  qed
  ultimately show ?case using Cons.IH by simp
qed simp

lemma row_counts_unique:
  assumes "card (set (row_counts rows)) = 1" "Max (set (row_counts rows)) = 1"
  shows "distinct rows"
proof (rule distinct_of_counts)
  obtain k where k: "set (row_counts rows) = {k}" using assms(1) by (rule card_1_singletonE)
  then have "k = 1" using assms(2) by simp
  then show "\<forall>x \<in> set rows. count_list rows x = 1" using k by (auto simp: row_counts_def)
qed

text \<open>What a validated partition guarantees.\<close>

definition partition_ok :: "int list \<Rightarrow> int list \<Rightarrow> int list list \<Rightarrow> int list \<Rightarrow> bool" where
  "partition_ok shape fs rows lshape \<longleftrightarrow>
     length fs = length shape \<and> length lshape = length shape
     \<and> (\<forall>i < length shape. 0 < fs ! i \<and> fs ! i dvd shape ! i \<and> lshape ! i = shape ! i div fs ! i)
     \<and> (\<forall>r. r \<in> set rows \<longleftrightarrow> length r = length shape \<and> (\<forall>i < length shape. 0 \<le> r ! i \<and> r ! i < fs ! i))"

lemma in_product_ranges:
  "r \<in> set (product_lists (map (\<lambda>split. [0..split - 1]) fs)) \<longleftrightarrow>
     length r = length fs \<and> (\<forall>i < length fs. 0 \<le> r ! i \<and> r ! i < fs ! i)"
  by (auto simp: product_lists_set list_all2_conv_all_nth)

lemma dense_subrange_partition_Inr:
  assumes "dense_subrange_partition shape splits owners rep = Inr (fs, rows, lshape)"
  shows "partition_ok shape fs rows lshape" and "\<not> rep \<Longrightarrow> distinct rows"
proof -
  have fs: "fs = full_splits shape splits"
    and each: "\<forall>i \<in> set [0..<length shape]. \<not> (fs ! i \<le> 0 \<or> shape ! i mod fs ! i \<noteq> 0)"
    and rows: "set rows = set (product_lists (map (\<lambda>split. [0..split - 1]) fs))"
    and cnt: "card (set (row_counts rows)) = 1"
    and one: "\<not> rep \<Longrightarrow> Max (set (row_counts rows)) = 1"
    and ls: "lshape = map (\<lambda>i. shape ! i div fs ! i) [0..<length shape]"
    using assms by (auto simp: dense_subrange_partition_def Let_def)
  have len: "length fs = length shape" by (simp add: fs full_splits_def)
  show "partition_ok shape fs rows lshape"
    unfolding partition_ok_def rows in_product_ranges
    using each len ls by (auto simp: not_le mod_eq_0_iff_dvd)
  show "distinct rows" if "\<not> rep" using row_counts_unique [OF cnt one [OF that]] .
qed

lemma partition_widths:
  assumes "partition_ok shape fs rows lshape" "i < length shape" "0 < shape ! i"
  shows "shape ! i = fs ! i * lshape ! i" "0 < lshape ! i" "0 < fs ! i"
proof -
  have h: "0 < fs ! i" "fs ! i dvd shape ! i" "lshape ! i = shape ! i div fs ! i"
    using assms by (auto simp: partition_ok_def)
  then show eq: "shape ! i = fs ! i * lshape ! i" "0 < fs ! i" by simp_all
  show "0 < lshape ! i" using eq assms(3) by (metis zero_less_mult_pos)
qed

text \<open>Every point of the shape lies in the slice of exactly one row.\<close>

lemma partition_owner:
  assumes ok: "partition_ok shape fs rows lshape" and pos: "\<forall>i < length shape. 0 < shape ! i"
    and p: "in_box (replicate (length shape) 0) shape p"
  obtains s where "s \<in> set rows"
    "\<forall>r \<in> set rows.
      in_box (slice_start (replicate (length lshape) 0) r lshape) lshape p \<longleftrightarrow> r = s"
proof -
  define s where "s = map (\<lambda>i. p ! i div lshape ! i) [0..<length shape]"
  have len: "length lshape = length shape" using ok by (simp add: partition_ok_def)
  have w: "shape ! i = fs ! i * lshape ! i" "0 < lshape ! i" "0 \<le> p ! i" "p ! i < fs ! i * lshape ! i"
    if "i < length shape" for i
    using partition_widths [OF ok that] pos p that by (auto simp: in_box_def)
  have "s \<in> set rows"
    using ok w div_less_of_less_mult by (auto simp: partition_ok_def s_def pos_imp_zdiv_nonneg_iff)
  moreover have "in_box (slice_start (replicate (length lshape) 0) r lshape) lshape p \<longleftrightarrow> r = s"
    if r: "r \<in> set rows" for r
  proof -
    have lr: "length r = length shape" using ok r by (simp add: partition_ok_def)
    have "in_box (slice_start (replicate (length lshape) 0) r lshape) lshape p \<longleftrightarrow>
        (\<forall>i < length shape. r ! i * lshape ! i \<le> p ! i \<and> p ! i < r ! i * lshape ! i + lshape ! i)"
      using p len by (simp add: in_box_def)
    also have "\<dots> \<longleftrightarrow> (\<forall>i < length shape. p ! i div lshape ! i = r ! i)"
      by (intro all_cong div_block_iff [symmetric] w(2))
    finally have box: "in_box (slice_start (replicate (length lshape) 0) r lshape) lshape p \<longleftrightarrow>
        (\<forall>i < length shape. p ! i div lshape ! i = r ! i)" .
    have nth_s: "s ! i = p ! i div lshape ! i" if "i < length shape" for i
      using that by (simp add: s_def)
    show ?thesis
    proof
      assume "in_box (slice_start (replicate (length lshape) 0) r lshape) lshape p"
      then have "\<forall>i < length shape. p ! i div lshape ! i = r ! i" unfolding box .
      then show "r = s" using nth_s lr by (intro nth_equalityI) (simp_all add: s_def)
    next
      assume "r = s"
      then show "in_box (slice_start (replicate (length lshape) 0) r lshape) lshape p"
        unfolding box using nth_s by simp
    qed
  qed
  ultimately show thesis using that by blast
qed

section \<open>Fragments\<close>

lemma mk_fragment_simps [simp]:
  "source_core (mk_fragment sc dc a an b bn k) = sc"
  "destination_core (mk_fragment sc dc a an b bn k) = dc"
  "parent_origin (mk_fragment sc dc a an b bn k) = map (\<lambda>i. max (a ! i) (b ! i)) [0..<length an]"
  "length (frag_extent (mk_fragment sc dc a an b bn k)) = length an"
  "source_strides_bytes (mk_fragment sc dc a an b bn k) = local_strides an k"
  "destination_strides_bytes (mk_fragment sc dc a an b bn k) = local_strides bn k"
  by (simp_all add: mk_fragment_def Let_def)

lemma frag_extent_nth:
  "i < length an \<Longrightarrow> frag_extent (mk_fragment sc dc a an b bn k) ! i
     = min (a ! i + an ! i) (b ! i + bn ! i) - max (a ! i) (b ! i)"
  by (simp add: mk_fragment_def Let_def)

text \<open>A fragment is exactly the intersection of the two slices.\<close>

lemma in_fragment_iff:
  assumes "length an = length bn"
  shows "in_box (parent_origin (mk_fragment sc dc a an b bn k))
           (frag_extent (mk_fragment sc dc a an b bn k)) p
     \<longleftrightarrow> in_box a an p \<and> in_box b bn p"
  using assms by (auto simp: in_box_def frag_extent_nth)

lemma in_boxes_overlap:
  "in_box a an p \<Longrightarrow> in_box b bn p \<Longrightarrow> length a = length an \<Longrightarrow> length an = length bn \<Longrightarrow>
     boxes_overlap a an b bn"
  by (fastforce simp: in_box_def boxes_overlap_def intervals_overlap_def)

definition zero_start :: "int list \<Rightarrow> int list \<Rightarrow> int list" where
  "zero_start slots shape = slice_start (replicate (length shape) 0) slots shape"

lemma length_zero_start [simp]: "length (zero_start slots shape) = length shape"
  by (simp add: zero_start_def)

lemma incoming_fragments_Inr:
  assumes "incoming_fragments dc ds bn an k srcs = Inr fs"
  shows "set fs = {mk_fragment sc dc (zero_start r an) an ds bn k | sc r.
            (sc, r) \<in> set srcs \<and> boxes_overlap (zero_start r an) an ds bn}"
    and "\<forall>f \<in> set fs.
       \<not> span_exceeded (source_offset_bytes f) (frag_extent f) (source_strides_bytes f) k
           (prod_list an * k)
       \<and> \<not> span_exceeded (destination_offset_bytes f) (frag_extent f)
           (destination_strides_bytes f) k (prod_list bn * k)"
proof -
  have "set fs = {mk_fragment sc dc (zero_start r an) an ds bn k | sc r.
            (sc, r) \<in> set srcs \<and> boxes_overlap (zero_start r an) an ds bn}
    \<and> (\<forall>f \<in> set fs.
       \<not> span_exceeded (source_offset_bytes f) (frag_extent f) (source_strides_bytes f) k
           (prod_list an * k)
       \<and> \<not> span_exceeded (destination_offset_bytes f) (frag_extent f)
           (destination_strides_bytes f) k (prod_list bn * k))"
    using assms
  proof (induction srcs arbitrary: fs)
    case (Cons x srcs)
    obtain sc r where x: "x = (sc, r)" by force
    let ?f = "mk_fragment sc dc (zero_start r an) an ds bn k"
    show ?case
    proof (cases "boxes_overlap (zero_start r an) an ds bn")
      case False
      then have "incoming_fragments dc ds bn an k srcs = Inr fs"
        using Cons.prems x by (simp add: Let_def zero_start_def)
      note IH = Cons.IH [OF this]
      then show ?thesis using False x by auto
    next
      case True
      then obtain fs' where fs': "incoming_fragments dc ds bn an k srcs = Inr fs'" "fs = ?f # fs'"
        and sp: "\<not> span_exceeded (source_offset_bytes ?f) (frag_extent ?f)
            (source_strides_bytes ?f) k (prod_list an * k)"
          "\<not> span_exceeded (destination_offset_bytes ?f) (frag_extent ?f)
            (destination_strides_bytes ?f) k (prod_list bn * k)"
        using Cons.prems x by (auto simp: Let_def zero_start_def split: if_splits)
      note IH = Cons.IH [OF fs'(1)]
      show ?thesis unfolding fs'(2) using IH sp True x by auto
    qed
  qed simp
  then show "set fs = {mk_fragment sc dc (zero_start r an) an ds bn k | sc r.
            (sc, r) \<in> set srcs \<and> boxes_overlap (zero_start r an) an ds bn}"
    and "\<forall>f \<in> set fs.
       \<not> span_exceeded (source_offset_bytes f) (frag_extent f) (source_strides_bytes f) k
           (prod_list an * k)
       \<and> \<not> span_exceeded (destination_offset_bytes f) (frag_extent f)
           (destination_strides_bytes f) k (prod_list bn * k)"
    by blast+
qed

section \<open>Certificates\<close>

lemma in_enumerate_int:
  "(k, x) \<in> set (enumerate_int xs) \<longleftrightarrow> (\<exists>i < length xs. k = int i \<and> x = xs ! i)"
proof -
  have "(k, x) \<in> set (enumerate_int xs) \<longleftrightarrow>
      (\<exists>i < length xs. [0..int (length xs) - 1] ! i = k \<and> xs ! i = x)"
    by (auto simp: enumerate_int_def in_set_zip)
  also have "\<dots> \<longleftrightarrow> (\<exists>i < length xs. k = int i \<and> x = xs ! i)" by (auto simp: nth_upto)
  finally show ?thesis .
qed

lemma set_enumerate_int: "set (enumerate_int xs) = (\<lambda>i. (int i, xs ! i)) ` {..<length xs}"
  by (auto simp: in_enumerate_int)

text \<open>The slice of the child that destination core \<open>j\<close> holds, and that of source core \<open>k\<close>.\<close>

definition destination_start :: "DenseSubrangeTransfer \<Rightarrow> nat \<Rightarrow> int list" where
  "destination_start c j = slice_start (sub_origin c) (destination_owners c ! j) (destination_local_shape c)"

definition source_start :: "DenseSubrangeTransfer \<Rightarrow> nat \<Rightarrow> int list" where
  "source_start c k = zero_start (source_owners c ! k) (source_local_shape c)"

definition transfer_fragment :: "DenseSubrangeTransfer \<Rightarrow> nat \<Rightarrow> nat \<Rightarrow> SubrangeTransferFragment" where
  "transfer_fragment c k j = mk_fragment (int k) (int j) (source_start c k) (source_local_shape c)
     (destination_start c j) (destination_local_shape c) (element_bytes c)"

text \<open>What a certificate says, without reference to the loops that built it.\<close>

definition certificate_ok :: "DenseSubrangeTransfer \<Rightarrow> bool" where
  "certificate_ok c \<longleftrightarrow>
     \<not> geometry_invalid (parent_shape c) (sub_origin c) (sub_extent c) (element_bytes c)
     \<and> partition_ok (parent_shape c) (source_splits c) (source_owners c) (source_local_shape c)
     \<and> distinct (source_owners c)
     \<and> partition_ok (sub_extent c) (destination_splits c) (destination_owners c)
         (destination_local_shape c)
     \<and> source_reservation_bytes c = prod_list (source_local_shape c) * element_bytes c
     \<and> destination_reservation_bytes c = prod_list (destination_local_shape c) * element_bytes c
     \<and> (\<forall>f. f \<in> set (fragments c) \<longleftrightarrow> (\<exists>k < length (source_owners c).
          \<exists>j < length (destination_owners c). f = transfer_fragment c k j
          \<and> boxes_overlap (source_start c k) (source_local_shape c)
              (destination_start c j) (destination_local_shape c)))
     \<and> (\<forall>f \<in> set (fragments c).
          \<not> span_exceeded (source_offset_bytes f) (frag_extent f) (source_strides_bytes f)
              (element_bytes c) (source_reservation_bytes c)
          \<and> \<not> span_exceeded (destination_offset_bytes f) (frag_extent f)
              (destination_strides_bytes f) (element_bytes c) (destination_reservation_bytes c))"

lemma destination_fragments_Inr:
  assumes "destination_fragments orig an bn rows nb (int j, slots) = Inr fs"
  shows "f \<in> set fs \<longleftrightarrow> (\<exists>k < length rows.
      f = mk_fragment (int k) (int j) (zero_start (rows ! k) an) an (slice_start orig slots bn) bn nb
      \<and> boxes_overlap (zero_start (rows ! k) an) an (slice_start orig slots bn) bn)"
    and "\<forall>f \<in> set fs.
       \<not> span_exceeded (source_offset_bytes f) (frag_extent f) (source_strides_bytes f) nb
           (prod_list an * nb)
       \<and> \<not> span_exceeded (destination_offset_bytes f) (frag_extent f)
           (destination_strides_bytes f) nb (prod_list bn * nb)"
proof -
  have run: "incoming_fragments (int j) (slice_start orig slots bn) bn an nb (enumerate_int rows) = Inr fs"
    using assms by (auto simp: destination_fragments_def)
  show "f \<in> set fs \<longleftrightarrow> (\<exists>k < length rows.
      f = mk_fragment (int k) (int j) (zero_start (rows ! k) an) an (slice_start orig slots bn) bn nb
      \<and> boxes_overlap (zero_start (rows ! k) an) an (slice_start orig slots bn) bn)"
    unfolding incoming_fragments_Inr(1) [OF run] by (auto simp: in_enumerate_int)
  show "\<forall>f \<in> set fs.
       \<not> span_exceeded (source_offset_bytes f) (frag_extent f) (source_strides_bytes f) nb
           (prod_list an * nb)
       \<and> \<not> span_exceeded (destination_offset_bytes f) (frag_extent f)
           (destination_strides_bytes f) nb (prod_list bn * nb)"
    by (rule incoming_fragments_Inr(2) [OF run])
qed

lemma in_concat_traverse:
  assumes "traverse g xs = Inr yss"
  shows "y \<in> set (concat yss) \<longleftrightarrow> (\<exists>x \<in> set xs. \<exists>ys. g x = Inr ys \<and> y \<in> set ys)"
  using assms by (induction xs arbitrary: yss) auto

lemma certify_certificate_ok:
  assumes "certify_dense_subrange_transfer shape orig ext ss ds sm dm nb = Inr c"
  shows "certificate_ok c"
proof -
  obtain sf srows an df drows bn frags where
    geo: "\<not> geometry_invalid shape orig ext nb"
    and src: "dense_subrange_partition shape ss sm False = Inr (sf, srows, an)"
    and dst: "dense_subrange_partition ext ds dm True = Inr (df, drows, bn)"
    and tr: "traverse (destination_fragments orig an bn srows nb) (enumerate_int drows) = Inr frags"
    and c: "c = \<lparr>parent_shape = shape, sub_origin = orig, sub_extent = ext, element_bytes = nb,
          source_splits = sf, destination_splits = df, source_owners = srows,
          destination_owners = drows, source_local_shape = an, destination_local_shape = bn,
          source_reservation_bytes = prod_list an * nb,
          destination_reservation_bytes = prod_list bn * nb, fragments = concat frags\<rparr>"
    using assms by (auto simp: certify_dense_subrange_transfer_def)
  note ic = in_concat_traverse [OF tr]
  have run: "\<exists>fs. destination_fragments orig an bn srows nb (int j, drows ! j) = Inr fs"
    if j: "j < length drows" for j
  proof -
    have "(int j, drows ! j) \<in> set (enumerate_int drows)" using j by (auto simp: in_enumerate_int)
    then show ?thesis by (rule traverse_member [OF tr])
  qed
  have mem: "f \<in> set (concat frags) \<longleftrightarrow> (\<exists>k < length srows. \<exists>j < length drows.
      f = transfer_fragment c k j \<and> boxes_overlap (source_start c k) an (destination_start c j) bn)" for f
  proof -
    have step: "(\<exists>fs. destination_fragments orig an bn srows nb (int j, drows ! j) = Inr fs \<and> f \<in> set fs)
        \<longleftrightarrow> (\<exists>k < length srows. f = transfer_fragment c k j
          \<and> boxes_overlap (source_start c k) an (destination_start c j) bn)" if j: "j < length drows" for j
    proof -
      obtain fs where fs: "destination_fragments orig an bn srows nb (int j, drows ! j) = Inr fs"
        using run [OF j] by blast
      show ?thesis using destination_fragments_Inr(1) [OF fs, of f] fs
        by (simp add: c transfer_fragment_def source_start_def destination_start_def)
    qed
    have "f \<in> set (concat frags) \<longleftrightarrow> (\<exists>j < length drows. \<exists>fs.
        destination_fragments orig an bn srows nb (int j, drows ! j) = Inr fs \<and> f \<in> set fs)"
      unfolding ic set_enumerate_int by blast
    also have "\<dots> \<longleftrightarrow> (\<exists>j < length drows. \<exists>k < length srows. f = transfer_fragment c k j
        \<and> boxes_overlap (source_start c k) an (destination_start c j) bn)"
      by (intro ex_cong1 conj_cong refl step)
    finally show ?thesis by blast
  qed
  have sp: "\<not> span_exceeded (source_offset_bytes f) (frag_extent f) (source_strides_bytes f) nb
           (prod_list an * nb)
       \<and> \<not> span_exceeded (destination_offset_bytes f) (frag_extent f)
           (destination_strides_bytes f) nb (prod_list bn * nb)" if "f \<in> set (concat frags)" for f
    using that destination_fragments_Inr(2) unfolding ic by (auto simp: in_enumerate_int)
  show ?thesis
    unfolding certificate_ok_def
    using geo dense_subrange_partition_Inr [OF src] dense_subrange_partition_Inr(1) [OF dst] mem sp
    by (simp add: c)
qed

subsection \<open>Where the pieces lie\<close>

lemma certificate_shapes:
  assumes "certificate_ok c"
  shows "length (source_local_shape c) = length (parent_shape c)"
    "length (destination_local_shape c) = length (parent_shape c)"
    "\<forall>i < length (parent_shape c). 0 < parent_shape c ! i \<and> 0 \<le> sub_origin c ! i
       \<and> 0 < sub_extent c ! i \<and> sub_origin c ! i + sub_extent c ! i \<le> parent_shape c ! i"
    "length (sub_extent c) = length (parent_shape c)" "0 < element_bytes c"
  using assms unfolding certificate_ok_def geometry_invalid_def partition_ok_def
  by (auto simp: not_le not_less)

text \<open>A destination slice lies inside the parent.\<close>

lemma destination_in_parent:
  assumes ok: "certificate_ok c" and j: "j < length (destination_owners c)"
    and p: "in_box (destination_start c j) (destination_local_shape c) p"
  shows "in_box (replicate (length (parent_shape c)) 0) (parent_shape c) p"
proof -
  note sh = certificate_shapes [OF ok]
  have dok: "partition_ok (sub_extent c) (destination_splits c) (destination_owners c)
      (destination_local_shape c)"
    using ok by (simp add: certificate_ok_def)
  let ?r = "destination_owners c ! j" and ?w = "destination_local_shape c"
  have "0 \<le> p ! i \<and> p ! i < parent_shape c ! i" if i: "i < length (parent_shape c)" for i
  proof -
    have ie: "i < length (sub_extent c)" using i sh(4) by simp
    have geo: "0 \<le> sub_origin c ! i" "0 < sub_extent c ! i"
      "sub_origin c ! i + sub_extent c ! i \<le> parent_shape c ! i"
      using sh(3) i by blast+
    note w = partition_widths [OF dok ie geo(2)]
    have r: "0 \<le> ?r ! i" "?r ! i + 1 \<le> destination_splits c ! i"
      using dok nth_mem [OF j] ie by (auto simp: partition_ok_def)
    have "(?r ! i + 1) * ?w ! i \<le> destination_splits c ! i * ?w ! i"
      using r(2) w(2) by (intro mult_right_mono) simp_all
    moreover have "0 \<le> ?r ! i * ?w ! i" using r(1) w(2) by simp
    moreover have "sub_origin c ! i + ?r ! i * ?w ! i \<le> p ! i"
      "p ! i < sub_origin c ! i + ?r ! i * ?w ! i + ?w ! i"
      using p i sh(2) by (auto simp: in_box_def destination_start_def)
    ultimately show ?thesis using geo w(1) by (simp add: algebra_simps)
  qed
  then show ?thesis using p sh(2) by (auto simp: in_box_def)
qed

text \<open>The one source core that holds a point of the parent.\<close>

lemma source_of_point:
  assumes ok: "certificate_ok c" and p: "in_box (replicate (length (parent_shape c)) 0) (parent_shape c) p"
  obtains k where "k < length (source_owners c)"
    "\<forall>k' < length (source_owners c).
       in_box (source_start c k') (source_local_shape c) p \<longleftrightarrow> k' = k"
proof -
  have sok: "partition_ok (parent_shape c) (source_splits c) (source_owners c) (source_local_shape c)"
    and dist: "distinct (source_owners c)"
    using ok by (simp_all add: certificate_ok_def)
  have pos: "\<forall>i < length (parent_shape c). 0 < parent_shape c ! i"
    using certificate_shapes(3) [OF ok] by blast
  obtain s where s: "s \<in> set (source_owners c)"
    "\<forall>r \<in> set (source_owners c). in_box (slice_start (replicate (length (source_local_shape c)) 0)
        r (source_local_shape c)) (source_local_shape c) p \<longleftrightarrow> r = s"
    by (rule partition_owner [OF sok pos p])
  obtain k where k: "k < length (source_owners c)" "source_owners c ! k = s"
    using s(1) by (auto simp: in_set_conv_nth)
  have "in_box (source_start c k') (source_local_shape c) p \<longleftrightarrow> k' = k"
    if k': "k' < length (source_owners c)" for k'
    using s(2) [rule_format, OF nth_mem [OF k']] nth_eq_iff_index_eq [OF dist k' k(1)] k(2)
    by (simp add: source_start_def zero_start_def)
  then show thesis using that k(1) by blast
qed

lemma in_transfer_fragment:
  assumes "certificate_ok c"
  shows "in_box (parent_origin (transfer_fragment c k j)) (frag_extent (transfer_fragment c k j)) p
    \<longleftrightarrow> in_box (source_start c k) (source_local_shape c) p
      \<and> in_box (destination_start c j) (destination_local_shape c) p"
  unfolding transfer_fragment_def
  by (rule in_fragment_iff) (simp add: certificate_shapes(1,2) [OF assms])

subsection \<open>Addresses\<close>

text \<open>Byte address of a coordinate in storage with given strides, from an offset at \<open>start\<close>.\<close>

definition byte_address :: "int \<Rightarrow> int list \<Rightarrow> int list \<Rightarrow> int list \<Rightarrow> int" where
  "byte_address off strides start p =
     off + dot (map (\<lambda>i. p ! i - start ! i) [0..<length strides]) strides"

lemma dot_sum: "length ys = n \<Longrightarrow> dot (map f [0..<n]) ys = (\<Sum>i < n. f i * ys ! i)"
  unfolding dot_def by (simp add: sum_list_sum_nth atLeast0LessThan)

lemma length_local_strides [simp]: "length (local_strides shape nb) = length shape"
  by (simp add: local_strides_def)

lemma local_strides_nonneg:
  assumes "\<forall>x \<in> set shape. 0 < x" "0 < nb" "i < length shape"
  shows "0 \<le> local_strides shape nb ! i"
proof -
  have "0 < prod_list (drop (Suc i) shape)"
    using assms(1) set_drop_subset [of "Suc i" shape] by (intro prod_list_pos) blast
  then show ?thesis using assms by (simp add: local_strides_def)
qed

text \<open>A fragment's offset is the address of its first coordinate.\<close>

lemma fragment_offsets:
  assumes "length an = n" "length bn = n"
  shows "source_offset_bytes (mk_fragment sc dc a an b bn nb)
      = byte_address 0 (local_strides an nb) a (parent_origin (mk_fragment sc dc a an b bn nb))"
    and "destination_offset_bytes (mk_fragment sc dc a an b bn nb)
      = byte_address 0 (local_strides bn nb) b (parent_origin (mk_fragment sc dc a an b bn nb))"
  using assms by (simp_all add: mk_fragment_def Let_def byte_address_def dot_sum)

lemma byte_address_shift:
  "byte_address (byte_address 0 st a b) st b p = byte_address 0 st a p"
  by (simp add: byte_address_def dot_sum sum.distrib [symmetric] algebra_simps)

lemma byte_address_in_span:
  assumes ok: "\<not> span_exceeded off widths st nb reserved" and len: "length widths = length st"
    and st: "\<forall>i < length st. 0 \<le> st ! i" and p: "in_box start widths p"
  shows "0 \<le> byte_address off st start p" "byte_address off st start p + nb \<le> reserved"
proof -
  have map_w: "map (\<lambda>w. w - 1) widths = map (\<lambda>i. widths ! i - 1) [0..<length st]"
    using len by (intro nth_equalityI) simp_all
  have b: "0 \<le> p ! i - start ! i" "p ! i - start ! i \<le> widths ! i - 1" if "i < length st" for i
    using p that len by (auto simp: in_box_def)
  have lo: "0 \<le> (\<Sum>i < length st. (p ! i - start ! i) * st ! i)"
    using b(1) st by (intro sum_nonneg) simp
  have "(\<Sum>i < length st. (p ! i - start ! i) * st ! i) \<le> (\<Sum>i < length st. (widths ! i - 1) * st ! i)"
    using b(2) st by (intro sum_mono mult_right_mono) simp_all
  then show "0 \<le> byte_address off st start p" "byte_address off st start p + nb \<le> reserved"
    using ok lo unfolding span_exceeded_def map_w by (simp_all add: byte_address_def dot_sum)
qed

lemma certificate_local_pos:
  assumes ok: "certificate_ok c"
  shows "\<forall>x \<in> set (source_local_shape c). 0 < x" "\<forall>x \<in> set (destination_local_shape c). 0 < x"
proof -
  note sh = certificate_shapes [OF ok]
  have "0 < source_local_shape c ! i" "0 < destination_local_shape c ! i"
    if "i < length (parent_shape c)" for i
    using partition_widths(2) ok sh that unfolding certificate_ok_def by metis+
  then show "\<forall>x \<in> set (source_local_shape c). 0 < x" "\<forall>x \<in> set (destination_local_shape c). 0 < x"
    using sh(1,2) by (auto simp: in_set_conv_nth)
qed

section \<open>Properties\<close>

text \<open>Two cores, each with a row of two sticks; the child is every row's second stick.\<close>

definition sample_fragment :: "int \<Rightarrow> SubrangeTransferFragment" where
  "sample_fragment core = \<lparr>source_core = core, destination_core = core,
     parent_origin = [core, 1, 0], frag_extent = [1, 1, 64], source_offset_bytes = 128,
     destination_offset_bytes = 0, source_strides_bytes = [256, 128, 2],
     destination_strides_bytes = [128, 128, 2]\<rparr>"

definition sample_certificate :: DenseSubrangeTransfer where
  "sample_certificate = \<lparr>parent_shape = [2, 2, 64], sub_origin = [0, 1, 0],
     sub_extent = [2, 1, 64], element_bytes = 2, source_splits = [2, 1, 1],
     destination_splits = [2, 1, 1], source_owners = [[0, 0, 0], [1, 0, 0]],
     destination_owners = [[0, 0, 0], [1, 0, 0]], source_local_shape = [1, 2, 64],
     destination_local_shape = [1, 1, 64], source_reservation_bytes = 256,
     destination_reservation_bytes = 128, fragments = [sample_fragment 0, sample_fragment 1]\<rparr>"

lemma sample_certified:
  "certify_dense_subrange_transfer [2, 2, 64] [0, 1, 0] [2, 1, 64] [(0, 2)] [(0, 2)]
     [(0, [(0, 0)]), (1, [(0, 1)])] [(0, [(0, 0)]), (1, [(0, 1)])] 2 = Inr sample_certificate"
  by code_simp

lemma sample_box: "in_box (destination_start sample_certificate 1) (destination_local_shape sample_certificate)
    [1, 1, 5]"
  by (simp add: in_box_def destination_start_def sample_certificate_def slice_start_def
      nth_Cons' All_less_Suc2 numeral_eq_Suc)

text \<open>
  C13. A certified transfer moves every element exactly once, from its owner.  For every
  destination core and every coordinate of the slice it receives, exactly one of the fragments
  addressed to that core contains the coordinate, whatever core sends it; and every fragment to
  that core that contains the coordinate is sent by a core whose own slice holds it.
\<close>
theorem certified_transfer_exact:
  assumes "certify_dense_subrange_transfer shape orig ext ss ds sm dm nb = Inr c"
    and "j < length (destination_owners c)"
    and "in_box (destination_start c j) (destination_local_shape c) p"
  shows "(\<exists>!f. f \<in> set (fragments c) \<and> destination_core f = int j \<and> in_box (parent_origin f) (frag_extent f) p)
    \<and> (\<forall>f \<in> set (fragments c). destination_core f = int j \<and> in_box (parent_origin f) (frag_extent f) p \<longrightarrow>
         (\<exists>k < length (source_owners c). source_core f = int k
            \<and> in_box (source_start c k) (source_local_shape c) p))"
proof -
  have ok: "certificate_ok c" by (rule certify_certificate_ok [OF assms(1)])
  note sh = certificate_shapes [OF ok]
  have frags: "f \<in> set (fragments c) \<longleftrightarrow> (\<exists>k < length (source_owners c).
      \<exists>j < length (destination_owners c). f = transfer_fragment c k j
      \<and> boxes_overlap (source_start c k) (source_local_shape c)
          (destination_start c j) (destination_local_shape c))" for f
    using ok unfolding certificate_ok_def by blast
  obtain k where k: "k < length (source_owners c)"
    and uk: "\<forall>k' < length (source_owners c).
       in_box (source_start c k') (source_local_shape c) p \<longleftrightarrow> k' = k"
    by (rule source_of_point [OF ok destination_in_parent [OF ok assms(2,3)]])
  have src: "in_box (source_start c k) (source_local_shape c) p" using uk k by blast
  have core: "source_core (transfer_fragment c a b) = int a"
    "destination_core (transfer_fragment c a b) = int b" for a b
    by (simp_all add: transfer_fragment_def)
  have "boxes_overlap (source_start c k) (source_local_shape c)
      (destination_start c j) (destination_local_shape c)"
    using in_boxes_overlap [OF src assms(3)] sh(1,2) by (simp add: source_start_def)
  then have mem: "transfer_fragment c k j \<in> set (fragments c)" using frags k assms(2) by blast
  have only: "f = transfer_fragment c k j"
    if f: "f \<in> set (fragments c)" "destination_core f = int j" "in_box (parent_origin f) (frag_extent f) p" for f
  proof -
    obtain k' j' where f': "f = transfer_fragment c k' j'" "k' < length (source_owners c)"
      using frags f(1) by blast
    then have "j' = j" using f(2) core by simp
    moreover have "k' = k" using f f' in_transfer_fragment [OF ok] uk by blast
    ultimately show ?thesis using f'(1) by simp
  qed
  have "transfer_fragment c k j \<in> set (fragments c) \<and> destination_core (transfer_fragment c k j) = int j
      \<and> in_box (parent_origin (transfer_fragment c k j)) (frag_extent (transfer_fragment c k j)) p"
    using mem core in_transfer_fragment [OF ok] src assms(3) k by blast
  then show ?thesis using only core(1) src k by metis
qed

theorem certified_transfer_exact_witness:
  "\<exists>!f. f \<in> set (fragments sample_certificate) \<and> destination_core f = 1
      \<and> in_box (parent_origin f) (frag_extent f) [1, 1, 5]"
proof -
  have "1 < length (destination_owners sample_certificate)" by (simp add: sample_certificate_def)
  from certified_transfer_exact [OF sample_certified this sample_box] show ?thesis by simp
qed

text \<open>
  C24. Every access of a certified transfer stays inside the reservations.  For each fragment and
  each coordinate in it, the byte address on the source core and that on the destination core lie
  in the storage reserved there, element included, and fragments start on 128-byte sticks.
\<close>
theorem certified_transfer_in_bounds:
  assumes "certify_dense_subrange_transfer shape orig ext ss ds sm dm nb = Inr c"
    and "f \<in> set (fragments c)" and "in_box (parent_origin f) (frag_extent f) p"
  shows "0 \<le> byte_address (source_offset_bytes f) (source_strides_bytes f) (parent_origin f) p
    \<and> byte_address (source_offset_bytes f) (source_strides_bytes f) (parent_origin f) p
        + element_bytes c \<le> source_reservation_bytes c
    \<and> 0 \<le> byte_address (destination_offset_bytes f) (destination_strides_bytes f) (parent_origin f) p
    \<and> byte_address (destination_offset_bytes f) (destination_strides_bytes f) (parent_origin f) p
        + element_bytes c \<le> destination_reservation_bytes c
    \<and> 128 dvd source_offset_bytes f \<and> 128 dvd destination_offset_bytes f"
proof -
  have ok: "certificate_ok c" by (rule certify_certificate_ok [OF assms(1)])
  note sh = certificate_shapes [OF ok] and pos = certificate_local_pos [OF ok]
  obtain k j where f: "f = transfer_fragment c k j"
    using ok assms(2) unfolding certificate_ok_def by blast
  have sp: "\<not> span_exceeded (source_offset_bytes f) (frag_extent f) (source_strides_bytes f)
        (element_bytes c) (source_reservation_bytes c)"
      "\<not> span_exceeded (destination_offset_bytes f) (frag_extent f) (destination_strides_bytes f)
        (element_bytes c) (destination_reservation_bytes c)"
    using ok assms(2) unfolding certificate_ok_def by blast+
  have st: "source_strides_bytes f = local_strides (source_local_shape c) (element_bytes c)"
    "destination_strides_bytes f = local_strides (destination_local_shape c) (element_bytes c)"
    "length (frag_extent f) = length (parent_shape c)"
    using sh(1) by (simp_all add: f transfer_fragment_def)
  have nn: "\<forall>i < length (source_strides_bytes f). 0 \<le> source_strides_bytes f ! i"
    "\<forall>i < length (destination_strides_bytes f). 0 \<le> destination_strides_bytes f ! i"
    using local_strides_nonneg [OF pos(1) sh(5)] local_strides_nonneg [OF pos(2) sh(5)]
    by (simp_all add: st)
  have len: "length (frag_extent f) = length (source_strides_bytes f)"
    "length (frag_extent f) = length (destination_strides_bytes f)"
    using sh(1,2) by (simp_all add: st)
  note src = byte_address_in_span [OF sp(1) len(1) nn(1) assms(3)]
    and dst = byte_address_in_span [OF sp(2) len(2) nn(2) assms(3)]
  moreover have "128 dvd source_offset_bytes f" "128 dvd destination_offset_bytes f"
    using sp by (auto simp: span_exceeded_def)
  ultimately show ?thesis by blast
qed

theorem certified_transfer_in_bounds_witness:
  "byte_address (source_offset_bytes (sample_fragment 1)) [256, 128, 2] [1, 1, 0] [1, 1, 5] + 2 \<le> 256
   \<and> 128 dvd source_offset_bytes (sample_fragment 1)"
proof -
  have "sample_fragment 1 \<in> set (fragments sample_certificate)" by (simp add: sample_certificate_def)
  moreover have "in_box (parent_origin (sample_fragment 1)) (frag_extent (sample_fragment 1)) [1, 1, 5]"
    by (simp add: in_box_def sample_fragment_def nth_Cons' All_less_Suc2 numeral_eq_Suc)
  ultimately show ?thesis
    using certified_transfer_in_bounds [OF sample_certified]
    by (fastforce simp: sample_certificate_def sample_fragment_def)
qed

text \<open>
  What an accepted local read gives: the fragment of a core goes from it to itself, starts where
  the child slice starts, fills it, and has the common offset.
\<close>

lemma local_fragment_facts:
  assumes ok: "certificate_ok c" and run: "local_subrange_byte_offset c = Inr off" and j: "j < length (destination_owners c)"
    and f: "f = fragments c ! j"
  shows "f = transfer_fragment c j j" "local_fragment_ok c (int j, f)" "source_offset_bytes f = off"
    and "frag_extent f = destination_local_shape c"
proof -
  have len: "j < length (fragments c)"
    and all: "list_all (local_fragment_ok c) (enumerate_int (fragments c))"
    and offs: "length (remdups (map source_offset_bytes (fragments c))) = 1"
      "off = hd (remdups (map source_offset_bytes (fragments c)))"
    using run j by (auto simp: local_subrange_byte_offset_def Let_def)
  show lf: "local_fragment_ok c (int j, f)"
    using all len by (auto simp: list_all_iff set_enumerate_int f)
  have fm: "f \<in> set (fragments c)" using len by (simp add: f)
  then obtain k' j' where "f = transfer_fragment c k' j'"
    using ok unfolding certificate_ok_def by blast
  then show "f = transfer_fragment c j j"
    using lf by (simp add: local_fragment_ok_def transfer_fragment_def)
  obtain o' where "remdups (map source_offset_bytes (fragments c)) = [o']"
    using offs(1) by (auto simp: length_Suc_conv)
  then have "set (map source_offset_bytes (fragments c)) = {o'}" "off = o'"
    using offs(2) set_remdups [of "map source_offset_bytes (fragments c)"] by simp_all
  then show "source_offset_bytes f = off" using fm by auto
  show "frag_extent f = destination_local_shape c" using lf by (simp add: local_fragment_ok_def)
qed

lemma local_fragment_inside:
  assumes "certificate_ok c" "f = transfer_fragment c j j" "frag_extent f = destination_local_shape c"
    and i: "i < length (parent_shape c)"
  shows "parent_origin f ! i = destination_start c j ! i" "source_start c j ! i \<le> destination_start c j ! i"
    "destination_start c j ! i + destination_local_shape c ! i \<le> source_start c j ! i + source_local_shape c ! i"
proof -
  note sh = certificate_shapes [OF assms(1)]
  have "frag_extent f ! i = min (source_start c j ! i + source_local_shape c ! i)
      (destination_start c j ! i + destination_local_shape c ! i)
      - max (source_start c j ! i) (destination_start c j ! i)"
    unfolding assms(2) transfer_fragment_def using i sh(1) by (simp add: frag_extent_nth)
  then show "source_start c j ! i \<le> destination_start c j ! i"
    "destination_start c j ! i + destination_local_shape c ! i \<le> source_start c j ! i + source_local_shape c ! i"
    unfolding assms(3) by linarith+
  then show "parent_origin f ! i = destination_start c j ! i"
    unfolding assms(2) transfer_fragment_def using i sh(1) by simp
qed

text \<open>
  C25. The common offset of a local read is right on every core.  If
  \<open>local_subrange_byte_offset\<close> returns an offset, then on every core each coordinate of the
  child slice is held by the same core's parent slice, and its address there is that offset plus
  its address in the compact child.
\<close>
theorem local_subrange_offset_correct:
  assumes "certify_dense_subrange_transfer shape orig ext ss ds sm dm nb = Inr c"
    and "local_subrange_byte_offset c = Inr off"
    and "j < length (destination_owners c)"
    and "in_box (destination_start c j) (destination_local_shape c) p"
  shows "in_box (source_start c j) (source_local_shape c) p
    \<and> byte_address 0 (local_strides (source_local_shape c) nb) (source_start c j) p
      = off + byte_address 0 (local_strides (destination_local_shape c) nb) (destination_start c j) p"
proof -
  have ok: "certificate_ok c" by (rule certify_certificate_ok [OF assms(1)])
  have nb: "element_bytes c = nb" using assms(1) by (auto simp: certify_dense_subrange_transfer_def)
  note sh = certificate_shapes [OF ok]
  let ?f = "fragments c ! j" and ?n = "length (parent_shape c)"
  note lf = local_fragment_facts [OF ok assms(2,3) refl] and start = local_fragment_inside [OF ok lf(1,4)]
  have box: "in_box (source_start c j) (source_local_shape c) p"
    using assms(4) start(2,3) sh(1,2) unfolding in_box_def by fastforce
  let ?S = "local_strides (source_local_shape c) nb" and ?D = "local_strides (destination_local_shape c) nb"
  have st: "source_strides_bytes ?f = ?S" "destination_strides_bytes ?f = ?D"
    unfolding lf(1) transfer_fragment_def by (simp_all add: nb)
  have "byte_address 0 ?S (source_start c j) p
      = byte_address (source_offset_bytes ?f) ?S (parent_origin ?f) p"
    using fragment_offsets(1) [OF sh(1,2)] byte_address_shift
    unfolding lf(1) transfer_fragment_def nb by metis
  also have "\<dots> = off + (\<Sum>i < ?n. (p ! i - destination_start c j ! i) * ?S ! i)"
    using lf(3) start(1) sh(1) by (simp add: byte_address_def dot_sum)
  also have "(\<Sum>i < ?n. (p ! i - destination_start c j ! i) * ?S ! i)
      = (\<Sum>i < ?n. (p ! i - destination_start c j ! i) * ?D ! i)"
  proof (rule sum.cong [OF refl])
    fix i assume "i \<in> {..<?n}"
    then have i: "i < ?n" by simp
    have "destination_local_shape c ! i > 1 \<Longrightarrow> ?S ! i = ?D ! i"
      using lf(2,4) i sh(2) st by (auto simp: local_fragment_ok_def)
    moreover have "p ! i = destination_start c j ! i" if "\<not> destination_local_shape c ! i > 1"
      using assms(4) i sh(2) that unfolding in_box_def by fastforce
    ultimately show "(p ! i - destination_start c j ! i) * ?S ! i
        = (p ! i - destination_start c j ! i) * ?D ! i" by fastforce
  qed
  also have "(\<Sum>i < ?n. (p ! i - destination_start c j ! i) * ?D ! i)
      = byte_address 0 ?D (destination_start c j) p"
    using sh(2) by (simp add: byte_address_def dot_sum)
  finally show ?thesis using box by blast
qed

theorem local_subrange_offset_correct_witness:
  "byte_address 0 (local_strides (source_local_shape sample_certificate) 2)
      (source_start sample_certificate 1) [1, 1, 5]
   = 128 + byte_address 0 (local_strides (destination_local_shape sample_certificate) 2)
      (destination_start sample_certificate 1) [1, 1, 5]"
proof -
  have "local_subrange_byte_offset sample_certificate = Inr 128" by code_simp
  moreover have "1 < length (destination_owners sample_certificate)" by (simp add: sample_certificate_def)
  ultimately show ?thesis
    using local_subrange_offset_correct [OF sample_certified _ _ sample_box] by blast
qed

end
