(* ===== verification/Sliding_Window.thy ===== *)
theory Sliding_Window
  imports Spyre_Prelude
begin

text \<open>
  Where each query block of a sliding-window attention reads its slice of the KV cache:
  the whole of \<^verbatim>\<open>src/torch_spyre/_inductor/sliding_window_plan.py\<close>.  The module is pure
  integer arithmetic, so every function is translated as it stands.  A reason string is a
  value of a datatype with one constructor per message, carrying the interpolated values.
\<close>

section \<open>Constants and stick rounding\<close>

definition STICK :: int where "STICK = 64"

definition MAX_QUERY_BLOCK :: int where "MAX_QUERY_BLOCK = 512"

definition default_buffer_origin :: "int \<Rightarrow> int \<Rightarrow> int" where
  "default_buffer_origin seqlen_kv cache_capacity = max 0 (seqlen_kv - cache_capacity)"

definition floor_stick :: "int \<Rightarrow> int" where
  "floor_stick v = (v div STICK) * STICK"

definition ceil_stick :: "int \<Rightarrow> int" where
  "ceil_stick v = - ((- v) div STICK) * STICK"

section \<open>The plan and its queries\<close>

record SlidingWindowPlan =
  p_seqlen_q :: int
  p_seqlen_kv :: int
  p_window_size :: int
  p_q_block :: int
  p_num_q_blocks :: int
  p_buffer_width :: int
  p_q_kv_offset :: int
  p_is_causal :: bool
  p_cache_capacity :: int
  p_buffer_origin :: int

definition block_q_range :: "SlidingWindowPlan \<Rightarrow> int \<Rightarrow> int \<times> int" where
  "block_q_range p qi =
     (let q_start = qi * p_q_block p in (q_start, min (p_seqlen_q p) (q_start + p_q_block p)))"

definition row_window :: "SlidingWindowPlan \<Rightarrow> int \<Rightarrow> int \<times> int" where
  "row_window p q_index =
     (let coord = p_q_kv_offset p + q_index;
          lo = max 0 (coord - p_window_size p + 1);
          hi = min (p_seqlen_kv p) (coord + 1)
      in (lo, hi))"

definition read_start :: "SlidingWindowPlan \<Rightarrow> int \<Rightarrow> int" where
  "read_start p qi =
     (let (q_start, _) = block_q_range p qi;
          first_coord = p_q_kv_offset p + q_start;
          window_start_logical = max 0 (first_coord - p_window_size p + 1);
          physical_origin = floor_stick (window_start_logical - p_buffer_origin p)
      in min physical_origin (p_cache_capacity p - p_buffer_width p))"

definition read_start_logical :: "SlidingWindowPlan \<Rightarrow> int \<Rightarrow> int" where
  "read_start_logical p qi = read_start p qi + p_buffer_origin p"

definition block_is_fully_attended :: "SlidingWindowPlan \<Rightarrow> int \<Rightarrow> bool" where
  "block_is_fully_attended p qi =
     (let start = read_start_logical p qi;
          stop = start + p_buffer_width p;
          (q_start, q_end) = block_q_range p qi
      in list_all (\<lambda>q_index. fst (row_window p q_index) \<le> start \<and> stop \<le> snd (row_window p q_index))
           [q_start..q_end - 1])"

section \<open>Validating one read\<close>

datatype window_read_reason =
    NegativeReadStart int
  | NonPositiveWidth int
  | RunsPastCache int int int
  | HeadsNotMultiple int int
  | ShapeMismatch "int list" "int list"

definition check_window_read ::
  "int \<Rightarrow> int \<Rightarrow> int \<Rightarrow> int \<Rightarrow> int \<Rightarrow> int list \<Rightarrow> int list \<Rightarrow> window_read_reason option" where
  "check_window_read start buffer_width cache_capacity num_heads num_kv_heads key_shape value_shape =
     (if start < 0 then Some (NegativeReadStart start)
      else if buffer_width \<le> 0 then Some (NonPositiveWidth buffer_width)
      else if start + buffer_width > cache_capacity
        then Some (RunsPastCache start (start + buffer_width) cache_capacity)
      else if num_kv_heads \<le> 0 \<or> num_heads mod num_kv_heads \<noteq> 0
        then Some (HeadsNotMultiple num_heads num_kv_heads)
      else if key_shape \<noteq> value_shape then Some (ShapeMismatch key_shape value_shape)
      else None)"

section \<open>Planning\<close>

text \<open>The span of one block, the body of the loop in \<open>_required_width\<close>.\<close>

definition block_span :: "int \<Rightarrow> int \<Rightarrow> int \<Rightarrow> int \<Rightarrow> int \<Rightarrow> int \<Rightarrow> int" where
  "block_span seqlen_q window_size q_block q_kv_offset buffer_origin qi =
     (let q_start = qi * q_block;
          q_end = min seqlen_q (q_start + q_block);
          first_coord = q_kv_offset + q_start;
          last_coord = q_kv_offset + q_end - 1;
          window_start_logical = max 0 (first_coord - window_size + 1);
          physical_start = floor_stick (window_start_logical - buffer_origin);
          physical_end = (last_coord - buffer_origin) + 1
      in physical_end - physical_start)"

definition required_width :: "int \<Rightarrow> int \<Rightarrow> int \<Rightarrow> int \<Rightarrow> int \<Rightarrow> int" where
  "required_width seqlen_q window_size q_block q_kv_offset buffer_origin =
     ceil_stick
       (foldl (\<lambda>widest qi. max widest (block_span seqlen_q window_size q_block q_kv_offset buffer_origin qi))
          0 [0..(- ((- seqlen_q) div q_block)) - 1])"

text \<open>The search of \<open>query_blocking\<close>: candidates descend by one stick.\<close>

function query_block_search :: "int \<Rightarrow> int \<Rightarrow> int" where
  "query_block_search padded q_block =
     (if q_block > STICK - 1
      then if padded mod q_block = 0 then q_block
           else query_block_search padded (q_block - STICK)
      else STICK)"
  by pat_completeness auto
termination
  by (relation "measure (\<lambda>(padded, q). nat q)") (auto simp: STICK_def)

declare query_block_search.simps [simp del]

definition query_blocking :: "int \<Rightarrow> int \<Rightarrow> int \<times> int" where
  "query_blocking seqlen_q max_query_block =
     (if seqlen_q = 1 then (1, 1)
      else
        (let padded_seqlen_q = ceil_stick seqlen_q;
             max_query_block = min max_query_block MAX_QUERY_BLOCK;
             largest_candidate = min padded_seqlen_q max_query_block
         in (query_block_search padded_seqlen_q largest_candidate, padded_seqlen_q)))"

datatype rejection =
    Bidirectional
  | DegenerateLengths int int int
  | NotWholeBlocks int int
  | NonPositiveWindow int
  | QueryExceedsCache int int
  | DegenerateCapacity int
  | CapacityNotStick int
  | OriginTooSmall int int
  | OriginNotBeforeEnd int int
  | CapacityTooNarrow int int
  | CapacityReach int int

definition rejection_reason ::
  "int \<Rightarrow> int \<Rightarrow> int \<Rightarrow> bool \<Rightarrow> int \<Rightarrow> int option \<Rightarrow> int option \<Rightarrow> rejection option" where
  "rejection_reason seqlen_q seqlen_kv window_size is_causal q_block cache_capacity buffer_origin =
     (if \<not> is_causal then Some Bidirectional
      else if seqlen_q \<le> 0 \<or> seqlen_kv \<le> 0 \<or> q_block \<le> 0
        then Some (DegenerateLengths seqlen_q seqlen_kv q_block)
      else if seqlen_q mod q_block \<noteq> 0 then Some (NotWholeBlocks seqlen_q q_block)
      else if window_size \<le> 0 then Some (NonPositiveWindow window_size)
      else if seqlen_kv - seqlen_q < 0 then Some (QueryExceedsCache seqlen_q seqlen_kv)
      else
        (let effective_capacity = (case cache_capacity of None \<Rightarrow> seqlen_kv | Some c \<Rightarrow> c)
         in if effective_capacity \<le> 0 then Some (DegenerateCapacity effective_capacity)
            else if effective_capacity mod STICK \<noteq> 0 then Some (CapacityNotStick effective_capacity)
            else
              (let smallest_origin = default_buffer_origin seqlen_kv effective_capacity;
                   origin = (case buffer_origin of None \<Rightarrow> smallest_origin | Some o' \<Rightarrow> o')
               in if origin < smallest_origin then Some (OriginTooSmall origin smallest_origin)
                  else if origin \<ge> seqlen_kv then Some (OriginNotBeforeEnd origin seqlen_kv)
                  else
                    (let q_kv_offset = seqlen_kv - seqlen_q;
                         buffer_width = required_width seqlen_q window_size q_block q_kv_offset origin
                     in if effective_capacity < buffer_width
                          then Some (CapacityTooNarrow effective_capacity buffer_width)
                        else
                          (let earliest_window_start = max 0 (q_kv_offset - window_size + 1)
                           in if earliest_window_start < origin
                                then Some (CapacityReach earliest_window_start origin)
                              else None)))))"

definition plan_sliding_window ::
  "int \<Rightarrow> int \<Rightarrow> int \<Rightarrow> bool \<Rightarrow> int \<Rightarrow> int option \<Rightarrow> int option \<Rightarrow> SlidingWindowPlan option" where
  "plan_sliding_window seqlen_q seqlen_kv window_size is_causal q_block cache_capacity buffer_origin =
     (if rejection_reason seqlen_q seqlen_kv window_size is_causal q_block cache_capacity buffer_origin \<noteq> None
      then None
      else
        (let capacity = (case cache_capacity of None \<Rightarrow> seqlen_kv | Some c \<Rightarrow> c);
             origin = (case buffer_origin of None \<Rightarrow> default_buffer_origin seqlen_kv capacity | Some o' \<Rightarrow> o');
             q_kv_offset = seqlen_kv - seqlen_q;
             buffer_width = required_width seqlen_q window_size q_block q_kv_offset origin
         in Some \<lparr>p_seqlen_q = seqlen_q, p_seqlen_kv = seqlen_kv, p_window_size = window_size,
                  p_q_block = q_block, p_num_q_blocks = - ((- seqlen_q) div q_block),
                  p_buffer_width = buffer_width, p_q_kv_offset = q_kv_offset,
                  p_is_causal = is_causal, p_cache_capacity = capacity,
                  p_buffer_origin = origin\<rparr>))"

section \<open>Sticks\<close>

lemma floor_stick_dvd [simp]: "STICK dvd floor_stick v"
  by (simp add: floor_stick_def)

lemma floor_stick_le: "floor_stick v \<le> v"
  using mult_div_bounds [of STICK v] by (simp add: floor_stick_def STICK_def)

lemma floor_stick_nonneg: "0 \<le> v \<Longrightarrow> 0 \<le> floor_stick v"
  by (simp add: floor_stick_def STICK_def)

lemma ceil_stick_eq: "ceil_stick v = round_up v STICK"
  unfolding ceil_stick_def by (rule neg_div_eq_round_up) (simp add: STICK_def)

lemma ceil_stick_facts:
  "STICK dvd ceil_stick v" "v \<le> ceil_stick v" "ceil_stick v < v + STICK"
  using round_up_bounds [of STICK v] by (simp_all add: ceil_stick_eq STICK_def)

lemma ceil_stick_least: "STICK dvd m \<Longrightarrow> v \<le> m \<Longrightarrow> ceil_stick v \<le> m"
  unfolding ceil_stick_eq by (rule round_up_least) (simp_all add: STICK_def)

section \<open>What an accepted plan satisfies\<close>

text \<open>
  The arithmetic content of \<open>rejection_reason\<close> returning \<open>None\<close>, on the plan's own fields.
\<close>

definition plan_wf :: "SlidingWindowPlan \<Rightarrow> bool" where
  "plan_wf p \<longleftrightarrow>
     0 < p_seqlen_q p \<and> 0 < p_seqlen_kv p \<and> 0 < p_q_block p \<and> 0 < p_window_size p \<and>
     p_is_causal p \<and> p_q_block p dvd p_seqlen_q p \<and>
     p_num_q_blocks p = - ((- p_seqlen_q p) div p_q_block p) \<and>
     p_q_kv_offset p = p_seqlen_kv p - p_seqlen_q p \<and> 0 \<le> p_q_kv_offset p \<and>
     0 < p_cache_capacity p \<and> STICK dvd p_cache_capacity p \<and>
     0 \<le> p_buffer_origin p \<and> p_seqlen_kv p - p_cache_capacity p \<le> p_buffer_origin p \<and>
     p_buffer_origin p < p_seqlen_kv p \<and>
     p_buffer_width p = required_width (p_seqlen_q p) (p_window_size p) (p_q_block p)
                          (p_q_kv_offset p) (p_buffer_origin p) \<and>
     p_buffer_width p \<le> p_cache_capacity p \<and>
     p_buffer_origin p \<le> max 0 (p_q_kv_offset p - p_window_size p + 1)"

lemma plan_sliding_window_wf:
  assumes "plan_sliding_window sq skv w causal qb cap org = Some p"
  shows "plan_wf p"
proof -
  define c where "c = (case cap of None \<Rightarrow> skv | Some c \<Rightarrow> c)"
  define orig where "orig = (case org of None \<Rightarrow> default_buffer_origin skv c | Some o' \<Rightarrow> o')"
  have ok: "rejection_reason sq skv w causal qb cap org = None"
    using assms by (auto simp: plan_sliding_window_def split: if_splits)
  have p: "p = \<lparr>p_seqlen_q = sq, p_seqlen_kv = skv, p_window_size = w, p_q_block = qb,
      p_num_q_blocks = - ((- sq) div qb), p_buffer_width = required_width sq w qb (skv - sq) orig,
      p_q_kv_offset = skv - sq, p_is_causal = causal, p_cache_capacity = c, p_buffer_origin = orig\<rparr>"
    using assms ok unfolding plan_sliding_window_def c_def orig_def by (simp add: Let_def)
  show ?thesis
    using ok unfolding rejection_reason_def c_def [symmetric] orig_def [symmetric] Let_def
    by (simp add: p plan_wf_def default_buffer_origin_def dvd_eq_mod_eq_0 split: if_splits) arith
qed

lemma num_q_blocks_mult:
  assumes "plan_wf p"
  shows "p_num_q_blocks p * p_q_block p = p_seqlen_q p"
  using assms unfolding plan_wf_def
  by (metis dvd_div_mult_self dvd_minus_iff minus_mult_left minus_minus)

lemma block_span_le_width:
  assumes "plan_wf p" "0 \<le> qi" "qi < p_num_q_blocks p"
  shows "block_span (p_seqlen_q p) (p_window_size p) (p_q_block p) (p_q_kv_offset p)
           (p_buffer_origin p) qi \<le> p_buffer_width p"
proof -
  let ?f = "block_span (p_seqlen_q p) (p_window_size p) (p_q_block p) (p_q_kv_offset p)
              (p_buffer_origin p)"
  let ?qs = "[0..(- ((- p_seqlen_q p) div p_q_block p)) - 1]"
  have "qi \<in> set ?qs" using assms by (simp add: plan_wf_def)
  then have "?f qi \<le> foldl (\<lambda>w x. max w (?f x)) 0 ?qs" by (rule foldl_max_ge)
  also have "\<dots> \<le> p_buffer_width p"
    using assms(1) ceil_stick_facts(2) by (simp add: plan_wf_def required_width_def)
  finally show ?thesis .
qed

lemma buffer_width_stick: "plan_wf p \<Longrightarrow> STICK dvd p_buffer_width p"
  by (simp add: plan_wf_def required_width_def ceil_stick_facts)

text \<open>The first row of a block, its last row and the columns between them.\<close>

lemma block_rows:
  assumes "plan_wf p" "0 \<le> qi" "qi < p_num_q_blocks p"
  shows "0 \<le> fst (block_q_range p qi)"
    and "snd (block_q_range p qi) = fst (block_q_range p qi) + p_q_block p"
    and "snd (block_q_range p qi) \<le> p_seqlen_q p"
proof -
  have "(qi + 1) * p_q_block p \<le> p_num_q_blocks p * p_q_block p"
    using assms by (intro mult_right_mono) (simp_all add: plan_wf_def)
  then have "qi * p_q_block p + p_q_block p \<le> p_seqlen_q p"
    using num_q_blocks_mult [OF assms(1)] by (simp add: algebra_simps)
  then show "0 \<le> fst (block_q_range p qi)"
    and "snd (block_q_range p qi) = fst (block_q_range p qi) + p_q_block p"
    and "snd (block_q_range p qi) \<le> p_seqlen_q p"
    using assms by (simp_all add: block_q_range_def Let_def plan_wf_def)
qed

text \<open>Where the floor lands, before it is clamped to the allocation.\<close>

definition physical_origin :: "SlidingWindowPlan \<Rightarrow> int \<Rightarrow> int" where
  "physical_origin p qi =
     floor_stick (max 0 (p_q_kv_offset p + fst (block_q_range p qi) - p_window_size p + 1)
                    - p_buffer_origin p)"

lemma read_start_alt:
  "read_start p qi = min (physical_origin p qi) (p_cache_capacity p - p_buffer_width p)"
  by (simp add: read_start_def physical_origin_def block_q_range_def Let_def)

lemma physical_origin_nonneg:
  assumes "plan_wf p" "0 \<le> qi" "qi < p_num_q_blocks p"
  shows "0 \<le> physical_origin p qi"
  using assms block_rows(1) [OF assms]
  unfolding physical_origin_def plan_wf_def by (intro floor_stick_nonneg) auto

lemma physical_origin_le:
  "physical_origin p qi + p_buffer_origin p
     \<le> max 0 (p_q_kv_offset p + fst (block_q_range p qi) - p_window_size p + 1)"
  using floor_stick_le [of "max 0 (p_q_kv_offset p + fst (block_q_range p qi) - p_window_size p + 1)
                             - p_buffer_origin p"]
  by (simp add: physical_origin_def)

lemma block_span_alt:
  assumes "plan_wf p" "0 \<le> qi" "qi < p_num_q_blocks p"
  shows "block_span (p_seqlen_q p) (p_window_size p) (p_q_block p) (p_q_kv_offset p)
           (p_buffer_origin p) qi
         = p_q_kv_offset p + snd (block_q_range p qi) - p_buffer_origin p - physical_origin p qi"
  by (simp add: block_span_def physical_origin_def block_q_range_def Let_def)

lemma block_end_reached:
  assumes "plan_wf p" "0 \<le> qi" "qi < p_num_q_blocks p"
  shows "p_q_kv_offset p + snd (block_q_range p qi)
           \<le> physical_origin p qi + p_buffer_width p + p_buffer_origin p"
  using block_span_le_width [OF assms] block_span_alt [OF assms] by linarith

lemma buffer_width_pos:
  assumes "plan_wf p" "0 \<le> qi" "qi < p_num_q_blocks p"
  shows "0 < p_buffer_width p"
  using block_end_reached [OF assms] block_rows [OF assms] physical_origin_le [of p qi] assms(1)
  by (auto simp: plan_wf_def)

section \<open>Properties\<close>

text \<open>
  C20. The invariant the module rests on: in every plan that is not rejected, the window of
  every query row lies inside the buffer its block reads, in logical cache coordinates.
\<close>

theorem row_window_inside_buffer:
  assumes "plan_sliding_window sq skv w causal qb cap org = Some p"
    and "0 \<le> qi" "qi < p_num_q_blocks p"
    and "fst (block_q_range p qi) \<le> q" "q < snd (block_q_range p qi)"
  shows "read_start_logical p qi \<le> fst (row_window p q)
       \<and> snd (row_window p q) \<le> read_start_logical p qi + p_buffer_width p"
proof -
  have wf: "plan_wf p" using assms(1) by (rule plan_sliding_window_wf)
  have lo: "read_start_logical p qi \<le> fst (row_window p q)"
    using physical_origin_le [of p qi] assms(4)
    by (auto simp: read_start_logical_def read_start_alt row_window_def Let_def)
  have hi1: "snd (row_window p q) \<le> physical_origin p qi + p_buffer_width p + p_buffer_origin p"
    using block_end_reached [OF wf assms(2,3)] assms(5) by (auto simp: row_window_def Let_def)
  have hi2: "snd (row_window p q) \<le> p_cache_capacity p + p_buffer_origin p"
    using wf by (auto simp: row_window_def Let_def plan_wf_def)
  show ?thesis using lo hi1 hi2 by (auto simp: read_start_logical_def read_start_alt min_def)
qed

theorem row_window_inside_buffer_witness:
  "\<exists>p. plan_sliding_window 128 256 100 True 64 (Some 256) None = Some p
     \<and> read_start_logical p 1 \<le> fst (row_window p 70)
     \<and> snd (row_window p 70) \<le> read_start_logical p 1 + p_buffer_width p"
proof -
  have "map_option (\<lambda>p. (p_num_q_blocks p, block_q_range p 1))
          (plan_sliding_window 128 256 100 True 64 (Some 256) None) = Some (2, 64, 128)"
    by code_simp
  then obtain p where p: "plan_sliding_window 128 256 100 True 64 (Some 256) None = Some p"
    "p_num_q_blocks p = 2" "block_q_range p 1 = (64, 128)" by auto
  then show ?thesis using row_window_inside_buffer [OF p(1), of 1 70] by simp
qed

text \<open>
  Every read an accepted plan places is inside the cache allocation and starts on a
  stick boundary, so \<open>check_window_read\<close> accepts it for any head grouping that divides.
\<close>

lemma planned_reads_accepted:
  assumes "plan_sliding_window sq skv w causal qb cap org = Some p"
    and "0 \<le> qi" "qi < p_num_q_blocks p"
    and "0 < kvh" "h mod kvh = 0"
  shows "STICK dvd read_start p qi
       \<and> check_window_read (read_start p qi) (p_buffer_width p) (p_cache_capacity p) h kvh shp shp = None"
proof -
  have wf: "plan_wf p" using assms(1) by (rule plan_sliding_window_wf)
  have "STICK dvd physical_origin p qi" by (simp add: physical_origin_def)
  moreover have "STICK dvd p_cache_capacity p - p_buffer_width p"
    using wf buffer_width_stick [OF wf] by (simp add: plan_wf_def)
  ultimately have "STICK dvd read_start p qi" by (simp add: read_start_alt min_def)
  moreover have "0 \<le> read_start p qi" "read_start p qi + p_buffer_width p \<le> p_cache_capacity p"
    using physical_origin_nonneg [OF wf assms(2,3)] wf by (auto simp: read_start_alt plan_wf_def)
  ultimately show ?thesis
    using buffer_width_pos [OF wf assms(2,3)] assms(4,5) by (simp add: check_window_read_def)
qed

lemma planned_reads_accepted_example:
  "\<exists>p. plan_sliding_window 1 300 100 True 1 (Some 256) None = Some p
     \<and> STICK dvd read_start p 0
     \<and> check_window_read (read_start p 0) (p_buffer_width p) (p_cache_capacity p) 8 2 [1] [1] = None"
proof -
  have "map_option p_num_q_blocks (plan_sliding_window 1 300 100 True 1 (Some 256) None) = Some 1"
    by code_simp
  then obtain p where p: "plan_sliding_window 1 300 100 True 1 (Some 256) None = Some p"
    "p_num_q_blocks p = 1" by auto
  then show ?thesis using planned_reads_accepted [OF p(1), of 0 2 8 "[1]"] by simp
qed

lemma fully_attended_alt:
  "block_is_fully_attended p qi \<longleftrightarrow>
     (\<forall>q. fst (block_q_range p qi) \<le> q \<and> q < snd (block_q_range p qi) \<longrightarrow>
        fst (row_window p q) \<le> read_start_logical p qi
        \<and> read_start_logical p qi + p_buffer_width p \<le> snd (row_window p q))"
  by (cases "block_q_range p qi") (auto simp: block_is_fully_attended_def list_all_iff Let_def)

text \<open>
  C40. \<open>block_is_fully_attended\<close> decides exactly whether the band masks nothing: every column
  of the block's buffer lies in the window of every row of the block.
\<close>

theorem fully_attended_iff_unmasked:
  assumes "0 < p_buffer_width p"
  shows "block_is_fully_attended p qi \<longleftrightarrow>
    (\<forall>q col. fst (block_q_range p qi) \<le> q \<and> q < snd (block_q_range p qi)
        \<and> read_start_logical p qi \<le> col \<and> col < read_start_logical p qi + p_buffer_width p
      \<longrightarrow> fst (row_window p q) \<le> col \<and> col < snd (row_window p q))" (is "?L \<longleftrightarrow> ?R")
proof
  assume ?L
  then show ?R unfolding fully_attended_alt by fastforce
next
  assume R: ?R
  let ?s = "read_start_logical p qi"
  have "fst (row_window p q) \<le> ?s \<and> ?s + p_buffer_width p \<le> snd (row_window p q)"
    if q: "fst (block_q_range p qi) \<le> q" "q < snd (block_q_range p qi)" for q
    using R [rule_format, of q ?s] R [rule_format, of q "?s + p_buffer_width p - 1"] q assms by auto
  then show ?L unfolding fully_attended_alt by blast
qed

theorem fully_attended_iff_unmasked_witness:
  "\<exists>p. plan_sliding_window 1 256 128 True 1 None None = Some p \<and> block_is_fully_attended p 0
     \<and> (\<forall>col. 128 \<le> col \<and> col < 256 \<longrightarrow> fst (row_window p 0) \<le> col \<and> col < snd (row_window p 0))"
proof -
  have "map_option (\<lambda>p. (p_buffer_width p, block_q_range p 0, read_start_logical p 0, block_is_fully_attended p 0))
          (plan_sliding_window 1 256 128 True 1 None None) = Some (128, (0, 1), 128, True)"
    by code_simp
  then obtain p where p: "plan_sliding_window 1 256 128 True 1 None None = Some p"
    "p_buffer_width p = 128" "block_q_range p 0 = (0, 1)" "read_start_logical p 0 = 128"
    "block_is_fully_attended p 0" by auto
  then show ?thesis using fully_attended_iff_unmasked [of p 0] by auto
qed

lemma default_width_le:
  assumes "0 < sq" "0 < qb" "qb dvd sq" "sq \<le> skv" "STICK dvd skv" "0 < w"
  shows "required_width sq w qb (skv - sq) 0 \<le> skv"
proof -
  have "block_span sq w qb (skv - sq) 0 qi \<le> skv" for qi
    using floor_stick_nonneg [of "max 0 (skv - sq + qi * qb - w + 1)"]
    by (auto simp: block_span_def Let_def)
  then show ?thesis
    unfolding required_width_def
    by (intro ceil_stick_least [OF assms(5)] foldl_max_le) (use assms in auto)
qed

text \<open>
  With both the capacity and the origin defaulted, none of the four checks on the
  allocation can fire: the shape alone decides, as the comment in \<open>rejection_reason\<close> claims.
\<close>

lemma default_allocation_never_rejected:
  "rejection_reason sq skv w causal qb None None \<in>
     {None, Some Bidirectional, Some (DegenerateLengths sq skv qb), Some (NotWholeBlocks sq qb),
      Some (NonPositiveWindow w), Some (QueryExceedsCache sq skv), Some (CapacityNotStick skv)}"
proof -
  have "required_width sq w qb (skv - sq) 0 \<le> skv"
    if "0 < sq" "0 < qb" "sq mod qb = 0" "sq \<le> skv" "skv mod STICK = 0" "0 < w"
    using that by (intro default_width_le) (auto simp: dvd_eq_mod_eq_0)
  then show ?thesis
    by (auto simp: rejection_reason_def Let_def default_buffer_origin_def)
qed

lemma stick_multiple_below:
  "STICK dvd d \<Longrightarrow> STICK dvd q \<Longrightarrow> d \<le> q \<Longrightarrow> d \<noteq> q \<Longrightarrow> d \<le> q - STICK"
  using zdvd_imp_le [of STICK "q - d"] by simp

lemma query_block_search_sound:
  assumes "0 < padded" "STICK dvd padded" "STICK dvd q" "q \<le> B" "STICK \<le> B"
  shows "query_block_search padded q dvd padded \<and> STICK dvd query_block_search padded q
    \<and> STICK \<le> query_block_search padded q \<and> query_block_search padded q \<le> B
    \<and> (\<forall>d. STICK dvd d \<and> 0 < d \<and> d \<le> q \<and> d dvd padded \<longrightarrow> d \<le> query_block_search padded q)"
  using assms
proof (induction padded q rule: query_block_search.induct)
  case (1 padded q)
  note unfold = query_block_search.simps [of padded q]
  consider "q \<le> STICK - 1" | "STICK \<le> q" "q dvd padded" | "STICK \<le> q" "\<not> q dvd padded"
    by linarith
  then show ?case
  proof cases
    case 1
    with unfold have "query_block_search padded q = STICK" by simp
    with 1 "1.prems" show ?thesis by auto
  next
    case 2
    with unfold have "query_block_search padded q = q" by (simp add: dvd_eq_mod_eq_0)
    with 2 "1.prems" show ?thesis by simp
  next
    case 3
    let ?r = "query_block_search padded (q - STICK)"
    from 3 unfold have r: "query_block_search padded q = ?r" by (simp add: dvd_eq_mod_eq_0)
    have ih: "?r dvd padded \<and> STICK dvd ?r \<and> STICK \<le> ?r \<and> ?r \<le> B
      \<and> (\<forall>d. STICK dvd d \<and> 0 < d \<and> d \<le> q - STICK \<and> d dvd padded \<longrightarrow> d \<le> ?r)"
      using "1.prems" 3 by (intro "1.IH") (simp_all add: dvd_eq_mod_eq_0 STICK_def)
    have "d \<le> q - STICK" if "STICK dvd d" "d \<le> q" "d dvd padded" for d
      using that 3(2) "1.prems"(3) by (intro stick_multiple_below) auto
    with ih r show ?thesis by metis
  qed
qed

text \<open>
  Blocking of a prefill query: the padded length is the least stick multiple that holds
  the query, and the block is the largest stick-aligned divisor of it within the limit.
\<close>

lemma query_blocking_prefill:
  assumes "1 < sq" "STICK dvd mx" "0 < mx"
    and "query_blocking sq mx = (q_block, padded)"
  shows "sq \<le> padded \<and> padded < sq + STICK \<and> STICK dvd padded
    \<and> q_block dvd padded \<and> STICK dvd q_block \<and> STICK \<le> q_block \<and> q_block \<le> min mx MAX_QUERY_BLOCK
    \<and> (\<forall>d. STICK dvd d \<longrightarrow> 0 < d \<longrightarrow> d \<le> min mx MAX_QUERY_BLOCK \<longrightarrow> d dvd padded \<longrightarrow> d \<le> q_block)"
proof (intro conjI allI impI)
  have eq: "padded = ceil_stick sq"
    "q_block = query_block_search padded (min padded (min mx MAX_QUERY_BLOCK))"
    using assms(1,4) by (auto simp: query_blocking_def Let_def)
  show p: "sq \<le> padded" "padded < sq + STICK" "STICK dvd padded"
    using ceil_stick_facts [of sq] eq(1) by auto
  have m: "STICK dvd min mx MAX_QUERY_BLOCK" "STICK \<le> min mx MAX_QUERY_BLOCK"
    using assms(2,3) zdvd_imp_le [OF assms(2,3)] by (auto simp: min_def MAX_QUERY_BLOCK_def STICK_def)
  have l: "STICK dvd min padded (min mx MAX_QUERY_BLOCK)" using p(3) m(1) by (simp add: min_def)
  note s = query_block_search_sound [OF _ p(3) l min.cobounded2 m(2)]
  show "q_block dvd padded" "STICK dvd q_block" "STICK \<le> q_block" "q_block \<le> min mx MAX_QUERY_BLOCK"
    using s p assms(1) eq(2) by auto
  show "d \<le> q_block" if "STICK dvd d" "0 < d" "d \<le> min mx MAX_QUERY_BLOCK" "d dvd padded" for d
    using s that p(1) assms(1) eq(2) zdvd_imp_le [OF that(4)] by auto
qed

lemma query_blocking_prefill_example:
  "1 < (760::int) \<and> query_blocking 760 512 = (384, 768) \<and> (384::int) dvd 768 \<and> STICK dvd 384"
proof -
  have e: "query_blocking 760 512 = (384, 768)" by code_simp
  have d: "STICK dvd 512" and h: "1 < (760::int)" "0 < (512::int)" by (simp_all add: STICK_def)
  show ?thesis using query_blocking_prefill [OF h(1) d h(2) e] e h by blast
qed

text \<open>
  For decode the buffer is exactly one window when the window and the resident span are
  stick multiples; the docstring of \<open>_required_width\<close> states it without that condition.
\<close>

lemma decode_width:
  assumes "STICK dvd w" "STICK dvd skv - org" "0 < w" "w \<le> skv - org" "0 \<le> org"
  shows "required_width 1 w 1 (skv - 1) org = w"
proof -
  have "floor_stick (skv - w - org) = skv - w - org"
  proof -
    have "STICK dvd skv - w - org" using dvd_diff [OF assms(2,1)] by (simp add: algebra_simps)
    then show ?thesis by (simp add: floor_stick_def)
  qed
  then have "block_span 1 w 1 (skv - 1) org 0 = w"
    using assms(4,5) by (simp add: block_span_def Let_def max_def)
  moreover have "ceil_stick w = w"
    using assms(1) by (simp add: ceil_stick_eq round_up_id STICK_def)
  ultimately show ?thesis using assms(3) by (simp add: required_width_def)
qed

lemma decode_width_example:
  "required_width 1 128 1 (256 - 1) 64 = 128"
  by (rule decode_width) (simp_all add: STICK_def)

text \<open>
  Without that condition the decode buffer is wider than the window: at position 100 a
  64-wide window takes a 128-wide buffer, and the plan is still accepted.
\<close>

lemma decode_width_can_exceed_window:
  "map_option p_buffer_width (plan_sliding_window 1 100 64 True 1 (Some 128) None) = Some 128"
  by code_simp

end
