(* ===== verification/Plan_Solver.thy ===== *)
theory Plan_Solver
  imports Spyre_Prelude
begin

text \<open>
  The data the scratchpad (LX) layout solvers work on and the contract they share:
  \<^verbatim>\<open>src/torch_spyre/_inductor/scratchpad/plan_solver.py\<close>.  It holds the buffer with its
  lifetime, the core divisions and tilings that shrink a footprint, the in-place checks, the
  residency verdicts, the capability rules of a solver class and the relayout copy.

  The second half states what a layout solver promises (\<open>safe_layout\<close>) and derives, once for
  every solver that keeps the promise, what the promise is worth to the generated program.

  A buffer object is identified by its name: every dictionary of the solvers is keyed by it
  and \<open>paired_with\<close> is modelled by the names of the partner objects.  \<open>LifetimeBoundBuffer\<close>
  and its subclass \<open>CoreDivisionBuffer\<close> are one record; a plain buffer has no divisions.
\<close>

section \<open>Tilings and core divisions\<close>

definition ceil_div :: "int \<Rightarrow> int \<Rightarrow> int" where
  "ceil_div a b = - ((- a) div b)"

record TileAxis =
  host_dim :: int
  axis_count :: int
  is_reduction :: bool

type_synonym TileSpec = "TileAxis list"

definition is_untiled :: "TileSpec \<Rightarrow> bool" where
  "is_untiled axes = (axes = [])"

definition tile_count :: "TileSpec \<Rightarrow> int" where
  "tile_count axes = prod_list (map axis_count axes)"

definition level_counts :: "TileSpec \<Rightarrow> int list" where
  "level_counts axes = map axis_count axes"

definition output_tile_count :: "TileSpec \<Rightarrow> int" where
  "output_tile_count axes = prod_list (map axis_count (filter (\<lambda>a. \<not> is_reduction a) axes))"

definition count_for :: "TileSpec \<Rightarrow> int \<times> bool \<Rightarrow> int" where
  "count_for axes key = prod_list (map axis_count (filter (\<lambda>a. (host_dim a, is_reduction a) = key) axes))"

definition is_clean :: "TileSpec \<Rightarrow> bool" where
  "is_clean axes = (\<not> list_ex is_reduction axes)"

text \<open>A split dictionary in insertion order; keys are the producer's iteration symbols.\<close>

record CoreDivision =
  splits :: "(string \<times> int) list"
  reduction_syms :: "string list"
  tiling :: TileSpec
  tile_splits :: "(string \<times> int) list"

definition cores_used :: "CoreDivision \<Rightarrow> int" where
  "cores_used d = prod_list (map snd (splits d))"

definition output_splits :: "CoreDivision \<Rightarrow> (string \<times> int) list" where
  "output_splits d = filter (\<lambda>(s, v). s \<notin> set (reduction_syms d)) (splits d)"

definition reduction_splits :: "CoreDivision \<Rightarrow> (string \<times> int) list" where
  "reduction_splits d = filter (\<lambda>(s, v). s \<in> set (reduction_syms d)) (splits d)"

definition output_partition :: "CoreDivision \<Rightarrow> int" where
  "output_partition d = prod_list (map snd (output_splits d))"

section \<open>Buffers\<close>

text \<open>
  A planned relayout of a source for the consumers that read it in another slicing.  The
  per-core views themselves are opaque to placement and left out.
\<close>

record LXRelayoutPlan =
  plan_source_name :: string
  plan_consumer_names :: "string list"
  plan_source_footprint :: int
  plan_destination_footprint :: int
  plan_source_address :: "int option"
  plan_destination_address :: "int option"

record LifetimeBoundBuffer =
  buf_name :: string
  buf_size :: int
  buf_uses :: "int list"
  first_use_is_read :: bool
  buf_address :: "int option"
  in_place_parents :: "string list"
  residency_reason :: "string option"
  untiled_bar :: "string option"
  lifetime_start_override :: "int option"
  lifetime_end_override :: "int option"
  paired_with :: "string list"
  spill_reason :: "string option"
  core_divisions :: "CoreDivision list"
  lx_relayout_plans :: "LXRelayoutPlan list"

definition buffer_post_init :: "LifetimeBoundBuffer \<Rightarrow> unit result" where
  "buffer_post_init b =
     and_then (raise_if (\<not> list_all (\<lambda>(a, c). a < c) (zip (buf_uses b) (drop 1 (buf_uses b))))
                (AssertionError ''uses not strictly increasing''))
    (and_then
       (case lifetime_start_override b of None \<Rightarrow> Inr ()
        | Some v \<Rightarrow> raise_if (buf_uses b \<noteq> [] \<and> v > hd (buf_uses b))
                     (AssertionError ''lifetime_start_override after nominal start''))
       (case lifetime_end_override b of None \<Rightarrow> Inr ()
        | Some v \<Rightarrow> raise_if (buf_uses b \<noteq> [] \<and> v < last (buf_uses b) + 1)
                     (AssertionError ''lifetime_end_override before nominal end'')))"

definition read_count :: "LifetimeBoundBuffer \<Rightarrow> int" where
  "read_count b = max 0 (int (length (buf_uses b)) - (if first_use_is_read b then 0 else 1))"

text \<open>
  The two lifetime properties index into \<open>uses\<close>: the callers below raise IndexError where
  the list is empty, and only then is the value of these functions unspecified.
\<close>

definition start_time :: "LifetimeBoundBuffer \<Rightarrow> int" where
  "start_time b =
     (let nominal = hd (buf_uses b)
      in min nominal (case lifetime_start_override b of None \<Rightarrow> nominal | Some v \<Rightarrow> v))"

definition end_time :: "LifetimeBoundBuffer \<Rightarrow> int" where
  "end_time b =
     (let nominal = last (buf_uses b) + 1
      in max nominal (case lifetime_end_override b of
                        None \<Rightarrow> nominal | Some v \<Rightarrow> if v = 0 then nominal else v))"

definition overlaps_in_time :: "LifetimeBoundBuffer \<Rightarrow> LifetimeBoundBuffer \<Rightarrow> bool" where
  "overlaps_in_time a b = (start_time a < end_time b \<and> start_time b < end_time a)"

definition per_core_size :: "LifetimeBoundBuffer \<Rightarrow> CoreDivision \<Rightarrow> int" where
  "per_core_size b cd = ceil_div (buf_size b) (output_partition cd * output_tile_count (tiling cd))"

definition min_footprint :: "LifetimeBoundBuffer \<Rightarrow> int" where
  "min_footprint b =
     (if core_divisions b = [] then buf_size b
      else foldl min (per_core_size b (hd (core_divisions b)))
             (map (per_core_size b) (tl (core_divisions b))))"

section \<open>In-place checks\<close>

definition buf_by_name :: "LifetimeBoundBuffer list \<Rightarrow> string \<Rightarrow> LifetimeBoundBuffer option" where
  "buf_by_name bufs n = find (\<lambda>b. buf_name b = n) (rev bufs)"

definition has_read_after_write :: "LifetimeBoundBuffer \<Rightarrow> bool" where
  "has_read_after_write b = (1 < length (buf_uses b) \<and> last (buf_uses b) > hd (buf_uses b))"

definition check_in_place_parent_is_read :: "LifetimeBoundBuffer \<Rightarrow> unit result" where
  "check_in_place_parent_is_read parent =
     raise_if (\<not> (first_use_is_read parent \<or> has_read_after_write parent))
       (ValueError ''In-place parent is a computed buffer that is never read'')"

definition check_in_place_pair :: "LifetimeBoundBuffer list \<Rightarrow> LifetimeBoundBuffer \<Rightarrow> string \<Rightarrow> unit result" where
  "check_in_place_pair bufs child parent_name =
     (case buf_by_name bufs parent_name of
        None \<Rightarrow> Inr ()
      | Some parent \<Rightarrow>
          and_then (raise_if (buf_uses parent = [] \<or> buf_uses child = []) IndexError)
         (and_then (raise_if (end_time parent \<noteq> start_time child + 1)
                      (ValueError ''In-place parent end_time must equal child start_time+1''))
         (and_then (check_in_place_parent_is_read parent)
            (if core_divisions parent \<noteq> [] \<or> core_divisions child \<noteq> [] then Inr ()
             else raise_if (buf_size child > buf_size parent)
                    (ValueError ''In-place child size must be <= parent size'')))))"

text \<open>The first failing pair raises, children in buffer order and parents in list order.\<close>

fun check_parents :: "LifetimeBoundBuffer list \<Rightarrow> LifetimeBoundBuffer \<Rightarrow> string list \<Rightarrow> unit result" where
  "check_parents bufs child [] = Inr ()"
| "check_parents bufs child (p # ps) =
     and_then (check_in_place_pair bufs child p) (check_parents bufs child ps)"

fun check_children :: "LifetimeBoundBuffer list \<Rightarrow> LifetimeBoundBuffer list \<Rightarrow> unit result" where
  "check_children bufs [] = Inr ()"
| "check_children bufs (c # cs) =
     and_then (check_parents bufs c (in_place_parents c)) (check_children bufs cs)"

definition check_in_place_relationships :: "LifetimeBoundBuffer list \<Rightarrow> unit result" where
  "check_in_place_relationships bufs = check_children bufs bufs"

section \<open>Solver classes: capabilities, construction, residency verdicts\<close>

record Capabilities =
  chooses_core_divisions :: bool
  supports_paired_buffers :: bool
  decides_lx_relayouts :: bool
  generates_divisions :: bool
  chooses_tilings :: bool
  tilings_from_menu :: bool
  linear_cost_only :: bool

text \<open>\<open>__init_subclass__\<close> on a concrete class; \<open>cd\<close>: it is a \<open>CoreDivisionLayoutSolver\<close>.\<close>

definition init_subclass :: "bool \<Rightarrow> Capabilities \<Rightarrow> unit result" where
  "init_subclass cd c =
     and_then (raise_if (chooses_core_divisions c \<noteq> cd)
                 (TypeError ''chooses_core_divisions() is exactly the CoreDivisionLayoutSolver subclasses''))
    (and_then (raise_if (decides_lx_relayouts c \<and> \<not> chooses_core_divisions c)
                 (TypeError ''decides_lx_relayouts() requires chooses_core_divisions()''))
    (and_then (raise_if (generates_divisions c \<and> \<not> chooses_core_divisions c)
                 (TypeError ''generates_divisions() requires chooses_core_divisions()''))
    (and_then (raise_if (chooses_tilings c \<and> \<not> chooses_core_divisions c)
                 (TypeError ''chooses_tilings() requires chooses_core_divisions()''))
    (and_then (raise_if (linear_cost_only c \<and> \<not> chooses_core_divisions c)
                 (TypeError ''linear_cost_only() requires chooses_core_divisions()''))
       (raise_if (tilings_from_menu c \<and> \<not> chooses_tilings c)
                 (TypeError ''tilings_from_menu() requires chooses_tilings()''))))))"

definition solver_init :: "Capabilities \<Rightarrow> LifetimeBoundBuffer list \<Rightarrow> unit result" where
  "solver_init c bufs =
     raise_if (\<not> supports_paired_buffers c \<and> list_ex (\<lambda>b. paired_with b \<noteq> []) bufs)
       (AssertionError ''solver does not support paired-buffer placement'')"

definition excluded :: "Capabilities \<Rightarrow> int \<Rightarrow> LifetimeBoundBuffer \<Rightarrow> string option" where
  "excluded c limit b =
     (case residency_reason b of Some r \<Rightarrow> Some r
      | None \<Rightarrow>
          if untiled_bar b \<noteq> None \<and> \<not> tilings_from_menu c then untiled_bar b
          else if min_footprint b > limit then Some ''min footprint > LX capacity''
          else None)"

text \<open>Each verdict is written to its buffer, and the reasons are returned by name.\<close>

definition record_exclusions ::
  "Capabilities \<Rightarrow> int \<Rightarrow> LifetimeBoundBuffer list \<Rightarrow> LifetimeBoundBuffer list \<times> (string \<times> string) list" where
  "record_exclusions c limit bufs =
     (map (\<lambda>b. b\<lparr>spill_reason := excluded c limit b\<rparr>) bufs,
      concat (map (\<lambda>b. case excluded c limit b of None \<Rightarrow> [] | Some r \<Rightarrow> [(buf_name b, r)]) bufs))"

definition partition_buffers ::
  "Capabilities \<Rightarrow> int \<Rightarrow> LifetimeBoundBuffer list \<Rightarrow> LifetimeBoundBuffer list \<times> LifetimeBoundBuffer list" where
  "partition_buffers c limit bufs =
     (let (bufs', reasons) = record_exclusions c limit bufs;
          barred = map fst reasons
      in (filter (\<lambda>b. buf_name b \<notin> set barred) bufs', filter (\<lambda>b. buf_name b \<in> set barred) bufs'))"

section \<open>Relayout copies\<close>

record RelayoutCandidate =
  cand_parent :: string
  cand_consumer :: string
  source_division :: int
  consumer_division :: int
  cand_group :: int
  destination_num_cores :: int
  destination_footprint_bytes :: int

definition candidate_key :: "RelayoutCandidate \<Rightarrow> string \<times> int \<times> int" where
  "candidate_key c = (cand_consumer c, source_division c, consumer_division c)"

record RelayoutCopy =
  copy_parent :: string
  copy_group :: int
  copy_candidates :: "RelayoutCandidate list"
  copy_buffer :: LifetimeBoundBuffer

text \<open>The buffer of the copy: one division sliced over the destination's cores.\<close>

definition relayout_copy_buffer :: "string \<Rightarrow> int \<Rightarrow> int \<Rightarrow> int list \<Rightarrow> LifetimeBoundBuffer" where
  "relayout_copy_buffer copy_name spn num_cores uses =
     \<lparr>buf_name = copy_name, buf_size = spn * num_cores, buf_uses = uses,
      first_use_is_read = False, buf_address = None, in_place_parents = [],
      residency_reason = None, untiled_bar = None, lifetime_start_override = None,
      lifetime_end_override = None, paired_with = [], spill_reason = None,
      core_divisions = [\<lparr>splits = [(''relayout_copy'', num_cores)], reduction_syms = [],
                         tiling = [], tile_splits = []\<rparr>], lx_relayout_plans = []\<rparr>"

text \<open>
  \<open>relayout_copy_name\<close> and the looked-up schedule ticks are arguments; a consumer without a
  tick is the KeyError of \<open>consumer_ticks[c.consumer]\<close>.
\<close>

definition build_relayout_copy ::
  "string \<Rightarrow> string \<Rightarrow> int \<Rightarrow> RelayoutCandidate list \<Rightarrow> (string \<Rightarrow> int option) \<Rightarrow> RelayoutCopy result" where
  "build_relayout_copy copy_name parent grp candidates consumer_ticks =
     (let ordered = sort_key candidate_key candidates
      in if ordered = [] then Inl (AssertionError ''relayout group has no candidates'')
         else
           (let c0 = hd ordered;
                num_cores = destination_num_cores c0;
                spn = destination_footprint_bytes c0
            in if list_ex (\<lambda>c. destination_num_cores c \<noteq> num_cores) ordered
                 then Inl (AssertionError ''relayout group mixes destination core counts'')
               else if list_ex (\<lambda>c. cand_parent c \<noteq> parent \<or> cand_group c \<noteq> grp) ordered
                 then Inl (AssertionError ''candidate of another group'')
               else if list_ex (\<lambda>c. destination_footprint_bytes c \<noteq> spn) ordered
                 then Inl (AssertionError ''relayout group mixes destination spans'')
               else if list_ex (\<lambda>c. consumer_ticks (cand_consumer c) = None) ordered
                 then Inl KeyError
               else
                 Inr \<lparr>copy_parent = parent, copy_group = grp, copy_candidates = ordered,
                   copy_buffer = relayout_copy_buffer copy_name spn num_cores
                     (sort (remdups (map (\<lambda>c. the (consumer_ticks (cand_consumer c))) ordered)))\<rparr>))"

definition relayout_charge :: "int \<Rightarrow> int \<Rightarrow> int list \<Rightarrow> int" where
  "relayout_charge is_lx division prices =
     is_lx * (if 0 \<le> division \<and> division < int (length prices) then prices ! nat division else 0)"

section \<open>The contract of a layout solver\<close>

text \<open>
  What an allocator may hand to a solver: what \<open>__post_init__\<close> and \<open>_build_bound_buffers\<close>
  establish.  A graph-input clone (\<open>first_use_is_read\<close>) is never an in-place child, and the
  placement-only solvers see buffers whose division is already fixed.
\<close>

definition solver_input :: "LifetimeBoundBuffer list \<Rightarrow> bool" where
  "solver_input bufs \<longleftrightarrow>
     distinct (map buf_name bufs) \<and>
     list_all (\<lambda>b. buf_uses b \<noteq> [] \<and> buffer_post_init b = Inr () \<and> 0 \<le> buf_size b \<and>
                 core_divisions b = [] \<and> (first_use_is_read b \<longrightarrow> in_place_parents b = [])) bufs"

text \<open>\<open>c\<close> sits on the storage its in-place parent \<open>p\<close> hands over at its last tick.\<close>

definition handed_over :: "LifetimeBoundBuffer \<Rightarrow> LifetimeBoundBuffer \<Rightarrow> bool" where
  "handed_over c p \<longleftrightarrow>
     buf_name p \<in> set (in_place_parents c) \<and> buf_address c = buf_address p \<and>
     buf_size c \<le> buf_size p \<and> end_time p = start_time c + 1"

definition in_bounds :: "int \<Rightarrow> int \<Rightarrow> LifetimeBoundBuffer \<Rightarrow> bool" where
  "in_bounds limit al b \<longleftrightarrow>
     (\<forall>a. buf_address b = Some a \<longrightarrow> 0 \<le> a \<and> a + buf_size b \<le> limit \<and> al dvd a)"

definition addr_disjoint :: "LifetimeBoundBuffer \<Rightarrow> LifetimeBoundBuffer \<Rightarrow> bool" where
  "addr_disjoint b c \<longleftrightarrow>
     (\<forall>x y. buf_address b = Some x \<longrightarrow> buf_address c = Some y \<longrightarrow>
        ivl_disjoint x (buf_size b) y (buf_size c))"

definition safe_layout :: "int \<Rightarrow> int \<Rightarrow> LifetimeBoundBuffer list \<Rightarrow> bool" where
  "safe_layout limit al bufs \<longleftrightarrow>
     (\<forall>b \<in> set bufs. in_bounds limit al b) \<and>
     (\<forall>b \<in> set bufs. \<forall>c \<in> set bufs. buf_name b \<noteq> buf_name c \<longrightarrow> overlaps_in_time b c \<longrightarrow>
        addr_disjoint b c \<or> handed_over b c \<or> handed_over c b)"

text \<open>A buffer is live and holds the byte at address \<open>x\<close> at tick \<open>t\<close>.\<close>

definition holds_byte :: "LifetimeBoundBuffer \<Rightarrow> int \<Rightarrow> int \<Rightarrow> bool" where
  "holds_byte b t x \<longleftrightarrow>
     start_time b \<le> t \<and> t < end_time b \<and>
     (\<exists>a. buf_address b = Some a \<and> a \<le> x \<and> x < a + buf_size b)"

text \<open>The placement and the verdict are the only fields a solver writes.\<close>

definition erase_plan :: "LifetimeBoundBuffer \<Rightarrow> LifetimeBoundBuffer" where
  "erase_plan b = b\<lparr>buf_address := None, spill_reason := None\<rparr>"

section \<open>Lemmas on the data\<close>

lemma prod_list_filter_split:
  "prod_list (map f xs) = prod_list (map f (filter P xs)) * prod_list (map (f :: 'a \<Rightarrow> int) (filter (\<lambda>x. \<not> P x) xs))"
  by (induction xs) auto

lemma find_rev_distinct:
  assumes "distinct (map f xs)" "x \<in> set xs"
  shows "find (\<lambda>y. f y = f x) (rev xs) = Some x"
proof -
  have inj: "y = x" if "y \<in> set xs" "f y = f x" for y
    using assms that by (auto simp: distinct_map inj_on_def)
  have "find (\<lambda>y. f y = f x) (rev xs) \<noteq> None"
    using assms(2) by (auto simp: find_None_iff)
  then obtain y where "find (\<lambda>y. f y = f x) (rev xs) = Some y" by blast
  with inj show ?thesis by (metis (mono_tags, lifting) find_Some_iff nth_mem set_rev)
qed

lemma buf_by_name_eq:
  "distinct (map buf_name bufs) \<Longrightarrow> b \<in> set bufs \<Longrightarrow> buf_by_name bufs (buf_name b) = Some b"
  unfolding buf_by_name_def by (rule find_rev_distinct)

lemma buf_by_name_SomeD: "buf_by_name bufs n = Some b \<Longrightarrow> b \<in> set bufs \<and> buf_name b = n"
  unfolding buf_by_name_def by (metis (mono_tags, lifting) find_Some_iff nth_mem set_rev)

lemma check_children_iff:
  "check_children bufs cs = Inr () \<longleftrightarrow>
     (\<forall>c \<in> set cs. \<forall>p \<in> set (in_place_parents c). check_in_place_pair bufs c p = Inr ())"
proof -
  have "check_parents bufs c ps = Inr () \<longleftrightarrow> (\<forall>p \<in> set ps. check_in_place_pair bufs c p = Inr ())" for c ps
    by (induction ps) auto
  then show ?thesis by (induction cs) auto
qed

text \<open>The constructor's checks only look at the lifetime.\<close>

lemma post_init_cong:
  assumes "buf_uses a = buf_uses b" "lifetime_start_override a = lifetime_start_override b"
    "lifetime_end_override a = lifetime_end_override b"
  shows "buffer_post_init a = buffer_post_init b"
  unfolding buffer_post_init_def assms ..

text \<open>What the in-place check establishes for a declared pair of the solve.\<close>

lemma in_place_checked:
  assumes "check_in_place_relationships bufs = Inr ()" "distinct (map buf_name bufs)"
    and "c \<in> set bufs" "p \<in> set bufs" "buf_name p \<in> set (in_place_parents c)"
  shows "end_time p = start_time c + 1"
    and "first_use_is_read p \<or> has_read_after_write p"
    and "core_divisions p = [] \<Longrightarrow> core_divisions c = [] \<Longrightarrow> buf_size c \<le> buf_size p"
proof -
  have "check_in_place_pair bufs c (buf_name p) = Inr ()"
    using assms by (auto simp: check_in_place_relationships_def check_children_iff)
  then show "end_time p = start_time c + 1"
    and "first_use_is_read p \<or> has_read_after_write p"
    and "core_divisions p = [] \<Longrightarrow> core_divisions c = [] \<Longrightarrow> buf_size c \<le> buf_size p"
    using buf_by_name_eq [OF assms(2,4)]
    by (auto simp: check_in_place_pair_def check_in_place_parent_is_read_def split: if_splits)
qed

lemma uses_sorted:
  "list_all (\<lambda>(a, c). a < c) (zip xs (drop 1 xs)) \<Longrightarrow> sorted_wrt (<) (xs :: int list)"
proof (induction xs)
  case (Cons x xs)
  show ?case
  proof (cases xs)
    case (Cons y ys)
    with Cons.prems have "x < y" "sorted_wrt (<) xs"
      using Cons.IH by simp_all
    with Cons show ?thesis by auto
  qed simp
qed simp

lemma sorted_hd_le_last: "sorted_wrt (<) (xs :: int list) \<Longrightarrow> xs \<noteq> [] \<Longrightarrow> hd xs \<le> last xs"
  by (cases xs) (auto dest: last_in_set split: if_splits intro: less_imp_le)

lemma lifetime_facts:
  assumes "buf_uses b \<noteq> []" "buffer_post_init b = Inr ()"
  shows "start_time b \<le> hd (buf_uses b)" "last (buf_uses b) < end_time b" "start_time b < end_time b"
proof -
  have "sorted_wrt (<) (buf_uses b)"
    using assms(2) by (intro uses_sorted) (auto simp: buffer_post_init_def)
  then have "hd (buf_uses b) \<le> last (buf_uses b)" using assms(1) by (rule sorted_hd_le_last)
  then show "start_time b \<le> hd (buf_uses b)" "last (buf_uses b) < end_time b" "start_time b < end_time b"
    by (auto simp: start_time_def end_time_def Let_def)
qed

text \<open>A parent that is itself an in-place child lives at least two ticks.\<close>

lemma in_place_parent_two_ticks:
  assumes "buf_uses p \<noteq> []" "buffer_post_init p = Inr ()"
    and "has_read_after_write p"
  shows "start_time p + 1 < end_time p"
  using lifetime_facts [OF assms(1,2)] assms(3) by (simp add: has_read_after_write_def)

lemma solver_input_facts:
  assumes "solver_input bufs" "b \<in> set bufs"
  shows "buf_uses b \<noteq> []" "buffer_post_init b = Inr ()" "0 \<le> buf_size b" "core_divisions b = []"
    and "first_use_is_read b \<Longrightarrow> in_place_parents b = []" "start_time b < end_time b"
  using assms lifetime_facts [of b] by (auto simp: solver_input_def list_all_iff)

lemma solver_input_distinct: "solver_input bufs \<Longrightarrow> distinct (map buf_name bufs)"
  by (simp add: solver_input_def)

lemma overlaps_in_time_sym: "overlaps_in_time a b \<longleftrightarrow> overlaps_in_time b a"
  by (auto simp: overlaps_in_time_def)

lemma addr_disjoint_sym: "addr_disjoint a b \<Longrightarrow> addr_disjoint b a"
  by (auto simp: addr_disjoint_def intro: ivl_disjoint_sym)

lemma update_buffer_simps [simp]:
  "start_time (b\<lparr>buf_address := x\<rparr>) = start_time b" "end_time (b\<lparr>buf_address := x\<rparr>) = end_time b"
  "start_time (b\<lparr>spill_reason := r\<rparr>) = start_time b" "end_time (b\<lparr>spill_reason := r\<rparr>) = end_time b"
  "overlaps_in_time (b\<lparr>buf_address := x\<rparr>) c = overlaps_in_time b c"
  "overlaps_in_time c (b\<lparr>buf_address := x\<rparr>) = overlaps_in_time c b"
  "min_footprint (b\<lparr>buf_address := x\<rparr>) = min_footprint b"
  "min_footprint (b\<lparr>spill_reason := r\<rparr>) = min_footprint b"
  by (simp_all add: start_time_def end_time_def overlaps_in_time_def min_footprint_def
        per_core_size_def [abs_def] Let_def)

lemma update_excluded [simp]:
  "excluded cp limit (b\<lparr>buf_address := x\<rparr>) = excluded cp limit b"
  "excluded cp limit (b\<lparr>spill_reason := r\<rparr>) = excluded cp limit b"
  by (auto simp: excluded_def split: option.splits)

lemma barred_names:
  "set (map fst (snd (record_exclusions c limit bufs)))
     = buf_name ` set (filter (\<lambda>b. excluded c limit b \<noteq> None) bufs)"
  by (induction bufs) (auto simp: record_exclusions_def split: option.splits)

text \<open>The partition splits the (verdict-carrying) buffers by their own verdict.\<close>

lemma placeable_iff:
  assumes "distinct (map buf_name bufs)"
  shows "fst (partition_buffers c limit bufs) =
    map (\<lambda>b. b\<lparr>spill_reason := None\<rparr>) (filter (\<lambda>b. excluded c limit b = None) bufs)"
proof -
  define B where "B = set (map fst (snd (record_exclusions c limit bufs)))"
  have B: "buf_name b \<in> B \<longleftrightarrow> excluded c limit b \<noteq> None" if "b \<in> set bufs" for b
  proof -
    have "buf_name b \<in> B \<longleftrightarrow> (\<exists>b' \<in> set bufs. buf_name b' = buf_name b \<and> excluded c limit b' \<noteq> None)"
      unfolding B_def barred_names by (auto simp: image_iff)
    also have "\<dots> \<longleftrightarrow> excluded c limit b \<noteq> None"
      using assms that by (auto simp: distinct_map inj_on_def)
    finally show ?thesis .
  qed
  have "filter (\<lambda>b. buf_name b \<notin> B) (map (\<lambda>b. b\<lparr>spill_reason := excluded c limit b\<rparr>) xs)
      = map (\<lambda>b. b\<lparr>spill_reason := None\<rparr>) (filter (\<lambda>b. excluded c limit b = None) xs)"
    if "set xs \<subseteq> set bufs" for xs
    using that by (induction xs) (auto simp: B)
  then show ?thesis
    unfolding B_def by (simp add: partition_buffers_def record_exclusions_def Let_def)
qed

text \<open>
  What the placement-only solvers rely on about the placeable buffers: names identify them, an in-place pair
  overlaps in exactly one tick, the child
  fits its parent, and a parent that is itself a child lives two ticks or more.
\<close>

definition placeable_ok :: "LifetimeBoundBuffer set \<Rightarrow> bool" where
  "placeable_ok P \<longleftrightarrow>
     inj_on buf_name P \<and> (\<forall>b \<in> P. start_time b < end_time b \<and> 0 \<le> buf_size b) \<and>
     (\<forall>c \<in> P. \<forall>p \<in> P. buf_name p \<in> set (in_place_parents c) \<longrightarrow>
        end_time p = start_time c + 1 \<and> buf_size c \<le> buf_size p \<and>
        (in_place_parents p \<noteq> [] \<longrightarrow> start_time p + 1 < end_time p))"

text \<open>The placeable buffers of a checked input meet this requirement.\<close>

lemma placeable_placeable_ok:
  assumes "solver_input bufs" "check_in_place_relationships bufs = Inr ()"
  shows "placeable_ok (set (fst (partition_buffers cp limit bufs)))"
proof -
  note dst = solver_input_distinct [OF assms(1)]
  let ?f = "\<lambda>b. b\<lparr>spill_reason := None\<rparr>"
  have P: "set (fst (partition_buffers cp limit bufs)) = ?f ` {b \<in> set bufs. excluded cp limit b = None}"
    unfolding placeable_iff [OF dst] by auto
  have pair: "end_time p = start_time c + 1 \<and> buf_size c \<le> buf_size p \<and> (in_place_parents p \<noteq> [] \<longrightarrow> start_time p + 1 < end_time p)"
    if "c \<in> set bufs" "p \<in> set bufs" "buf_name p \<in> set (in_place_parents c)" for c p
    using in_place_checked [OF assms(2) dst that] solver_input_facts(4) [OF assms(1) that(1)] solver_input_facts [OF assms(1) that(2)]
      in_place_parent_two_ticks [of p] by blast
  have "inj_on buf_name (?f ` {b \<in> set bufs. excluded cp limit b = None})"
    using dst by (auto simp: distinct_map inj_on_def)
  moreover have "end_time p = start_time c + 1 \<and> buf_size c \<le> buf_size p \<and> (in_place_parents p \<noteq> [] \<longrightarrow> start_time p + 1 < end_time p)"
    if cp: "c \<in> ?f ` set bufs" "p \<in> ?f ` set bufs" "buf_name p \<in> set (in_place_parents c)" for c p
  proof -
    obtain c0 p0 where "c = ?f c0" "p = ?f p0" "c0 \<in> set bufs" "p0 \<in> set bufs"
      using cp(1,2) by (elim imageE)
    then show ?thesis using pair [of c0 p0] cp(3) by auto
  qed
  moreover have "start_time b < end_time b \<and> 0 \<le> buf_size b" if "b \<in> ?f ` set bufs" for b
    using that solver_input_facts(3,6) [OF assms(1)] by auto
  moreover have "?f ` {b \<in> set bufs. excluded cp limit b = None} \<subseteq> ?f ` set bufs" by blast
  ultimately show ?thesis
    unfolding placeable_ok_def P by (meson subsetD)
qed


section \<open>What the contract gives the generated program\<close>

lemma disjoint_blocks_fit:
  assumes "finite S" "0 \<le> (limit::int)"
    and "\<And>b. b \<in> S \<Longrightarrow> 0 \<le> lo b \<and> 0 \<le> sz b \<and> lo b + sz b \<le> limit"
    and "\<And>b c. b \<in> S \<Longrightarrow> c \<in> S \<Longrightarrow> b \<noteq> c \<Longrightarrow> ivl_disjoint (lo b) (sz b) (lo c) (sz c)"
  shows "(\<Sum>b\<in>S. sz b) \<le> limit"
proof -
  let ?I = "\<lambda>b. {lo b ..< lo b + sz b}"
  have "(\<Sum>b\<in>S. sz b) = int (\<Sum>b\<in>S. card (?I b))"
    using assms(3) by (simp add: of_nat_sum)
  also have "(\<Sum>b\<in>S. card (?I b)) = card (\<Union>b\<in>S. ?I b)"
  proof (rule card_UN_disjoint [symmetric])
    show "\<forall>i\<in>S. \<forall>j\<in>S. i \<noteq> j \<longrightarrow> ?I i \<inter> ?I j = {}"
      using assms(4) by (fastforce simp: interval_simps)
  qed (use assms(1) in auto)
  also have "int (card (\<Union>b\<in>S. ?I b)) \<le> int (card {0..<limit})"
    using assms(3) by (intro of_nat_mono card_mono) fastforce+
  finally show ?thesis using assms(2) by simp
qed

lemma handed_over_tick:
  "handed_over c p \<Longrightarrow> t < end_time p \<Longrightarrow> start_time c \<le> t \<Longrightarrow> t = start_time c"
  by (simp add: handed_over_def)

locale layout_solver =
  fixes plan :: "int \<Rightarrow> int \<Rightarrow> LifetimeBoundBuffer list \<Rightarrow> LifetimeBoundBuffer list result"
  assumes plan_safe:
      "0 < al \<Longrightarrow> solver_input bufs \<Longrightarrow> plan limit al bufs = Inr out \<Longrightarrow> safe_layout limit al out"
    and plan_frame: "plan limit al bufs = Inr out \<Longrightarrow> map erase_plan out = map erase_plan bufs"
begin

lemma plan_names:
  assumes "plan limit al bufs = Inr out"
  shows "map buf_name out = map buf_name bufs" "map buf_size out = map buf_size bufs"
  using arg_cong [OF plan_frame [OF assms], of "map buf_name"]
    arg_cong [OF plan_frame [OF assms], of "map buf_size"]
  by (simp_all add: erase_plan_def comp_def)

lemma same_name_same_buffer:
  assumes "solver_input bufs" "plan limit al bufs = Inr out"
    and "b \<in> set out" "c \<in> set out" "buf_name b = buf_name c"
  shows "b = c"
  using assms plan_names(1) [OF assms(2)] solver_input_distinct [OF assms(1)]
  by (metis distinct_map inj_onD)

text \<open>No byte is held by two live buffers, but for the one tick of an in-place handover.\<close>

lemma no_clobber:
  assumes "0 < al" "solver_input bufs" "plan limit al bufs = Inr out"
    and "b \<in> set out" "c \<in> set out" "holds_byte b t x" "holds_byte c t x"
  shows "b = c \<or> (handed_over b c \<and> t = start_time b) \<or> (handed_over c b \<and> t = start_time c)"
proof (cases "buf_name b = buf_name c")
  case True
  then show ?thesis using same_name_same_buffer [OF assms(2-5)] by blast
next
  case False
  have "overlaps_in_time b c"
    using assms(6,7) by (auto simp: holds_byte_def overlaps_in_time_def)
  then have "addr_disjoint b c \<or> handed_over b c \<or> handed_over c b"
    using plan_safe [OF assms(1-3)] assms(4,5) False by (auto simp: safe_layout_def)
  moreover have "\<not> addr_disjoint b c"
    using assms(6,7) ivl_disjoint_no_common by (fastforce simp: holds_byte_def addr_disjoint_def)
  ultimately show ?thesis
    using assms(6,7) handed_over_tick by (auto simp: holds_byte_def)
qed

text \<open>The buffers resident at one tick, handovers aside, fit the scratchpad together.\<close>

lemma resident_bytes_fit:
  assumes "0 < al" "solver_input bufs" "plan limit al bufs = Inr out" "0 \<le> limit"
    and "S \<subseteq> set out"
    and "\<And>b. b \<in> S \<Longrightarrow> buf_address b \<noteq> None \<and> start_time b \<le> t \<and> t < end_time b \<and> 0 \<le> buf_size b"
    and "\<And>b c. b \<in> S \<Longrightarrow> c \<in> S \<Longrightarrow> \<not> handed_over b c"
  shows "(\<Sum>b\<in>S. buf_size b) \<le> limit"
proof (rule disjoint_blocks_fit [where lo = "\<lambda>b. the (buf_address b)"])
  note safe = plan_safe [OF assms(1-3)]
  show "finite S" using assms(5) finite_subset by blast
  show "0 \<le> the (buf_address b) \<and> 0 \<le> buf_size b \<and> the (buf_address b) + buf_size b \<le> limit" if "b \<in> S" for b
    using safe assms(5) assms(6) [OF that] that by (auto simp: safe_layout_def in_bounds_def)
  show "ivl_disjoint (the (buf_address b)) (buf_size b) (the (buf_address c)) (buf_size c)"
    if bc: "b \<in> S" "c \<in> S" "b \<noteq> c" for b c
  proof -
    have "buf_name b \<noteq> buf_name c"
      using same_name_same_buffer [OF assms(2,3)] bc assms(5) by blast
    moreover have "overlaps_in_time b c"
      using assms(6) [OF bc(1)] assms(6) [OF bc(2)] by (auto simp: overlaps_in_time_def)
    moreover have "b \<in> set out" "c \<in> set out" using bc assms(5) by blast+
    ultimately have "addr_disjoint b c"
      using safe assms(7) [OF bc(1,2)] assms(7) [OF bc(2,1)] unfolding safe_layout_def by blast
    then show ?thesis
      using assms(6) [OF bc(1)] assms(6) [OF bc(2)] by (auto simp: addr_disjoint_def)
  qed
qed (rule assms(4))

end

text \<open>
  A solver that also never raises on unplanned, unpaired input and never places a buffer whose
  residency verdict bars it: what a search that calls it once per candidate relies on.
\<close>

locale total_solver = layout_solver +
  assumes plan_returns:
      "0 < al \<Longrightarrow> solver_input bufs \<Longrightarrow> check_in_place_relationships bufs = Inr () \<Longrightarrow>
       \<forall>b \<in> set bufs. buf_address b = None \<and> paired_with b = [] \<Longrightarrow> \<exists>out. plan limit al bufs = Inr out"
    and plan_bars:
      "0 < al \<Longrightarrow> solver_input bufs \<Longrightarrow> plan limit al bufs = Inr out \<Longrightarrow> b \<in> set out \<Longrightarrow>
       residency_reason b \<noteq> None \<Longrightarrow> buf_address b = None"

lemma placeable_unbarred:
  assumes "distinct (map buf_name bufs)" "b \<in> set (fst (partition_buffers c limit bufs))"
  shows "residency_reason b = None"
proof -
  obtain b0 where "b = b0\<lparr>spill_reason := None\<rparr>" "excluded c limit b0 = None"
    using assms(2) unfolding placeable_iff [OF assms(1)] by auto
  then show ?thesis by (auto simp: excluded_def split: option.splits)
qed

section \<open>Properties of the data model\<close>

lemma ceil_div_bounds: "0 < b \<Longrightarrow> a \<le> ceil_div a b * b \<and> ceil_div a b * b < a + b"
  using neg_div_eq_round_up [of b a] round_up_bounds [of b a] by (simp add: ceil_div_def)

lemma foldl_min_le: "foldl min (w::int) xs \<le> w \<and> (\<forall>x \<in> set xs. foldl min w xs \<le> x)"
proof (induction xs arbitrary: w)
  case (Cons x xs)
  show ?case using Cons.IH [of "min w x"] by auto
qed simp

lemma foldl_min_in: "foldl min (w::int) xs \<in> insert w (set xs)"
proof (induction xs arbitrary: w)
  case (Cons x xs)
  show ?case using Cons.IH [of "min w x"] by (auto simp: min_def split: if_splits)
qed simp

lemma min_footprint_cases:
  "core_divisions b \<noteq> [] \<Longrightarrow> min_footprint b \<in> per_core_size b ` set (core_divisions b)"
  using foldl_min_in [of "per_core_size b (hd (core_divisions b))" "map (per_core_size b) (tl (core_divisions b))"]
  by (cases "core_divisions b") (auto simp: min_footprint_def)

text \<open>
  The capacity check is exact: a buffer's least footprint is attained by one of its
  divisions and no division needs less, and a division's parts cover the buffer with
  less than one byte per part to spare.
\<close>

lemma min_footprint_exact:
  assumes "cd \<in> set (core_divisions b)"
    and "0 < output_partition cd * output_tile_count (tiling cd)"
  shows "min_footprint b \<le> per_core_size b cd
    \<and> (\<exists>cd' \<in> set (core_divisions b). min_footprint b = per_core_size b cd')
    \<and> buf_size b \<le> per_core_size b cd * (output_partition cd * output_tile_count (tiling cd))
    \<and> per_core_size b cd * (output_partition cd * output_tile_count (tiling cd))
        < buf_size b + output_partition cd * output_tile_count (tiling cd)"
proof -
  have ne: "core_divisions b \<noteq> []" using assms(1) by auto
  have "min_footprint b \<le> per_core_size b cd"
    using assms(1) foldl_min_le [of "per_core_size b (hd (core_divisions b))"
        "map (per_core_size b) (tl (core_divisions b))"] ne
    by (cases "core_divisions b") (auto simp: min_footprint_def)
  moreover have "\<exists>cd' \<in> set (core_divisions b). min_footprint b = per_core_size b cd'"
    using min_footprint_cases [OF ne] by blast
  ultimately show ?thesis
    using ceil_div_bounds [OF assms(2), of "buf_size b"] by (simp add: per_core_size_def)
qed

lemma min_footprint_example:
  "min_footprint \<lparr>buf_name = ''b'', buf_size = 1000, buf_uses = [0], first_use_is_read = False,
     buf_address = None, in_place_parents = [], residency_reason = None, untiled_bar = None,
     lifetime_start_override = None, lifetime_end_override = None, paired_with = [],
     spill_reason = None, core_divisions = [
       \<lparr>splits = [(''s0'', 4)], reduction_syms = [], tiling = [], tile_splits = []\<rparr>], lx_relayout_plans = []\<rparr> \<le> 250"
proof -
  let ?cd = "\<lparr>splits = [(''s0'', 4)], reduction_syms = [], tiling = [], tile_splits = []\<rparr>"
  let ?b = "\<lparr>buf_name = ''b'', buf_size = 1000, buf_uses = [0], first_use_is_read = False,
     buf_address = None, in_place_parents = [], residency_reason = None, untiled_bar = None,
     lifetime_start_override = None, lifetime_end_override = None, paired_with = [],
     spill_reason = None, core_divisions = [?cd], lx_relayout_plans = []\<rparr>"
  have parts: "output_partition ?cd * output_tile_count (tiling ?cd) = 4" by code_simp
  have "?cd \<in> set (core_divisions ?b)" by simp
  from min_footprint_exact [OF this] parts
  have "min_footprint ?b \<le> per_core_size ?b ?cd" by simp
  moreover have "per_core_size ?b ?cd = 250" by code_simp
  ultimately show ?thesis by simp
qed

text \<open>
  A division's core count is its output partition times the cores that split a
  reduction, and a tiling's trip count is its output tiles times its reduction tiles.
\<close>

lemma cores_and_tiles_factor:
  "cores_used d = output_partition d * prod_list (map snd (reduction_splits d))
   \<and> tile_count t = output_tile_count t * prod_list (map axis_count (filter is_reduction t))
   \<and> (is_clean t \<longrightarrow> tile_count t = output_tile_count t)"
proof (intro conjI impI)
  have "prod_list (map snd (splits d))
      = prod_list (map snd (filter (\<lambda>x. fst x \<notin> set (reduction_syms d)) (splits d)))
        * prod_list (map snd (filter (\<lambda>x. \<not> fst x \<notin> set (reduction_syms d)) (splits d)))"
    by (rule prod_list_filter_split)
  then show "cores_used d = output_partition d * prod_list (map snd (reduction_splits d))"
    unfolding cores_used_def output_partition_def output_splits_def reduction_splits_def
      case_prod_beta' by simp
  have tiles: "prod_list (map axis_count t)
      = prod_list (map axis_count (filter (\<lambda>a. \<not> is_reduction a) t))
        * prod_list (map axis_count (filter (\<lambda>a. \<not> \<not> is_reduction a) t))"
    by (rule prod_list_filter_split)
  then show "tile_count t = output_tile_count t * prod_list (map axis_count (filter is_reduction t))"
    unfolding tile_count_def output_tile_count_def by simp
  show "tile_count t = output_tile_count t" if "is_clean t"
  proof -
    have "filter (\<lambda>a. \<not> is_reduction a) t = t"
      using that by (simp add: is_clean_def list_ex_iff filter_id_conv)
    then show ?thesis unfolding tile_count_def output_tile_count_def by simp
  qed
qed

lemma cores_and_tiles_factor_example:
  "is_clean [\<lparr>host_dim = 0, axis_count = 4, is_reduction = False\<rparr>]
   \<and> tile_count [\<lparr>host_dim = 0, axis_count = 4, is_reduction = False\<rparr>]
       = output_tile_count [\<lparr>host_dim = 0, axis_count = 4, is_reduction = False\<rparr>]"
proof -
  have "is_clean [\<lparr>host_dim = 0, axis_count = 4, is_reduction = False\<rparr>]" by (simp add: is_clean_def)
  then show ?thesis using cores_and_tiles_factor by blast
qed

lemma relayout_copy_buffer_simps [simp]:
  "buf_size (relayout_copy_buffer nm sp n us) = sp * n"
  "buf_uses (relayout_copy_buffer nm sp n us) = us"
  "output_partition (hd (core_divisions (relayout_copy_buffer nm sp n us))) = n"
  "output_tile_count (tiling (hd (core_divisions (relayout_copy_buffer nm sp n us)))) = 1"
  by (simp_all add: relayout_copy_buffer_def output_partition_def output_splits_def output_tile_count_def)

lemma build_relayout_copy_fields:
  assumes "build_relayout_copy nm par grp cands ticks = Inr cp"
  obtains n spn us where
    "copy_buffer cp = relayout_copy_buffer nm spn n us"
    "\<forall>c \<in> set cands. destination_num_cores c = n \<and> destination_footprint_bytes c = spn
       \<and> ticks (cand_consumer c) \<noteq> None"
    "set us = (\<lambda>c. the (ticks (cand_consumer c))) ` set cands" "sorted us"
proof -
  define ord where "ord = sort_key candidate_key cands"
  have set_ord: "set ord = set cands" by (simp add: ord_def)
  note def = assms [unfolded build_relayout_copy_def Let_def ord_def [symmetric]]
  let ?us = "sort (remdups (map (\<lambda>c. the (ticks (cand_consumer c))) ord))"
  have h1: "copy_buffer cp = relayout_copy_buffer nm (destination_footprint_bytes (hd ord))
      (destination_num_cores (hd ord)) ?us"
    using def by (auto split: if_splits)
  have h2: "\<forall>c \<in> set ord. destination_num_cores c = destination_num_cores (hd ord)
      \<and> destination_footprint_bytes c = destination_footprint_bytes (hd ord)
      \<and> ticks (cand_consumer c) \<noteq> None"
  proof -
    have "\<not> list_ex (\<lambda>c. destination_num_cores c \<noteq> destination_num_cores (hd ord)) ord"
      "\<not> list_ex (\<lambda>c. destination_footprint_bytes c \<noteq> destination_footprint_bytes (hd ord)) ord"
      "\<not> list_ex (\<lambda>c. ticks (cand_consumer c) = None) ord"
      using def by (auto split: if_splits)
    then show ?thesis unfolding list_ex_iff by metis
  qed
  have "set ?us = (\<lambda>c. the (ticks (cand_consumer c))) ` set ord" "sorted ?us" by simp_all
  then show ?thesis using that [OF h1] h2 unfolding set_ord by blast
qed

lemma sorted_last_ge: "sorted xs \<Longrightarrow> x \<in> set xs \<Longrightarrow> x \<le> last (xs :: int list)"
  by (induction xs) (auto split: if_splits)

text \<open>
  A relayout copy has exactly the destination's geometry: the per-core footprint every
  engine derives through \<open>per_core_size\<close> is the candidates' destination span, and the copy
  is live from the first to the last tick at which a consumer of its group reads.
\<close>

lemma relayout_copy_footprint:
  assumes "build_relayout_copy nm par grp cands ticks = Inr cp"
    and "c \<in> set cands" "0 < destination_num_cores c"
  shows "per_core_size (copy_buffer cp) (hd (core_divisions (copy_buffer cp))) = destination_footprint_bytes c
    \<and> (\<exists>k. ticks (cand_consumer c) = Some k \<and> k \<in> set (buf_uses (copy_buffer cp))
           \<and> hd (buf_uses (copy_buffer cp)) \<le> k \<and> k \<le> last (buf_uses (copy_buffer cp)))"
proof -
  obtain n spn us where f: "copy_buffer cp = relayout_copy_buffer nm spn n us"
    "\<forall>c \<in> set cands. destination_num_cores c = n \<and> destination_footprint_bytes c = spn
       \<and> ticks (cand_consumer c) \<noteq> None"
    "set us = (\<lambda>c. the (ticks (cand_consumer c))) ` set cands" "sorted us"
    by (rule build_relayout_copy_fields [OF assms(1)])
  have "per_core_size (copy_buffer cp) (hd (core_divisions (copy_buffer cp))) = spn"
    using f(1,2) assms(2,3) by (auto simp: per_core_size_def ceil_div_def simp flip: mult_minus_left)
  moreover obtain k where k: "ticks (cand_consumer c) = Some k" using f(2) assms(2) by blast
  moreover have "k \<in> set us" using f(3) assms(2) k by force
  moreover have "hd us \<le> k" using \<open>k \<in> set us\<close> f(4) by (cases us) auto
  moreover have "k \<le> last us" using f(4) \<open>k \<in> set us\<close> by (rule sorted_last_ge)
  ultimately show ?thesis using f(1,2) assms(2) by simp
qed

lemma relayout_copy_footprint_example:
  "\<exists>cp. build_relayout_copy ''cp'' ''p'' 0
     [\<lparr>cand_parent = ''p'', cand_consumer = ''c'', source_division = 1, consumer_division = 0,
       cand_group = 0, destination_num_cores = 32, destination_footprint_bytes = 4096\<rparr>]
     [''c'' \<mapsto> 5] = Inr cp
   \<and> per_core_size (copy_buffer cp) (hd (core_divisions (copy_buffer cp))) = 4096"
proof -
  let ?c = "\<lparr>cand_parent = ''p'', cand_consumer = ''c'', source_division = 1, consumer_division = 0,
       cand_group = 0, destination_num_cores = 32, destination_footprint_bytes = 4096\<rparr>"
  have "\<exists>cp. build_relayout_copy ''cp'' ''p'' 0 [?c] [''c'' \<mapsto> 5] = Inr cp"
    by (simp add: build_relayout_copy_def Let_def)
  then obtain cp where cp: "build_relayout_copy ''cp'' ''p'' 0 [?c] [''c'' \<mapsto> 5] = Inr cp" ..
  then show ?thesis using relayout_copy_footprint [OF cp, of ?c] by simp
qed

end
