(* ===== verification/Greedy_Solver.thy ===== *)
theory Greedy_Solver
  imports Plan_Solver
begin

text \<open>
  The greedy time-stepping layout solver,
  \<^verbatim>\<open>src/torch_spyre/_inductor/scratchpad/greedy_solver.py\<close>: an explicit state (the live
  placements, the parents whose slot is handed over, the rejected groups, the addresses) and
  one operation per method.  The theory shows that every layout it returns is safe.

  A live placement is a pair of a buffer and its address, so the assertion at the head of
  \<open>_find_free_block\<close> holds by construction: an entry is appended only with its address set.
  \<open>math.ceil(x / alignment)\<close> is modelled by exact integer division; the float quotient agrees
  with it below \<open>2^53\<close>, and every address is bounded by the scratchpad size.  The alignment
  is positive (128 where the code constructs a solver), so that quotient never raises.
\<close>

section \<open>State\<close>

definition greedy_caps :: Capabilities where
  "greedy_caps = \<lparr>chooses_core_divisions = False, supports_paired_buffers = True,
     decides_lx_relayouts = False, generates_divisions = False, chooses_tilings = False,
     tilings_from_menu = False, linear_cost_only = False\<rparr>"

type_synonym placement = "LifetimeBoundBuffer \<times> int"

record greedy_state =
  usage :: "placement list"
  reused_parents :: "string list"
  rejected_paired_buffers :: "string list"
  addresses :: "string \<Rightarrow> int option"

definition greedy_init :: greedy_state where
  "greedy_init = \<lparr>usage = [], reused_parents = [], rejected_paired_buffers = [],
     addresses = (\<lambda>_. None)\<rparr>"

section \<open>Finding a free block\<close>

definition get_lowest_addr_in_use :: "placement list \<Rightarrow> int" where
  "get_lowest_addr_in_use us =
     (case map snd us of [] \<Rightarrow> 0 | a # as \<Rightarrow> foldl min a as)"

definition get_highest_addr_in_use :: "placement list \<Rightarrow> int" where
  "get_highest_addr_in_use us =
     (case map (\<lambda>(u, a). a + buf_size u) us of [] \<Rightarrow> 0 | h # hs \<Rightarrow> foldl max h hs)"

text \<open>The merging loop; the accumulator is \<open>merged\<close>, last span first.\<close>

fun merge_spans :: "(int \<times> int) list \<Rightarrow> (int \<times> int) list \<Rightarrow> (int \<times> int) list" where
  "merge_spans merged [] = rev merged"
| "merge_spans [] ((lo, hi) # xs) = merge_spans [(lo, hi)] xs"
| "merge_spans ((mlo, mhi) # ms) ((lo, hi) # xs) =
     (if lo \<le> mhi then merge_spans ((mlo, max mhi hi) # ms) xs
      else merge_spans ((lo, hi) # (mlo, mhi) # ms) xs)"

definition occupied_spans :: "placement list \<Rightarrow> (int \<times> int) list" where
  "occupied_spans us = merge_spans [] (sort (map (\<lambda>(u, a). (a, a + buf_size u)) us))"

fun first_gap :: "int \<Rightarrow> int \<Rightarrow> (int \<times> int) list \<Rightarrow> int option" where
  "first_gap al size_needed ((_, span_end) # (next_start, e) # rest) =
     (let frag_st = ceil_div span_end al * al
      in if next_start - frag_st \<ge> size_needed then Some frag_st
         else first_gap al size_needed ((next_start, e) # rest))"
| "first_gap al size_needed _ = None"

definition find_free_block :: "int \<Rightarrow> int \<Rightarrow> placement list \<Rightarrow> int \<Rightarrow> int option" where
  "find_free_block limit al us size_needed =
     (let curr_lo = get_lowest_addr_in_use us; curr_hi = get_highest_addr_in_use us
      in if limit < size_needed then None
         else if us = [] \<or> curr_lo \<ge> size_needed then Some 0
         else
           (let addr = ceil_div curr_hi al * al
            in if addr + size_needed \<le> limit then Some addr
               else first_gap al size_needed (occupied_spans us)))"

section \<open>Allocation and deallocation\<close>

definition lookup_usage :: "placement list \<Rightarrow> string \<Rightarrow> placement option" where
  "lookup_usage us n = find (\<lambda>(u, a). buf_name u = n) us"

text \<open>The first declared parent that is live, large enough and not handed over yet.\<close>

fun find_in_place :: "greedy_state \<Rightarrow> LifetimeBoundBuffer \<Rightarrow> string list \<Rightarrow> placement option" where
  "find_in_place st b [] = None"
| "find_in_place st b (p # ps) =
     (if p \<in> set (reused_parents st) then find_in_place st b ps
      else case lookup_usage (usage st) p of
             Some (u, a) \<Rightarrow> if buf_size b \<le> buf_size u then Some (u, a) else find_in_place st b ps
           | None \<Rightarrow> find_in_place st b ps)"

definition place :: "LifetimeBoundBuffer \<Rightarrow> int \<Rightarrow> greedy_state \<Rightarrow> greedy_state" where
  "place b a st = st\<lparr>usage := usage st @ [(b, a)], addresses := (addresses st)(buf_name b := Some a)\<rparr>"

definition try_allocate_one :: "int \<Rightarrow> int \<Rightarrow> greedy_state \<Rightarrow> LifetimeBoundBuffer \<Rightarrow> greedy_state" where
  "try_allocate_one limit al st b =
     (case find_in_place st b (in_place_parents b) of
        Some (u, a) \<Rightarrow> (place b a st)\<lparr>reused_parents := buf_name u # reused_parents st\<rparr>
      | None \<Rightarrow>
          (case find_free_block limit al (usage st) (buf_size b) of
             Some a \<Rightarrow> place b a st
           | None \<Rightarrow> st\<lparr>addresses := (addresses st)(buf_name b := None)\<rparr>))"

text \<open>
  The members of a paired group in turn; \<open>st0\<close> is the state before the group and \<open>grp\<close> the
  whole group, which a failure restores and rejects.
\<close>

fun allocate_group ::
  "int \<Rightarrow> int \<Rightarrow> greedy_state \<Rightarrow> LifetimeBoundBuffer list \<Rightarrow> greedy_state \<Rightarrow> LifetimeBoundBuffer list \<Rightarrow> greedy_state" where
  "allocate_group limit al st0 grp st [] = st"
| "allocate_group limit al st0 grp st (m # ms) =
     (let st' = try_allocate_one limit al st m
      in if addresses st' (buf_name m) \<noteq> None then allocate_group limit al st0 grp st' ms
         else st'\<lparr>usage := usage st0, reused_parents := reused_parents st0,
                 rejected_paired_buffers := map buf_name grp @ rejected_paired_buffers st',
                 addresses := (\<lambda>n. if n \<in> set (map buf_name grp) then None else addresses st' n)\<rparr>)"

definition try_allocate ::
  "int \<Rightarrow> int \<Rightarrow> (string \<Rightarrow> LifetimeBoundBuffer list option) \<Rightarrow> greedy_state \<Rightarrow> LifetimeBoundBuffer \<Rightarrow> greedy_state" where
  "try_allocate limit al groups st b =
     (if addresses st (buf_name b) \<noteq> None \<or> buf_name b \<in> set (rejected_paired_buffers st) then st
      else case groups (buf_name b) of
             None \<Rightarrow> try_allocate_one limit al st b
           | Some grp \<Rightarrow> allocate_group limit al st grp st grp)"

definition try_deallocate :: "greedy_state \<Rightarrow> LifetimeBoundBuffer \<Rightarrow> greedy_state" where
  "try_deallocate st b = st\<lparr>usage := filter (\<lambda>(u, a). buf_name u \<noteq> buf_name b) (usage st)\<rparr>"

section \<open>Paired groups\<close>

text \<open>The three assertions on one member of a group, then the group is recorded for it.\<close>

fun add_members ::
  "LifetimeBoundBuffer list \<Rightarrow> LifetimeBoundBuffer list \<Rightarrow> string list \<Rightarrow>
   (string \<Rightarrow> LifetimeBoundBuffer list option) \<Rightarrow> (string \<Rightarrow> LifetimeBoundBuffer list option) result" where
  "add_members bufs grp [] groups = Inr groups"
| "add_members bufs grp (m # ms) groups =
     (if buf_by_name bufs m = None then Inl (AssertionError ''paired buffer is not in this solve'')
      else if groups m \<noteq> None then Inl (AssertionError ''buffer belongs to multiple paired groups'')
      else add_members bufs grp ms (groups(m := Some grp)))"

fun build_groups ::
  "LifetimeBoundBuffer list \<Rightarrow> string list \<Rightarrow> LifetimeBoundBuffer list \<Rightarrow>
   (string \<Rightarrow> LifetimeBoundBuffer list option) \<Rightarrow> string list \<Rightarrow>
   ((string \<Rightarrow> LifetimeBoundBuffer list option) \<times> string list) result" where
  "build_groups bufs placeable_names [] groups rejected = Inr (groups, rejected)"
| "build_groups bufs placeable_names (rt # roots) groups rejected =
     (if paired_with rt = [] then build_groups bufs placeable_names roots groups rejected
      else
        (let members = buf_name rt # paired_with rt;
             grp = List.map_filter (buf_by_name bufs) members
         in if \<not> distinct members then Inl (AssertionError ''paired-buffer group contains duplicates'')
            else case add_members bufs grp members groups of
                   Inl e \<Rightarrow> Inl e
                 | Inr groups' \<Rightarrow>
                     build_groups bufs placeable_names roots groups'
                       (if list_ex (\<lambda>m. m \<notin> set placeable_names) members
                        then members @ rejected else rejected)))"

section \<open>The time walk\<close>

definition transition_times :: "LifetimeBoundBuffer list \<Rightarrow> int list" where
  "transition_times bufs = sort (remdups (concat (map (\<lambda>b. [start_time b, end_time b]) bufs)))"

definition greedy_tick ::
  "int \<Rightarrow> int \<Rightarrow> (string \<Rightarrow> LifetimeBoundBuffer list option) \<Rightarrow> LifetimeBoundBuffer list \<Rightarrow> greedy_state \<Rightarrow> int \<Rightarrow> greedy_state" where
  "greedy_tick limit al groups placeable st idx =
     (let st1 = foldl try_deallocate st (filter (\<lambda>b. end_time b = idx) placeable)
      in foldl (try_allocate limit al groups) st1 (filter (\<lambda>b. start_time b = idx) placeable))"

definition greedy_plan_layout ::
  "int \<Rightarrow> int \<Rightarrow> LifetimeBoundBuffer list \<Rightarrow> LifetimeBoundBuffer list result" where
  "greedy_plan_layout limit al buffers =
     (if buffers = [] then Inr []
      else if list_ex (\<lambda>b. buf_address b \<noteq> None) buffers
        then Inl (AssertionError ''Buffers cannot be previously or partially planned'')
      else case check_in_place_relationships buffers of
        Inl e \<Rightarrow> Inl e
      | Inr _ \<Rightarrow>
          (let buffers' = fst (record_exclusions greedy_caps limit buffers);
               placeable = fst (partition_buffers greedy_caps limit buffers)
           in if placeable = [] then Inr buffers'
              else case build_groups buffers' (map buf_name placeable) buffers' (\<lambda>_. None) [] of
                Inl e \<Rightarrow> Inl e
              | Inr (groups, rejected) \<Rightarrow>
                  if list_ex (\<lambda>b. buf_uses b = []) placeable then Inl IndexError
                  else
                    (let st = foldl (greedy_tick limit al groups placeable)
                                (greedy_init\<lparr>rejected_paired_buffers := rejected\<rparr>)
                                (transition_times placeable)
                     in Inr (map (\<lambda>b. b\<lparr>buf_address := addresses st (buf_name b)\<rparr>) buffers'))))"

section \<open>A free block is free\<close>

definition spans_separated :: "(int \<times> int) list \<Rightarrow> bool" where
  "spans_separated sp \<longleftrightarrow> sorted_wrt (\<lambda>x y. snd x < fst y) sp \<and> (\<forall>x \<in> set sp. fst x \<le> snd x)"

lemma merge_spans_separated:
  assumes "sorted_wrt (\<lambda>x y. snd y < fst x) merged" "\<forall>x \<in> set merged. fst x \<le> snd x"
    and "sorted (map fst xs)" "\<forall>x \<in> set xs. fst x \<le> snd x"
    and "\<forall>m \<in> set merged. \<forall>x \<in> set xs. fst m \<le> fst x"
  shows "spans_separated (merge_spans merged xs)"
  using assms
proof (induction merged xs rule: merge_spans.induct)
  case (1 merged)
  then show ?case by (simp add: spans_separated_def sorted_wrt_rev)
next
  case (3 mlo mhi ms lo hi xs)
  show ?case
  proof (cases "lo \<le> mhi")
    case True
    then show ?thesis using "3.prems" by (simp, intro "3.IH"(1)) auto
  next
    case False
    then show ?thesis using "3.prems" by (simp, intro "3.IH"(2)) fastforce+
  qed
qed simp

text \<open>Every input span lies in an output span, and bounds on the inputs carry over.\<close>

lemma merge_spans_cover:
  "x \<in> set merged \<union> set xs \<Longrightarrow> \<exists>y \<in> set (merge_spans merged xs). fst y \<le> fst x \<and> snd x \<le> snd y"
  if "\<forall>m \<in> set merged. \<forall>y \<in> set xs. fst m \<le> fst y" "sorted (map fst xs)"
  using that
proof (induction merged xs arbitrary: x rule: merge_spans.induct)
  case (1 merged)
  then show ?case by auto
next
  case (2 lo hi xs)
  show ?case using "2.IH" [of x] "2.prems" by auto
next
  case (3 mlo mhi ms lo hi xs)
  show ?case
  proof (cases "lo \<le> mhi")
    case True
    let ?r = "merge_spans ((mlo, max mhi hi) # ms) xs"
    have ih: "\<exists>y \<in> set ?r. fst y \<le> fst z \<and> snd z \<le> snd y" if "z \<in> set ((mlo, max mhi hi) # ms) \<union> set xs" for z
      using "3.prems" that by (intro "3.IH"(1) [OF True]) auto
    show ?thesis
    proof (cases "x = (mlo, mhi) \<or> x = (lo, hi)")
      case True
      obtain y where y: "y \<in> set ?r" "fst y \<le> mlo" "max mhi hi \<le> snd y"
        using ih [of "(mlo, max mhi hi)"] by auto
      moreover have "mlo \<le> lo" using "3.prems" by auto
      ultimately show ?thesis using True \<open>lo \<le> mhi\<close> by (auto intro!: bexI [of _ y])
    next
      case False
      with ih [of x] "3.prems" \<open>lo \<le> mhi\<close> show ?thesis by auto
    qed
  next
    case False
    then show ?thesis using "3.IH"(2) [OF False, of x] "3.prems" by auto
  qed
qed

lemma merge_spans_bound:
  assumes "\<forall>x \<in> set merged \<union> set xs. 0 \<le> fst x \<and> snd x \<le> B"
  shows "\<forall>y \<in> set (merge_spans merged xs). 0 \<le> fst y \<and> snd y \<le> B"
  using assms by (induction merged xs rule: merge_spans.induct) auto

lemma first_gap_sound:
  assumes "first_gap al n sp = Some f" "0 < al" "spans_separated sp"
  shows "snd (hd sp) \<le> f \<and> al dvd f \<and> (\<forall>x \<in> set sp. snd x \<le> f \<or> f + n \<le> fst x)
       \<and> (\<exists>x \<in> set sp. f + n \<le> snd x)"
  using assms
proof (induction al n sp rule: first_gap.induct)
  case (1 al n s span_end next_start e rest)
  let ?f = "ceil_div span_end al * al"
  have f: "span_end \<le> ?f" using ceil_div_bounds [OF "1.prems"(2)] by blast
  have sep: "span_end < next_start" "next_start \<le> e" "spans_separated ((next_start, e) # rest)"
    "\<forall>x \<in> set rest. next_start \<le> fst x"
    using "1.prems"(3) by (fastforce simp: spans_separated_def)+
  show ?case
  proof (cases "next_start - ?f \<ge> n")
    case True
    then have "f = ?f" using "1.prems"(1) by (simp add: Let_def)
    with True f sep show ?thesis by fastforce
  next
    case False
    then have "first_gap al n ((next_start, e) # rest) = Some f" using "1.prems"(1) by (simp add: Let_def)
    with "1.IH" [OF refl False this "1.prems"(2) sep(3)] sep show ?thesis by auto
  qed
qed simp_all

lemma lowest_le: "(u, a) \<in> set us \<Longrightarrow> get_lowest_addr_in_use us \<le> a"
  using foldl_min_le by (cases us) (fastforce simp: get_lowest_addr_in_use_def)+

lemma foldl_max_upper: "h \<le> foldl max (h::int) hs \<and> (\<forall>x \<in> set hs. x \<le> foldl max h hs)"
  using foldl_max_ge_init [of h "\<lambda>x. x" hs] foldl_max_ge [of _ hs "\<lambda>x. x" h] by auto

lemma highest_ge: "(u, a) \<in> set us \<Longrightarrow> a + buf_size u \<le> get_highest_addr_in_use us"
  using foldl_max_upper by (cases us) (fastforce simp: get_highest_addr_in_use_def)+

definition usage_in_bounds :: "int \<Rightarrow> placement list \<Rightarrow> bool" where
  "usage_in_bounds limit us \<longleftrightarrow> (\<forall>(u, a) \<in> set us. 0 \<le> a \<and> 0 \<le> buf_size u \<and> a + buf_size u \<le> limit)"

lemma occupied_spans_facts:
  assumes "usage_in_bounds limit us"
  shows "spans_separated (occupied_spans us)"
    and "(u, a) \<in> set us \<Longrightarrow> \<exists>y \<in> set (occupied_spans us). fst y \<le> a \<and> a + buf_size u \<le> snd y"
    and "\<forall>y \<in> set (occupied_spans us). 0 \<le> fst y \<and> snd y \<le> limit"
proof -
  let ?xs = "sort (map (\<lambda>(u, a). (a, a + buf_size u)) us)"
  have sorted: "sorted (map fst ?xs)" by (rule sorted_map_fst) simp
  have b: "\<forall>x \<in> set ?xs. 0 \<le> fst x \<and> fst x \<le> snd x \<and> snd x \<le> limit"
    using assms by (auto simp: usage_in_bounds_def)
  show "spans_separated (occupied_spans us)"
    unfolding occupied_spans_def using sorted b by (intro merge_spans_separated) auto
  show "\<exists>y \<in> set (occupied_spans us). fst y \<le> a \<and> a + buf_size u \<le> snd y" if "(u, a) \<in> set us"
    using merge_spans_cover [of "[]" ?xs "(a, a + buf_size u)"] sorted that
    unfolding occupied_spans_def by force
  show "\<forall>y \<in> set (occupied_spans us). 0 \<le> fst y \<and> snd y \<le> limit"
    unfolding occupied_spans_def using b by (intro merge_spans_bound) auto
qed

lemma find_free_block_sound:
  assumes "find_free_block limit al us n = Some f" "0 < al" "usage_in_bounds limit us"
  shows "0 \<le> f \<and> f + n \<le> limit \<and> al dvd f \<and> (\<forall>(u, a) \<in> set us. ivl_disjoint f n a (buf_size u))"
proof -
  let ?hi = "get_highest_addr_in_use us"
  let ?r = "ceil_div ?hi al * al"
  note def = assms(1) [unfolded find_free_block_def Let_def]
  have nle: "n \<le> limit" using def by (auto split: if_splits)
  let ?A = "us = [] \<or> get_lowest_addr_in_use us \<ge> n"
  consider "?A" | "\<not> ?A" "?r + n \<le> limit" | "\<not> ?A" "\<not> ?r + n \<le> limit" by blast
  then show ?thesis
  proof cases
    case 1
    have f: "f = 0" using def nle 1 by simp
    have "ivl_disjoint 0 n a (buf_size u)" if "(u, a) \<in> set us" for u a
      using 1 lowest_le [OF that] that by (auto simp: interval_simps)
    with f nle show ?thesis by auto
  next
    case 2
    have f: "f = ?r" and ne: "us \<noteq> []" using def nle 2 by auto
    have "?hi \<le> ?r" using ceil_div_bounds [OF assms(2)] by blast
    moreover have "0 \<le> ?hi"
      using ne assms(3) highest_ge [of "fst (hd us)" "snd (hd us)" us]
      by (cases us) (auto simp: usage_in_bounds_def)
    moreover have "ivl_disjoint ?r n a (buf_size u)" if "(u, a) \<in> set us" for u a
      using highest_ge [OF that] \<open>?hi \<le> ?r\<close> by (simp add: interval_simps)
    ultimately show ?thesis using f 2 by auto
  next
    case 3
    have gap: "first_gap al n (occupied_spans us) = Some f" using def nle 3 by simp
    note sp = occupied_spans_facts [OF assms(3)]
    note g = first_gap_sound [OF gap assms(2) sp(1)]
    have "ivl_disjoint f n a (buf_size u)" if "(u, a) \<in> set us" for u a
      using sp(2) [OF that] g by (fastforce simp: interval_simps)
    moreover have "occupied_spans us \<noteq> []" using gap by auto
    then have "0 \<le> f" using g sp(1,3) by (cases "occupied_spans us") (auto simp: spans_separated_def)
    moreover have "f + n \<le> limit" using g sp(3) by fastforce
    ultimately show ?thesis using g by blast
  qed
qed

section \<open>The invariant of the walk\<close>

text \<open>\<open>R\<close> relates an in-place child to the parent whose slot it was given.\<close>

definition slots_related ::
  "(LifetimeBoundBuffer \<times> LifetimeBoundBuffer) set \<Rightarrow> placement \<Rightarrow> placement \<Rightarrow> bool" where
  "slots_related R x y \<longleftrightarrow>
     ivl_disjoint (snd x) (buf_size (fst x)) (snd y) (buf_size (fst y)) \<or>
     (fst x, fst y) \<in> R\<^sup>+ \<or> (fst y, fst x) \<in> R\<^sup>+"

definition handover_ok :: "LifetimeBoundBuffer set \<Rightarrow> greedy_state \<Rightarrow>
   LifetimeBoundBuffer \<Rightarrow> LifetimeBoundBuffer \<Rightarrow> bool" where
  "handover_ok P st c p \<longleftrightarrow>
     c \<in> P \<and> p \<in> P \<and> buf_name p \<in> set (in_place_parents c) \<and> buf_size c \<le> buf_size p \<and>
     addresses st (buf_name c) = addresses st (buf_name p) \<and> addresses st (buf_name p) \<noteq> None \<and>
     buf_name p \<in> set (reused_parents st)"

definition placed_at :: "LifetimeBoundBuffer set \<Rightarrow> greedy_state \<Rightarrow> placement \<Rightarrow> bool" where
  "placed_at P st x \<longleftrightarrow> fst x \<in> P \<and> addresses st (buf_name (fst x)) = Some (snd x)"

definition core_inv :: "int \<Rightarrow> int \<Rightarrow> LifetimeBoundBuffer set \<Rightarrow> int \<Rightarrow> greedy_state \<Rightarrow>
   (LifetimeBoundBuffer \<times> LifetimeBoundBuffer) set \<Rightarrow> bool" where
  "core_inv limit al P t st R \<longleftrightarrow>
     (\<forall>x \<in> set (usage st). placed_at P st x) \<and>
     (\<forall>x. placed_at P st x \<longrightarrow> 0 \<le> snd x \<and> snd x + buf_size (fst x) \<le> limit \<and> al dvd snd x) \<and>
     (\<forall>x. placed_at P st x \<longrightarrow> x \<in> set (usage st) \<or> end_time (fst x) \<le> t) \<and>
     (\<forall>(c, p) \<in> R. handover_ok P st c p) \<and>
     (\<forall>x \<in> set (usage st). \<forall>y \<in> set (usage st). fst x \<noteq> fst y \<longrightarrow> slots_related R x y) \<and>
     (\<forall>x y. placed_at P st x \<longrightarrow> placed_at P st y \<longrightarrow> fst x \<noteq> fst y \<longrightarrow>
        overlaps_in_time (fst x) (fst y) \<longrightarrow> slots_related R x y) \<and>
     (\<forall>n. addresses st n \<noteq> None \<longrightarrow> n \<in> buf_name ` P)"

lemma core_invD:
  assumes "core_inv limit al P t st R"
  shows "x \<in> set (usage st) \<Longrightarrow> placed_at P st x"
    and "placed_at P st x \<Longrightarrow> 0 \<le> snd x \<and> snd x + buf_size (fst x) \<le> limit \<and> al dvd snd x"
    and "placed_at P st x \<Longrightarrow> x \<in> set (usage st) \<or> end_time (fst x) \<le> t"
    and "(c, p) \<in> R \<Longrightarrow> handover_ok P st c p"
    and "x \<in> set (usage st) \<Longrightarrow> y \<in> set (usage st) \<Longrightarrow> fst x \<noteq> fst y \<Longrightarrow> slots_related R x y"
    and "placed_at P st x \<Longrightarrow> placed_at P st y \<Longrightarrow> fst x \<noteq> fst y \<Longrightarrow>
           overlaps_in_time (fst x) (fst y) \<Longrightarrow> slots_related R x y"
    and "addresses st n \<noteq> None \<Longrightarrow> n \<in> buf_name ` P"
  using assms unfolding core_inv_def by blast+

lemma slots_related_sym: "slots_related R x y \<Longrightarrow> slots_related R y x"
  by (auto simp: slots_related_def intro: ivl_disjoint_sym)

lemma slots_related_mono: "slots_related R x y \<Longrightarrow> R \<subseteq> R' \<Longrightarrow> slots_related R' x y"
  by (auto simp: slots_related_def intro: trancl_mono)

lemma core_usage_in_bounds:
  assumes "core_inv limit al P t st R" "placeable_ok P"
  shows "usage_in_bounds limit (usage st)"
  unfolding usage_in_bounds_def
proof (clarify, intro conjI)
  fix u a assume "(u, a) \<in> set (usage st)"
  then have p: "placed_at P st (u, a)" by (rule core_invD(1) [OF assms(1)])
  then show "0 \<le> a" "a + buf_size u \<le> limit" using core_invD(2) [OF assms(1) p] by simp_all
  show "0 \<le> buf_size u" using p assms(2) by (simp add: placed_at_def placeable_ok_def)
qed

text \<open>
  Placing one more buffer keeps the invariant when its block is in bounds and related to
  every live block: no placed buffer outside \<open>usage\<close> overlaps it in time.
\<close>

lemma core_inv_place:
  assumes inv: "core_inv limit al P t st R" and ok: "placeable_ok P"
    and b: "b \<in> P" "addresses st (buf_name b) = None" "t \<le> start_time b"
    and a: "0 \<le> a" "a + buf_size b \<le> limit" "al dvd a"
    and R': "R \<subseteq> R'" "\<forall>(c, p) \<in> R'. handover_ok P st' c p"
    and st': "usage st' = usage st @ [(b, a)]" "addresses st' = (addresses st)(buf_name b := Some a)"
    and rel: "\<And>y. y \<in> set (usage st) \<Longrightarrow> slots_related R' (b, a) y"
  shows "core_inv limit al P t st' R'"
proof -
  have pl: "placed_at P st' x \<longleftrightarrow> x = (b, a) \<or> placed_at P st x" for x
  proof -
    have "fst x = b" if "fst x \<in> P" "buf_name (fst x) = buf_name b"
      using ok b(1) that by (auto simp: placeable_ok_def inj_on_def)
    then show ?thesis using b(1,2) st'(2) by (cases x) (auto simp: placed_at_def)
  qed
  have notb: "fst x \<noteq> b" if "placed_at P st x" for x
    using that b(2) by (auto simp: placed_at_def)
  have new: "slots_related R' (b, a) y" if y: "placed_at P st y" "overlaps_in_time b (fst y)" for y
  proof -
    have "t < end_time (fst y)" using y(2) b(3) by (simp add: overlaps_in_time_def)
    then show ?thesis using core_invD(3) [OF inv y(1)] rel by auto
  qed
  show ?thesis
    unfolding core_inv_def pl st'(1)
  proof (intro conjI allI impI ballI)
    fix x assume "x \<in> set (usage st @ [(b, a)])"
    then show "x = (b, a) \<or> placed_at P st x" using core_invD(1) [OF inv, of x] by auto
  next
    fix x assume "x = (b, a) \<or> placed_at P st x"
    then show "0 \<le> snd x" "snd x + buf_size (fst x) \<le> limit" "al dvd snd x"
      using core_invD(2) [OF inv, of x] a by auto
  next
    fix x assume "x = (b, a) \<or> placed_at P st x"
    then show "x \<in> set (usage st @ [(b, a)]) \<or> end_time (fst x) \<le> t"
      using core_invD(3) [OF inv, of x] by auto
  next
    show "\<And>x. x \<in> R' \<Longrightarrow> case x of (c, p) \<Rightarrow> handover_ok P st' c p" using R'(2) by blast
  next
    fix x y assume xy: "x \<in> set (usage st @ [(b, a)])" "y \<in> set (usage st @ [(b, a)])" "fst x \<noteq> fst y"
    then consider "x \<in> set (usage st)" "y \<in> set (usage st)" | "x = (b, a)" "y \<in> set (usage st)"
      | "y = (b, a)" "x \<in> set (usage st)" by auto
    then show "slots_related R' x y"
      using core_invD(5) [OF inv _ _ xy(3)] rel [of x] rel [of y] R'(1)
      by cases (auto intro: slots_related_mono slots_related_sym)
  next
    fix x y assume xy: "x = (b, a) \<or> placed_at P st x" "y = (b, a) \<or> placed_at P st y"
      "fst x \<noteq> fst y" "overlaps_in_time (fst x) (fst y)"
    then consider "placed_at P st x" "placed_at P st y" | "x = (b, a)" "placed_at P st y"
      | "y = (b, a)" "placed_at P st x" by auto
    then show "slots_related R' x y"
      using core_invD(6) [OF inv _ _ xy(3,4)] new [of x] new [of y] R'(1) xy(4)
      by cases (auto intro: slots_related_mono slots_related_sym simp: overlaps_in_time_sym)
  next
    show "n \<in> buf_name ` P" if "addresses st' n \<noteq> None" for n
      using that st'(2) b(1) core_invD(7) [OF inv, of n] by (auto split: if_splits)
  qed
qed

lemma lookup_usage_Some: "lookup_usage us n = Some x \<Longrightarrow> x \<in> set us \<and> buf_name (fst x) = n"
  by (auto simp: lookup_usage_def find_Some_iff) (metis nth_mem)

lemma find_in_place_sound:
  "find_in_place st b ps = Some x \<Longrightarrow> x \<in> set (usage st) \<and> buf_name (fst x) \<in> set ps
     \<and> buf_name (fst x) \<notin> set (reused_parents st) \<and> buf_size b \<le> buf_size (fst x)"
proof (induction ps)
  case (Cons p ps)
  show ?case
  proof (cases "p \<in> set (reused_parents st) \<or> lookup_usage (usage st) p = None")
    case True
    then show ?thesis using Cons by (auto split: if_splits)
  next
    case False
    then obtain y where y: "lookup_usage (usage st) p = Some y" by auto
    show ?thesis
    proof (cases "buf_size b \<le> buf_size (fst y)")
      case True
      then show ?thesis using False y Cons.prems lookup_usage_Some [OF y] by (cases y) auto
    next
      case small: False
      then have "find_in_place st b ps = Some x" using False y Cons.prems by (cases y) auto
      then show ?thesis using Cons.IH by simp
    qed
  qed
qed simp

lemma find_in_place_Some:
  assumes "find_in_place st b ps = Some (u, a)"
  shows "(u, a) \<in> set (usage st)" "buf_name u \<in> set ps" "buf_name u \<notin> set (reused_parents st)"
    and "buf_size b \<le> buf_size u"
  using find_in_place_sound [OF assms] by simp_all

text \<open>Taking over a parent's slot relates the child to every live block.\<close>

lemma in_place_related:
  assumes inv: "core_inv limit al P t st R"
    and u: "(u, a) \<in> set (usage st)" "buf_name u \<notin> set (reused_parents st)" "buf_size b \<le> buf_size u"
    and y: "y \<in> set (usage st)"
  shows "slots_related (insert (b, u) R) (b, a) y"
proof (cases "fst y = u")
  case True
  then show ?thesis by (auto simp: slots_related_def)
next
  case False
  from core_invD(5) [OF inv u(1) y] False have "slots_related R (u, a) y" by auto
  moreover have "(fst y, u) \<notin> R\<^sup>+"
    using core_invD(4) [OF inv] u(2) by (auto dest!: tranclD2 simp: handover_ok_def)
  ultimately consider "ivl_disjoint a (buf_size u) (snd y) (buf_size (fst y))" | "(u, fst y) \<in> R\<^sup>+"
    by (auto simp: slots_related_def)
  then show ?thesis
  proof cases
    case 1
    then show ?thesis using u(3) ivl_disjoint_sub [OF 1, of a "buf_size b"] by (simp add: slots_related_def)
  next
    case 2
    then have "(u, fst y) \<in> (insert (b, u) R)\<^sup>+" by (rule trancl_mono) blast
    then have "(b, fst y) \<in> (insert (b, u) R)\<^sup>+" by (rule trancl_into_trancl2 [rotated]) simp
    then show ?thesis by (simp add: slots_related_def)
  qed
qed

lemma handover_ok_frame:
  assumes "handover_ok P st c p" "addresses st (buf_name b) = None"
    and "addresses st' = (addresses st)(buf_name b := x)" "set (reused_parents st) \<subseteq> set (reused_parents st')"
  shows "handover_ok P st' c p"
proof -
  have "buf_name c \<noteq> buf_name b" "buf_name p \<noteq> buf_name b"
    using assms(1,2) by (auto simp: handover_ok_def)
  then show ?thesis using assms by (auto simp: handover_ok_def)
qed

lemma place_simps [simp]:
  "usage (place b a st) = usage st @ [(b, a)]"
  "addresses (place b a st) = (addresses st)(buf_name b := Some a)"
  "reused_parents (place b a st) = reused_parents st"
  "rejected_paired_buffers (place b a st) = rejected_paired_buffers st"
  by (simp_all add: place_def)

lemma try_allocate_one_inv:
  assumes inv: "core_inv limit al P t st R" and ok: "placeable_ok P" and al: "0 < al"
    and b: "b \<in> P" "addresses st (buf_name b) = None" "t \<le> start_time b"
  shows "\<exists>R'. core_inv limit al P t (try_allocate_one limit al st b) R'"
proof (cases "find_in_place st b (in_place_parents b)")
  case (Some x)
  obtain u a where x: "x = (u, a)" by (cases x)
  let ?st' = "(place b a st)\<lparr>reused_parents := buf_name u # reused_parents st\<rparr>"
  note u = find_in_place_Some [OF Some [unfolded x]]
  have pu: "placed_at P st (u, a)" using core_invD(1) [OF inv u(1)] .
  have bounds: "0 \<le> a" "a + buf_size b \<le> limit" "al dvd a"
    using core_invD(2) [OF inv pu] u(4) by auto
  have ho: "\<forall>(c, p) \<in> insert (b, u) R. handover_ok P ?st' c p"
  proof clarify
    fix c p assume "(c, p) \<in> insert (b, u) R"
    then consider "c = b" "p = u" | "(c, p) \<in> R" by auto
    then show "handover_ok P ?st' c p"
    proof cases
      case 1
      then show ?thesis using pu b u by (auto simp: handover_ok_def placed_at_def)
    next
      case 2
      show ?thesis
        by (rule handover_ok_frame [OF core_invD(4) [OF inv 2] b(2), where x = "Some a"]) auto
    qed
  qed
  have "core_inv limit al P t ?st' (insert (b, u) R)"
    by (rule core_inv_place [OF inv ok b bounds _ ho]) (auto intro: in_place_related [OF inv u(1,3,4)])
  then show ?thesis using Some x by (auto simp: try_allocate_one_def)
next
  case None
  show ?thesis
  proof (cases "find_free_block limit al (usage st) (buf_size b)")
    case (Some a)
    note f = find_free_block_sound [OF Some al core_usage_in_bounds [OF inv ok]]
    have "core_inv limit al P t (place b a st) R"
    proof (rule core_inv_place [OF inv ok b])
      show "\<forall>(c, p) \<in> R. handover_ok P (place b a st) c p"
        using handover_ok_frame [OF core_invD(4) [OF inv] b(2), of _ _ "place b a st" "Some a"] by auto
    qed (use f in \<open>auto simp: slots_related_def\<close>)
    then show ?thesis using None Some by (auto simp: try_allocate_one_def)
  next
    case no: None
    have "st\<lparr>addresses := (addresses st)(buf_name b := None)\<rparr> = st"
      using b(2) by (simp add: fun_upd_idem)
    then show ?thesis using None no inv by (auto simp: try_allocate_one_def)
  qed
qed

lemma try_allocate_one_frame:
  "n \<noteq> buf_name b \<Longrightarrow> addresses (try_allocate_one limit al st b) n = addresses st n"
  "rejected_paired_buffers (try_allocate_one limit al st b) = rejected_paired_buffers st"
  by (auto simp: try_allocate_one_def split: option.splits prod.splits)

text \<open>
  A paired group is placed as a whole or not at all: on a failure the state is the one before
  the group, but for the rejection.
\<close>

lemma allocate_group_inv:
  assumes "core_inv limit al P t st R" "placeable_ok P" "0 < al"
    and "set ms \<subseteq> P" "distinct (map buf_name ms)" "set ms \<subseteq> set grp"
    and "\<forall>m \<in> set ms. addresses st (buf_name m) = None \<and> t \<le> start_time m"
    and "\<forall>m \<in> set grp. addresses st0 (buf_name m) = None"
    and "\<forall>n. n \<notin> buf_name ` set grp \<longrightarrow> addresses st n = addresses st0 n"
    and "rejected_paired_buffers st = rejected_paired_buffers st0"
  shows "(\<exists>R'. core_inv limit al P t (allocate_group limit al st0 grp st ms) R')
         \<and> (\<forall>n. n \<notin> buf_name ` set ms \<longrightarrow> addresses (allocate_group limit al st0 grp st ms) n = addresses st n)
         \<and> (\<forall>m \<in> set ms. addresses (allocate_group limit al st0 grp st ms) (buf_name m) \<noteq> None)
         \<and> rejected_paired_buffers (allocate_group limit al st0 grp st ms) = rejected_paired_buffers st0
       \<or> allocate_group limit al st0 grp st ms
           = st0\<lparr>rejected_paired_buffers := map buf_name grp @ rejected_paired_buffers st0\<rparr>"
  using assms
proof (induction limit al st0 grp st ms arbitrary: R rule: allocate_group.induct)
  case (1 limit al st0 grp st)
  then show ?case by auto
next
  case (2 limit al st0 grp st m ms)
  let ?st' = "try_allocate_one limit al st m"
  note frame = try_allocate_one_frame(1) [of _ m limit al st]
    try_allocate_one_frame(2) [of limit al st m]
  obtain R' where R': "core_inv limit al P t ?st' R'"
    using try_allocate_one_inv [OF "2.prems"(1-3), of m] "2.prems" by auto
  have out: "\<forall>n. n \<notin> buf_name ` set grp \<longrightarrow> addresses ?st' n = addresses st0 n"
    using "2.prems"(6,9) frame(1) by (metis image_eqI insert_subset list.simps(15))
  show ?case
  proof (cases "addresses ?st' (buf_name m) \<noteq> None")
    case True
    let ?r = "allocate_group limit al st0 grp ?st' ms"
    have eq: "allocate_group limit al st0 grp st (m # ms) = ?r" using True by (simp add: Let_def)
    have "\<forall>m' \<in> set ms. addresses ?st' (buf_name m') = None \<and> t \<le> start_time m'"
      using "2.prems"(5,7) frame(1) by (metis image_eqI distinct.simps(2) list.set_intros(2) list.set_map list.simps(9))
    then have ih: "(\<exists>R'. core_inv limit al P t ?r R')
         \<and> (\<forall>n. n \<notin> buf_name ` set ms \<longrightarrow> addresses ?r n = addresses ?st' n)
         \<and> (\<forall>m \<in> set ms. addresses ?r (buf_name m) \<noteq> None)
         \<and> rejected_paired_buffers ?r = rejected_paired_buffers st0
       \<or> ?r = st0\<lparr>rejected_paired_buffers := map buf_name grp @ rejected_paired_buffers st0\<rparr>"
      using "2.prems" frame(2) R' True out by (intro "2.IH" [OF refl True]) auto
    have "buf_name m \<notin> buf_name ` set ms" using "2.prems"(5) by simp
    with ih eq True frame(1) show ?thesis by auto
  next
    case False
    have "(\<lambda>n. if n \<in> set (map buf_name grp) then None else addresses ?st' n) = addresses st0"
      using "2.prems"(8) out by (auto simp: fun_eq_iff)
    then show ?thesis using False frame(2) "2.prems"(10) by (simp add: Let_def)
  qed
qed

section \<open>Ticks\<close>

text \<open>A grouped buffer's request is settled: it is placed or its group is rejected.\<close>

definition settled :: "greedy_state \<Rightarrow> LifetimeBoundBuffer \<Rightarrow> bool" where
  "settled st b \<longleftrightarrow> addresses st (buf_name b) \<noteq> None \<or> buf_name b \<in> set (rejected_paired_buffers st)"

text \<open>What \<open>build_groups\<close> establishes: groups are closed, and placeable unless rejected.\<close>

definition groups_ok ::
  "LifetimeBoundBuffer set \<Rightarrow> (string \<Rightarrow> LifetimeBoundBuffer list option) \<Rightarrow> string list \<Rightarrow> bool" where
  "groups_ok P groups rejected \<longleftrightarrow>
     (\<forall>b \<in> P. \<forall>G. groups (buf_name b) = Some G \<longrightarrow>
        b \<in> set G \<and> distinct (map buf_name G) \<and> (\<forall>m \<in> set G. groups (buf_name m) = Some G) \<and>
        (set G \<subseteq> P \<or> buf_name b \<in> set rejected))"

text \<open>A group that is not rejected is placed as a whole or not at all.\<close>

definition groups_atomic ::
  "LifetimeBoundBuffer set \<Rightarrow> (string \<Rightarrow> LifetimeBoundBuffer list option) \<Rightarrow> greedy_state \<Rightarrow> bool" where
  "groups_atomic P groups st \<longleftrightarrow>
     (\<forall>b \<in> P. \<forall>G. groups (buf_name b) = Some G \<longrightarrow> buf_name b \<notin> set (rejected_paired_buffers st) \<longrightarrow>
        (\<forall>m \<in> set G. buf_name m \<notin> set (rejected_paired_buffers st) \<and>
           (addresses st (buf_name m) = None \<longleftrightarrow> addresses st (buf_name b) = None))) \<and>
     (\<forall>b \<in> P. groups (buf_name b) \<noteq> None \<longrightarrow> buf_name b \<in> set (rejected_paired_buffers st) \<longrightarrow>
        addresses st (buf_name b) = None)"

definition tick_inv :: "int \<Rightarrow> int \<Rightarrow> LifetimeBoundBuffer set \<Rightarrow> (string \<Rightarrow> LifetimeBoundBuffer list option) \<Rightarrow>
   string list \<Rightarrow> int \<Rightarrow> greedy_state \<Rightarrow> bool" where
  "tick_inv limit al P groups rejected0 t st \<longleftrightarrow>
     (\<exists>R. core_inv limit al P t st R) \<and>
     set rejected0 \<subseteq> set (rejected_paired_buffers st) \<and>
     (\<forall>b \<in> P. groups (buf_name b) \<noteq> None \<longrightarrow> start_time b < t \<longrightarrow> settled st b) \<and>
     groups_atomic P groups st"

lemma groups_okD:
  assumes "groups_ok P groups rej" "b \<in> P" "groups (buf_name b) = Some G"
  shows "b \<in> set G" "distinct (map buf_name G)" "m \<in> set G \<Longrightarrow> groups (buf_name m) = Some G"
    and "buf_name b \<notin> set rej \<Longrightarrow> set G \<subseteq> P"
  using assms unfolding groups_ok_def by blast+

text \<open>A step that leaves every group but \<open>G\<close> alone and settles \<open>G\<close> keeps atomicity.\<close>

lemma groups_atomic_step:
  assumes "groups_atomic P groups st" "groups_ok P groups rej"
    and same: "\<And>n. groups n \<noteq> None \<Longrightarrow> n \<notin> S \<Longrightarrow> addresses st' n = addresses st n
                 \<and> (n \<in> set (rejected_paired_buffers st') \<longleftrightarrow> n \<in> set (rejected_paired_buffers st))"
    and S: "\<And>n. n \<in> S \<Longrightarrow> groups n = Some G" "\<And>m. m \<in> set G \<Longrightarrow> buf_name m \<in> S"
    and G: "(\<forall>n \<in> S. addresses st' n \<noteq> None \<and> n \<notin> set (rejected_paired_buffers st'))
            \<or> (\<forall>n \<in> S. n \<in> set (rejected_paired_buffers st') \<and> addresses st' n = None)"
  shows "groups_atomic P groups st'"
  unfolding groups_atomic_def
proof (intro conjI ballI allI impI)
  fix b assume "b \<in> P" "groups (buf_name b) \<noteq> None" "buf_name b \<in> set (rejected_paired_buffers st')"
  then show "addresses st' (buf_name b) = None"
    using G same [of "buf_name b"] assms(1) unfolding groups_atomic_def by (metis (full_types))
next
  fix b G' m assume b: "b \<in> P" "groups (buf_name b) = Some G'"
    "buf_name b \<notin> set (rejected_paired_buffers st')" and m: "m \<in> set G'"
  have gm: "groups (buf_name m) = Some G'" using groups_okD(3) [OF assms(2) b(1,2) m] .
  have "buf_name m \<notin> set (rejected_paired_buffers st') \<and>
      (addresses st' (buf_name m) = None \<longleftrightarrow> addresses st' (buf_name b) = None)"
  proof (cases "buf_name b \<in> S")
    case True
    then have "G' = G" using S(1) b(2) by force
    then have "buf_name m \<in> S" using S(2) m by blast
    then show ?thesis using G True b(3) by auto
  next
    case False
    have "buf_name m \<notin> S"
    proof
      assume "buf_name m \<in> S"
      then have "G' = G" using S(1) gm by force
      then show False using False S(2) groups_okD(1) [OF assms(2) b(1,2)] by blast
    qed
    then show ?thesis
      using same [of "buf_name b"] same [of "buf_name m"] False b gm m assms(1)
      unfolding groups_atomic_def by (metis option.distinct(1))
  qed
  then show "buf_name m \<notin> set (rejected_paired_buffers st')"
    and "(addresses st' (buf_name m) = None) = (addresses st' (buf_name b) = None)" by blast+
qed

lemma try_allocate_ungrouped:
  assumes inv: "tick_inv limit al P groups rej t st" and ok: "placeable_ok P" and al: "0 < al"
    and gs: "groups_ok P groups rej" and b: "b \<in> P" "start_time b = t"
    and un: "addresses st (buf_name b) = None" and g: "groups (buf_name b) = None"
  shows "tick_inv limit al P groups rej t (try_allocate_one limit al st b)
    \<and> (\<forall>c \<in> P. groups (buf_name c) \<noteq> None \<longrightarrow> settled st c \<longrightarrow> settled (try_allocate_one limit al st b) c)"
proof -
  let ?st' = "try_allocate_one limit al st b"
  obtain R where R: "core_inv limit al P t st R" using inv by (auto simp: tick_inv_def)
  have fr: "addresses ?st' n = addresses st n" if "groups n \<noteq> None" for n
    using that g by (intro try_allocate_one_frame) auto
  have set: "settled ?st' c = settled st c" if "groups (buf_name c) \<noteq> None" for c
    using fr that by (simp add: settled_def try_allocate_one_frame(2))
  have "groups_atomic P groups ?st'"
    by (rule groups_atomic_step [where S = "{}" and G = "[]" and st = st, OF _ gs])
      (use inv fr in \<open>auto simp: tick_inv_def try_allocate_one_frame(2)\<close>)
  moreover have "\<exists>R'. core_inv limit al P t ?st' R'"
    using try_allocate_one_inv [OF R ok al b(1) un] b(2) by simp
  ultimately show ?thesis
    using inv set by (auto simp: tick_inv_def try_allocate_one_frame(2))
qed

lemma try_allocate_grouped:
  assumes inv: "tick_inv limit al P groups rej t st" and ok: "placeable_ok P" and al: "0 < al"
    and gs: "groups_ok P groups rej" and b: "b \<in> P" "start_time b = t"
    and un: "addresses st (buf_name b) = None" "buf_name b \<notin> set (rejected_paired_buffers st)"
    and g: "groups (buf_name b) = Some G"
  shows "tick_inv limit al P groups rej t (allocate_group limit al st G st G)
    \<and> (\<forall>c \<in> P. groups (buf_name c) \<noteq> None \<longrightarrow> settled st c \<longrightarrow> settled (allocate_group limit al st G st G) c)
    \<and> settled (allocate_group limit al st G st G) b"
proof -
  let ?st' = "allocate_group limit al st G st G"
  let ?N = "buf_name ` set G"
  obtain R where R: "core_inv limit al P t st R" using inv by (auto simp: tick_inv_def)
  have rej: "buf_name b \<notin> set rej" using inv un(2) by (auto simp: tick_inv_def)
  note G = groups_okD [OF gs b(1) g]
  have mem: "\<forall>m \<in> set G. addresses st (buf_name m) = None \<and> t \<le> start_time m"
  proof
    fix m assume m: "m \<in> set G"
    have m1: "addresses st (buf_name m) = None" "buf_name m \<notin> set (rejected_paired_buffers st)"
      using inv b(1) g un m unfolding tick_inv_def groups_atomic_def by blast+
    moreover have "\<not> start_time m < t"
    proof
      assume "start_time m < t"
      moreover have "m \<in> P" "groups (buf_name m) \<noteq> None" using m G(3) G(4) [OF rej] by auto
      ultimately have "settled st m" using inv by (simp add: tick_inv_def)
      then show False using m1 by (simp add: settled_def)
    qed
    ultimately show "addresses st (buf_name m) = None \<and> t \<le> start_time m" by simp
  qed
  have memN: "\<forall>m \<in> set G. buf_name m \<notin> set (rejected_paired_buffers st)"
    using inv b(1) g un(2) unfolding tick_inv_def groups_atomic_def by blast
  have dj: "\<And>n. n \<in> ?N \<Longrightarrow> groups n = Some G" using G(3) by auto
  consider "\<exists>R'. core_inv limit al P t ?st' R'" "\<forall>n. n \<notin> ?N \<longrightarrow> addresses ?st' n = addresses st n"
      "\<forall>m \<in> set G. addresses ?st' (buf_name m) \<noteq> None"
      "rejected_paired_buffers ?st' = rejected_paired_buffers st"
    | "?st' = st\<lparr>rejected_paired_buffers := map buf_name G @ rejected_paired_buffers st\<rparr>"
    using allocate_group_inv [OF R ok al G(4) [OF rej] G(2) order_refl mem, of st] mem by blast
  then show ?thesis
  proof cases
    case 1
    have "groups_atomic P groups ?st'"
      by (rule groups_atomic_step [where S = ?N and G = G and st = st, OF _ gs _ dj])
        (use inv 1 memN in \<open>auto simp: tick_inv_def\<close>)
    moreover have "settled ?st' c" if "settled st c" for c
      using that 1 unfolding settled_def by (metis imageE)
    ultimately show ?thesis using inv 1 G(1) by (auto simp: tick_inv_def settled_def)
  next
    case 2
    have "groups_atomic P groups ?st'"
      by (rule groups_atomic_step [where S = ?N and G = G and st = st, OF _ gs _ dj])
        (use inv 2 mem in \<open>auto simp: tick_inv_def\<close>)
    moreover have "core_inv limit al P t ?st' R"
      using R by (simp add: 2 core_inv_def placed_at_def handover_ok_def)
    ultimately show ?thesis using inv 2 G(1) by (auto simp: tick_inv_def settled_def)
  qed
qed

lemma try_allocate_inv:
  assumes inv: "tick_inv limit al P groups rej t st" and ok: "placeable_ok P" and al: "0 < al"
    and gs: "groups_ok P groups rej" and b: "b \<in> P" "start_time b = t"
  shows "tick_inv limit al P groups rej t (try_allocate limit al groups st b)"
    and "c \<in> P \<Longrightarrow> groups (buf_name c) \<noteq> None \<Longrightarrow> settled st c \<Longrightarrow> settled (try_allocate limit al groups st b) c"
    and "groups (buf_name b) \<noteq> None \<Longrightarrow> settled (try_allocate limit al groups st b) b"
proof -
  have "tick_inv limit al P groups rej t (try_allocate limit al groups st b)
    \<and> (\<forall>c \<in> P. groups (buf_name c) \<noteq> None \<longrightarrow> settled st c \<longrightarrow> settled (try_allocate limit al groups st b) c)
    \<and> (groups (buf_name b) \<noteq> None \<longrightarrow> settled (try_allocate limit al groups st b) b)"
  proof (cases "settled st b")
    case True
    then have "try_allocate limit al groups st b = st" by (auto simp: try_allocate_def settled_def)
    then show ?thesis using inv True by simp
  next
    case False
    then have un: "addresses st (buf_name b) = None" "buf_name b \<notin> set (rejected_paired_buffers st)"
      by (auto simp: settled_def)
    then show ?thesis
      using try_allocate_ungrouped [OF assms un(1)] try_allocate_grouped [OF assms un]
      by (cases "groups (buf_name b)") (auto simp: try_allocate_def)
  qed
  then show "tick_inv limit al P groups rej t (try_allocate limit al groups st b)"
    and "c \<in> P \<Longrightarrow> groups (buf_name c) \<noteq> None \<Longrightarrow> settled st c \<Longrightarrow> settled (try_allocate limit al groups st b) c"
    and "groups (buf_name b) \<noteq> None \<Longrightarrow> settled (try_allocate limit al groups st b) b"
    by blast+
qed

lemma allocate_fold_inv:
  assumes "tick_inv limit al P groups rej t st" "placeable_ok P" "0 < al" "groups_ok P groups rej"
    and "\<forall>b \<in> set bs. b \<in> P \<and> start_time b = t"
  shows "tick_inv limit al P groups rej t (foldl (try_allocate limit al groups) st bs)
    \<and> (\<forall>c \<in> P. groups (buf_name c) \<noteq> None \<longrightarrow> settled st c \<or> c \<in> set bs \<longrightarrow>
         settled (foldl (try_allocate limit al groups) st bs) c)"
  using assms
proof (induction bs arbitrary: st)
  case (Cons b bs)
  note step = try_allocate_inv [OF Cons.prems(1-4), of b]
  have ih: "tick_inv limit al P groups rej t (foldl (try_allocate limit al groups) (try_allocate limit al groups st b) bs)
    \<and> (\<forall>c \<in> P. groups (buf_name c) \<noteq> None \<longrightarrow> settled (try_allocate limit al groups st b) c \<or> c \<in> set bs \<longrightarrow>
         settled (foldl (try_allocate limit al groups) (try_allocate limit al groups st b) bs) c)"
    using Cons.prems step(1) by (intro Cons.IH) auto
  then show ?case using step Cons.prems(5) by auto
qed simp

lemma deallocate_fold:
  "foldl try_deallocate st bs = st\<lparr>usage := filter (\<lambda>(u, a). buf_name u \<notin> buf_name ` set bs) (usage st)\<rparr>"
proof (induction bs arbitrary: st)
  case (Cons b bs)
  then show ?case
    by (auto simp: try_deallocate_def case_prod_beta' intro!: arg_cong [where f = "\<lambda>us. st\<lparr>usage := us\<rparr>"] filter_cong)
qed simp

text \<open>Dropping the placements that end at \<open>t\<close> moves the clock to \<open>t\<close>.\<close>

lemma deallocate_core_inv:
  assumes inv: "core_inv limit al P t' st R" and ok: "placeable_ok P" and "t' \<le> t"
    and bs: "\<forall>b \<in> set bs. b \<in> P \<and> end_time b = t"
  shows "core_inv limit al P t (foldl try_deallocate st bs) R"
proof -
  let ?st = "foldl try_deallocate st bs"
  have sub: "set (usage ?st) \<subseteq> set (usage st)" by (auto simp: deallocate_fold)
  have pl: "placed_at P ?st x = placed_at P st x" for x by (simp add: placed_at_def deallocate_fold)
  have ho: "handover_ok P ?st c p = handover_ok P st c p" for c p
    by (simp add: handover_ok_def deallocate_fold)
  have live: "x \<in> set (usage ?st) \<or> end_time (fst x) \<le> t" if x: "placed_at P st x" for x
  proof (cases "buf_name (fst x) \<in> buf_name ` set bs")
    case True
    then obtain b where "b \<in> set bs" "buf_name b = buf_name (fst x)" by auto
    then have "fst x = b" using bs ok x by (auto simp: placed_at_def placeable_ok_def inj_on_def)
    then show ?thesis using bs \<open>b \<in> set bs\<close> by auto
  next
    case False
    then show ?thesis using core_invD(3) [OF inv x] assms(3) by (auto simp: deallocate_fold)
  qed
  show ?thesis
    unfolding core_inv_def pl ho
  proof (intro conjI allI impI ballI)
    fix x assume "x \<in> set (usage ?st)"
    then show "placed_at P st x" using sub core_invD(1) [OF inv] by blast
  next
    fix x assume "placed_at P st x"
    then show "0 \<le> snd x" "snd x + buf_size (fst x) \<le> limit" "al dvd snd x"
      using core_invD(2) [OF inv] by blast+
  next
    fix x assume "placed_at P st x"
    then show "x \<in> set (usage ?st) \<or> end_time (fst x) \<le> t" by (rule live)
  next
    show "case x of (c, p) \<Rightarrow> handover_ok P st c p" if "x \<in> R" for x
      using core_invD(4) [OF inv] that by (cases x) blast
  next
    fix x y assume "x \<in> set (usage ?st)" "y \<in> set (usage ?st)" "fst x \<noteq> fst y"
    then show "slots_related R x y" using sub by (intro core_invD(5) [OF inv]) blast+
  next
    fix x y assume "placed_at P st x" "placed_at P st y" "fst x \<noteq> fst y"
      "overlaps_in_time (fst x) (fst y)"
    then show "slots_related R x y" by (rule core_invD(6) [OF inv])
  next
    show "n \<in> buf_name ` P" if "addresses ?st n \<noteq> None" for n
      using that core_invD(7) [OF inv] by (simp add: deallocate_fold)
  qed
qed

definition walk_inv :: "int \<Rightarrow> int \<Rightarrow> LifetimeBoundBuffer set \<Rightarrow> (string \<Rightarrow> LifetimeBoundBuffer list option) \<Rightarrow>
   string list \<Rightarrow> int list \<Rightarrow> greedy_state \<Rightarrow> bool" where
  "walk_inv limit al P groups rej ts st \<longleftrightarrow>
     (\<exists>t R. core_inv limit al P t st R \<and> (\<forall>x \<in> set ts. t \<le> x)) \<and>
     set rej \<subseteq> set (rejected_paired_buffers st) \<and> groups_atomic P groups st \<and>
     (\<forall>b \<in> P. groups (buf_name b) \<noteq> None \<longrightarrow> start_time b \<in> set ts \<or> settled st b)"

lemma greedy_tick_inv:
  assumes inv: "walk_inv limit al P groups rej (t # ts) st" and srt: "sorted_wrt (<) (t # ts)"
    and ok: "placeable_ok P" and al: "0 < al" and gs: "groups_ok P groups rej"
    and P: "P = set placeable"
  shows "walk_inv limit al P groups rej ts (greedy_tick limit al groups placeable st t)"
proof -
  let ?st1 = "foldl try_deallocate st (filter (\<lambda>b. end_time b = t) placeable)"
  let ?bs = "filter (\<lambda>b. start_time b = t) placeable"
  let ?st2 = "foldl (try_allocate limit al groups) ?st1 ?bs"
  obtain t' R where R: "core_inv limit al P t' st R" "t' \<le> t" using inv by (auto simp: walk_inv_def)
  have core: "core_inv limit al P t ?st1 R"
    by (rule deallocate_core_inv [OF R(1) ok R(2)]) (auto simp: P)
  have frame: "addresses ?st1 = addresses st" "rejected_paired_buffers ?st1 = rejected_paired_buffers st"
    by (simp_all add: deallocate_fold)
  have set1: "settled ?st1 b = settled st b" for b by (simp add: settled_def frame)
  have early: "settled ?st1 b" if "b \<in> P" "groups (buf_name b) \<noteq> None" "start_time b < t" for b
  proof -
    have "start_time b \<notin> set (t # ts)" using srt that(3) by auto
    then show ?thesis using inv that unfolding walk_inv_def set1 by blast
  qed
  have "groups_atomic P groups ?st1"
    using inv unfolding walk_inv_def groups_atomic_def frame by blast
  moreover have "set rej \<subseteq> set (rejected_paired_buffers ?st1)"
    using inv unfolding walk_inv_def frame by blast
  ultimately have tick: "tick_inv limit al P groups rej t ?st1"
    unfolding tick_inv_def using core early by blast
  have fold: "tick_inv limit al P groups rej t ?st2
    \<and> (\<forall>c \<in> P. groups (buf_name c) \<noteq> None \<longrightarrow> settled ?st1 c \<or> c \<in> set ?bs \<longrightarrow> settled ?st2 c)"
    by (rule allocate_fold_inv [OF tick ok al gs]) (auto simp: P)
  have "start_time b \<in> set ts \<or> settled ?st2 b" if "b \<in> P" "groups (buf_name b) \<noteq> None" for b
    using inv fold that by (auto simp: walk_inv_def set1 P)
  moreover have "\<exists>R. core_inv limit al P t ?st2 R" "set rej \<subseteq> set (rejected_paired_buffers ?st2)"
    "groups_atomic P groups ?st2"
    using fold unfolding tick_inv_def by blast+
  moreover have "\<forall>x \<in> set ts. t \<le> x" using srt by auto
  ultimately show ?thesis unfolding greedy_tick_def Let_def walk_inv_def by blast
qed

lemma greedy_walk_inv:
  assumes "walk_inv limit al P groups rej ts st" "sorted_wrt (<) ts"
    and "placeable_ok P" "0 < al" "groups_ok P groups rej" "P = set placeable"
  shows "walk_inv limit al P groups rej [] (foldl (greedy_tick limit al groups placeable) st ts)"
  using assms
proof (induction ts arbitrary: st)
  case (Cons t ts)
  have "walk_inv limit al P groups rej ts (greedy_tick limit al groups placeable st t)"
    using Cons.prems by (intro greedy_tick_inv) auto
  then show ?case using Cons by simp
qed simp


section \<open>From the walk to the layout\<close>

text \<open>A slot handed on twice is free of its first owner before the last one starts.\<close>

lemma handover_chain:
  assumes "(c, p) \<in> R\<^sup>+" "\<forall>(c, p) \<in> R. handover_ok P st c p" "placeable_ok P"
  shows "(c, p) \<in> R \<or> end_time p \<le> start_time c"
  using assms(1)
proof (induction rule: trancl_induct)
  case (step q p)
  have qp: "handover_ok P st q p" using assms(2) step(2) by blast
  then have q: "end_time p = start_time q + 1" "start_time q < end_time q" "in_place_parents q \<noteq> []"
    using assms(3) by (auto simp: handover_ok_def placeable_ok_def)
  show ?case
  proof (cases "(c, q) \<in> R")
    case True
    then have "handover_ok P st c q" using assms(2) by blast
    then have "end_time q = start_time c + 1" "start_time q + 1 < end_time q"
      using q(3) assms(3) by (auto simp: handover_ok_def placeable_ok_def)
    then show ?thesis using q by simp
  next
    case False
    then show ?thesis using step(3) q by simp
  qed
qed blast

text \<open>What the walk's final state says about two placed buffers.\<close>

lemma walk_result:
  assumes "walk_inv limit al P groups rej [] st" "placeable_ok P"
  shows "addresses st n \<noteq> None \<Longrightarrow> n \<in> buf_name ` P"
    and "b \<in> P \<Longrightarrow> addresses st (buf_name b) = Some a \<Longrightarrow> 0 \<le> a \<and> a + buf_size b \<le> limit \<and> al dvd a"
    and "b \<in> P \<Longrightarrow> c \<in> P \<Longrightarrow> b \<noteq> c \<Longrightarrow> overlaps_in_time b c \<Longrightarrow>
         addresses st (buf_name b) = Some a \<Longrightarrow> addresses st (buf_name c) = Some a' \<Longrightarrow>
         ivl_disjoint a (buf_size b) a' (buf_size c) \<or> handover_ok P st b c \<or> handover_ok P st c b"
proof -
  obtain t R where R: "core_inv limit al P t st R" using assms(1) by (auto simp: walk_inv_def)
  then show "addresses st n \<noteq> None \<Longrightarrow> n \<in> buf_name ` P" by (rule core_invD(7))
  show "0 \<le> a \<and> a + buf_size b \<le> limit \<and> al dvd a" if "b \<in> P" "addresses st (buf_name b) = Some a"
    using core_invD(2) [OF R, of "(b, a)"] that by (simp add: placed_at_def)
  have ho: "\<forall>(c, p) \<in> R. handover_ok P st c p" using core_invD(4) [OF R] by blast
  have direct: "handover_ok P st c p" if "(c, p) \<in> R\<^sup>+" "overlaps_in_time c p" for c p
    using handover_chain [OF that(1) ho assms(2)] ho that(2) by (auto simp: overlaps_in_time_def)
  show "ivl_disjoint a (buf_size b) a' (buf_size c) \<or> handover_ok P st b c \<or> handover_ok P st c b"
    if "b \<in> P" "c \<in> P" "b \<noteq> c" and ov: "overlaps_in_time b c"
      and "addresses st (buf_name b) = Some a" "addresses st (buf_name c) = Some a'"
  proof -
    have "slots_related R (b, a) (c, a')"
      using that by (intro core_invD(6) [OF R]) (auto simp: placed_at_def)
    then show ?thesis
      using direct [of b c] direct [of c b] ov overlaps_in_time_sym [of b c]
      by (auto simp: slots_related_def)
  qed
qed

lemma add_members_Inr:
  "add_members bufs grp ms groups = Inr groups' \<Longrightarrow>
     groups' = (\<lambda>n. if n \<in> set ms then Some grp else groups n) \<and>
     (\<forall>m \<in> set ms. groups m = None \<and> buf_by_name bufs m \<noteq> None)"
proof (induction bufs grp ms groups rule: add_members.induct)
  case (2 bufs grp m ms groups)
  have c: "buf_by_name bufs m \<noteq> None" "groups m = None"
    "add_members bufs grp ms (groups(m := Some grp)) = Inr groups'"
    using "2.prems" by (auto split: if_splits)
  show ?case using "2.IH" [OF _ _ c(3)] c by (auto simp: fun_eq_iff split: if_splits)
qed simp

lemma map_filter_buf_names:
  assumes "\<forall>m \<in> set ms. buf_by_name bufs m \<noteq> None"
  shows "map buf_name (List.map_filter (buf_by_name bufs) ms) = ms"
    and "set (List.map_filter (buf_by_name bufs) ms) \<subseteq> set bufs"
  using assms by (induction ms) (auto simp: List.map_filter_def dest: buf_by_name_SomeD)

definition groups_closed ::
  "LifetimeBoundBuffer list \<Rightarrow> string list \<Rightarrow> (string \<Rightarrow> LifetimeBoundBuffer list option) \<Rightarrow> string list \<Rightarrow> bool" where
  "groups_closed bufs names groups rejected \<longleftrightarrow>
     (\<forall>n G. groups n = Some G \<longrightarrow>
        n \<in> set (map buf_name G) \<and> distinct (map buf_name G) \<and> set G \<subseteq> set bufs \<and>
        (\<forall>m \<in> set (map buf_name G). groups m = Some G) \<and>
        (set (map buf_name G) \<subseteq> set names \<or> set (map buf_name G) \<subseteq> set rejected)) \<and>
     (\<forall>n \<in> set rejected. \<exists>G. groups n = Some G \<and> set (map buf_name G) \<subseteq> set rejected)"

lemma build_groups_closed:
  "build_groups bufs names roots groups rejected = Inr (groups', rejected') \<Longrightarrow>
   groups_closed bufs names groups rejected \<Longrightarrow> groups_closed bufs names groups' rejected'"
proof (induction bufs names roots groups rejected rule: build_groups.induct)
  case (2 bufs names rt roots groups rejected)
  show ?case
  proof (cases "paired_with rt = []")
    case True
    then show ?thesis using 2 by simp
  next
    case False
    let ?ms = "buf_name rt # paired_with rt"
    let ?grp = "List.map_filter (buf_by_name bufs) ?ms"
    let ?rej = "if list_ex (\<lambda>m. m \<notin> set names) ?ms then ?ms @ rejected else rejected"
    have dst: "distinct ?ms" using "2.prems"(1) False by (auto simp: Let_def split: if_splits)
    obtain g1 where g1: "add_members bufs ?grp ?ms groups = Inr g1"
      and rec: "build_groups bufs names roots g1 ?rej = Inr (groups', rejected')"
    proof (cases "add_members bufs ?grp ?ms groups")
      case (Inl e)
      then show ?thesis using "2.prems"(1) False dst unfolding build_groups.simps Let_def by simp
    next
      case (Inr g1)
      then show ?thesis using "2.prems"(1) False dst that unfolding build_groups.simps Let_def by simp
    qed
    note am = add_members_Inr [OF g1]
    have nm: "map buf_name ?grp = ?ms" "set ?grp \<subseteq> set bufs"
      using am by (intro map_filter_buf_names; blast)+
    have fresh: "groups n = Some G \<Longrightarrow> set (map buf_name G) \<inter> set ?ms = {}" for n G
      using am "2.prems"(2) unfolding groups_closed_def by (metis disjoint_iff option.distinct(1))
    have "groups_closed bufs names g1 ?rej"
      unfolding groups_closed_def
    proof (intro conjI allI impI)
      fix n G assume G: "g1 n = Some G"
      have "n \<in> set (map buf_name G) \<and> distinct (map buf_name G) \<and> set G \<subseteq> set bufs \<and>
          (\<forall>m \<in> set (map buf_name G). g1 m = Some G) \<and>
          (set (map buf_name G) \<subseteq> set names \<or> set (map buf_name G) \<subseteq> set ?rej)"
      proof (cases "n \<in> set ?ms")
        case True
        then have "G = ?grp" using G am by simp
        then show ?thesis using True nm dst am by (auto simp: list_ex_iff simp del: set_map)
      next
        case False
        then have "groups n = Some G" using G am by simp
        from "2.prems"(2) [unfolded groups_closed_def, THEN conjunct1, rule_format, OF this]
        have old: "n \<in> set (map buf_name G)" "distinct (map buf_name G)" "set G \<subseteq> set bufs"
          "\<forall>m \<in> set (map buf_name G). groups m = Some G"
          "set (map buf_name G) \<subseteq> set names \<or> set (map buf_name G) \<subseteq> set rejected"
          by blast+
        have "g1 m = Some G" if "m \<in> set (map buf_name G)" for m
          using am old(4) that fresh [OF \<open>groups n = Some G\<close>] by auto
        moreover have "set rejected \<subseteq> set ?rej" by auto
        ultimately show ?thesis using old by blast
      qed
      then show "n \<in> set (map buf_name G)" "distinct (map buf_name G)" "set G \<subseteq> set bufs"
        "\<forall>m \<in> set (map buf_name G). g1 m = Some G"
        "set (map buf_name G) \<subseteq> set names \<or> set (map buf_name G) \<subseteq> set ?rej" by blast+
    next
      show "\<forall>n \<in> set ?rej. \<exists>G. g1 n = Some G \<and> set (map buf_name G) \<subseteq> set ?rej"
      proof
        fix n assume n: "n \<in> set ?rej"
        show "\<exists>G. g1 n = Some G \<and> set (map buf_name G) \<subseteq> set ?rej"
        proof (cases "n \<in> set rejected")
          case True
          then obtain G where G: "groups n = Some G" "set (map buf_name G) \<subseteq> set rejected"
            using "2.prems"(2) unfolding groups_closed_def by blast
          then have "n \<notin> set ?ms" using am by auto
          moreover have "set rejected \<subseteq> set ?rej" by auto
          ultimately show ?thesis using G am by auto
        next
          case False
          then have "n \<in> set ?ms" "set ?ms \<subseteq> set ?rej" using n by (auto split: if_splits)
          then show ?thesis using am nm(1) by (metis (no_types, lifting))
        qed
      qed
    qed
    then show ?thesis by (rule "2.IH"(2) [OF False refl refl _ g1 rec, rotated]) (use dst in simp)
  qed
qed simp


lemma transition_times_facts:
  "sorted_wrt (<) (transition_times bs)"
  "b \<in> set bs \<Longrightarrow> start_time b \<in> set (transition_times bs)"
  by (auto simp: transition_times_def strict_sorted_iff)

lemma closed_groups_ok:
  assumes "groups_closed bufs (map buf_name P) groups rej" "distinct (map buf_name bufs)" "set P \<subseteq> set bufs"
  shows "groups_ok (set P) groups rej"
  unfolding groups_ok_def
proof (intro ballI allI impI)
  fix b G assume b: "b \<in> set P" "groups (buf_name b) = Some G"
  have same: "x = y" if "x \<in> set bufs" "y \<in> set bufs" "buf_name x = buf_name y" for x y
    using assms(2) that by (auto simp: distinct_map inj_on_def)
  from assms(1) [unfolded groups_closed_def, THEN conjunct1, rule_format, OF b(2)]
  have G: "buf_name b \<in> buf_name ` set G" "distinct (map buf_name G)" "set G \<subseteq> set bufs"
    "\<forall>m \<in> set G. groups (buf_name m) = Some G"
    "buf_name ` set G \<subseteq> buf_name ` set P \<or> buf_name ` set G \<subseteq> set rej"
    unfolding set_map by blast+
  have "set G \<subseteq> set P" if sub: "buf_name ` set G \<subseteq> buf_name ` set P"
  proof
    fix m assume m: "m \<in> set G"
    then have "buf_name m \<in> buf_name ` set P" using sub by blast
    then obtain m' where "m' \<in> set P" "buf_name m' = buf_name m" by (metis imageE)
    then show "m \<in> set P" using same [of m' m] m G(3) assms(3) by blast
  qed
  moreover have "b \<in> set G"
  proof -
    obtain m where "m \<in> set G" "buf_name b = buf_name m" using G(1) by blast
    then show ?thesis using same [of b m] G(3) b(1) assms(3) by blast
  qed
  ultimately show "b \<in> set G \<and> distinct (map buf_name G) \<and> (\<forall>m \<in> set G. groups (buf_name m) = Some G) \<and>
      (set G \<subseteq> set P \<or> buf_name b \<in> set rej)"
    using G by blast
qed

text \<open>What a successful run does, as one elimination rule.\<close>

definition exclusion_pass :: "int \<Rightarrow> LifetimeBoundBuffer list \<Rightarrow> LifetimeBoundBuffer list" where
  "exclusion_pass limit bufs = map (\<lambda>b. b\<lparr>spill_reason := excluded greedy_caps limit b\<rparr>) bufs"

lemma greedy_cases:
  assumes "greedy_plan_layout limit al bufs = Inr out"
  obtains (untouched) "out = exclusion_pass limit bufs" "\<forall>b \<in> set out. buf_address b = None"
  | (walked) groups rej placeable st where
      "placeable = fst (partition_buffers greedy_caps limit bufs)"
      "build_groups (exclusion_pass limit bufs) (map buf_name placeable) (exclusion_pass limit bufs)
         (\<lambda>_. None) [] = Inr (groups, rej)"
      "st = foldl (greedy_tick limit al groups placeable) (greedy_init\<lparr>rejected_paired_buffers := rej\<rparr>)
         (transition_times placeable)"
      "out = map (\<lambda>b. b\<lparr>buf_address := addresses st (buf_name b)\<rparr>) (exclusion_pass limit bufs)"
      "check_in_place_relationships bufs = Inr ()"
proof -
  let ?P = "fst (partition_buffers greedy_caps limit bufs)"
  have ex: "fst (record_exclusions greedy_caps limit bufs) = exclusion_pass limit bufs"
    by (simp add: record_exclusions_def exclusion_pass_def)
  note def = assms [unfolded greedy_plan_layout_def Let_def ex]
  show thesis
  proof (cases "bufs = []")
    case True
    then show ?thesis using def untouched by (simp add: exclusion_pass_def)
  next
    case False
    then have none: "\<forall>b \<in> set bufs. buf_address b = None"
      and chk: "check_in_place_relationships bufs = Inr ()"
      using def by (auto simp: list_ex_iff split: if_splits sum.splits)
    show ?thesis
    proof (cases "?P = []")
      case True
      then show ?thesis using def False chk none untouched
        by (auto simp: exclusion_pass_def list_ex_iff split: if_splits)
    next
      case P: False
      obtain g r where bg: "build_groups (exclusion_pass limit bufs) (map buf_name ?P)
          (exclusion_pass limit bufs) (\<lambda>_. None) [] = Inr (g, r)"
        using def False chk P by (auto split: if_splits sum.splits)
      then show ?thesis using def False chk P walked [OF refl bg refl]
        by (auto split: if_splits)
    qed
  qed
qed


lemma walk_inv_init:
  assumes "groups_closed bufs (map buf_name P) groups rej" "distinct (map buf_name bufs)" "set P \<subseteq> set bufs"
  shows "walk_inv limit al (set P) groups rej (transition_times P)
           (greedy_init\<lparr>rejected_paired_buffers := rej\<rparr>)"
proof -
  let ?st = "greedy_init\<lparr>rejected_paired_buffers := rej\<rparr>"
  let ?ts = "transition_times P"
  have "core_inv limit al (set P) t ?st {}" for t
    by (simp add: core_inv_def placed_at_def greedy_init_def)
  moreover have "\<forall>x \<in> set ?ts. hd ?ts \<le> x"
    using transition_times_facts(1) [of P] by (cases ?ts) auto
  moreover have "groups_atomic (set P) groups ?st"
    unfolding groups_atomic_def
  proof (intro conjI ballI allI impI)
    fix b G m assume b: "groups (buf_name b) = Some G"
      "buf_name b \<notin> set (rejected_paired_buffers ?st)" and m: "m \<in> set G"
    from assms(1) [unfolded groups_closed_def, THEN conjunct1, rule_format, OF b(1)] m
    have g: "groups (buf_name m) = Some G" "buf_name b \<in> set (map buf_name G)" by auto
    have "buf_name m \<notin> set rej"
    proof
      assume "buf_name m \<in> set rej"
      then have "set (map buf_name G) \<subseteq> set rej"
        using assms(1) g(1) unfolding groups_closed_def by fastforce
      then show False using b(2) g(2) by auto
    qed
    then show "buf_name m \<notin> set (rejected_paired_buffers ?st)" by simp
  qed (simp_all add: greedy_init_def)
  ultimately show ?thesis
    unfolding walk_inv_def using transition_times_facts(2) [of _ P] by auto
qed

lemma exclusion_pass_facts:
  "map buf_name (exclusion_pass limit bufs) = map buf_name bufs"
  "map erase_plan (exclusion_pass limit bufs) = map erase_plan bufs"
  by (simp_all add: exclusion_pass_def erase_plan_def comp_def)

lemma placeable_subset:
  "set (fst (partition_buffers greedy_caps limit bufs)) \<subseteq> set (exclusion_pass limit bufs)"
  by (auto simp: partition_buffers_def record_exclusions_def exclusion_pass_def Let_def)

text \<open>The state a successful run ends in.\<close>

lemma greedy_walked:
  assumes "0 < al" "solver_input bufs" "check_in_place_relationships bufs = Inr ()"
    and "placeable = fst (partition_buffers greedy_caps limit bufs)"
    and "build_groups (exclusion_pass limit bufs) (map buf_name placeable) (exclusion_pass limit bufs)
           (\<lambda>_. None) [] = Inr (groups, rej)"
  shows "walk_inv limit al (set placeable) groups rej []
           (foldl (greedy_tick limit al groups placeable)
              (greedy_init\<lparr>rejected_paired_buffers := rej\<rparr>) (transition_times placeable))"
    and "groups_ok (set placeable) groups rej"
    and "groups_closed (exclusion_pass limit bufs) (map buf_name placeable) groups rej"
proof -
  have dst: "distinct (map buf_name (exclusion_pass limit bufs))"
    using solver_input_distinct [OF assms(2)] by (simp only: exclusion_pass_facts)
  have sub: "set placeable \<subseteq> set (exclusion_pass limit bufs)"
    unfolding assms(4) by (rule placeable_subset)
  show closed: "groups_closed (exclusion_pass limit bufs) (map buf_name placeable) groups rej"
    by (rule build_groups_closed [OF assms(5)]) (simp add: groups_closed_def)
  show ok: "groups_ok (set placeable) groups rej" by (rule closed_groups_ok [OF closed dst sub])
  show "walk_inv limit al (set placeable) groups rej []
           (foldl (greedy_tick limit al groups placeable)
              (greedy_init\<lparr>rejected_paired_buffers := rej\<rparr>) (transition_times placeable))"
    using assms placeable_placeable_ok [OF assms(2,3)]
    by (intro greedy_walk_inv walk_inv_init [OF closed dst sub] transition_times_facts(1) ok refl) auto
qed

lemma greedy_frame:
  assumes "greedy_plan_layout limit al bufs = Inr out"
  shows "map erase_plan out = map erase_plan bufs"
  using assms
proof (cases rule: greedy_cases)
  case untouched
  then show ?thesis using exclusion_pass_facts(2) [of limit bufs] by simp
next
  case (walked groups rej placeable st)
  then have "map erase_plan out = map erase_plan (exclusion_pass limit bufs)"
    by (simp add: erase_plan_def)
  then show ?thesis by (simp only: exclusion_pass_facts)
qed

text \<open>Only placeable buffers get an address.\<close>

lemma walked_placeable:
  assumes "solver_input bufs" "walk_inv limit al (set P) groups rej [] st" "placeable_ok (set P)"
    and "P = fst (partition_buffers greedy_caps limit bufs)"
    and "b \<in> set (exclusion_pass limit bufs)" "addresses st (buf_name b) \<noteq> None"
  shows "b \<in> set P"
proof -
  have "inj_on buf_name (set (exclusion_pass limit bufs))"
    using solver_input_distinct [OF assms(1)] exclusion_pass_facts(1) [of limit bufs] by (metis distinct_map)
  moreover obtain p where "p \<in> set P" "buf_name b = buf_name p"
    using walk_result(1) [OF assms(2,3,6)] by blast
  ultimately show ?thesis using assms(4,5) placeable_subset by (metis inj_onD subsetD)
qed

lemma greedy_safe:
  assumes "0 < al" "solver_input bufs" "greedy_plan_layout limit al bufs = Inr out"
  shows "safe_layout limit al out"
  using assms(3)
proof (cases rule: greedy_cases)
  case untouched
  then show ?thesis by (auto simp: safe_layout_def in_bounds_def addr_disjoint_def)
next
  case (walked groups rej placeable st)
  let ?B = "exclusion_pass limit bufs"
  let ?g = "\<lambda>b. b\<lparr>buf_address := addresses st (buf_name b)\<rparr>"
  have inv: "walk_inv limit al (set placeable) groups rej [] st"
    unfolding walked(3) by (rule greedy_walked(1) [OF assms(1,2) walked(5,1,2)])
  have ok: "placeable_ok (set placeable)"
    unfolding walked(1) by (rule placeable_placeable_ok [OF assms(2) walked(5)])
  note res = walk_result [OF inv ok]
  have inP: "b \<in> set placeable" if "b \<in> set ?B" "addresses st (buf_name b) = Some a" for b a
    using walked_placeable [OF assms(2) inv ok walked(1)] that by simp
  have bnd: "in_bounds limit al (?g b)" if "b \<in> set ?B" for b
    using res(2) inP [OF that] by (auto simp: in_bounds_def)
  have pair: "addr_disjoint (?g b) (?g c) \<or> handed_over (?g b) (?g c) \<or> handed_over (?g c) (?g b)"
    if bc: "b \<in> set ?B" "c \<in> set ?B" "buf_name b \<noteq> buf_name c" "overlaps_in_time b c" for b c
  proof (cases "addresses st (buf_name b) = None \<or> addresses st (buf_name c) = None")
    case True
    then show ?thesis by (auto simp: addr_disjoint_def)
  next
    case False
    then obtain a a' where a: "addresses st (buf_name b) = Some a" "addresses st (buf_name c) = Some a'" by auto
    note P = inP [OF bc(1) a(1)] inP [OF bc(2) a(2)]
    have hand: "handed_over (?g x) (?g y)" if "handover_ok (set placeable) st x y" for x y
      using that ok by (auto simp: handover_ok_def handed_over_def placeable_ok_def)
    have "addr_disjoint (?g b) (?g c)" if "ivl_disjoint a (buf_size b) a' (buf_size c)"
      using that a by (simp add: addr_disjoint_def)
    moreover have "b \<noteq> c" using bc(3) by blast
    ultimately show ?thesis using res(3) [OF P _ bc(4) a] hand by blast
  qed
  show ?thesis unfolding walked(4) safe_layout_def using bnd pair by auto
qed

lemma greedy_bars:
  assumes "0 < al" "solver_input bufs" "greedy_plan_layout limit al bufs = Inr out"
    and "b \<in> set out" "residency_reason b \<noteq> None"
  shows "buf_address b = None"
  using assms(3)
proof (cases rule: greedy_cases)
  case untouched
  then show ?thesis using assms(4) by blast
next
  case (walked groups rej placeable st)
  have inv: "walk_inv limit al (set placeable) groups rej [] st"
    unfolding walked(3) by (rule greedy_walked(1) [OF assms(1,2) walked(5,1,2)])
  have ok: "placeable_ok (set placeable)"
    unfolding walked(1) by (rule placeable_placeable_ok [OF assms(2) walked(5)])
  obtain b0 where b0: "b0 \<in> set (exclusion_pass limit bufs)" "b = b0\<lparr>buf_address := addresses st (buf_name b0)\<rparr>"
    using assms(4) walked(4) by auto
  have "b0 \<notin> set placeable"
    using placeable_unbarred [OF solver_input_distinct [OF assms(2)]] assms(5) b0(2) walked(1) by fastforce
  then show ?thesis using walked_placeable [OF assms(2) inv ok walked(1) b0(1)] b0(2) by (cases "addresses st (buf_name b0)") auto
qed

lemma build_groups_none:
  "\<forall>r \<in> set roots. paired_with r = [] \<Longrightarrow> build_groups bufs names roots groups rej = Inr (groups, rej)"
  by (induction roots) auto

text \<open>On unpaired input the walk runs without groups, and nothing raises.\<close>

lemma greedy_runs:
  assumes "solver_input bufs" "check_in_place_relationships bufs = Inr ()"
    and "\<forall>b \<in> set bufs. buf_address b = None \<and> paired_with b = []"
    and "placeable = fst (partition_buffers greedy_caps limit bufs)"
    and "st = foldl (greedy_tick limit al (\<lambda>_. None) placeable) (greedy_init\<lparr>rejected_paired_buffers := []\<rparr>)
       (transition_times placeable)"
  shows "build_groups (exclusion_pass limit bufs) (map buf_name placeable) (exclusion_pass limit bufs)
           (\<lambda>_. None) [] = Inr (\<lambda>_. None, [])"
    and "greedy_plan_layout limit al bufs = Inr (if placeable = [] then exclusion_pass limit bufs
           else map (\<lambda>b. b\<lparr>buf_address := addresses st (buf_name b)\<rparr>) (exclusion_pass limit bufs))"
proof -
  show bg: "build_groups (exclusion_pass limit bufs) (map buf_name placeable) (exclusion_pass limit bufs)
      (\<lambda>_. None) [] = Inr (\<lambda>_. None, [])"
    by (rule build_groups_none) (use assms(3) in \<open>auto simp: exclusion_pass_def\<close>)
  have uses: "\<not> list_ex (\<lambda>b. buf_uses b = []) placeable"
    unfolding assms(4) placeable_iff [OF solver_input_distinct [OF assms(1)]]
    using solver_input_facts(1) [OF assms(1)] by (auto simp: list_ex_iff)
  have ex: "fst (record_exclusions greedy_caps limit bufs) = exclusion_pass limit bufs"
    by (simp add: record_exclusions_def exclusion_pass_def)
  have none: "\<not> list_ex (\<lambda>b. buf_address b \<noteq> None) bufs" using assms(3) by (auto simp: list_ex_iff)
  have "placeable = []" if "bufs = []"
    unfolding assms(4) that by (simp add: partition_buffers_def record_exclusions_def)
  then show "greedy_plan_layout limit al bufs = Inr (if placeable = [] then exclusion_pass limit bufs
      else map (\<lambda>b. b\<lparr>buf_address := addresses st (buf_name b)\<rparr>) (exclusion_pass limit bufs))"
    using none assms(2,5) bg uses
    by (cases "bufs = []") (simp_all add: greedy_plan_layout_def Let_def ex assms(4) [symmetric] exclusion_pass_def)
qed

interpretation greedy: total_solver greedy_plan_layout
proof unfold_locales
  show "\<exists>out. greedy_plan_layout limit al bufs = Inr out"
    if "solver_input bufs" "check_in_place_relationships bufs = Inr ()"
      "\<forall>b \<in> set bufs. buf_address b = None \<and> paired_with b = []" for limit al bufs
    using greedy_runs(2) [OF that refl refl] by blast
qed (auto intro: greedy_safe greedy_frame greedy_bars)


section \<open>Paired groups are placed together\<close>

lemma build_groups_records:
  "build_groups bufs names roots groups rejected = Inr (groups', rejected') \<Longrightarrow>
   (\<forall>n G. groups n = Some G \<longrightarrow> groups' n = Some G) \<and>
   (\<forall>r \<in> set roots. paired_with r \<noteq> [] \<longrightarrow>
      (\<exists>G. groups' (buf_name r) = Some G \<and> map buf_name G = buf_name r # paired_with r))"
proof (induction bufs names roots groups rejected rule: build_groups.induct)
  case (2 bufs names rt roots groups rejected)
  show ?case
  proof (cases "paired_with rt = []")
    case True
    then show ?thesis using 2 by simp
  next
    case False
    let ?ms = "buf_name rt # paired_with rt"
    let ?grp = "List.map_filter (buf_by_name bufs) ?ms"
    have dst: "distinct ?ms" using "2.prems"(1) False by (auto simp: Let_def split: if_splits)
    obtain g1 where g1: "add_members bufs ?grp ?ms groups = Inr g1"
      and rec: "build_groups bufs names roots g1
         (if list_ex (\<lambda>m. m \<notin> set names) ?ms then ?ms @ rejected else rejected) = Inr (groups', rejected')"
    proof (cases "add_members bufs ?grp ?ms groups")
      case (Inl e)
      then show ?thesis using "2.prems"(1) False dst unfolding build_groups.simps Let_def by simp
    next
      case (Inr g1)
      then show ?thesis using "2.prems"(1) False dst that unfolding build_groups.simps Let_def by simp
    qed
    note am = add_members_Inr [OF g1]
    have ih: "(\<forall>n G. g1 n = Some G \<longrightarrow> groups' n = Some G) \<and>
      (\<forall>r \<in> set roots. paired_with r \<noteq> [] \<longrightarrow>
        (\<exists>G. groups' (buf_name r) = Some G \<and> map buf_name G = buf_name r # paired_with r))"
      by (rule "2.IH"(2) [OF False refl refl _ g1 rec]) (use dst in simp)
    have "g1 n = Some G" if "groups n = Some G" for n G using am that by auto
    moreover have "g1 (buf_name rt) = Some ?grp" using am by simp
    moreover have "map buf_name ?grp = ?ms" using am by (intro map_filter_buf_names(1)) blast
    ultimately show ?thesis using ih by (metis set_ConsD)
  qed
qed simp

lemma walk_group_together:
  assumes inv: "walk_inv limit al P groups rej [] st" and ok: "placeable_ok P" and gs: "groups_ok P groups rej"
    and G: "groups (buf_name b) = Some G" "b \<in> set G" "m \<in> set G" "\<forall>x \<in> set G. groups (buf_name x) = Some G"
    and P: "\<And>x. x \<in> set G \<Longrightarrow> x \<in> P \<or> addresses st (buf_name x) = None"
  shows "addresses st (buf_name b) = None \<Longrightarrow> addresses st (buf_name m) = None"
proof -
  assume nb: "addresses st (buf_name b) = None"
  have at: "groups_atomic P groups st" and sub: "set rej \<subseteq> set (rejected_paired_buffers st)"
    using inv by (auto simp: walk_inv_def)
  show "addresses st (buf_name m) = None"
  proof (cases "m \<in> P \<and> buf_name m \<notin> set (rejected_paired_buffers st)")
    case True
    have gm: "groups (buf_name m) = Some G" using G by blast
    then show ?thesis using at True G(2) nb unfolding groups_atomic_def by blast
  next
    case False
    then show ?thesis using P [OF G(3)] G(3,4) at unfolding groups_atomic_def by (metis option.distinct(1))
  qed
qed

section \<open>Properties of the solver\<close>

text \<open>
  C1. Whenever the greedy solver returns, its layout is safe: every placed buffer is aligned
  and inside the scratchpad, and two buffers whose lifetimes overlap occupy disjoint blocks
  unless one is the in-place child sitting exactly on the slot its parent hands over.
\<close>

theorem greedy_layout_safe:
  assumes "0 < al" "solver_input bufs" "greedy_plan_layout limit al bufs = Inr out"
  shows "safe_layout limit al out"
  using assms by (rule greedy.plan_safe)

definition demo_buffer :: "string \<Rightarrow> int \<Rightarrow> int list \<Rightarrow> string list \<Rightarrow> string list \<Rightarrow> LifetimeBoundBuffer" where
  "demo_buffer nm sz us ps pw = \<lparr>buf_name = nm, buf_size = sz, buf_uses = us, first_use_is_read = False,
     buf_address = None, in_place_parents = ps, residency_reason = None, untiled_bar = None,
     lifetime_start_override = None, lifetime_end_override = None, paired_with = pw,
     spill_reason = None, core_divisions = [], lx_relayout_plans = []\<rparr>"

definition demo_graph :: "LifetimeBoundBuffer list" where
  "demo_graph = [demo_buffer ''a'' 200 [0, 2] [] [], demo_buffer ''b'' 128 [2, 4] [''a''] [],
     demo_buffer ''c'' 300 [1, 3] [] [''d''], demo_buffer ''d'' 64 [3, 5] [] []]"

theorem greedy_layout_safe_witness:
  "safe_layout 1024 128 (map (\<lambda>(b, a). b\<lparr>buf_address := a\<rparr>)
     (zip demo_graph [Some 0, Some 0, Some 256, Some 640]))"
proof -
  have "solver_input demo_graph" by code_simp
  moreover have "greedy_plan_layout 1024 128 demo_graph
      = Inr (map (\<lambda>(b, a). b\<lparr>buf_address := a\<rparr>) (zip demo_graph [Some 0, Some 0, Some 256, Some 640]))"
    by code_simp
  ultimately show ?thesis by (rule greedy_layout_safe [rotated]) simp
qed

definition demo_layout :: "LifetimeBoundBuffer list" where
  "demo_layout = map (\<lambda>(b, a). b\<lparr>buf_address := a\<rparr>) (zip demo_graph [Some 0, Some 0, Some 256, Some 640])"

lemma demo_run:
  "solver_input demo_graph" "greedy_plan_layout 1024 128 demo_graph = Inr demo_layout"
  by code_simp+

lemma greedy_pairs_together:
  assumes "0 < al" "solver_input bufs" "greedy_plan_layout limit al bufs = Inr out"
    and "b \<in> set out" "c \<in> set out" "buf_name c \<in> set (paired_with b)"
  shows "buf_address b = None \<longleftrightarrow> buf_address c = None"
  using assms(3)
proof (cases rule: greedy_cases)
  case untouched
  then show ?thesis using assms(4,5) by blast
next
  case (walked groups rej placeable st)
  let ?B = "exclusion_pass limit bufs"
  note gw = greedy_walked [OF assms(1,2) walked(5,1,2)]
  note inv = gw(1) [folded walked(3)]
  have ok: "placeable_ok (set placeable)"
    unfolding walked(1) by (rule placeable_placeable_ok [OF assms(2) walked(5)])
  obtain b0 c0 where b0: "b0 \<in> set ?B" "b = b0\<lparr>buf_address := addresses st (buf_name b0)\<rparr>"
    and c0: "c0 \<in> set ?B" "c = c0\<lparr>buf_address := addresses st (buf_name c0)\<rparr>"
    using assms(4,5) unfolding walked(4) by auto
  have dst: "distinct (map buf_name ?B)"
    using solver_input_distinct [OF assms(2)] by (simp only: exclusion_pass_facts)
  have ne: "paired_with b0 \<noteq> []" using assms(6) b0(2) by auto
  obtain G where G: "groups (buf_name b0) = Some G" "map buf_name G = buf_name b0 # paired_with b0"
    using build_groups_records [OF walked(2), THEN conjunct2, rule_format, OF b0(1) ne] by (elim exE conjE)
  have cl: "set G \<subseteq> set ?B" "\<forall>x \<in> set G. groups (buf_name x) = Some G"
    using gw(3) G(1) unfolding groups_closed_def by auto
  have inG: "x \<in> set G" if x: "x \<in> set ?B" "buf_name x \<in> set (map buf_name G)" for x
  proof -
    obtain y where y: "y \<in> set G" "buf_name x = buf_name y" using x(2) by auto
    then have "x = y" using x(1) cl(1) dst by (metis distinct_map inj_onD subsetD)
    then show ?thesis using y(1) by simp
  qed
  have mem: "b0 \<in> set G" "c0 \<in> set G"
    using inG [OF b0(1)] inG [OF c0(1)] assms(6) b0(2) c0(2) G(2) by auto
  have P: "x \<in> set placeable \<or> addresses st (buf_name x) = None" if x: "x \<in> set G" for x
  proof (rule disjCI)
    assume "addresses st (buf_name x) \<noteq> None"
    then have "buf_name x \<in> buf_name ` set placeable" by (rule walk_result(1) [OF inv ok])
    then obtain y where y: "y \<in> set placeable" "buf_name x = buf_name y" by blast
    then have "y \<in> set ?B" "x \<in> set ?B" using placeable_subset walked(1) cl(1) x by blast+
    then have "x = y" using dst y(2) by (metis distinct_map inj_onD)
    then show "x \<in> set placeable" using y(1) by simp
  qed
  note tog = walk_group_together [OF inv ok gw(2) _ _ _ cl(2) P]
  have "addresses st (buf_name b0) = None \<longleftrightarrow> addresses st (buf_name c0) = None"
    using tog [OF G(1) mem] tog [OF cl(2) [rule_format, OF mem(2)] mem(2,1)] by blast
  then show ?thesis unfolding b0(2) c0(2) by simp
qed

text \<open>
  C30. A relayout source and its destinations are placed together or not at all: in the
  layout the greedy solver returns, a buffer with partners has an address if and only if
  each partner has one.
\<close>

theorem greedy_pairs_atomic:
  assumes "0 < al" "solver_input bufs" "greedy_plan_layout limit al bufs = Inr out"
    and "b \<in> set out" "c \<in> set out" "buf_name c \<in> set (paired_with b)"
  shows "buf_address b = None \<longleftrightarrow> buf_address c = None"
  using assms by (rule greedy_pairs_together)

theorem greedy_pairs_atomic_witness:
  "buf_name (demo_layout ! 3) \<in> set (paired_with (demo_layout ! 2)) \<and>
   (buf_address (demo_layout ! 2) = None \<longleftrightarrow> buf_address (demo_layout ! 3) = None)"
proof -
  let ?b = "demo_layout ! 2" and ?c = "demo_layout ! 3"
  have p: "buf_name ?c \<in> set (paired_with ?b)"
    by (simp add: demo_layout_def demo_graph_def demo_buffer_def)
  have "?b \<in> set demo_layout" "?c \<in> set demo_layout"
    by (simp_all add: demo_layout_def demo_graph_def)
  from greedy_pairs_atomic [OF _ demo_run this p] p show ?thesis by simp
qed

text \<open>The candidate the search would have to miss lies between two spans.\<close>

lemma merge_spans_avoid:
  assumes "0 < n" "\<forall>x \<in> set merged \<union> set xs. snd x \<le> g \<or> g + n \<le> fst x"
    and "\<forall>m \<in> set merged. \<forall>x \<in> set xs. fst m \<le> fst x" "sorted (map fst xs)"
  shows "\<forall>y \<in> set (merge_spans merged xs). snd y \<le> g \<or> g + (n::int) \<le> fst y"
  using assms
proof (induction merged xs rule: merge_spans.induct)
  case (3 mlo mhi ms lo hi xs)
  show ?case
  proof (cases "lo \<le> mhi")
    case True
    have "max mhi hi \<le> g \<or> g + n \<le> mlo" using "3.prems"(1,2) True by auto
    then have "\<forall>x \<in> set ((mlo, max mhi hi) # ms) \<union> set xs. snd x \<le> g \<or> g + n \<le> fst x"
      using "3.prems"(2) by simp
    then have "\<forall>y \<in> set (merge_spans ((mlo, max mhi hi) # ms) xs). snd y \<le> g \<or> g + n \<le> fst y"
      using "3.prems"(3,4) by (intro "3.IH"(1) [OF True "3.prems"(1)]) simp_all
    then show ?thesis using True by simp
  next
    case False
    have "\<forall>y \<in> set (merge_spans ((lo, hi) # (mlo, mhi) # ms) xs). snd y \<le> g \<or> g + n \<le> fst y"
      using "3.prems"(2-4) by (intro "3.IH"(2) [OF False "3.prems"(1)]) auto
    then show ?thesis using False by simp
  qed
qed auto

lemma first_gap_complete:
  assumes "0 < al" "al dvd g" "spans_separated sp"
    and "\<forall>x \<in> set sp. snd x \<le> g \<or> g + n \<le> fst x" "sp \<noteq> []" "snd (hd sp) \<le> g" "\<exists>x \<in> set sp. g + n \<le> fst x" "0 < n"
  shows "first_gap al n sp \<noteq> None"
  using assms
proof (induction al n sp rule: first_gap.induct)
  case (1 al n s span_end next_start e rest)
  let ?f = "ceil_div span_end al * al"
  have f: "?f \<le> g"
    using round_up_least [OF "1.prems"(1,2), of span_end] "1.prems"(1,6) neg_div_eq_round_up [of al span_end]
    by (simp add: ceil_div_def)
  show ?case
  proof (cases "next_start - ?f \<ge> n")
    case False
    then have "e \<le> g" using "1.prems"(4) f by auto
    moreover have "spans_separated ((next_start, e) # rest)" using "1.prems"(3) by (simp add: spans_separated_def)
    moreover have "\<exists>x \<in> set ((next_start, e) # rest). g + n \<le> fst x"
      using "1.prems"(3,6,7,8) by (auto simp: spans_separated_def)
    ultimately show ?thesis using False "1.IH" [OF refl False "1.prems"(1,2)] "1.prems"(4,8)
      by (simp add: Let_def)
  qed (simp add: Let_def)
qed (auto simp: spans_separated_def)

lemma lowest_in: "us \<noteq> [] \<Longrightarrow> \<exists>(u, a) \<in> set us. a = get_lowest_addr_in_use us"
proof -
  assume "us \<noteq> []"
  then have "get_lowest_addr_in_use us \<in> set (map snd us)"
    using foldl_min_in by (cases us) (force simp: get_lowest_addr_in_use_def)+
  then show ?thesis by force
qed

lemma foldl_max_in: "foldl max (w::int) xs \<in> insert w (set xs)"
proof (induction xs arbitrary: w)
  case (Cons x xs)
  show ?case using Cons.IH [of "max w x"] by (auto simp: max_def split: if_splits)
qed simp

lemma highest_in: "us \<noteq> [] \<Longrightarrow> \<exists>(u, a) \<in> set us. a + buf_size u = get_highest_addr_in_use us"
proof -
  assume "us \<noteq> []"
  then have "get_highest_addr_in_use us \<in> set (map (\<lambda>(u, a). a + buf_size u) us)"
    using foldl_max_in by (cases us) (force simp: get_highest_addr_in_use_def)+
  then show ?thesis by force
qed

lemma find_free_block_complete:
  assumes "0 < al" "0 < n" "usage_in_bounds limit us"
    and g: "0 \<le> g" "g + n \<le> limit" "al dvd g" "\<forall>(u, a) \<in> set us. ivl_disjoint g n a (buf_size u)"
  shows "find_free_block limit al us n \<noteq> None"
proof (rule ccontr)
  assume "\<not> find_free_block limit al us n \<noteq> None"
  then have none: "us \<noteq> []" "get_lowest_addr_in_use us < n"
    "limit < ceil_div (get_highest_addr_in_use us) al * al + n" "first_gap al n (occupied_spans us) = None"
    using g(1,2) by (auto simp: find_free_block_def Let_def split: if_splits)
  let ?xs = "sort (map (\<lambda>(u, a). (a, a + buf_size u)) us)"
  have avoid: "\<forall>y \<in> set (occupied_spans us). snd y \<le> g \<or> g + n \<le> fst y"
    unfolding occupied_spans_def
    using assms(2) g(4) sorted_map_fst [of ?xs]
    by (intro merge_spans_avoid) (auto simp: interval_simps)
  note sp = occupied_spans_facts [OF assms(3)]
  obtain u a where lo: "(u, a) \<in> set us" "a = get_lowest_addr_in_use us"
    using lowest_in [OF none(1)] by auto
  then have "a + buf_size u \<le> g" using g(1,4) none(2) by (auto simp: interval_simps)
  obtain v b where hi: "(v, b) \<in> set us" "b + buf_size v = get_highest_addr_in_use us"
    using highest_in [OF none(1)] by auto
  have "\<not> get_highest_addr_in_use us \<le> g"
    using none(3) g(2,3) assms(1) round_up_least [of al g "get_highest_addr_in_use us"]
      neg_div_eq_round_up [of al "get_highest_addr_in_use us"] by (auto simp: ceil_div_def)
  then obtain y where y: "y \<in> set (occupied_spans us)" "g + n \<le> fst y"
    using sp(2) [OF hi(1)] hi(2) avoid by fastforce
  obtain x where x: "x \<in> set (occupied_spans us)" "fst x \<le> a" "a + buf_size u \<le> snd x"
    using sp(2) [OF lo(1)] by blast
  have usz: "0 \<le> buf_size u" using assms(3) lo(1) by (auto simp: usage_in_bounds_def)
  have "snd x \<le> g"
    using avoid x usz \<open>a + buf_size u \<le> g\<close> assms(2) by fastforce
  then have "snd (hd (occupied_spans us)) \<le> g"
    using x(1) sp(1) by (cases "occupied_spans us") (fastforce simp: spans_separated_def)+
  then have "first_gap al n (occupied_spans us) \<noteq> None"
    using first_gap_complete [OF assms(1) g(3) sp(1) avoid] y x(1) assms(2) by fastforce
  then show False using none(4) by simp
qed

text \<open>
  C32. The free-block search is exact: for a positive size it returns an address exactly when
  some aligned block of that size is free of every live buffer, and the block it returns is
  one.
\<close>

theorem find_free_block_exact:
  assumes "0 < al" "0 < n" "usage_in_bounds limit us"
  shows "((\<exists>f. find_free_block limit al us n = Some f) \<longleftrightarrow>
           (\<exists>g. 0 \<le> g \<and> g + n \<le> limit \<and> al dvd g \<and> (\<forall>(u, a) \<in> set us. ivl_disjoint g n a (buf_size u))))
    \<and> (\<forall>f. find_free_block limit al us n = Some f \<longrightarrow>
           0 \<le> f \<and> f + n \<le> limit \<and> al dvd f \<and> (\<forall>(u, a) \<in> set us. ivl_disjoint f n a (buf_size u)))"
proof (intro conjI allI impI iffI)
  show "\<exists>g. 0 \<le> g \<and> g + n \<le> limit \<and> al dvd g \<and> (\<forall>(u, a) \<in> set us. ivl_disjoint g n a (buf_size u))"
    if "\<exists>f. find_free_block limit al us n = Some f"
    using that find_free_block_sound [OF _ assms(1,3), of n] by blast
  show "\<exists>f. find_free_block limit al us n = Some f"
    if "\<exists>g. 0 \<le> g \<and> g + n \<le> limit \<and> al dvd g \<and> (\<forall>(u, a) \<in> set us. ivl_disjoint g n a (buf_size u))"
    using that find_free_block_complete [OF assms] by blast
qed (use find_free_block_sound [OF _ assms(1,3), of n] in blast)+

theorem find_free_block_exact_witness:
  "\<exists>g. 0 \<le> g \<and> g + 100 \<le> (1024::int) \<and> 128 dvd g \<and>
     (\<forall>(u, a) \<in> set [(demo_buffer ''a'' 200 [0, 2] [] [], 0)]. ivl_disjoint g 100 a (buf_size u))"
proof -
  let ?us = "[(demo_buffer ''a'' 200 [0, 2] [] [], 0)]"
  have "usage_in_bounds 1024 ?us" by (simp add: usage_in_bounds_def demo_buffer_def)
  moreover have "find_free_block 1024 128 ?us 100 = Some 256" by code_simp
  ultimately show ?thesis using find_free_block_exact [of 128 100 1024 ?us] by auto
qed


section \<open>Everything is placed when everything fits\<close>

text \<open>The aligned bytes of the buffers placed so far bound every live block's end.\<close>

definition placed_bytes :: "int \<Rightarrow> LifetimeBoundBuffer set \<Rightarrow> greedy_state \<Rightarrow> int" where
  "placed_bytes al P st =
     (\<Sum>b\<in>P. if addresses st (buf_name b) \<noteq> None then round_up (buf_size b) al else 0)"

definition packed :: "int \<Rightarrow> LifetimeBoundBuffer set \<Rightarrow> greedy_state \<Rightarrow> bool" where
  "packed al P st \<longleftrightarrow> (\<forall>(u, a) \<in> set (usage st). a + buf_size u \<le> placed_bytes al P st)"

definition roomy :: "int \<Rightarrow> int \<Rightarrow> LifetimeBoundBuffer set \<Rightarrow> bool" where
  "roomy limit al P \<longleftrightarrow> finite P \<and> inj_on buf_name P \<and> (\<forall>b \<in> P. 0 \<le> buf_size b) \<and>
     (\<Sum>b\<in>P. round_up (buf_size b) al) \<le> limit"

lemma round_up_nonneg: "0 < al \<Longrightarrow> 0 \<le> n \<Longrightarrow> 0 \<le> round_up n al"
  using round_up_ge [of al n] by simp

lemma placed_bytes_insert:
  assumes "roomy limit al P" "0 < al" "b \<in> P" "addresses st (buf_name b) = None"
  shows "placed_bytes al P (place b a st) = placed_bytes al P st + round_up (buf_size b) al"
    and "0 \<le> placed_bytes al P st" "al dvd placed_bytes al P st"
    and "placed_bytes al P st + round_up (buf_size b) al \<le> limit"
proof -
  let ?w = "\<lambda>st x. if addresses st (buf_name x) \<noteq> None then round_up (buf_size x) al else 0"
  have fin: "finite P" and nn: "\<And>x. x \<in> P \<Longrightarrow> 0 \<le> round_up (buf_size x) al"
    using assms(1,2) round_up_nonneg by (auto simp: roomy_def)
  have other: "?w (place b a st) x = ?w st x" if "x \<in> P - {b}" for x
  proof -
    have "buf_name x \<noteq> buf_name b" using assms(1,3) that by (auto simp: roomy_def inj_on_def)
    then show ?thesis by simp
  qed
  have split: "(\<Sum>x\<in>P. f x) = f b + (\<Sum>x\<in>P - {b}. f x)" for f :: "LifetimeBoundBuffer \<Rightarrow> int"
    using fin assms(3) by (simp add: sum.remove)
  have "placed_bytes al P (place b a st) = ?w (place b a st) b + (\<Sum>x\<in>P - {b}. ?w (place b a st) x)"
    unfolding placed_bytes_def by (rule split)
  also have "(\<Sum>x\<in>P - {b}. ?w (place b a st) x) = (\<Sum>x\<in>P - {b}. ?w st x)"
    by (rule sum.cong [OF refl other])
  finally have new: "placed_bytes al P (place b a st) = round_up (buf_size b) al + (\<Sum>x\<in>P - {b}. ?w st x)"
    by simp
  have old: "placed_bytes al P st = (\<Sum>x\<in>P - {b}. ?w st x)"
    unfolding placed_bytes_def split [of "?w st"] using assms(4) by simp
  show "placed_bytes al P (place b a st) = placed_bytes al P st + round_up (buf_size b) al"
    using new old by simp
  show "0 \<le> placed_bytes al P st" unfolding placed_bytes_def using nn by (intro sum_nonneg) simp
  show "al dvd placed_bytes al P st" unfolding placed_bytes_def by (intro dvd_sum) simp
  have "(\<Sum>x\<in>P - {b}. ?w st x) \<le> (\<Sum>x\<in>P - {b}. round_up (buf_size x) al)"
    using nn by (intro sum_mono) simp
  then show "placed_bytes al P st + round_up (buf_size b) al \<le> limit"
    using old split [of "\<lambda>x. round_up (buf_size x) al"] assms(1) by (simp add: roomy_def)
qed

lemma try_allocate_one_packed:
  assumes "roomy limit al P" "0 < al" "b \<in> P" "addresses st (buf_name b) = None" "packed al P st"
  shows "packed al P (try_allocate_one limit al st b)"
    and "addresses (try_allocate_one limit al st b) (buf_name b) \<noteq> None"
proof -
  note w = placed_bytes_insert [OF assms(1-4)]
  have sz: "0 \<le> round_up (buf_size b) al" "buf_size b \<le> round_up (buf_size b) al"
    using assms(1-3) round_up_nonneg round_up_ge by (auto simp: roomy_def)
  have go: "packed al P st'" if "usage st' = usage st @ [(b, a)]"
      "addresses st' = addresses (place b a st)" "a + buf_size b \<le> placed_bytes al P st + round_up (buf_size b) al"
    for st' a
  proof -
    have "placed_bytes al P st' = placed_bytes al P st + round_up (buf_size b) al"
      using w(1) [of a] that(2) by (simp add: placed_bytes_def)
    then show ?thesis using that(1,3) assms(5) sz(1) by (fastforce simp: packed_def)
  qed
  have "packed al P (try_allocate_one limit al st b) \<and> addresses (try_allocate_one limit al st b) (buf_name b) \<noteq> None"
  proof (cases "find_in_place st b (in_place_parents b)")
    case (Some x)
    obtain u a where x: "x = (u, a)" by (cases x)
    note f = find_in_place_Some [OF Some [unfolded x]]
    have "a + buf_size b \<le> placed_bytes al P st + round_up (buf_size b) al"
      using assms(5) f(1,4) sz(1) by (fastforce simp: packed_def)
    then show ?thesis using Some x go [of _ a] by (simp add: try_allocate_one_def)
  next
    case None
    let ?hi = "get_highest_addr_in_use (usage st)"
    have "\<exists>a. find_free_block limit al (usage st) (buf_size b) = Some a
        \<and> a + buf_size b \<le> placed_bytes al P st + round_up (buf_size b) al"
    proof (cases "usage st = [] \<or> get_lowest_addr_in_use (usage st) \<ge> buf_size b")
      case True
      then show ?thesis using w(2,4) sz by (auto simp: find_free_block_def Let_def)
    next
      case False
      then have "usage st \<noteq> []" by blast
      from highest_in [OF this] obtain v c where "(v, c) \<in> set (usage st)" "c + buf_size v = ?hi" by auto
      then have "?hi \<le> placed_bytes al P st" using assms(5) by (fastforce simp: packed_def)
      then have "ceil_div ?hi al * al \<le> placed_bytes al P st"
        using round_up_least [OF assms(2) w(3)] neg_div_eq_round_up [OF assms(2), of ?hi] by (simp add: ceil_div_def)
      then show ?thesis using False w(2,4) sz by (auto simp: find_free_block_def Let_def)
    qed
    then show ?thesis using None go by (auto simp: try_allocate_one_def)
  qed
  then show "packed al P (try_allocate_one limit al st b)"
    and "addresses (try_allocate_one limit al st b) (buf_name b) \<noteq> None" by blast+
qed

text \<open>Without paired groups and rejections, every buffer the walk has reached is placed.\<close>

definition all_placed :: "LifetimeBoundBuffer set \<Rightarrow> greedy_state \<Rightarrow> bool" where
  "all_placed Q st \<longleftrightarrow> (\<forall>b \<in> Q. addresses st (buf_name b) \<noteq> None)"

lemma allocate_fold_packed:
  assumes "roomy limit al P" "0 < al" "set bs \<subseteq> P" "packed al P st" "rejected_paired_buffers st = []" "all_placed Q st"
  shows "packed al P (foldl (try_allocate limit al (\<lambda>_. None)) st bs)
    \<and> rejected_paired_buffers (foldl (try_allocate limit al (\<lambda>_. None)) st bs) = []
    \<and> all_placed (Q \<union> set bs) (foldl (try_allocate limit al (\<lambda>_. None)) st bs)"
  using assms(3-)
proof (induction bs arbitrary: st Q)
  case (Cons b bs)
  let ?st = "try_allocate limit al (\<lambda>_. None) st b"
  have step: "packed al P ?st \<and> rejected_paired_buffers ?st = [] \<and> all_placed (insert b Q) ?st"
  proof (cases "addresses st (buf_name b) = None")
    case True
    then have eq: "?st = try_allocate_one limit al st b" using Cons.prems(3) by (simp add: try_allocate_def)
    note one = try_allocate_one_packed [OF assms(1,2) _ True Cons.prems(2)]
    have b: "b \<in> P" using Cons.prems(1) by simp
    have "all_placed (insert b Q) ?st"
      unfolding all_placed_def eq
    proof
      fix x assume x: "x \<in> insert b Q"
      show "addresses (try_allocate_one limit al st b) (buf_name x) \<noteq> None"
      proof (cases "buf_name x = buf_name b")
        case True
        then show ?thesis using one(2) [OF b] by simp
      next
        case False
        then have "x \<in> Q" using x by auto
        then show ?thesis
          using Cons.prems(4) try_allocate_one_frame(1) [OF False] by (simp add: all_placed_def)
      qed
    qed
    then show ?thesis using one(1) [OF b] Cons.prems(3) by (simp add: eq try_allocate_one_frame(2))
  next
    case False
    then show ?thesis using Cons.prems by (auto simp: try_allocate_def all_placed_def)
  qed
  have "packed al P (foldl (try_allocate limit al (\<lambda>_. None)) ?st bs)
    \<and> rejected_paired_buffers (foldl (try_allocate limit al (\<lambda>_. None)) ?st bs) = []
    \<and> all_placed (insert b Q \<union> set bs) (foldl (try_allocate limit al (\<lambda>_. None)) ?st bs)"
    using step Cons.prems(1) by (intro Cons.IH) auto
  then show ?case by simp
qed simp

lemma walk_packed:
  assumes "roomy limit al (set P)" "0 < al" "packed al (set P) st" "rejected_paired_buffers st = []"
    and "all_placed {b \<in> set P. start_time b \<notin> set ts} st"
  shows "all_placed (set P) (foldl (greedy_tick limit al (\<lambda>_. None) P) st ts)"
  using assms(3-)
proof (induction ts arbitrary: st)
  case (Cons t ts)
  let ?st1 = "foldl try_deallocate st (filter (\<lambda>b. end_time b = t) P)"
  let ?Q = "{b \<in> set P. start_time b \<notin> set (t # ts)}"
  have "placed_bytes al (set P) ?st1 = placed_bytes al (set P) st"
    by (simp add: placed_bytes_def deallocate_fold)
  then have "packed al (set P) ?st1" using Cons.prems(1) by (auto simp: packed_def deallocate_fold)
  moreover have "all_placed ?Q ?st1" using Cons.prems(3) by (simp add: all_placed_def deallocate_fold)
  moreover have "rejected_paired_buffers ?st1 = []" using Cons.prems(2) by (simp add: deallocate_fold)
  ultimately have "packed al (set P) (greedy_tick limit al (\<lambda>_. None) P st t)
    \<and> rejected_paired_buffers (greedy_tick limit al (\<lambda>_. None) P st t) = []
    \<and> all_placed (?Q \<union> set (filter (\<lambda>b. start_time b = t) P)) (greedy_tick limit al (\<lambda>_. None) P st t)"
    unfolding greedy_tick_def Let_def by (intro allocate_fold_packed [OF assms(1,2)]) auto
  moreover have "{b \<in> set P. start_time b \<notin> set ts} \<subseteq> ?Q \<union> set (filter (\<lambda>b. start_time b = t) P)" by auto
  ultimately show ?case using Cons.IH by (auto simp: all_placed_def)
qed (simp add: all_placed_def)

text \<open>
  The buffers that ask for a slot: nothing bars them from the scratchpad, tiled or not, and
  the smallest footprint they can have is not larger than it.
\<close>

definition wants_slot :: "int \<Rightarrow> LifetimeBoundBuffer \<Rightarrow> bool" where
  "wants_slot limit b \<longleftrightarrow> residency_reason b = None \<and> untiled_bar b = None \<and> min_footprint b \<le> limit"

lemma wants_slot_iff: "wants_slot limit b \<longleftrightarrow> excluded greedy_caps limit b = None"
  by (auto simp: wants_slot_def excluded_def greedy_caps_def split: option.splits)

text \<open>The walk over the placeable buffers of such an input gives each of them an address.\<close>

lemma greedy_walk_places:
  assumes "0 < al" "solver_input bufs" "check_in_place_relationships bufs = Inr ()"
    and "\<forall>b \<in> set bufs. buf_address b = None \<and> paired_with b = []"
    and "(\<Sum>b \<leftarrow> filter (wants_slot limit) bufs. round_up (buf_size b) al) \<le> limit"
    and "P = fst (partition_buffers greedy_caps limit bufs)"
    and "st = foldl (greedy_tick limit al (\<lambda>_. None) P) (greedy_init\<lparr>rejected_paired_buffers := []\<rparr>) (transition_times P)"
    and b: "b \<in> set (exclusion_pass limit bufs)"
  shows "b \<in> set P \<longleftrightarrow> spill_reason b = None" "addresses st (buf_name b) \<noteq> None \<longleftrightarrow> spill_reason b = None"
proof -
  have "wants_slot limit = (\<lambda>b. excluded greedy_caps limit b = None)" by (simp add: fun_eq_iff wants_slot_iff)
  note fits = assms(5) [unfolded this] and dst = solver_input_distinct [OF assms(2)]
  note ok = placeable_placeable_ok [OF assms(2,3), of greedy_caps limit, folded assms(6)]
  have P: "P = map (\<lambda>b. b\<lparr>spill_reason := None\<rparr>) (filter (\<lambda>b. excluded greedy_caps limit b = None) bufs)"
    unfolding assms(6) by (rule placeable_iff [OF dst])
  show PB: "b \<in> set P \<longleftrightarrow> spill_reason b = None"
    using b unfolding P exclusion_pass_def by (auto simp: image_iff)
  have "distinct (map buf_name P)" unfolding P using dst by (simp add: comp_def distinct_map_filter)
  then have "(\<Sum>b\<in>set P. round_up (buf_size b) al) = (\<Sum>b \<leftarrow> P. round_up (buf_size b) al)"
    by (simp add: sum_list_distinct_conv_sum_set distinct_map)
  also have "\<dots> \<le> limit" using fits by (simp add: P comp_def)
  finally have room: "roomy limit al (set P)" using ok by (simp add: roomy_def placeable_ok_def)
  have placed: "all_placed (set P) st"
    unfolding assms(7) by (rule walk_packed [OF room assms(1)])
      (auto simp: packed_def greedy_init_def all_placed_def transition_times_facts(2))
  have inv: "walk_inv limit al (set P) (\<lambda>_. None) [] [] st"
    unfolding assms(7) by (rule greedy_walked(1) [OF assms(1-3,6) greedy_runs(1) [OF assms(2-4,6) refl]])
  show "addresses st (buf_name b) \<noteq> None \<longleftrightarrow> spill_reason b = None"
  proof (cases "b \<in> set P")
    case True
    then show ?thesis using bspec [OF placed [unfolded all_placed_def]] by (simp add: PB)
  next
    case False
    then have "addresses st (buf_name b) = None" using walked_placeable [OF assms(2) inv ok assms(6) b] by argo
    then show ?thesis using False by (simp add: PB)
  qed
qed

text \<open>
  C31. When everything fits, everything is placed.  Take well-formed, unplanned buffers without
  paired groups whose in-place declarations pass the check, and suppose the aligned sizes of
  those that ask for a slot add up to at most the scratchpad.  Then the greedy solver returns,
  its result has the same buffers in the same order, and a buffer has an address in it exactly
  when it asked for a slot.
\<close>

theorem greedy_places_all:
  assumes "0 < al" "solver_input bufs" "check_in_place_relationships bufs = Inr ()"
    and "\<forall>b \<in> set bufs. buf_address b = None \<and> paired_with b = []"
    and "(\<Sum>b \<leftarrow> filter (wants_slot limit) bufs. round_up (buf_size b) al) \<le> limit"
  shows "\<exists>out. greedy_plan_layout limit al bufs = Inr out \<and> map buf_name out = map buf_name bufs \<and>
           map (\<lambda>b. buf_address b \<noteq> None) out = map (wants_slot limit) bufs"
proof -
  let ?P = "fst (partition_buffers greedy_caps limit bufs)" and ?B = "exclusion_pass limit bufs"
  let ?st = "foldl (greedy_tick limit al (\<lambda>_. None) ?P) (greedy_init\<lparr>rejected_paired_buffers := []\<rparr>)
     (transition_times ?P)"
  note runs = greedy_runs(2) [OF assms(2-4) refl refl, of limit al] and places = greedy_walk_places [OF assms refl refl]
  have none: "buf_address b = None" if "b \<in> set ?B" for b
    using that assms(4) by (auto simp: exclusion_pass_def)
  have reason: "map (\<lambda>b. spill_reason b = None) ?B = map (wants_slot limit) bufs"
    by (simp add: exclusion_pass_def wants_slot_iff)
  have names: "map buf_name ?B = map buf_name bufs" by (simp add: exclusion_pass_def)
  show ?thesis
  proof (cases "?P = []")
    case True
    then have "map (\<lambda>b. buf_address b \<noteq> None) ?B = map (\<lambda>b. spill_reason b = None) ?B"
      using places(1) none by (intro map_cong refl) simp
    then show ?thesis using runs True reason names by simp
  next
    case False
    let ?out = "map (\<lambda>b. b\<lparr>buf_address := addresses ?st (buf_name b)\<rparr>) ?B"
    have "map (\<lambda>b. addresses ?st (buf_name b) \<noteq> None) ?B = map (\<lambda>b. spill_reason b = None) ?B"
      by (intro map_cong refl) (rule places(2))
    then have "map (\<lambda>b. buf_address b \<noteq> None) ?out = map (wants_slot limit) bufs" using reason by (simp add: comp_def)
    moreover have "map buf_name ?out = map buf_name bufs" using names by (simp add: comp_def)
    ultimately show ?thesis using runs False by (intro exI [of _ ?out]) simp
  qed
qed

definition demo_unpaired :: "LifetimeBoundBuffer list" where
  "demo_unpaired = [demo_buffer ''a'' 200 [0, 2] [] [], demo_buffer ''b'' 128 [2, 4] [''a''] [],
     demo_buffer ''c'' 2000 [1, 3] [] []]"

theorem greedy_places_all_witness:
  "\<exists>out. greedy_plan_layout 1024 128 demo_unpaired = Inr out \<and> map buf_name out = map buf_name demo_unpaired \<and>
     map (\<lambda>b. buf_address b \<noteq> None) out = map (wants_slot 1024) demo_unpaired"
  by (rule greedy_places_all) code_simp+

end
