(* ===== verification/Gap_Solver.thy ===== *)
theory Gap_Solver
  imports Plan_Solver "HOL-Library.Multiset"
begin

text \<open>
  The first-fit and best-fit layout solvers,
  \<^verbatim>\<open>src/torch_spyre/_inductor/scratchpad/firstfit_bestfit_solver.py\<close>: a topological sort of
  the buffers by their in-place declarations, the free gaps of a buffer's lifetime, two gap
  policies and the placement loop they share.

  The loop is parameterised by the policy, the way the subclass overrides \<open>_pick_gap\<close>; the
  interface between the two is the locale \<open>gap_policy\<close>, and both policies interpret it.
  The priority of a buffer is a float quotient in the code and the exact rational here; no
  theorem depends on the order it gives, only on the sort being a permutation.
\<close>

section \<open>Topological sort\<close>

text \<open>\<open>name_to_idx\<close> as the comprehension builds it: the last index of a name wins.\<close>

definition name_to_idx :: "LifetimeBoundBuffer list \<Rightarrow> string \<Rightarrow> nat option" where
  "name_to_idx buffers n = find (\<lambda>i. buf_name (buffers ! i) = n) (rev [0..<length buffers])"

definition parent_idxs :: "LifetimeBoundBuffer list \<Rightarrow> nat \<Rightarrow> nat list" where
  "parent_idxs buffers i = List.map_filter (name_to_idx buffers) (in_place_parents (buffers ! i))"

definition topo_children :: "LifetimeBoundBuffer list \<Rightarrow> nat \<Rightarrow> nat list" where
  "topo_children buffers p =
     concat (map (\<lambda>i. map (\<lambda>_. i) (filter (\<lambda>q. q = p) (parent_idxs buffers i))) [0..<length buffers])"

definition topo_in_degree :: "LifetimeBoundBuffer list \<Rightarrow> int list" where
  "topo_in_degree buffers = map (\<lambda>i. int (length (parent_idxs buffers i))) [0..<length buffers]"

text \<open>The inner loop: one decrement per child, pushed when its degree reaches zero.\<close>

fun relax_children :: "(nat \<Rightarrow> int) \<Rightarrow> nat list \<Rightarrow> int list \<Rightarrow> (int \<times> nat) list \<Rightarrow> int list \<times> (int \<times> nat) list" where
  "relax_children key [] d heap = (d, heap)"
| "relax_children key (j # js) d heap =
     (let d' = d[j := d ! j - 1]
      in relax_children key js d' (if d' ! j = 0 then (key j, j) # heap else heap))"

text \<open>\<open>heapq.heappop\<close>: the least pair; no two entries are equal, so its value is determined.\<close>

definition heap_min :: "(int \<times> nat) list \<Rightarrow> int \<times> nat" where
  "heap_min heap = fold min (tl heap) (hd heap)"

definition heap_pop :: "(int \<times> nat) list \<Rightarrow> (int \<times> nat) list" where
  "heap_pop heap = remove1 (heap_min heap) heap"

definition relax_measure :: "int list \<Rightarrow> (int \<times> nat) list \<Rightarrow> nat" where
  "relax_measure d heap = length heap + (\<Sum>x \<leftarrow> d. nat x)"

lemma sum_list_update_nat:
  "j < length d \<Longrightarrow> (\<Sum>x \<leftarrow> d[j := v]. nat x) + nat (d ! j) = (\<Sum>x \<leftarrow> d. nat x) + nat v"
  by (induction d arbitrary: j) (auto split: nat.splits)

lemma relax_children_measure:
  "relax_children key js d heap = (d', heap') \<Longrightarrow> \<forall>j \<in> set js. j < length d \<Longrightarrow>
   relax_measure d' heap' \<le> relax_measure d heap"
proof (induction key js d heap rule: relax_children.induct)
  case (2 key j js d heap)
  let ?d = "d[j := d ! j - 1]"
  let ?h = "if ?d ! j = 0 then (key j, j) # heap else heap"
  have "relax_measure d' heap' \<le> relax_measure ?d ?h"
    using 2 by (simp add: Let_def)
  also have "\<dots> \<le> relax_measure d heap"
    using sum_list_update_nat [of j d "d ! j - 1"] "2.prems"(2) by (auto simp: relax_measure_def)
  finally show ?case .
qed simp

lemma heap_min_in: "heap \<noteq> [] \<Longrightarrow> heap_min heap \<in> set heap"
proof -
  have "fold min xs x \<in> insert x (set xs)" for xs and x :: "int \<times> nat"
  proof (induction xs arbitrary: x)
    case (Cons a xs)
    show ?case using Cons.IH [of "min a x"] by (auto simp: min_def split: if_splits)
  qed simp
  then show "heap \<noteq> [] \<Longrightarrow> heap_min heap \<in> set heap"
    by (cases heap) (auto simp: heap_min_def)
qed

lemma topo_children_less: "\<forall>j \<in> set (topo_children buffers i). j < length buffers"
  by (auto simp: topo_children_def)

text \<open>The while loop.  A degree list of another length than the buffers' does not occur.\<close>

function topo_loop ::
  "(nat \<Rightarrow> int) \<Rightarrow> LifetimeBoundBuffer list \<Rightarrow> int list \<Rightarrow> (int \<times> nat) list \<Rightarrow> nat list \<Rightarrow> nat list" where
  "topo_loop key buffers d heap res =
     (if heap = [] \<or> length d \<noteq> length buffers then res
      else
        (let i = snd (heap_min heap);
             (d', heap') = relax_children key (topo_children buffers i) d (heap_pop heap)
         in topo_loop key buffers d' heap' (res @ [i])))"
  by pat_completeness auto

termination
proof (relation "measure (\<lambda>(key, buffers, d, heap, res). relax_measure d heap)", goal_cases)
  case (2 key buffers d heap res i x d' heap')
  have "relax_measure d' heap' \<le> relax_measure d (heap_pop heap)"
    using 2 topo_children_less [of buffers i] by (intro relax_children_measure) auto
  moreover have "Suc (length (heap_pop heap)) = length heap"
    using 2(1) heap_min_in [of heap] by (auto simp: heap_pop_def length_remove1 neq_Nil_conv)
  ultimately show ?case by (simp add: relax_measure_def)
qed simp

declare topo_loop.simps [simp del]

definition topo_order :: "(LifetimeBoundBuffer \<Rightarrow> int) \<Rightarrow> LifetimeBoundBuffer list \<Rightarrow> nat list" where
  "topo_order f buffers =
     (let key = (\<lambda>i. f (buffers ! i));
          d = topo_in_degree buffers;
          heap = map (\<lambda>i. (key i, i)) (filter (\<lambda>i. d ! i = 0) [0..<length buffers])
      in topo_loop key buffers d heap [])"

definition topological_sort ::
  "(LifetimeBoundBuffer \<Rightarrow> int) \<Rightarrow> LifetimeBoundBuffer list \<Rightarrow> LifetimeBoundBuffer list result" where
  "topological_sort f buffers =
     (let res = map (\<lambda>i. buffers ! i) (topo_order f buffers)
      in if length res = length buffers then Inr res
         else Inl (AssertionError ''Cycle detected in in-place parent relationships''))"

section \<open>Gaps\<close>

record Gap =
  gap_start :: int
  gap_end :: int
  gap_parents :: "string list"

definition gap_of :: "int \<Rightarrow> int \<Rightarrow> Gap" where
  "gap_of a b = \<lparr>gap_start = a, gap_end = b, gap_parents = []\<rparr>"

definition gap_minus :: "int \<times> int \<Rightarrow> int \<Rightarrow> Gap \<Rightarrow> Gap list" where
  "gap_minus ivl minimum_size gap =
     (let a = gap_start gap; b = gap_end gap; (lo, hi) = ivl
      in (if a < lo then
            (if b < lo then (if b - a \<ge> minimum_size then [gap_of a b] else [])
             else (if lo - a \<ge> minimum_size then [gap_of a lo] else []))
          else [])
         @ (if b > hi then
              (if a > hi then (if b - a \<ge> minimum_size then [gap_of a b] else [])
               else (if b - hi \<ge> minimum_size then [gap_of hi b] else []))
            else []))"

definition all_minus :: "Gap list \<Rightarrow> int \<times> int \<Rightarrow> int \<Rightarrow> Gap list" where
  "all_minus gaps ivl minimum_size = concat (map (gap_minus ivl minimum_size) gaps)"

text \<open>Pass 1 of \<open>_build_gaps\<close>: subtract what is live during the buffer's lifetime.\<close>

fun subtract_placed ::
  "LifetimeBoundBuffer \<Rightarrow> string list \<Rightarrow> Gap list \<Rightarrow> LifetimeBoundBuffer list \<Rightarrow> Gap list" where
  "subtract_placed b parent_names gaps [] = gaps"
| "subtract_placed b parent_names gaps (other # rest) =
     (case buf_address other of
        None \<Rightarrow> subtract_placed b parent_names gaps rest
      | Some a \<Rightarrow>
          if buf_name other \<in> set parent_names then subtract_placed b parent_names gaps rest
          else if \<not> overlaps_in_time other b then subtract_placed b parent_names gaps rest
          else subtract_placed b parent_names
                 (all_minus gaps (a, a + buf_size other) (buf_size b)) rest)"

definition gap_reusable :: "LifetimeBoundBuffer list \<Rightarrow> Gap \<Rightarrow> string \<Rightarrow> bool" where
  "gap_reusable placed gap p =
     (case buf_by_name placed p of
        None \<Rightarrow> False
      | Some parent \<Rightarrow>
          (case buf_address parent of
             None \<Rightarrow> False
           | Some a \<Rightarrow> gap_start gap \<le> a \<and> a + buf_size parent \<le> gap_end gap))"

definition build_gaps ::
  "int \<Rightarrow> LifetimeBoundBuffer \<Rightarrow> LifetimeBoundBuffer list \<Rightarrow> bool \<Rightarrow> Gap list" where
  "build_gaps limit b placed reuse_in_place_parents =
     map (\<lambda>gap. gap\<lparr>gap_parents := gap_parents gap @ filter (gap_reusable placed gap) (in_place_parents b)\<rparr>)
       (subtract_placed b (if reuse_in_place_parents then in_place_parents b else [])
          [gap_of 0 limit] placed)"

text \<open>The two policies: the first gap that fits, and the one that leaves least over.\<close>

definition gap_fits :: "int \<Rightarrow> int \<Rightarrow> Gap \<Rightarrow> bool" where
  "gap_fits al sz gap = (round_up (gap_start gap) al + sz \<le> gap_end gap)"

fun pick_gap_first :: "int \<Rightarrow> int \<Rightarrow> Gap list \<Rightarrow> Gap option" where
  "pick_gap_first al sz [] = None"
| "pick_gap_first al sz (gap # gaps) =
     (if gap_fits al sz gap then Some gap else pick_gap_first al sz gaps)"

definition gap_waste :: "int \<Rightarrow> int \<Rightarrow> Gap \<Rightarrow> int" where
  "gap_waste al sz gap = gap_end gap - round_up (gap_start gap) al - sz"

fun best_gap_loop :: "int \<Rightarrow> int \<Rightarrow> Gap option \<Rightarrow> int \<Rightarrow> Gap list \<Rightarrow> Gap option" where
  "best_gap_loop al sz best_gap best_waste [] = best_gap"
| "best_gap_loop al sz best_gap best_waste (gap # gaps) =
     (if gap_fits al sz gap \<and> (best_gap = None \<or> gap_waste al sz gap < best_waste)
      then best_gap_loop al sz (Some gap) (gap_waste al sz gap) gaps
      else best_gap_loop al sz best_gap best_waste gaps)"

definition pick_gap_best :: "int \<Rightarrow> int \<Rightarrow> Gap list \<Rightarrow> Gap option" where
  "pick_gap_best al sz gaps = best_gap_loop al sz None 0 gaps"

section \<open>The placement loop\<close>

definition gap_caps :: Capabilities where
  "gap_caps = \<lparr>chooses_core_divisions = False, supports_paired_buffers = False,
     decides_lx_relayouts = False, generates_divisions = False, chooses_tilings = False,
     tilings_from_menu = False, linear_cost_only = False\<rparr>"

definition priority :: "string list \<Rightarrow> LifetimeBoundBuffer \<Rightarrow> rat \<times> int" where
  "priority parent_names b =
     (let spn = end_time b - start_time b;
          discount = (if in_place_parents b \<noteq> [] then 1/4 else 0)
                     + (if buf_name b \<in> set parent_names then 1/4 else 0);
          uses = of_nat (length (buf_uses b)) + (if first_use_is_read b then 0 else 1/2)
      in ((of_int spn - discount) / uses, spn))"

text \<open>
  One buffer: the gaps that hold a whole parent slot first, then the ordinary gaps.  The
  result is its address; \<open>addrs\<close> is \<open>names_to_addresses\<close>.
\<close>

definition choose_address ::
  "(int \<Rightarrow> int \<Rightarrow> Gap list \<Rightarrow> Gap option) \<Rightarrow> int \<Rightarrow> int \<Rightarrow> (string \<Rightarrow> int option) \<Rightarrow>
   LifetimeBoundBuffer list \<Rightarrow> LifetimeBoundBuffer \<Rightarrow> int option result" where
  "choose_address pick limit al addrs placed b =
     (case pick al (buf_size b) (filter (\<lambda>g. gap_parents g \<noteq> []) (build_gaps limit b placed True)) of
        Some gap \<Rightarrow>
          (case addrs (hd (gap_parents gap)) of
             None \<Rightarrow> Inl KeyError
           | Some a \<Rightarrow> Inr (Some a))
      | None \<Rightarrow>
          (case pick al (buf_size b) (build_gaps limit b placed False) of
             None \<Rightarrow> Inr None
           | Some gap \<Rightarrow> Inr (Some (round_up (gap_start gap) al))))"

fun gap_place_all ::
  "(int \<Rightarrow> int \<Rightarrow> Gap list \<Rightarrow> Gap option) \<Rightarrow> int \<Rightarrow> int \<Rightarrow> (string \<Rightarrow> int option) \<Rightarrow>
   LifetimeBoundBuffer list \<Rightarrow> LifetimeBoundBuffer list \<Rightarrow> (string \<Rightarrow> int option) result" where
  "gap_place_all pick limit al addrs placed [] = Inr addrs"
| "gap_place_all pick limit al addrs placed (b # bs) =
     (case choose_address pick limit al addrs placed b of
        Inl e \<Rightarrow> Inl e
      | Inr None \<Rightarrow> gap_place_all pick limit al addrs (placed @ [b]) bs
      | Inr (Some a) \<Rightarrow>
          gap_place_all pick limit al (addrs(buf_name b := Some a))
            (placed @ [b\<lparr>buf_address := Some a\<rparr>]) bs)"

definition gap_plan_layout ::
  "(int \<Rightarrow> int \<Rightarrow> Gap list \<Rightarrow> Gap option) \<Rightarrow> int \<Rightarrow> int \<Rightarrow>
   LifetimeBoundBuffer list \<Rightarrow> LifetimeBoundBuffer list result" where
  "gap_plan_layout pick limit al buffers =
     (if buffers = [] then Inr []
      else if list_ex (\<lambda>b. buf_address b \<noteq> None) buffers
        then Inl (AssertionError ''Buffers cannot be previously or partially planned'')
      else case check_in_place_relationships buffers of
        Inl e \<Rightarrow> Inl e
      | Inr _ \<Rightarrow>
          (let buffers' = fst (record_exclusions gap_caps limit buffers);
               placeable = fst (partition_buffers gap_caps limit buffers)
           in if list_ex (\<lambda>b. buf_uses b = []) placeable then Inl IndexError
              else
                (let filtered = filter (\<lambda>b. end_time b \<ge> start_time b + 1) placeable;
                     parent_names = concat (map in_place_parents filtered)
                 in case topological_sort (\<lambda>_. 0) (sort_key (priority parent_names) filtered) of
                      Inl e \<Rightarrow> Inl e
                    | Inr sorted_bufs \<Rightarrow>
                        (case gap_place_all pick limit al (\<lambda>_. None) [] sorted_bufs of
                           Inl e \<Rightarrow> Inl e
                         | Inr addrs \<Rightarrow>
                             Inr (map (\<lambda>b. b\<lparr>buf_address := addrs (buf_name b)\<rparr>) buffers')))))"

definition firstfit_plan_layout :: "int \<Rightarrow> int \<Rightarrow> LifetimeBoundBuffer list \<Rightarrow> LifetimeBoundBuffer list result" where
  "firstfit_plan_layout = gap_plan_layout pick_gap_first"

definition bestfit_plan_layout :: "int \<Rightarrow> int \<Rightarrow> LifetimeBoundBuffer list \<Rightarrow> LifetimeBoundBuffer list result" where
  "bestfit_plan_layout = gap_plan_layout pick_gap_best"

section \<open>The sort is a topological sort\<close>

lemma name_to_idx_Some: "name_to_idx bs n = Some i \<Longrightarrow> i < length bs \<and> buf_name (bs ! i) = n"
  unfolding name_to_idx_def find_Some_iff by (auto simp: rev_nth)

lemma name_to_idx_nth:
  assumes "distinct (map buf_name bs)" "i < length bs"
  shows "name_to_idx bs (buf_name (bs ! i)) = Some i"
proof -
  have "name_to_idx bs (buf_name (bs ! i)) \<noteq> None"
    using assms(2) by (auto simp: name_to_idx_def find_None_iff)
  then obtain j where j: "name_to_idx bs (buf_name (bs ! i)) = Some j" by blast
  then have "j < length bs" "map buf_name bs ! j = map buf_name bs ! i"
    using name_to_idx_Some [OF j] assms(2) by auto
  then show ?thesis using j assms nth_eq_iff_index_eq [OF assms(1)] by simp
qed

lemma parent_idxs_set:
  assumes "distinct (map buf_name bs)"
  shows "p \<in> set (parent_idxs bs i) \<longleftrightarrow> p < length bs \<and> buf_name (bs ! p) \<in> set (in_place_parents (bs ! i))"
proof -
  have "p \<in> set (parent_idxs bs i) \<longleftrightarrow> (\<exists>n \<in> set (in_place_parents (bs ! i)). name_to_idx bs n = Some p)"
    unfolding parent_idxs_def List.map_filter_def by force
  then show ?thesis using name_to_idx_Some [of bs _ p] name_to_idx_nth [OF assms, of p] by blast
qed

lemma count_topo_children:
  "k < length bs \<Longrightarrow> count_list (topo_children bs p) k = length (filter (\<lambda>q. q = p) (parent_idxs bs k))"
proof -
  have rep: "count_list (map (\<lambda>_. i) xs) k = (if i = k then length xs else 0)" for i k :: nat and xs :: "nat list"
    by (induction xs) auto
  have "count_list (concat (map (\<lambda>i. map (\<lambda>_. i) (g i)) [0..<n])) k = (if k < n then length (g k) else 0)"
    for g :: "nat \<Rightarrow> nat list" and n
    by (induction n) (auto simp: rep less_Suc_eq)
  then show "k < length bs \<Longrightarrow> ?thesis" by (simp add: topo_children_def)
qed

lemma relax_children_spec:
  "relax_children key js d heap = (d', heap') \<Longrightarrow>
   \<forall>j \<in> set js. j < length d \<and> int (count_list js j) \<le> d ! j \<and> j \<notin> snd ` set heap \<Longrightarrow>
   distinct (map snd heap) \<Longrightarrow>
   length d' = length d \<and> (\<forall>k < length d. d' ! k = d ! k - int (count_list js k)) \<and>
   snd ` set heap' = snd ` set heap \<union> {j \<in> set js. d ! j = int (count_list js j)} \<and> distinct (map snd heap')"
proof (induction key js d heap rule: relax_children.induct)
  case (2 key j js d heap)
  let ?d = "d[j := d ! j - 1]"
  let ?h = "if ?d ! j = 0 then (key j, j) # heap else heap"
  have j: "j < length d" "1 + int (count_list js j) \<le> d ! j" "j \<notin> snd ` set heap"
    using "2.prems"(2) by auto
  have c0: "j \<in> set js \<longleftrightarrow> count_list js j \<noteq> 0" by (simp add: count_list_0_iff)
  have pre: "\<forall>i \<in> set js. i < length ?d \<and> int (count_list js i) \<le> ?d ! i \<and> i \<notin> snd ` set ?h"
    using "2.prems"(2) j c0 by (auto simp: nth_list_update)
  have "distinct (map snd ?h)" using "2.prems"(3) j(3) by auto
  with "2.IH" [OF refl _ pre] "2.prems"(1)
  have ih: "length d' = length d" "\<forall>k < length d. d' ! k = ?d ! k - int (count_list js k)"
    "snd ` set heap' = snd ` set ?h \<union> {i \<in> set js. ?d ! i = int (count_list js i)}" "distinct (map snd heap')"
    by (simp_all add: Let_def)
  have "d' ! k = d ! k - int (count_list (j # js) k)" if "k < length d" for k
    using ih(2) that j(1) by (auto simp: nth_list_update)
  moreover have "snd ` set ?h \<union> {i \<in> set js. ?d ! i = int (count_list js i)}
      = snd ` set heap \<union> {i \<in> set (j # js). d ! i = int (count_list (j # js) i)}"
    using j c0 by (auto simp: nth_list_update)
  ultimately show ?case using ih by simp
qed simp

text \<open>The degree of \<open>k\<close> once the nodes of \<open>res\<close> are emitted, and the loop's invariant.\<close>

definition open_parents :: "LifetimeBoundBuffer list \<Rightarrow> nat list \<Rightarrow> nat \<Rightarrow> nat list" where
  "open_parents bs res k = filter (\<lambda>p. p \<notin> set res) (parent_idxs bs k)"

definition kahn_inv :: "LifetimeBoundBuffer list \<Rightarrow> int list \<Rightarrow> (int \<times> nat) list \<Rightarrow> nat list \<Rightarrow> bool" where
  "kahn_inv bs d heap res \<longleftrightarrow>
     length d = length bs \<and> (\<forall>k < length bs. d ! k = int (length (open_parents bs res k))) \<and>
     distinct (map snd heap) \<and> distinct res \<and> snd ` set heap \<inter> set res = {} \<and>
     snd ` set heap \<union> set res = {k. k < length bs \<and> open_parents bs res k = []} \<and>
     (\<forall>i < length res. set (parent_idxs bs (res ! i)) \<subseteq> set (take i res))"

lemma open_parents_step:
  "i \<notin> set res \<Longrightarrow> length (open_parents bs res k)
     = length (open_parents bs (res @ [i]) k) + length (filter (\<lambda>q. q = i) (parent_idxs bs k))"
proof -
  assume i: "i \<notin> set res"
  have "length (filter (\<lambda>p. p \<notin> set res) xs)
      = length (filter (\<lambda>p. p \<notin> set (res @ [i])) xs) + length (filter (\<lambda>q. q = i) xs)" for xs
    using i by (induction xs) auto
  then show ?thesis by (simp add: open_parents_def)
qed

lemma kahn_inv_step:
  assumes inv: "kahn_inv bs d heap res" and ne: "heap \<noteq> []"
    and i: "i = snd (heap_min heap)"
    and rel: "relax_children key (topo_children bs i) d (heap_pop heap) = (d', heap')"
  shows "kahn_inv bs d' heap' (res @ [i])"
proof -
  note I = inv [unfolded kahn_inv_def]
  have pop: "heap_min heap \<in> set heap" using heap_min_in [OF ne] .
  have dh: "distinct heap" using I by (metis distinct_map)
  have set_pop: "set (heap_pop heap) = set heap - {heap_min heap}"
    using dh by (simp add: heap_pop_def)
  have snd_pop: "snd ` set (heap_pop heap) = snd ` set heap - {i}"
    using I pop unfolding set_pop i distinct_map inj_on_def by auto
  have i_in: "i \<in> snd ` set heap" using pop i by blast
  have i: "i < length bs" "i \<notin> set res" "open_parents bs res i = []" using I i_in by auto
  let ?js = "topo_children bs i"
  have cnt: "length (open_parents bs res k) = length (open_parents bs (res @ [i]) k) + count_list ?js k"
    if "k < length bs" for k
    using open_parents_step [OF i(2)] count_topo_children [OF that] by simp
  have "\<forall>j \<in> set ?js. j < length d \<and> int (count_list ?js j) \<le> d ! j \<and> j \<notin> snd ` set (heap_pop heap)"
  proof
    fix j assume j: "j \<in> set ?js"
    then have jn: "j < length bs" using topo_children_less by blast
    have "count_list ?js j \<noteq> 0" using j by (simp add: count_list_0_iff)
    then have "open_parents bs res j \<noteq> []" using cnt [OF jn] by auto
    then have "j \<notin> snd ` set heap" using I by auto
    then show "j < length d \<and> int (count_list ?js j) \<le> d ! j \<and> j \<notin> snd ` set (heap_pop heap)"
      using jn I cnt [OF jn] snd_pop by auto
  qed
  moreover have "distinct (map snd (heap_pop heap))"
  proof -
    have "inj_on snd (set heap)" using I by (metis distinct_map)
    then have "inj_on snd (set (heap_pop heap))" by (rule inj_on_subset) (auto simp: set_pop)
    moreover have "distinct (heap_pop heap)" using dh by (simp add: heap_pop_def)
    ultimately show ?thesis by (simp add: distinct_map)
  qed
  ultimately have R: "length d' = length d" "\<forall>k < length d. d' ! k = d ! k - int (count_list ?js k)"
    "snd ` set heap' = snd ` set (heap_pop heap) \<union> {j \<in> set ?js. d ! j = int (count_list ?js j)}"
    "distinct (map snd heap')"
    using relax_children_spec [OF rel] by simp_all
  have deg: "\<forall>k < length bs. d' ! k = int (length (open_parents bs (res @ [i]) k))"
    using R(2) I cnt by auto
  have new: "{j \<in> set ?js. d ! j = int (count_list ?js j)}
      = {k. k < length bs \<and> open_parents bs res k \<noteq> [] \<and> open_parents bs (res @ [i]) k = []}" (is "?A = ?B")
  proof (intro set_eqI iffI)
    fix k assume "k \<in> ?A"
    then have k: "k \<in> set ?js" "d ! k = int (count_list ?js k)" "k < length bs"
      using topo_children_less by blast+
    then have "count_list ?js k \<noteq> 0" by (simp add: count_list_0_iff)
    then show "k \<in> ?B" using k I cnt [OF k(3)] by auto
  next
    fix k assume "k \<in> ?B"
    then have k: "k < length bs" "open_parents bs res k \<noteq> []" "open_parents bs (res @ [i]) k = []" by auto
    then have "count_list ?js k \<noteq> 0" using cnt [OF k(1)] by (metis add_0_right length_0_conv)
    then have "k \<in> set ?js" by (simp add: count_list_0_iff)
    then show "k \<in> ?A" using k I cnt [OF k(1)] by auto
  qed
  have mono: "open_parents bs (res @ [i]) k = []" if "open_parents bs res k = []" for k
    using that by (auto simp: open_parents_def filter_empty_conv)
  have "snd ` set heap' \<union> set (res @ [i]) = {k. k < length bs \<and> open_parents bs (res @ [i]) k = []}"
  proof -
    have "snd ` set heap \<union> set res = {k. k < length bs \<and> open_parents bs res k = []}" using I by blast
    then have "snd ` set heap' \<union> set (res @ [i]) = {k. k < length bs \<and> open_parents bs res k = []}
        \<union> {k. k < length bs \<and> open_parents bs res k \<noteq> [] \<and> open_parents bs (res @ [i]) k = []}"
      using i_in unfolding R(3) snd_pop new by auto
    then show ?thesis using mono by auto
  qed
  moreover have "snd ` set heap' \<inter> set (res @ [i]) = {}"
    using I i unfolding R(3) snd_pop new by auto
  moreover have "\<forall>k < length (res @ [i]). set (parent_idxs bs ((res @ [i]) ! k)) \<subseteq> set (take k (res @ [i]))"
    using I i(3) by (auto simp: nth_append less_Suc_eq open_parents_def filter_empty_conv)
  ultimately show ?thesis
    unfolding kahn_inv_def using R(1,4) deg I i(2) by simp
qed

lemma topo_loop_inv:
  "kahn_inv bs d heap res \<Longrightarrow> \<exists>d'. kahn_inv bs d' [] (topo_loop key bs d heap res)"
proof (induction key bs d heap res rule: topo_loop.induct)
  case (1 key bs d heap res)
  show ?case
  proof (cases "heap = []")
    case True
    then have "topo_loop key bs d heap res = res" by (simp add: topo_loop.simps)
    then show ?thesis using "1.prems" True by auto
  next
    case False
    have len: "length d = length bs" using "1.prems" by (simp add: kahn_inv_def)
    obtain d' heap' where r: "relax_children key (topo_children bs (snd (heap_min heap))) d (heap_pop heap) = (d', heap')"
      by fastforce
    have "kahn_inv bs d' heap' (res @ [snd (heap_min heap)])"
      by (rule kahn_inv_step [OF "1.prems" False refl r])
    then have "\<exists>d''. kahn_inv bs d'' [] (topo_loop key bs d' heap' (res @ [snd (heap_min heap)]))"
      using False len r by (intro "1.IH") auto
    moreover have "topo_loop key bs d heap res = topo_loop key bs d' heap' (res @ [snd (heap_min heap)])"
      using False len r by (subst topo_loop.simps) (simp add: Let_def)
    ultimately show ?thesis by simp
  qed
qed


lemma kahn_inv_init:
  "kahn_inv bs (topo_in_degree bs)
     (map (\<lambda>i. (key i, i)) (filter (\<lambda>i. topo_in_degree bs ! i = 0) [0..<length bs])) []"
  by (auto simp: kahn_inv_def topo_in_degree_def open_parents_def comp_def image_iff)

lemma topo_order_facts:
  "distinct (topo_order f bs)"
  "set (topo_order f bs) = {k. k < length bs \<and> open_parents bs (topo_order f bs) k = []}"
  "i < length (topo_order f bs) \<Longrightarrow>
     set (parent_idxs bs (topo_order f bs ! i)) \<subseteq> set (take i (topo_order f bs))"
proof -
  obtain d' where "kahn_inv bs d' [] (topo_order f bs)"
    using topo_loop_inv [OF kahn_inv_init [where key = "\<lambda>i. f (bs ! i)"], where key = "\<lambda>i. f (bs ! i)"]
    unfolding topo_order_def Let_def by blast
  then show "distinct (topo_order f bs)"
    "set (topo_order f bs) = {k. k < length bs \<and> open_parents bs (topo_order f bs) k = []}"
    "i < length (topo_order f bs) \<Longrightarrow>
       set (parent_idxs bs (topo_order f bs ! i)) \<subseteq> set (take i (topo_order f bs))"
    by (simp_all add: kahn_inv_def)
qed

lemma mset_map_nth_perm: "distinct res \<Longrightarrow> set res = {..<length xs} \<Longrightarrow> mset (map (\<lambda>i. xs ! i) res) = mset xs"
proof -
  assume "distinct res" "set res = {..<length xs}"
  then have "mset res = mset [0..<length xs]"
    by (intro set_eq_iff_mset_eq_distinct [THEN iffD1]) (auto simp: atLeast0LessThan)
  then have "mset (map (\<lambda>i. xs ! i) res) = mset (map (\<lambda>i. xs ! i) [0..<length xs])" by (simp add: mset_map)
  then show ?thesis by (simp add: map_nth)
qed

lemma topological_sort_Inr:
  assumes "topological_sort f bs = Inr out"
  shows "out = map (\<lambda>i. bs ! i) (topo_order f bs)" "set (topo_order f bs) = {..<length bs}"
proof -
  note t = topo_order_facts(1,2) [of f bs]
  have out: "length (topo_order f bs) = length bs" "out = map (\<lambda>i. bs ! i) (topo_order f bs)"
    using assms by (auto simp: topological_sort_def Let_def split: if_splits)
  then show "out = map (\<lambda>i. bs ! i) (topo_order f bs)" by blast
  have "set (topo_order f bs) \<subseteq> {..<length bs}" using t(2) by blast
  then show "set (topo_order f bs) = {..<length bs}"
    using out(1) distinct_card [OF t(1)] by (intro card_subset_eq) auto
qed

lemma topological_sort_perm: "topological_sort f bs = Inr out \<Longrightarrow> mset out = mset bs"
  using topological_sort_Inr [of f bs out] mset_map_nth_perm [OF topo_order_facts(1)] by simp

text \<open>The sort cannot get stuck when starts decrease along chains of declared parents.\<close>

lemma topological_sort_succeeds:
  assumes "distinct (map buf_name bs)" "placeable_ok (set bs)"
  shows "\<exists>out. topological_sort f bs = Inr out"
proof -
  define res where "res = topo_order f bs"
  note t = topo_order_facts(1,2) [of f bs, folded res_def]
  let ?L = "{k. k < length bs \<and> k \<notin> set res}"
  have "?L = {}"
  proof (rule ccontr)
    assume "?L \<noteq> {}"
    define k where "k = arg_min_on (\<lambda>k. start_time (bs ! k)) ?L"
    have "finite ?L" by simp
    note m = arg_min_if_finite [OF this \<open>?L \<noteq> {}\<close>, of "\<lambda>k. start_time (bs ! k)", folded k_def]
    have k: "k \<in> ?L" by (rule m(1))
    have least: "start_time (bs ! k) \<le> start_time (bs ! j)" if "j \<in> ?L" for j
      using m(2) that by (meson linorder_not_less)
    from k have "open_parents bs res k \<noteq> []" using t(2) by auto
    then obtain p where p: "p \<in> set (parent_idxs bs k)" "p \<notin> set res"
      by (auto simp: open_parents_def filter_empty_conv)
    have p': "p < length bs" "buf_name (bs ! p) \<in> set (in_place_parents (bs ! k))"
      using p(1) parent_idxs_set [OF assms(1)] by blast+
    then have "open_parents bs res p \<noteq> []" using t(2) p(2) by auto
    then obtain q where "q \<in> set (parent_idxs bs p)" by (auto simp: open_parents_def filter_empty_conv)
    then have "in_place_parents (bs ! p) \<noteq> []" using parent_idxs_set [OF assms(1)] by fastforce
    then have "start_time (bs ! p) < start_time (bs ! k)"
      using assms(2) p' k unfolding placeable_ok_def by fastforce
    then show False using least [of p] p(2) p'(1) by auto
  qed
  then have "set res = {..<length bs}" using t(2) by blast
  then have "length res = length bs" using t(1) by (metis card_lessThan distinct_card)
  then show ?thesis by (simp add: topological_sort_def Let_def res_def)
qed


section \<open>Gaps are exactly the free space\<close>

lemma gap_of_simps [simp]:
  "gap_start (gap_of a b) = a" "gap_end (gap_of a b) = b" "gap_parents (gap_of a b) = []"
  by (simp_all add: gap_of_def)

text \<open>\<open>gap_holds g x n\<close>: the block \<open>[x, x + n)\<close> lies in the gap.\<close>

definition gap_holds :: "Gap \<Rightarrow> int \<Rightarrow> int \<Rightarrow> bool" where
  [interval_simps]: "gap_holds g x n \<longleftrightarrow> gap_start g \<le> x \<and> x + n \<le> gap_end g"

lemma gap_minus_sound:
  assumes "g' \<in> set (gap_minus (lo, hi) m g)" "lo \<le> hi"
  shows "gap_start g \<le> gap_start g' \<and> gap_end g' \<le> gap_end g \<and> (gap_end g' \<le> lo \<or> hi \<le> gap_start g')
    \<and> gap_parents g' = []"
  using assms by (auto simp: gap_minus_def Let_def split: if_splits)

lemma gap_minus_complete:
  assumes "gap_holds g x n" "ivl_disjoint x n lo (hi - lo)" "0 < n" "m \<le> n"
  shows "\<exists>g' \<in> set (gap_minus (lo, hi) m g). gap_holds g' x n"
  using assms by (auto simp: gap_minus_def Let_def interval_simps)

lemma all_minus_sound:
  assumes "g' \<in> set (all_minus gaps (lo, hi) m)" "gap_holds g' x n" "lo \<le> hi"
  shows "\<exists>g \<in> set gaps. gap_holds g x n" "ivl_disjoint x n lo (hi - lo)"
proof -
  obtain g where g: "g \<in> set gaps" "g' \<in> set (gap_minus (lo, hi) m g)"
    using assms(1) by (auto simp: all_minus_def)
  note m = gap_minus_sound [OF g(2) assms(3)]
  then show "\<exists>g \<in> set gaps. gap_holds g x n" using g(1) assms(2) by (auto simp: interval_simps intro!: bexI [of _ g])
  show "ivl_disjoint x n lo (hi - lo)" using m assms(2) by (auto simp: interval_simps)
qed

lemma all_minus_complete:
  assumes "g \<in> set gaps" "gap_holds g x n" "ivl_disjoint x n lo (hi - lo)" "0 < n" "m \<le> n"
  shows "\<exists>g' \<in> set (all_minus gaps (lo, hi) m). gap_holds g' x n"
  using gap_minus_complete [OF assms(2-)] assms(1) by (auto simp: all_minus_def)

text \<open>A block is in conflict with the placed buffers that are live with \<open>b\<close>, but \<open>skip\<close>.\<close>

definition block_free :: "LifetimeBoundBuffer \<Rightarrow> string list \<Rightarrow> LifetimeBoundBuffer list \<Rightarrow> int \<Rightarrow> int \<Rightarrow> bool" where
  "block_free b skip placed x n \<longleftrightarrow>
     (\<forall>other \<in> set placed. \<forall>a. buf_address other = Some a \<longrightarrow> buf_name other \<notin> set skip \<longrightarrow>
        overlaps_in_time other b \<longrightarrow> ivl_disjoint x n a (buf_size other))"

lemma block_free_Cons:
  "block_free b skip (other # rest) x n \<longleftrightarrow> block_free b skip rest x n \<and>
     (\<forall>a. buf_address other = Some a \<longrightarrow> buf_name other \<notin> set skip \<longrightarrow>
        overlaps_in_time other b \<longrightarrow> ivl_disjoint x n a (buf_size other))"
  by (auto simp: block_free_def)

text \<open>The recursion skips a placed buffer or subtracts its block; nothing else.\<close>

lemma subtract_placed_cases:
  obtains "subtract_placed b skip gaps (other # rest) = subtract_placed b skip gaps rest"
      "\<And>x n. block_free b skip (other # rest) x n \<longleftrightarrow> block_free b skip rest x n"
  | a where "subtract_placed b skip gaps (other # rest)
        = subtract_placed b skip (all_minus gaps (a, a + buf_size other) (buf_size b)) rest"
      "\<And>x n. block_free b skip (other # rest) x n \<longleftrightarrow>
         block_free b skip rest x n \<and> ivl_disjoint x n a (buf_size other)"
proof (cases "buf_address other = None \<or> buf_name other \<in> set skip \<or> \<not> overlaps_in_time other b")
  case True
  then show ?thesis using that(1) by (auto simp: block_free_Cons split: option.splits)
next
  case False
  then show ?thesis using that(2) by (auto simp: block_free_Cons)
qed

lemma subtract_placed_sound:
  assumes "g' \<in> set (subtract_placed b skip gaps placed)" "gap_holds g' x n" "\<forall>other \<in> set placed. 0 \<le> buf_size other"
  shows "(\<exists>g \<in> set gaps. gap_holds g x n) \<and> block_free b skip placed x n"
  using assms
proof (induction placed arbitrary: gaps)
  case Nil
  then show ?case by (auto simp: block_free_def)
next
  case (Cons other rest)
  show ?case
  proof (rule subtract_placed_cases [of b skip gaps other rest])
    fix a assume eq: "subtract_placed b skip gaps (other # rest)
        = subtract_placed b skip (all_minus gaps (a, a + buf_size other) (buf_size b)) rest"
      and bf: "\<And>x n. block_free b skip (other # rest) x n \<longleftrightarrow>
         block_free b skip rest x n \<and> ivl_disjoint x n a (buf_size other)"
    from Cons.IH [of "all_minus gaps (a, a + buf_size other) (buf_size b)"] Cons.prems eq
    obtain g where g: "g \<in> set (all_minus gaps (a, a + buf_size other) (buf_size b))" "gap_holds g x n"
      and rest: "block_free b skip rest x n" by auto
    have sz: "a \<le> a + buf_size other" using Cons.prems(3) by simp
    have "ivl_disjoint x n a (buf_size other)" using all_minus_sound(2) [OF g sz] by simp
    then show ?thesis using all_minus_sound(1) [OF g sz] rest bf by blast
  next
    assume eq: "subtract_placed b skip gaps (other # rest) = subtract_placed b skip gaps rest"
      and bf: "\<And>x n. block_free b skip (other # rest) x n \<longleftrightarrow> block_free b skip rest x n"
    have "(\<exists>g \<in> set gaps. gap_holds g x n) \<and> block_free b skip rest x n"
      using Cons.prems eq by (intro Cons.IH) auto
    then show ?thesis unfolding bf .
  qed
qed

lemma subtract_placed_complete:
  assumes "g \<in> set gaps" "gap_holds g x (buf_size b)" "block_free b skip placed x (buf_size b)" "0 < buf_size b"
  shows "\<exists>g' \<in> set (subtract_placed b skip gaps placed). gap_holds g' x (buf_size b)"
  using assms
proof (induction placed arbitrary: gaps g)
  case (Cons other rest)
  show ?case
  proof (rule subtract_placed_cases [of b skip gaps other rest])
    fix a assume eq: "subtract_placed b skip gaps (other # rest)
        = subtract_placed b skip (all_minus gaps (a, a + buf_size other) (buf_size b)) rest"
      and bf: "\<And>x n. block_free b skip (other # rest) x n \<longleftrightarrow>
         block_free b skip rest x n \<and> ivl_disjoint x n a (buf_size other)"
    have "ivl_disjoint x (buf_size b) a (a + buf_size other - a)" using Cons.prems(3) bf by simp
    from all_minus_complete [OF Cons.prems(1,2) this Cons.prems(4) order_refl]
    obtain g' where "g' \<in> set (all_minus gaps (a, a + buf_size other) (buf_size b))" "gap_holds g' x (buf_size b)"
      by blast
    then show ?thesis unfolding eq using Cons.prems(3,4) bf by (intro Cons.IH) auto
  next
    assume "subtract_placed b skip gaps (other # rest) = subtract_placed b skip gaps rest"
      and "\<And>x n. block_free b skip (other # rest) x n \<longleftrightarrow> block_free b skip rest x n"
    then show ?thesis using Cons.IH [OF Cons.prems(1,2)] Cons.prems(3,4) by simp
  qed
qed auto

lemma subtract_placed_parents:
  "g' \<in> set (subtract_placed b skip gaps placed) \<Longrightarrow> \<forall>g \<in> set gaps. gap_parents g = [] \<Longrightarrow> gap_parents g' = []"
proof (induction b skip gaps placed rule: subtract_placed.induct)
  case (2 b skip gaps other rest)
  have all: "\<forall>g \<in> set (all_minus gaps ivl n). gap_parents g = []" for ivl n
    by (cases ivl) (auto simp: all_minus_def gap_minus_def Let_def split: if_splits)
  show ?case using 2 all by (auto split: option.splits if_splits)
qed simp

text \<open>What \<open>build_gaps\<close> returns.\<close>

lemma build_gaps_sound:
  assumes "g \<in> set (build_gaps limit b placed reuse)" "gap_holds g x n" "\<forall>other \<in> set placed. 0 \<le> buf_size other"
  shows "0 \<le> x" "x + n \<le> limit" "block_free b (if reuse then in_place_parents b else []) placed x n"
    and "gap_parents g = filter (gap_reusable placed g) (in_place_parents b)"
proof -
  let ?skip = "if reuse then in_place_parents b else []"
  obtain g0 where g0: "g0 \<in> set (subtract_placed b ?skip [gap_of 0 limit] placed)"
    "g = g0\<lparr>gap_parents := gap_parents g0 @ filter (gap_reusable placed g0) (in_place_parents b)\<rparr>"
    using assms(1) by (auto simp: build_gaps_def)
  have "gap_holds g0 x n" using assms(2) g0(2) by (simp add: gap_holds_def)
  from subtract_placed_sound [OF g0(1) this assms(3)]
  show "0 \<le> x" "x + n \<le> limit" "block_free b ?skip placed x n" by (auto simp: interval_simps)
  have "gap_reusable placed g = gap_reusable placed g0"
    using g0(2) by (auto simp: gap_reusable_def fun_eq_iff split: option.splits)
  then show "gap_parents g = filter (gap_reusable placed g) (in_place_parents b)"
    using subtract_placed_parents [OF g0(1)] g0(2) by simp
qed

lemma build_gaps_complete:
  assumes "0 \<le> x" "x + buf_size b \<le> limit" "0 < buf_size b"
    and "block_free b (if reuse then in_place_parents b else []) placed x (buf_size b)"
  shows "\<exists>g \<in> set (build_gaps limit b placed reuse). gap_holds g x (buf_size b)"
proof -
  have "gap_holds (gap_of 0 limit) x (buf_size b)" using assms by (simp add: gap_holds_def)
  from subtract_placed_complete [OF _ this assms(4,3), of "[gap_of 0 limit]"]
  show ?thesis by (auto simp: build_gaps_def gap_holds_def)
qed

section \<open>The loop over any gap policy\<close>

text \<open>
  The invariant of the loop: the placed buffers are the processed ones, their layout is
  safe, and \<open>names_to_addresses\<close> mirrors their addresses.
\<close>

definition loop_inv :: "int \<Rightarrow> int \<Rightarrow> LifetimeBoundBuffer set \<Rightarrow> (string \<Rightarrow> int option) \<Rightarrow> LifetimeBoundBuffer list \<Rightarrow> bool" where
  "loop_inv limit al P addrs placed \<longleftrightarrow>
     (\<forall>b \<in> set placed. b\<lparr>buf_address := None\<rparr> \<in> P) \<and> distinct (map buf_name placed) \<and>
     safe_layout limit al placed \<and>
     (\<forall>b \<in> set placed. addrs (buf_name b) = buf_address b) \<and>
     (\<forall>n. addrs n \<noteq> None \<longrightarrow> n \<in> buf_name ` set placed)"

lemma loop_inv_facts:
  assumes "loop_inv limit al P addrs placed" "placeable_ok P" "b \<in> set placed"
  shows "start_time b < end_time b" "0 \<le> buf_size b"
    and "c \<in> P \<Longrightarrow> buf_name b \<in> set (in_place_parents c) \<Longrightarrow>
           end_time b = start_time c + 1 \<and> buf_size c \<le> buf_size b \<and> (in_place_parents b \<noteq> [] \<longrightarrow> start_time b + 1 < end_time b)"
proof -
  let ?b = "b\<lparr>buf_address := None\<rparr>"
  have P: "?b \<in> P" using assms(1,3) by (simp add: loop_inv_def)
  then show "start_time b < end_time b" "0 \<le> buf_size b"
    using assms(2) by (auto simp: placeable_ok_def dest!: bspec [of P _ ?b])
  show "end_time b = start_time c + 1 \<and> buf_size c \<le> buf_size b \<and> (in_place_parents b \<noteq> [] \<longrightarrow> start_time b + 1 < end_time b)"
    if "c \<in> P" "buf_name b \<in> set (in_place_parents c)"
    using assms(2) [unfolded placeable_ok_def, THEN conjunct2, THEN conjunct2, rule_format, OF that(1) P]
      that(2) by auto
qed

lemma safe_layout_snoc:
  assumes "safe_layout limit al placed" "in_bounds limit al b"
    and "\<And>c. c \<in> set placed \<Longrightarrow> overlaps_in_time c b \<Longrightarrow> addr_disjoint b c \<or> handed_over b c"
  shows "safe_layout limit al (placed @ [b])"
  using assms addr_disjoint_sym overlaps_in_time_sym unfolding safe_layout_def by fastforce

lemma loop_inv_snoc:
  assumes inv: "loop_inv limit al P addrs placed" and b: "b \<in> P" "buf_address b = None" "buf_name b \<notin> buf_name ` set placed"
    and safe: "safe_layout limit al (placed @ [b\<lparr>buf_address := r\<rparr>])"
  shows "loop_inv limit al P (addrs(buf_name b := r)) (placed @ [b\<lparr>buf_address := r\<rparr>])"
proof -
  have "b\<lparr>buf_address := None\<rparr> = b" using b(2) by simp
  moreover have "\<forall>c \<in> set placed. buf_name c \<noteq> buf_name b" using b(3) by (metis imageI)
  ultimately show ?thesis using inv b(1) safe by (auto simp: loop_inv_def)
qed

text \<open>Two parents of one child are live together, so neither sits on the other's slot.\<close>

lemma parents_disjoint:
  assumes inv: "loop_inv limit al P addrs placed" and ok: "placeable_ok P" and c: "c \<in> P"
    and p: "p \<in> set placed" "buf_name p \<in> set (in_place_parents c)"
    and q: "q \<in> set placed" "buf_name q \<in> set (in_place_parents c)" "buf_name p \<noteq> buf_name q"
  shows "addr_disjoint p q"
proof -
  note fp = loop_inv_facts [OF inv ok p(1)] and fq = loop_inv_facts [OF inv ok q(1)]
  have same: "end_time p = end_time q" using fp(3) [OF c p(2)] fq(3) [OF c q(2)] by simp
  have "overlaps_in_time p q" using same fp(1) fq(1) by (simp add: overlaps_in_time_def)
  then have "addr_disjoint p q \<or> handed_over p q \<or> handed_over q p"
    using inv p(1) q(1,3) by (auto simp: loop_inv_def safe_layout_def)
  moreover have "\<not> handed_over p q" "\<not> handed_over q p"
    using fp(3) [OF c p(2)] fq(3) [OF c q(2)] same by (auto simp: handed_over_def)
  ultimately show ?thesis by blast
qed

locale gap_policy =
  fixes pick :: "int \<Rightarrow> int \<Rightarrow> Gap list \<Rightarrow> Gap option"
  assumes pick_fits: "pick al n gaps = Some g \<Longrightarrow> g \<in> set gaps \<and> gap_fits al n g"
    and pick_none: "pick al n gaps = None \<Longrightarrow> g \<in> set gaps \<Longrightarrow> \<not> gap_fits al n g"
begin

text \<open>Taking over a parent's slot.\<close>

lemma choose_in_place:
  assumes inv: "loop_inv limit al P addrs placed" and ok: "placeable_ok P" and al: "0 < al" and b: "b \<in> P"
    and gap: "pick al (buf_size b) (filter (\<lambda>g. gap_parents g \<noteq> []) (build_gaps limit b placed True)) = Some g"
  shows "\<exists>a. addrs (hd (gap_parents g)) = Some a \<and> safe_layout limit al (placed @ [b\<lparr>buf_address := Some a\<rparr>])"
proof -
  have sz: "\<forall>other \<in> set placed. 0 \<le> buf_size other" using loop_inv_facts(2) [OF inv ok] by blast
  have g: "g \<in> set (build_gaps limit b placed True)" "gap_parents g \<noteq> []" "gap_fits al (buf_size b) g"
    using pick_fits [OF gap] by auto
  let ?n = "hd (gap_parents g)"
  have any: "gap_holds g (round_up (gap_start g) al) (buf_size b)"
    using g(3) round_up_ge [OF al] by (simp add: gap_fits_def gap_holds_def)
  have "?n \<in> set (gap_parents g)" using g(2) by simp
  then have n: "?n \<in> set (in_place_parents b)" "gap_reusable placed g ?n"
    using build_gaps_sound(4) [OF g(1) any sz] by auto
  then obtain p a where pa: "buf_by_name placed ?n = Some p" "buf_address p = Some a"
      "gap_start g \<le> a" "a + buf_size p \<le> gap_end g"
    by (auto simp: gap_reusable_def split: option.splits)
  have p: "p \<in> set placed" "buf_name p = ?n"
    using pa(1) unfolding buf_by_name_def by (metis (mono_tags, lifting) find_Some_iff nth_mem set_rev)+
  have fp: "end_time p = start_time b + 1" "buf_size b \<le> buf_size p"
    using loop_inv_facts(3) [OF inv ok p(1) b] n(1) p(2) by simp_all
  have ap: "addrs ?n = Some a" using inv p pa(2) by (auto simp: loop_inv_def)
  have pb: "in_bounds limit al p" using inv p(1) by (simp add: loop_inv_def safe_layout_def)
  let ?b = "b\<lparr>buf_address := Some a\<rparr>"
  have hold: "gap_holds g a (buf_size b)" using pa(3,4) fp(2) by (simp add: gap_holds_def)
  have free: "block_free b (in_place_parents b) placed a (buf_size b)"
    using build_gaps_sound(3) [OF g(1) hold sz] by simp
  have "safe_layout limit al (placed @ [?b])"
  proof (rule safe_layout_snoc)
    show "safe_layout limit al placed" using inv by (simp add: loop_inv_def)
    show "in_bounds limit al ?b" using pb pa(2) fp(2) by (auto simp: in_bounds_def)
    fix c assume c: "c \<in> set placed" "overlaps_in_time c ?b"
    consider "c = p" | "buf_name c \<noteq> buf_name p" "buf_name c \<in> set (in_place_parents b)"
      | "buf_name c \<notin> set (in_place_parents b)"
      using c(1) p(1) inv by (auto simp: loop_inv_def distinct_map inj_on_def)
    then show "addr_disjoint ?b c \<or> handed_over ?b c"
    proof cases
      case 1
      then show ?thesis using pa(2) fp n(1) p(2) by (simp add: handed_over_def)
    next
      case 2
      have "addr_disjoint p c"
        using parents_disjoint [OF inv ok b p(1) _ c(1) 2(2)] n(1) p(2) 2(1) by simp
      then show ?thesis using pa(2) fp(2) by (auto simp: addr_disjoint_def intro: ivl_disjoint_sub)
    next
      case 3
      then show ?thesis using free c by (auto simp: block_free_def addr_disjoint_def)
    qed
  qed
  then show ?thesis using ap by blast
qed

lemma choose_ordinary:
  assumes inv: "loop_inv limit al P addrs placed" and ok: "placeable_ok P" and al: "0 < al"
    and gap: "pick al (buf_size b) (build_gaps limit b placed False) = Some g"
  shows "safe_layout limit al (placed @ [b\<lparr>buf_address := Some (round_up (gap_start g) al)\<rparr>])"
proof -
  have sz: "\<forall>other \<in> set placed. 0 \<le> buf_size other" using loop_inv_facts(2) [OF inv ok] by blast
  have g: "g \<in> set (build_gaps limit b placed False)" "gap_fits al (buf_size b) g" using pick_fits [OF gap] by auto
  let ?a = "round_up (gap_start g) al"
  have hold: "gap_holds g ?a (buf_size b)"
    using g(2) round_up_ge [OF al] by (simp add: gap_fits_def gap_holds_def)
  note s = build_gaps_sound [OF g(1) hold sz]
  show ?thesis
  proof (rule safe_layout_snoc)
    show "safe_layout limit al placed" using inv by (simp add: loop_inv_def)
    show "in_bounds limit al (b\<lparr>buf_address := Some ?a\<rparr>)" using s by (simp add: in_bounds_def)
    show "addr_disjoint (b\<lparr>buf_address := Some ?a\<rparr>) c \<or> handed_over (b\<lparr>buf_address := Some ?a\<rparr>) c"
      if "c \<in> set placed" "overlaps_in_time c (b\<lparr>buf_address := Some ?a\<rparr>)" for c
      using s(3) that by (auto simp: block_free_def addr_disjoint_def)
  qed
qed

lemma choose_address_inv:
  assumes inv: "loop_inv limit al P addrs placed" and ok: "placeable_ok P" and al: "0 < al"
    and b: "b \<in> P" "buf_address b = None" "buf_name b \<notin> buf_name ` set placed"
  shows "\<exists>r. choose_address pick limit al addrs placed b = Inr r \<and>
           loop_inv limit al P (addrs(buf_name b := r)) (placed @ [b\<lparr>buf_address := r\<rparr>])"
proof -
  have safe: "\<exists>r. choose_address pick limit al addrs placed b = Inr r \<and>
      safe_layout limit al (placed @ [b\<lparr>buf_address := r\<rparr>])"
  proof (cases "pick al (buf_size b) (filter (\<lambda>g. gap_parents g \<noteq> []) (build_gaps limit b placed True))")
    case (Some g)
    then show ?thesis using choose_in_place [OF inv ok al b(1) Some] by (auto simp: choose_address_def)
  next
    case none: None
    show ?thesis
    proof (cases "pick al (buf_size b) (build_gaps limit b placed False)")
      case (Some g)
      then show ?thesis using none choose_ordinary [OF inv ok al Some] by (auto simp: choose_address_def)
    next
      case None
      have "safe_layout limit al (placed @ [b])"
        by (rule safe_layout_snoc) (use inv b(2) in \<open>auto simp: loop_inv_def in_bounds_def addr_disjoint_def\<close>)
      moreover have "b\<lparr>buf_address := None\<rparr> = b" using b(2) by simp
      ultimately show ?thesis using none None by (auto simp: choose_address_def)
    qed
  qed
  then show ?thesis using loop_inv_snoc [OF inv b] by blast
qed

lemma place_all_inv:
  assumes "loop_inv limit al P addrs placed" "placeable_ok P" "0 < al"
    and "set bs \<subseteq> P" "\<forall>b \<in> P. buf_address b = None" "distinct (map buf_name (placed @ bs))"
  shows "\<exists>addrs' placed'. gap_place_all pick limit al addrs placed bs = Inr addrs' \<and>
           loop_inv limit al P addrs' placed'"
  using assms
proof (induction bs arbitrary: addrs placed)
  case (Cons b bs)
  have b: "b \<in> P" "buf_address b = None" "buf_name b \<notin> buf_name ` set placed" using Cons.prems by auto
  obtain r where r: "choose_address pick limit al addrs placed b = Inr r"
    "loop_inv limit al P (addrs(buf_name b := r)) (placed @ [b\<lparr>buf_address := r\<rparr>])"
    using choose_address_inv [OF Cons.prems(1-3) b] by blast
  have "addrs (buf_name b) = None" using Cons.prems(1) b(3) by (auto simp: loop_inv_def)
  then have "addrs(buf_name b := None) = addrs" "b\<lparr>buf_address := None\<rparr> = b" using b(2) by auto
  then have step: "gap_place_all pick limit al addrs placed (b # bs)
      = gap_place_all pick limit al (addrs(buf_name b := r)) (placed @ [b\<lparr>buf_address := r\<rparr>]) bs"
    using r(1) by (cases r) simp_all
  have "distinct (map buf_name ((placed @ [b\<lparr>buf_address := r\<rparr>]) @ bs))" using Cons.prems(6) by simp
  then show ?case unfolding step using Cons.prems(2-5) by (intro Cons.IH [OF r(2)]) auto
qed auto

lemma choose_address_none:
  assumes "choose_address pick limit al addrs placed b = Inr None" "0 < al" "0 < buf_size b"
    and "0 \<le> x" "x + buf_size b \<le> limit" "al dvd x"
  shows "\<not> block_free b [] placed x (buf_size b)"
proof
  assume "block_free b [] placed x (buf_size b)"
  then obtain g where g: "g \<in> set (build_gaps limit b placed False)" "gap_holds g x (buf_size b)"
    using build_gaps_complete [OF assms(4,5,3), of False placed] by auto
  have "pick al (buf_size b) (build_gaps limit b placed False) = None"
    using assms(1) by (auto simp: choose_address_def split: option.splits)
  then have "\<not> gap_fits al (buf_size b) g" using g(1) by (rule pick_none)
  then show False
    using g(2) round_up_least [OF assms(2,6), of "gap_start g"] by (simp add: gap_fits_def gap_holds_def)
qed

end

section \<open>From the loop to the layout\<close>

lemma safe_layout_transfer:
  assumes "safe_layout limit al placed" "\<forall>b \<in> set out. buf_address b = None \<or> b \<in> set placed"
  shows "safe_layout limit al out"
proof -
  have "addr_disjoint b c" if "buf_address b = None \<or> buf_address c = None" for b c
    using that by (auto simp: addr_disjoint_def)
  moreover have "in_bounds limit al b" if "buf_address b = None" for b using that by (simp add: in_bounds_def)
  ultimately show ?thesis using assms unfolding safe_layout_def by blast
qed

text \<open>The sorted buffers the loop runs over.\<close>

definition gap_order :: "int \<Rightarrow> LifetimeBoundBuffer list \<Rightarrow> LifetimeBoundBuffer list" where
  "gap_order limit bufs =
     (let filtered = filter (\<lambda>b. end_time b \<ge> start_time b + 1) (fst (partition_buffers gap_caps limit bufs))
      in sort_key (priority (concat (map in_place_parents filtered))) filtered)"

lemma gap_order_facts:
  assumes "solver_input bufs" "check_in_place_relationships bufs = Inr ()" "\<forall>b \<in> set bufs. buf_address b = None"
  shows "set (gap_order limit bufs) = set (fst (partition_buffers gap_caps limit bufs))"
    and "distinct (map buf_name (gap_order limit bufs))" "placeable_ok (set (gap_order limit bufs))"
    and "\<forall>b \<in> set (gap_order limit bufs). buf_address b = None"
    and "\<exists>out. topological_sort (\<lambda>_. 0) (gap_order limit bufs) = Inr out"
proof -
  let ?P = "fst (partition_buffers gap_caps limit bufs)"
  note ok = placeable_placeable_ok [OF assms(1,2), of gap_caps limit]
  note P = placeable_iff [OF solver_input_distinct [OF assms(1)], of gap_caps limit]
  have all: "filter (\<lambda>b. end_time b \<ge> start_time b + 1) ?P = ?P"
    using ok by (intro filter_True) (auto simp: placeable_ok_def)
  show set: "set (gap_order limit bufs) = set ?P" by (simp add: gap_order_def Let_def all)
  have "distinct (map buf_name ?P)"
    unfolding P using solver_input_distinct [OF assms(1)] by (simp add: comp_def distinct_map_filter)
  then have "inj_on buf_name (set ?P)" "distinct ?P" by (simp_all add: distinct_map)
  then show dst: "distinct (map buf_name (gap_order limit bufs))"
    unfolding distinct_map set by (simp add: gap_order_def Let_def all)
  show ok': "placeable_ok (set (gap_order limit bufs))" using ok set by simp
  show "\<forall>b \<in> set (gap_order limit bufs). buf_address b = None" unfolding set P using assms(3) by auto
  show "\<exists>out. topological_sort (\<lambda>_. 0) (gap_order limit bufs) = Inr out"
    by (rule topological_sort_succeeds [OF dst ok'])
qed

context gap_policy
begin

text \<open>On well-formed unplanned input the loop always returns, with a safe layout.\<close>

lemma gap_plan_runs:
  assumes "0 < al" "solver_input bufs" "check_in_place_relationships bufs = Inr ()"
    and "\<forall>b \<in> set bufs. buf_address b = None"
  shows "\<exists>out. gap_plan_layout pick limit al bufs = Inr out \<and> safe_layout limit al out
           \<and> map erase_plan out = map erase_plan bufs
           \<and> (\<forall>b \<in> set out. residency_reason b \<noteq> None \<longrightarrow> buf_address b = None)"
proof (cases "bufs = []")
  case True
  then show ?thesis by (simp add: gap_plan_layout_def safe_layout_def)
next
  case False
  let ?P = "fst (partition_buffers gap_caps limit bufs)"
  let ?B = "fst (record_exclusions gap_caps limit bufs)"
  note f = gap_order_facts [OF assms(2-4), of limit]
  obtain bs where bs: "topological_sort (\<lambda>_. 0) (gap_order limit bufs) = Inr bs" using f(5) by blast
  note perm = topological_sort_perm [OF bs]
  have bs_set: "set bs = set ?P" using perm f(1) by (metis set_mset_mset)
  have bs_dst: "distinct (map buf_name bs)" using perm f(2) by (metis mset_eq_imp_distinct_iff mset_map)
  have "loop_inv limit al (set bs) (\<lambda>_. None) []" by (simp add: loop_inv_def safe_layout_def)
  then obtain addrs placed where run: "gap_place_all pick limit al (\<lambda>_. None) [] bs = Inr addrs"
      "loop_inv limit al (set bs) addrs placed"
    using place_all_inv [of limit al "set bs" "\<lambda>_. None" "[]" bs] assms(1) f(1,3,4) bs_set bs_dst by auto
  let ?out = "map (\<lambda>b. b\<lparr>buf_address := addrs (buf_name b)\<rparr>) ?B"
  have B: "?B = map (\<lambda>b. b\<lparr>spill_reason := excluded gap_caps limit b\<rparr>) bufs" by (simp add: record_exclusions_def)
  have subB: "set ?P \<subseteq> set ?B" by (auto simp: partition_buffers_def Let_def split: prod.splits)
  have injB: "inj_on buf_name (set ?B)"
    using solver_input_distinct [OF assms(2)] unfolding B by (auto simp: distinct_map inj_on_def)
  have uses: "\<not> list_ex (\<lambda>b. buf_uses b = []) ?P"
    using solver_input_facts(1) [OF assms(2)] subB unfolding B by (auto simp: list_ex_iff)
  have none: "\<not> list_ex (\<lambda>b. buf_address b \<noteq> None) bufs" using assms(4) by (auto simp: list_ex_iff)
  have ret: "gap_plan_layout pick limit al bufs = Inr ?out"
    using False none assms(3) uses bs [unfolded gap_order_def Let_def] run(1)
    by (simp add: gap_plan_layout_def Let_def)
  have all: "buf_address b = None \<or> b \<in> set placed" if "b \<in> set ?out" for b
  proof -
    obtain b0 where b0: "b0 \<in> set ?B" "b = b0\<lparr>buf_address := addrs (buf_name b0)\<rparr>" using \<open>b \<in> set ?out\<close> by auto
    show ?thesis
    proof (cases "addrs (buf_name b0) = None")
      case True
      then show ?thesis using b0(2) by simp
    next
      case ne: False
      then obtain p where p: "p \<in> set placed" "buf_name b0 = buf_name p"
        using run(2) by (auto simp: loop_inv_def)
      then have p': "p\<lparr>buf_address := None\<rparr> \<in> set ?B" "addrs (buf_name b0) = buf_address p"
        using run(2) bs_set subB by (auto simp: loop_inv_def)
      have "b0 = p\<lparr>buf_address := None\<rparr>" using injB b0(1) p'(1) p(2) by (auto simp: inj_on_def)
      then have "b = p" using b0(2) p'(2) by simp
      then show ?thesis using p(1) by simp
    qed
  qed
  have "safe_layout limit al placed" using run(2) by (simp add: loop_inv_def)
  then have "safe_layout limit al ?out" by (rule safe_layout_transfer) (intro ballI all)
  moreover have "map erase_plan ?out = map erase_plan bufs" by (simp add: B erase_plan_def)
  moreover have "residency_reason b \<noteq> None \<longrightarrow> buf_address b = None" if "b \<in> set ?out" for b
  proof (rule ccontr)
    assume n: "\<not> (residency_reason b \<noteq> None \<longrightarrow> buf_address b = None)"
    then have "b\<lparr>buf_address := None\<rparr> \<in> set ?P" using all [OF that] run(2) bs_set by (auto simp: loop_inv_def)
    then show False using placeable_unbarred [OF solver_input_distinct [OF assms(2)]] n by fastforce
  qed
  ultimately show ?thesis using ret by blast
qed

lemma gap_plan_returns:
  assumes "0 < al" "solver_input bufs" "check_in_place_relationships bufs = Inr ()"
    and "\<forall>b \<in> set bufs. buf_address b = None"
  shows "\<exists>out. gap_plan_layout pick limit al bufs = Inr out \<and> safe_layout limit al out
           \<and> map erase_plan out = map erase_plan bufs"
  using gap_plan_runs [OF assms] by blast

lemma gap_plan_checked:
  assumes "gap_plan_layout pick limit al bufs = Inr out"
  shows "bufs = [] \<or> (check_in_place_relationships bufs = Inr () \<and> (\<forall>b \<in> set bufs. buf_address b = None))"
  using assms by (auto simp: gap_plan_layout_def list_ex_iff split: if_splits sum.splits)

lemma gap_plan_frame:
  assumes "gap_plan_layout pick limit al bufs = Inr out"
  shows "map erase_plan out = map erase_plan bufs"
proof (cases "bufs = []")
  case True
  then show ?thesis using assms by (simp add: gap_plan_layout_def)
next
  case False
  have "\<exists>addrs. out = map (\<lambda>b. b\<lparr>buf_address := addrs (buf_name b)\<rparr>) (fst (record_exclusions gap_caps limit bufs))"
    using assms False by (auto simp: gap_plan_layout_def Let_def split: if_splits sum.splits)
  then show ?thesis by (auto simp: record_exclusions_def erase_plan_def)
qed

end

sublocale gap_policy \<subseteq> total_solver "gap_plan_layout pick"
proof unfold_locales
  fix al limit bufs out b
  assume a: "0 < al" "solver_input bufs" "gap_plan_layout pick limit al bufs = Inr out"
  have kept: "safe_layout limit al out \<and> (\<forall>b \<in> set out. residency_reason b \<noteq> None \<longrightarrow> buf_address b = None)"
  proof (cases "bufs = []")
    case True
    then show ?thesis using a(3) by (simp add: gap_plan_layout_def safe_layout_def)
  next
    case False
    then have "check_in_place_relationships bufs = Inr ()" "\<forall>b \<in> set bufs. buf_address b = None"
      using gap_plan_checked [OF a(3)] by blast+
    from gap_plan_runs [OF a(1,2) this, of limit] show ?thesis using a(3) by auto
  qed
  then show "safe_layout limit al out" ..
  show "buf_address b = None" if "b \<in> set out" "residency_reason b \<noteq> None"
    using kept that by blast
qed (use gap_plan_frame gap_plan_returns in blast)+

text \<open>Both policies keep the contract.\<close>

lemma pick_gap_first_Some: "pick_gap_first al n gaps = Some g \<Longrightarrow> g \<in> set gaps \<and> gap_fits al n g"
  by (induction al n gaps rule: pick_gap_first.induct) (auto split: if_splits)

lemma pick_gap_first_None: "pick_gap_first al n gaps = None \<Longrightarrow> g \<in> set gaps \<Longrightarrow> \<not> gap_fits al n g"
  by (induction al n gaps rule: pick_gap_first.induct) (auto split: if_splits)

lemma best_gap_loop_spec:
  assumes "\<forall>h. best = Some h \<longrightarrow> gap_fits al n h \<and> w = gap_waste al n h"
  shows "(\<forall>g. best_gap_loop al n best w gaps = Some g \<longrightarrow>
            (g \<in> set gaps \<or> best = Some g) \<and> gap_fits al n g \<and>
            (\<forall>h. h \<in> set gaps \<and> gap_fits al n h \<or> best = Some h \<longrightarrow> gap_waste al n g \<le> gap_waste al n h)) \<and>
         (best_gap_loop al n best w gaps = None \<longrightarrow> best = None \<and> (\<forall>h \<in> set gaps. \<not> gap_fits al n h))"
  using assms
proof (induction al n best w gaps rule: best_gap_loop.induct)
  case (2 al n best w gap gaps)
  let ?c = "gap_fits al n gap \<and> (best = None \<or> gap_waste al n gap < w)"
  show ?case
  proof (cases ?c)
    case True
    from "2.IH"(1) [OF True] have ih: "(\<forall>g. best_gap_loop al n (Some gap) (gap_waste al n gap) gaps = Some g \<longrightarrow>
            (g \<in> set gaps \<or> Some gap = Some g) \<and> gap_fits al n g \<and>
            (\<forall>h. h \<in> set gaps \<and> gap_fits al n h \<or> Some gap = Some h \<longrightarrow> gap_waste al n g \<le> gap_waste al n h)) \<and>
         (best_gap_loop al n (Some gap) (gap_waste al n gap) gaps = None \<longrightarrow> Some gap = None \<and> (\<forall>h \<in> set gaps. \<not> gap_fits al n h))"
      using True by simp
    have "gap_waste al n gap \<le> gap_waste al n h" if "best = Some h" for h using that True "2.prems" by auto
    then show ?thesis using ih True by fastforce
  next
    case False
    from "2.IH"(2) [OF False "2.prems"] show ?thesis using False "2.prems" by fastforce
  qed
qed auto

lemma pick_gap_best_Some:
  "pick_gap_best al n gaps = Some g \<Longrightarrow> g \<in> set gaps \<and> gap_fits al n g"
  "pick_gap_best al n gaps = Some g \<Longrightarrow> h \<in> set gaps \<Longrightarrow> gap_fits al n h \<Longrightarrow> gap_waste al n g \<le> gap_waste al n h"
  "pick_gap_best al n gaps = None \<Longrightarrow> h \<in> set gaps \<Longrightarrow> \<not> gap_fits al n h"
proof -
  note spec = best_gap_loop_spec [of None al n 0 gaps, simplified, folded pick_gap_best_def]
  show "pick_gap_best al n gaps = Some g \<Longrightarrow> g \<in> set gaps \<and> gap_fits al n g"
    "pick_gap_best al n gaps = Some g \<Longrightarrow> h \<in> set gaps \<Longrightarrow> gap_fits al n h \<Longrightarrow> gap_waste al n g \<le> gap_waste al n h"
    "pick_gap_best al n gaps = None \<Longrightarrow> h \<in> set gaps \<Longrightarrow> \<not> gap_fits al n h"
    using spec by blast+
qed

interpretation first_fit: gap_policy pick_gap_first
  by unfold_locales (auto dest: pick_gap_first_Some pick_gap_first_None)

interpretation best_fit: gap_policy pick_gap_best
  by unfold_locales (auto dest: pick_gap_best_Some)

section \<open>Properties of the solvers\<close>

text \<open>
  C10. On well-formed, unplanned buffers whose in-place declarations pass the check, the
  first-fit solver returns (no cycle, no missing key) a safe layout.
\<close>

theorem firstfit_returns_safe:
  assumes "0 < al" "solver_input bufs" "check_in_place_relationships bufs = Inr ()"
    and "\<forall>b \<in> set bufs. buf_address b = None"
  shows "\<exists>out. firstfit_plan_layout limit al bufs = Inr out \<and> safe_layout limit al out
           \<and> map erase_plan out = map erase_plan bufs"
  unfolding firstfit_plan_layout_def using assms by (rule first_fit.gap_plan_returns)

definition gap_demo_buffer :: "string \<Rightarrow> int \<Rightarrow> int list \<Rightarrow> string list \<Rightarrow> LifetimeBoundBuffer" where
  "gap_demo_buffer nm sz us ps = \<lparr>buf_name = nm, buf_size = sz, buf_uses = us, first_use_is_read = False,
     buf_address = None, in_place_parents = ps, residency_reason = None, untiled_bar = None,
     lifetime_start_override = None, lifetime_end_override = None, paired_with = [],
     spill_reason = None, core_divisions = [], lx_relayout_plans = []\<rparr>"

definition gap_demo :: "LifetimeBoundBuffer list" where
  "gap_demo = [gap_demo_buffer ''b'' 128 [2, 4] [''a''], gap_demo_buffer ''a'' 200 [0, 2] [],
     gap_demo_buffer ''c'' 300 [1, 3] []]"

lemma gap_demo_ok:
  "solver_input gap_demo" "check_in_place_relationships gap_demo = Inr ()" "\<forall>b \<in> set gap_demo. buf_address b = None"
  by code_simp+

theorem firstfit_returns_safe_witness:
  "\<exists>out. firstfit_plan_layout 1024 128 gap_demo = Inr out \<and> safe_layout 1024 128 out
     \<and> map erase_plan out = map erase_plan gap_demo"
  using firstfit_returns_safe [OF _ gap_demo_ok, of 128 1024] by simp

text \<open>The same for the best-fit solver.\<close>

lemma bestfit_returns_safe:
  assumes "0 < al" "solver_input bufs" "check_in_place_relationships bufs = Inr ()"
    and "\<forall>b \<in> set bufs. buf_address b = None"
  shows "\<exists>out. bestfit_plan_layout limit al bufs = Inr out \<and> safe_layout limit al out
           \<and> map erase_plan out = map erase_plan bufs"
  unfolding bestfit_plan_layout_def using assms by (rule best_fit.gap_plan_returns)

lemma bestfit_returns_safe_example:
  "\<exists>out. bestfit_plan_layout 1024 128 gap_demo = Inr out \<and> safe_layout 1024 128 out
     \<and> map erase_plan out = map erase_plan gap_demo"
  using bestfit_returns_safe [OF _ gap_demo_ok, of 128 1024] by simp

text \<open>
  C39. Kahn's sort is a topological sort: what it returns is a permutation of the buffers in
  which every declared in-place parent that takes part in the solve precedes its child.
\<close>

theorem topological_sort_correct:
  assumes "topological_sort f bs = Inr out" "distinct (map buf_name bs)"
  shows "mset out = mset bs \<and>
    (\<forall>k < length out. \<forall>p \<in> set (in_place_parents (out ! k)).
       p \<in> buf_name ` set bs \<longrightarrow> (\<exists>i < k. buf_name (out ! i) = p))"
proof (intro conjI allI impI ballI)
  show "mset out = mset bs" by (rule topological_sort_perm [OF assms(1)])
  fix k p assume k: "k < length out" and p: "p \<in> set (in_place_parents (out ! k))" "p \<in> buf_name ` set bs"
  let ?res = "topo_order f bs"
  note out = topological_sort_Inr [OF assms(1)]
  have len: "length out = length ?res" using out(1) by simp
  obtain j where j: "j < length bs" "buf_name (bs ! j) = p" using p(2) by (auto simp: in_set_conv_nth)
  have "j \<in> set (parent_idxs bs (?res ! k))"
    using parent_idxs_set [OF assms(2)] j p(1) out(1) k len by simp
  then have "j \<in> set (take k ?res)" using topo_order_facts(3) k len by auto
  then obtain i where "i < k" "i < length ?res" "?res ! i = j" by (auto simp: in_set_conv_nth)
  then show "\<exists>i < k. buf_name (out ! i) = p" using out(1) j(2) by auto
qed

theorem topological_sort_correct_witness:
  "mset [gap_demo ! 1, gap_demo ! 0, gap_demo ! 2] = mset gap_demo \<and>
   (\<exists>i < 1. buf_name ([gap_demo ! 1, gap_demo ! 0, gap_demo ! 2] ! i) = ''a'')"
proof -
  let ?out = "[gap_demo ! 1, gap_demo ! 0, gap_demo ! 2]"
  have "topological_sort (\<lambda>_. 0) gap_demo = Inr ?out" by code_simp
  moreover have "distinct (map buf_name gap_demo)" by code_simp
  ultimately have c: "mset ?out = mset gap_demo"
    "\<forall>k < length ?out. \<forall>p \<in> set (in_place_parents (?out ! k)).
       p \<in> buf_name ` set gap_demo \<longrightarrow> (\<exists>i < k. buf_name (?out ! i) = p)"
    using topological_sort_correct by blast+
  have "''a'' \<in> set (in_place_parents (?out ! 1))" "''a'' \<in> buf_name ` set gap_demo"
    by (simp_all add: gap_demo_def gap_demo_buffer_def)
  then show ?thesis using c(1) c(2) [rule_format, of 1 "''a''"] by simp
qed

text \<open>
  C38. A buffer is evicted by either solver only when the scratchpad has no room for it: if
  the loop gives a non-empty buffer no address, every aligned block of its size collides
  with a buffer that is already placed and live at the same time.
\<close>

theorem eviction_means_full:
  assumes "pick = pick_gap_first \<or> pick = pick_gap_best"
    and "choose_address pick limit al addrs placed b = Inr None" "0 < al" "0 < buf_size b"
    and "0 \<le> x" "x + buf_size b \<le> limit" "al dvd x"
  shows "\<exists>c \<in> set placed. \<exists>a. buf_address c = Some a \<and> overlaps_in_time c b \<and>
           \<not> ivl_disjoint x (buf_size b) a (buf_size c)"
  using assms first_fit.choose_address_none [of limit al addrs placed b x]
    best_fit.choose_address_none [of limit al addrs placed b x]
  unfolding block_free_def by auto

theorem eviction_means_full_witness:
  "\<exists>c \<in> set [(gap_demo_buffer ''a'' 200 [0, 2] [])\<lparr>buf_address := Some 0\<rparr>]. \<exists>a.
     buf_address c = Some a \<and> overlaps_in_time c (gap_demo_buffer ''c'' 200 [1, 3] []) \<and>
     \<not> ivl_disjoint 0 200 a (buf_size c)"
proof -
  let ?b = "gap_demo_buffer ''c'' 200 [1, 3] []"
  have "choose_address pick_gap_first 256 128 [''a'' \<mapsto> 0]
      [(gap_demo_buffer ''a'' 200 [0, 2] [])\<lparr>buf_address := Some 0\<rparr>] ?b = Inr None" by code_simp
  from eviction_means_full [OF disjI1 [OF refl] this, of 0] show ?thesis by (simp add: gap_demo_buffer_def)
qed

text \<open>
  Best fit is tightest fit: the gap it picks leaves no more space after placement than
  any other gap the buffer would fit, and it picks one whenever one fits.
\<close>

lemma best_fit_tightest:
  assumes "h \<in> set gaps" "gap_fits al n h"
  shows "\<exists>g \<in> set gaps. pick_gap_best al n gaps = Some g \<and> gap_fits al n g \<and> gap_waste al n g \<le> gap_waste al n h"
  using pick_gap_best_Some(2) [OF _ assms] pick_gap_best_Some(3) [OF _ assms(1)] assms(2)
  by (cases "pick_gap_best al n gaps") (auto dest: pick_gap_best_Some(1))

lemma best_fit_tightest_example:
  "\<exists>g \<in> set [gap_of 0 1000, gap_of 2000 2300]. pick_gap_best 128 100 [gap_of 0 1000, gap_of 2000 2300] = Some g \<and>
     gap_fits 128 100 g \<and> gap_waste 128 100 g \<le> gap_waste 128 100 (gap_of 2000 2300)"
  by (rule best_fit_tightest) code_simp+

end
