(* ===== verification/Hbm_Pool.thy ===== *)
theory Hbm_Pool
  imports Spyre_Prelude "HOL-Library.AList"
begin

text \<open>
  The HBM pool pass, \<^verbatim>\<open>src/torch_spyre/_inductor/hbm_pool_planning.py\<close>: the free-list
  \<open>Allocator\<close> as a state with one operation per method, the live ranges of a bundle, the
  choice of the pool candidates, and the loop that places each alias group.

  What the pass reads from Inductor is data of the model: a scheduler node carries its name,
  its kind and the buffer names its \<open>read_writes\<close> lists (a fused node's are Inductor's merge of
  its parts), and the graph maps a buffer name to the allocation dictionary of its
  \<open>FixedTiledLayout\<close>.  A dictionary object is identified by a number (Python's \<open>id\<close>), so two
  names alias exactly when their numbers agree, and writing \<open>"hbm_pool"\<close> into the object is an
  update of a store keyed by it.  Log messages are left out.
\<close>

section \<open>The free-list allocator\<close>

record Allocator =
  free_blocks :: "(int \<times> int) list"
  pool_end :: int
  segment_size :: int
  currently_allocated :: int
  peak_usage :: int

definition new_allocator :: "int \<Rightarrow> Allocator" where
  "new_allocator seg = \<lparr>free_blocks = [], pool_end = 0, segment_size = seg,
     currently_allocated = 0, peak_usage = 0\<rparr>"

text \<open>The first free block that is large enough, with the blocks before and after it.\<close>

fun take_block :: "int \<Rightarrow> (int \<times> int) list \<Rightarrow> ((int \<times> int) \<times> (int \<times> int) list) option" where
  "take_block nbytes [] = None"
| "take_block nbytes ((off, sz) # bs) =
     (if sz \<ge> nbytes then Some ((off, sz), bs)
      else case take_block nbytes bs of
             None \<Rightarrow> None
           | Some (blk, rest) \<Rightarrow> Some (blk, (off, sz) # rest))"

definition allocate :: "Allocator \<Rightarrow> int \<Rightarrow> Allocator \<times> int option" where
  "allocate A nbytes =
     (let found = take_block nbytes (free_blocks A);
          offset = (case found of Some ((off, _), _) \<Rightarrow> off | None \<Rightarrow> pool_end A);
          new_pool_end = (case found of Some _ \<Rightarrow> pool_end A | None \<Rightarrow> pool_end A + nbytes)
      in if new_pool_end > segment_size A then (A, None)
         else
           (let fr = (case found of
                        Some ((off, sz), rest) \<Rightarrow>
                          rest @ (if sz - nbytes > 0 then [(off + nbytes, sz - nbytes)] else [])
                      | None \<Rightarrow> free_blocks A);
                used = currently_allocated A + nbytes
            in (A\<lparr>free_blocks := fr, pool_end := new_pool_end, currently_allocated := used,
                  peak_usage := max used (peak_usage A)\<rparr>, Some offset)))"

definition free_block :: "Allocator \<Rightarrow> int \<Rightarrow> int \<Rightarrow> Allocator" where
  "free_block A offset nbytes =
     A\<lparr>free_blocks := free_blocks A @ [(offset, nbytes)],
       currently_allocated := currently_allocated A - nbytes\<rparr>"

section \<open>The graph and its scheduler nodes\<close>

definition hbm_alignment :: int where "hbm_alignment = 128"

definition segment_bytes :: int where "segment_bytes = 16 * 1024 ^ 3"

definition MAX_POOL_SIZE_BYTES :: int where
  "MAX_POOL_SIZE_BYTES = segment_bytes - 2 * 1024 ^ 3"

definition INTERMEDIATES_SEGMENT :: int where "INTERMEDIATES_SEGMENT = 0"

text \<open>
  \<open>alloc_obj\<close> is the identity of \<open>layout.allocation\<close> when the layout is a \<open>FixedTiledLayout\<close>
  and \<open>None\<close> otherwise; \<open>device_bytes\<close> is \<open>get_device_size_in_bytes\<close> of its device layout.
\<close>

record hbm_buffer =
  alloc_obj :: "nat option"
  device_bytes :: int
  is_empty_fallback :: bool

record hbm_graph =
  get_buffer :: "string \<Rightarrow> hbm_buffer option"
  graph_inputs :: "string list"
  graph_outputs :: "string list"
  lx_claimed :: "nat \<Rightarrow> bool"

text \<open>An extern node carries the name of its underlying buffer (\<open>node.node.get_name()\<close>).\<close>

datatype node_kind = KernelNode | FallbackNode | ExternNode string | NopNode

datatype snode =
    Leaf node_kind string "string list" "string list"
  | Fused string "string list" "string list" "snode list"
  | CountedLoop string "string list" "string list" "snode list"

primrec node_name :: "snode \<Rightarrow> string" where
  "node_name (Leaf k n rs ws) = n"
| "node_name (Fused n rs ws ns) = n"
| "node_name (CountedLoop n rs ws ns) = n"

primrec node_reads :: "snode \<Rightarrow> string list" where
  "node_reads (Leaf k n rs ws) = rs"
| "node_reads (Fused n rs ws ns) = rs"
| "node_reads (CountedLoop n rs ws ns) = rs"

primrec node_writes :: "snode \<Rightarrow> string list" where
  "node_writes (Leaf k n rs ws) = ws"
| "node_writes (Fused n rs ws ns) = ws"
| "node_writes (CountedLoop n rs ws ns) = ws"

fun get_nodes :: "snode \<Rightarrow> snode list" where
  "get_nodes (Leaf k n rs ws) = [Leaf k n rs ws]"
| "get_nodes (Fused n rs ws ns) = ns"
| "get_nodes (CountedLoop n rs ws ns) = ns"

fun iter_all_nodes :: "snode \<Rightarrow> snode list" where
  "iter_all_nodes (Leaf k n rs ws) = [Leaf k n rs ws]"
| "iter_all_nodes (Fused n rs ws ns) = concat (map iter_all_nodes ns)"
| "iter_all_nodes (CountedLoop n rs ws ns) = concat (map iter_all_nodes ns)"

fun is_kernel_arg_type :: "snode \<Rightarrow> bool" where
  "is_kernel_arg_type (Leaf k n rs ws) = (k \<noteq> KernelNode)"
| "is_kernel_arg_type _ = False"

fun is_counted_loop :: "snode \<Rightarrow> bool" where
  "is_counted_loop (CountedLoop n rs ws ns) = True"
| "is_counted_loop _ = False"

definition alloc_id :: "hbm_graph \<Rightarrow> string \<Rightarrow> nat option" where
  "alloc_id g n = Option.bind (get_buffer g n) alloc_obj"

definition compute_size_bytes :: "hbm_graph \<Rightarrow> string \<Rightarrow> int result" where
  "compute_size_bytes g n =
     (case get_buffer g n of
        None \<Rightarrow> Inl (AssertionError ''no such buffer'')
      | Some b \<Rightarrow>
          if alloc_obj b = None then Inl (AssertionError ''expected FixedTiledLayout'')
          else Inr (round_up (device_bytes b) hbm_alignment))"

section \<open>Live ranges\<close>

type_synonym steps = "string \<Rightarrow> int option"

text \<open>The writes of one node: the start is overwritten, a loop also extends the end.\<close>

definition live_write :: "string list \<Rightarrow> int \<Rightarrow> bool \<Rightarrow> steps \<times> steps \<Rightarrow> string \<Rightarrow> steps \<times> steps" where
  "live_write cands idx loop se n =
     (let (start, en) = se
      in if n \<in> set cands
         then (start(n \<mapsto> idx),
               if loop then en(n \<mapsto> max (case en n of None \<Rightarrow> idx | Some e \<Rightarrow> e) idx) else en)
         else (start, en))"

definition live_read :: "string list \<Rightarrow> int \<Rightarrow> steps \<times> steps \<Rightarrow> string \<Rightarrow> steps \<times> steps" where
  "live_read cands idx se n =
     (let (start, en) = se in if n \<in> set cands then (start, en(n \<mapsto> idx)) else (start, en))"

fun live_walk :: "string list \<Rightarrow> int \<Rightarrow> snode list \<Rightarrow> steps \<times> steps \<Rightarrow> steps \<times> steps" where
  "live_walk cands idx [] se = se"
| "live_walk cands idx (nd # nds) se =
     live_walk cands (idx + 1) nds
       (foldl (live_read cands idx)
          (foldl (live_write cands idx (is_counted_loop nd)) se (node_writes nd)) (node_reads nd))"

type_synonym live_range = "int \<times> int"

definition own_ranges :: "snode list \<Rightarrow> string list \<Rightarrow> (string \<times> live_range) list" where
  "own_ranges nodes cands =
     (let (start, en) = live_walk cands 0 nodes (\<lambda>_. None, \<lambda>_. None)
      in List.map_filter (\<lambda>n. case start n of
            None \<Rightarrow> None
          | Some s \<Rightarrow> Some (n, (s, case en n of None \<Rightarrow> int (length nodes) + 1 | Some e \<Rightarrow> e))) cands)"

text \<open>One range per allocation object: the union of its names' ranges.\<close>

definition merge_range ::
  "(string \<Rightarrow> nat option) \<Rightarrow> (nat \<Rightarrow> live_range option) \<Rightarrow> string \<times> live_range \<Rightarrow> (nat \<Rightarrow> live_range option)" where
  "merge_range aid gr x =
     (case aid (fst x) of
        None \<Rightarrow> gr
      | Some i \<Rightarrow>
          (let (s, e) = snd x;
               (gs, ge) = (case gr i of None \<Rightarrow> (s, e) | Some r \<Rightarrow> r)
           in gr(i \<mapsto> (min gs s, max ge e))))"

definition compute_live_ranges ::
  "snode list \<Rightarrow> string list \<Rightarrow> (string \<Rightarrow> nat option) \<Rightarrow> (string \<times> live_range) list" where
  "compute_live_ranges nodes cands aid =
     (let own = own_ranges nodes cands;
          gr = foldl (merge_range aid) (\<lambda>_. None) own
      in map (\<lambda>(n, r). (n, case aid n of
            None \<Rightarrow> r
          | Some i \<Rightarrow> (case gr i of None \<Rightarrow> r | Some r' \<Rightarrow> r'))) own)"

section \<open>Pool candidates\<close>

definition io_alloc_ids :: "hbm_graph \<Rightarrow> nat list" where
  "io_alloc_ids g = List.map_filter (alloc_id g) (graph_inputs g @ graph_outputs g)"

definition fallback_read :: "snode list \<Rightarrow> string list" where
  "fallback_read nodes =
     concat (map node_reads (filter is_kernel_arg_type (concat (map iter_all_nodes nodes))))"

definition fallback_read_alloc_ids :: "hbm_graph \<Rightarrow> snode list \<Rightarrow> nat list" where
  "fallback_read_alloc_ids g nodes = List.map_filter (alloc_id g) (fallback_read nodes)"

definition is_intermediate :: "hbm_graph \<Rightarrow> snode list \<Rightarrow> string \<Rightarrow> bool" where
  "is_intermediate g nodes n =
     (case alloc_id g n of
        None \<Rightarrow> False
      | Some i \<Rightarrow> \<not> lx_claimed g i \<and> i \<notin> set (io_alloc_ids g) \<and> i \<notin> set (fallback_read_alloc_ids g nodes))"

text \<open>
  The names one bundle writes and reads for the bundle maps: the dependencies of its kernel
  nodes, and the buffers of its empty fallbacks, which have no dependency of their own.
\<close>

fun empty_fallback_name :: "hbm_graph \<Rightarrow> snode \<Rightarrow> string option" where
  "empty_fallback_name g (Leaf (ExternNode b) n rs ws) =
     (case get_buffer g b of
        Some info \<Rightarrow> if is_empty_fallback info then Some b else None
      | None \<Rightarrow> None)"
| "empty_fallback_name g _ = None"

definition bundle_writes :: "hbm_graph \<Rightarrow> snode \<Rightarrow> string list" where
  "bundle_writes g bundle =
     filter (\<lambda>n. n \<notin> set (graph_outputs g))
       (concat (map node_writes (filter (\<lambda>nd. \<not> is_kernel_arg_type nd) (iter_all_nodes bundle)))
        @ List.map_filter (empty_fallback_name g) (iter_all_nodes bundle))"

definition bundle_reads :: "hbm_graph \<Rightarrow> snode \<Rightarrow> string list" where
  "bundle_reads g bundle =
     filter (\<lambda>n. n \<notin> set (graph_inputs g))
       (concat (map node_reads (filter (\<lambda>nd. \<not> is_kernel_arg_type nd) (iter_all_nodes bundle))))"

text \<open>The maps the walk over the bundles accumulates, each as a function of its key.\<close>

definition buffer_writer_bundles :: "hbm_graph \<Rightarrow> snode list \<Rightarrow> string \<Rightarrow> string list" where
  "buffer_writer_bundles g nodes n = map node_name (filter (\<lambda>b. n \<in> set (bundle_writes g b)) nodes)"

definition buffer_writer_bundle :: "hbm_graph \<Rightarrow> snode list \<Rightarrow> string \<Rightarrow> string option" where
  "buffer_writer_bundle g nodes n =
     (let ws = buffer_writer_bundles g nodes n in if ws = [] then None else Some (last ws))"

definition buffer_reader_bundles :: "hbm_graph \<Rightarrow> snode list \<Rightarrow> string \<Rightarrow> string list" where
  "buffer_reader_bundles g nodes n = map node_name (filter (\<lambda>b. n \<in> set (bundle_reads g b)) nodes)"

definition alloc_id_bundles :: "hbm_graph \<Rightarrow> snode list \<Rightarrow> nat \<Rightarrow> string list" where
  "alloc_id_bundles g nodes i =
     map node_name (filter (\<lambda>b. \<exists>n \<in> set (bundle_writes g b). alloc_id g n = Some i) nodes)"

definition alloc_id_reader_bundles :: "hbm_graph \<Rightarrow> snode list \<Rightarrow> nat \<Rightarrow> string list" where
  "alloc_id_reader_bundles g nodes i =
     map node_name (filter (\<lambda>b. \<exists>n \<in> set (bundle_reads g b). alloc_id g n = Some i) nodes)"

definition is_cross_bundle :: "hbm_graph \<Rightarrow> snode list \<Rightarrow> string \<Rightarrow> bool" where
  "is_cross_bundle g nodes n =
     (let writer = buffer_writer_bundle g nodes n;
          by_name = list_ex (\<lambda>r. Some r \<noteq> writer) (buffer_reader_bundles g nodes n)
      in if length (remdups (buffer_writer_bundles g nodes n)) > 1 then True
         else case alloc_id g n of
           None \<Rightarrow> by_name
         | Some i \<Rightarrow>
             (let alias_writers = alloc_id_bundles g nodes i;
                  writers = (if alias_writers = [] then [writer] else map Some alias_writers)
              in if length (remdups alias_writers) > 1 then True
                 else if list_ex (\<lambda>r. Some r \<notin> set writers) (alloc_id_reader_bundles g nodes i) then True
                 else by_name))"

definition all_candidates :: "hbm_graph \<Rightarrow> snode list \<Rightarrow> string list" where
  "all_candidates g nodes =
     filter (\<lambda>n. buffer_reader_bundles g nodes n \<noteq> []
               \<and> n \<notin> set (graph_inputs g) \<and> n \<notin> set (graph_outputs g)
               \<and> n \<notin> set (fallback_read nodes)
               \<and> is_intermediate g nodes n \<and> \<not> is_cross_bundle g nodes n)
       (remdups (concat (map (bundle_writes g) nodes)))"

section \<open>Placing the groups of a bundle\<close>

definition alloc_sort_key :: "string \<times> live_range \<Rightarrow> int \<times> int \<times> string" where
  "alloc_sort_key x = (fst (snd x), snd (snd x), fst x)"

text \<open>
  \<open>alloc_order\<close> with its \<open>alloc_groups\<close>: the first name of an allocation object, in sorted
  order, represents the group, and the later ones join it.
\<close>

fun alloc_order :: "(string \<Rightarrow> nat option) \<Rightarrow> (nat \<Rightarrow> string option) \<Rightarrow> (string \<times> live_range) list \<Rightarrow> (string \<times> live_range) list" where
  "alloc_order aid reps [] = []"
| "alloc_order aid reps ((n, r) # xs) =
     (case aid n of
        None \<Rightarrow> (n, r) # alloc_order aid reps xs
      | Some i \<Rightarrow>
          (case reps i of
             Some _ \<Rightarrow> alloc_order aid reps xs
           | None \<Rightarrow> (n, r) # alloc_order aid (reps(i \<mapsto> n)) xs))"

definition grouped_names :: "(string \<Rightarrow> nat option) \<Rightarrow> (string \<times> live_range) list \<Rightarrow> string \<Rightarrow> string list" where
  "grouped_names aid sorted_bufs rep =
     (case aid rep of
        None \<Rightarrow> [rep]
      | Some i \<Rightarrow> map fst (filter (\<lambda>x. aid (fst x) = Some i) sorted_bufs))"

record pool_state =
  allocator :: Allocator
  pending_frees :: "(int \<times> int \<times> int) list"
  pool_offset :: "nat \<Rightarrow> int option"
  removed_buffers :: "string list"
  overflowed :: nat

text \<open>Free the blocks whose live range ended before the start step.\<close>

definition release_before :: "int \<Rightarrow> Allocator \<Rightarrow> (int \<times> int \<times> int) list \<Rightarrow> Allocator \<times> (int \<times> int \<times> int) list" where
  "release_before start A pend =
     (foldl (\<lambda>A (e, off, sz). free_block A off sz) A (filter (\<lambda>(e, off, sz). e < start) pend),
      filter (\<lambda>(e, off, sz). \<not> e < start) pend)"

definition place_group ::
  "bool \<Rightarrow> hbm_graph \<Rightarrow> (string \<times> live_range) list \<Rightarrow> pool_state \<Rightarrow> string \<times> live_range \<Rightarrow> pool_state result" where
  "place_group symbolic_args g sorted_bufs st x =
     (let (rep, start, en) = x;
          (A, pend) = release_before start (allocator st) (pending_frees st)
      in case compute_size_bytes g rep of
           Inl e \<Rightarrow> Inl e
         | Inr nbytes \<Rightarrow>
             (case allocate A nbytes of
                (A', None) \<Rightarrow>
                  Inr (st\<lparr>allocator := A', pending_frees := pend, overflowed := overflowed st + 1\<rparr>)
              | (A', Some offset) \<Rightarrow>
                  Inr (st\<lparr>allocator := A', pending_frees := pend @ [(en, offset, nbytes)],
                    pool_offset := (case alloc_id g rep of
                        None \<Rightarrow> pool_offset st
                      | Some i \<Rightarrow> (pool_offset st)(i \<mapsto>
                          (if symbolic_args then offset else INTERMEDIATES_SEGMENT + offset))),
                    removed_buffers := removed_buffers st
                      @ filter (\<lambda>n. case get_buffer g n of Some b \<Rightarrow> is_empty_fallback b | None \<Rightarrow> False)
                          (grouped_names (alloc_id g) sorted_bufs rep)\<rparr>)))"

fun place_groups ::
  "bool \<Rightarrow> hbm_graph \<Rightarrow> (string \<times> live_range) list \<Rightarrow> pool_state \<Rightarrow> (string \<times> live_range) list \<Rightarrow> pool_state result" where
  "place_groups symbolic_args g sorted_bufs st [] = Inr st"
| "place_groups symbolic_args g sorted_bufs st (x # xs) =
     (case place_group symbolic_args g sorted_bufs st x of
        Inl e \<Rightarrow> Inl e
      | Inr st' \<Rightarrow> place_groups symbolic_args g sorted_bufs st' xs)"

section \<open>The pass\<close>

definition live_range_nodes :: "snode \<Rightarrow> snode list" where
  "live_range_nodes bundle = (if is_counted_loop bundle then [bundle] else get_nodes bundle)"

text \<open>One bundle: the pool sizes by bundle, the offsets and the removed buffers are threaded.\<close>

record pass_state =
  hbm_pool_sizes :: "(string \<times> int) list"
  pass_offsets :: "nat \<Rightarrow> int option"
  pass_removed :: "string list"

definition bundle_order :: "hbm_graph \<Rightarrow> snode \<Rightarrow> string list \<Rightarrow> (string \<times> live_range) list" where
  "bundle_order g bundle cands =
     sort_key alloc_sort_key (compute_live_ranges (live_range_nodes bundle) cands (alloc_id g))"

definition plan_bundle ::
  "bool \<Rightarrow> hbm_graph \<Rightarrow> snode list \<Rightarrow> string list \<Rightarrow> pass_state \<Rightarrow> snode \<Rightarrow> pass_state result" where
  "plan_bundle symbolic_args g nodes cands ps bundle =
     (let bundle_candidates = filter (\<lambda>n. buffer_writer_bundle g nodes n = Some (node_name bundle)) cands
      in if bundle_candidates = [] then Inr ps
         else
           (let sorted_bufs = bundle_order g bundle bundle_candidates;
                st0 = \<lparr>allocator = new_allocator MAX_POOL_SIZE_BYTES, pending_frees = [],
                       pool_offset = pass_offsets ps, removed_buffers = pass_removed ps, overflowed = 0\<rparr>
            in case place_groups symbolic_args g sorted_bufs st0
                      (alloc_order (alloc_id g) (\<lambda>_. None) sorted_bufs) of
                 Inl e \<Rightarrow> Inl e
               | Inr st \<Rightarrow>
                   Inr \<lparr>hbm_pool_sizes = AList.update (node_name bundle) (pool_end (allocator st)) (hbm_pool_sizes ps),
                        pass_offsets = pool_offset st, pass_removed = removed_buffers st\<rparr>))"

fun plan_bundles ::
  "bool \<Rightarrow> hbm_graph \<Rightarrow> snode list \<Rightarrow> string list \<Rightarrow> pass_state \<Rightarrow> snode list \<Rightarrow> pass_state result" where
  "plan_bundles symbolic_args g nodes cands ps [] = Inr ps"
| "plan_bundles symbolic_args g nodes cands ps (b # bs) =
     (case plan_bundle symbolic_args g nodes cands ps b of
        Inl e \<Rightarrow> Inl e
      | Inr ps' \<Rightarrow> plan_bundles symbolic_args g nodes cands ps' bs)"

definition hbm_pool_planning :: "bool \<Rightarrow> bool \<Rightarrow> hbm_graph \<Rightarrow> snode list \<Rightarrow> pass_state result" where
  "hbm_pool_planning enabled symbolic_args g nodes =
     (let ps0 = \<lparr>hbm_pool_sizes = [], pass_offsets = (\<lambda>_. None), pass_removed = []\<rparr>
      in if \<not> enabled then Inr ps0
         else plan_bundles symbolic_args g nodes (all_candidates g nodes) ps0 nodes)"

section \<open>The allocator never hands out memory twice\<close>

definition blocks_disjoint :: "(int \<times> int) list \<Rightarrow> bool" where
  "blocks_disjoint bs \<longleftrightarrow> sorted_wrt (\<lambda>(a, s) (b, t). ivl_disjoint a s b t) bs"

text \<open>
  \<open>live\<close> is what the clients hold.  Live and free blocks together tile the pool up to its
  end; usage and peak are exact.
\<close>

definition allocator_inv :: "Allocator \<Rightarrow> (int \<times> int) list \<Rightarrow> bool" where
  "allocator_inv A live \<longleftrightarrow>
     blocks_disjoint (live @ free_blocks A) \<and>
     (\<forall>(off, sz) \<in> set (live @ free_blocks A). 0 \<le> off \<and> 0 \<le> sz \<and> off + sz \<le> pool_end A) \<and>
     pool_end A \<le> segment_size A \<and>
     (\<Sum>(off, sz) \<leftarrow> live @ free_blocks A. sz) = pool_end A \<and>
     currently_allocated A = (\<Sum>(off, sz) \<leftarrow> live. sz) \<and>
     currently_allocated A \<le> peak_usage A \<and> peak_usage A \<le> pool_end A"

lemma take_block_Some:
  "take_block n bs = Some ((off, sz), rest) \<Longrightarrow>
     n \<le> sz \<and> (\<exists>pre post. bs = pre @ (off, sz) # post \<and> rest = pre @ post)"
proof (induction n bs arbitrary: rest rule: take_block.induct)
  case (2 n o' s' bs)
  show ?case
  proof (cases "n \<le> s'")
    case True
    then have "bs = rest" "off = o'" "sz = s'" using "2.prems" by auto
    then show ?thesis using True by (intro conjI exI [of _ "[]"] exI [of _ rest]) simp_all
  next
    case False
    then obtain rest' where r: "take_block n bs = Some ((off, sz), rest')" "rest = (o', s') # rest'"
      using "2.prems" by (auto split: option.splits)
    then obtain pre post where "n \<le> sz" "bs = pre @ (off, sz) # post" "rest' = pre @ post"
      using "2.IH" [OF False r(1)] by blast
    then show ?thesis using r(2) by (intro conjI exI [of _ "(o', s') # pre"] exI [of _ post]) simp_all
  qed
qed simp

lemma allocator_inv_new: "0 \<le> seg \<Longrightarrow> allocator_inv (new_allocator seg) []"
  by (simp add: allocator_inv_def new_allocator_def blocks_disjoint_def)

lemma sum_sizes_nonneg: "(\<forall>(off, sz) \<in> set bs. 0 \<le> sz) \<Longrightarrow> 0 \<le> (\<Sum>(off, sz) \<leftarrow> bs. sz :: int)"
  by (induction bs) auto

text \<open>Carving the first fitting block, or growing the pool, keeps the invariant.\<close>

lemma allocate_reuse_inv:
  assumes inv: "allocator_inv A live" and n: "0 \<le> n"
    and found: "take_block n (free_blocks A) = Some ((off, sz), rest)"
  shows "allocate A n = (fst (allocate A n), Some off) \<and> allocator_inv (fst (allocate A n)) (live @ [(off, n)])"
proof -
  obtain pre post where f: "n \<le> sz" "free_blocks A = pre @ (off, sz) # post" "rest = pre @ post"
    using take_block_Some [OF found] by blast
  let ?fr = "rest @ (if sz - n > 0 then [(off + n, sz - n)] else [])"
  let ?A = "A\<lparr>free_blocks := ?fr, pool_end := pool_end A, currently_allocated := currently_allocated A + n,
       peak_usage := max (currently_allocated A + n) (peak_usage A)\<rparr>"
  note I = inv [unfolded allocator_inv_def]
  have al: "allocate A n = (?A, Some off)" using found I by (simp add: allocate_def Let_def)
  have old: "blocks_disjoint (live @ pre @ (off, sz) # post)" using I f(2) by simp
  have "blocks_disjoint ((live @ [(off, n)]) @ ?fr)"
    using old f(1,3) n unfolding blocks_disjoint_def
    by (auto simp: sorted_wrt_append interval_simps split: prod.splits)
  moreover have "\<forall>(o', s') \<in> set ((live @ [(off, n)]) @ ?fr). 0 \<le> o' \<and> 0 \<le> s' \<and> o' + s' \<le> pool_end A"
    using I f n by auto
  moreover have "0 \<le> (\<Sum>(o', s') \<leftarrow> ?fr. s')" using I f n by (intro sum_sizes_nonneg) auto
  moreover have "(\<Sum>(o', s') \<leftarrow> (live @ [(off, n)]) @ ?fr. s') = pool_end A" using I f by auto
  ultimately have "allocator_inv ?A (live @ [(off, n)])"
    using I unfolding allocator_inv_def by simp
  then show ?thesis using al by simp
qed

lemma allocate_extend_inv:
  assumes inv: "allocator_inv A live" and n: "0 \<le> n"
    and none: "take_block n (free_blocks A) = None" "pool_end A + n \<le> segment_size A"
  shows "allocate A n = (fst (allocate A n), Some (pool_end A)) \<and>
         allocator_inv (fst (allocate A n)) (live @ [(pool_end A, n)])"
proof -
  let ?A = "A\<lparr>free_blocks := free_blocks A, pool_end := pool_end A + n, currently_allocated := currently_allocated A + n,
       peak_usage := max (currently_allocated A + n) (peak_usage A)\<rparr>"
  note I = inv [unfolded allocator_inv_def]
  have al: "allocate A n = (?A, Some (pool_end A))" using none by (simp add: allocate_def Let_def)
  have bnd: "\<forall>(o', s') \<in> set (live @ free_blocks A). 0 \<le> o' \<and> 0 \<le> s' \<and> o' + s' \<le> pool_end A" using I by blast
  have "blocks_disjoint ((live @ [(pool_end A, n)]) @ free_blocks A)"
    using I bnd unfolding blocks_disjoint_def by (fastforce simp: sorted_wrt_append interval_simps)
  moreover have "0 \<le> (\<Sum>(o', s') \<leftarrow> free_blocks A. s')" "0 \<le> (\<Sum>(o', s') \<leftarrow> live. s')"
    using bnd by (auto intro!: sum_sizes_nonneg)
  moreover from this have "0 \<le> pool_end A" using I by simp
  moreover have "0 \<le> o' \<and> 0 \<le> s' \<and> o' + s' \<le> pool_end A + n" if "(o', s') \<in> set (live @ free_blocks A)" for o' s'
    using bnd [rule_format, OF that] n by simp
  then have "\<forall>(o', s') \<in> set (live @ free_blocks A). 0 \<le> o' \<and> 0 \<le> s' \<and> o' + s' \<le> pool_end A + n" by blast
  ultimately have "allocator_inv ?A (live @ [(pool_end A, n)])"
    using I n none(2) unfolding allocator_inv_def by simp
  then show ?thesis using al by simp
qed

lemma allocate_cases:
  assumes "allocator_inv A live" "0 \<le> n"
  obtains off where "allocate A n = (fst (allocate A n), Some off)" "allocator_inv (fst (allocate A n)) (live @ [(off, n)])"
      "pool_end A \<le> pool_end (fst (allocate A n))" "segment_size (fst (allocate A n)) = segment_size A"
  | "allocate A n = (A, None)" "take_block n (free_blocks A) = None" "segment_size A < pool_end A + n"
proof (cases "take_block n (free_blocks A)")
  case (Some x)
  obtain off sz rest where x: "x = ((off, sz), rest)" by (metis prod.exhaust)
  have "pool_end A \<le> pool_end (fst (allocate A n))" "segment_size (fst (allocate A n)) = segment_size A"
    using Some x by (simp_all add: allocate_def Let_def)
  then show ?thesis using that(1) allocate_reuse_inv [OF assms Some [unfolded x]] by blast
next
  case None
  show ?thesis
  proof (cases "pool_end A + n \<le> segment_size A")
    case True
    have "pool_end A \<le> pool_end (fst (allocate A n))" "segment_size (fst (allocate A n)) = segment_size A"
      using None True assms(2) by (simp_all add: allocate_def Let_def)
    then show ?thesis using that(1) allocate_extend_inv [OF assms None True] by blast
  next
    case False
    then show ?thesis using that(2) None by (simp add: allocate_def Let_def)
  qed
qed

lemma free_block_inv:
  assumes "allocator_inv A (l1 @ (off, n) # l2)"
  shows "allocator_inv (free_block A off n) (l1 @ l2)"
proof -
  note I = assms [unfolded allocator_inv_def]
  have "blocks_disjoint ((l1 @ l2) @ free_blocks A @ [(off, n)])"
    using I unfolding blocks_disjoint_def by (fastforce simp: sorted_wrt_append interval_simps)
  moreover have "0 \<le> n" using I by auto
  ultimately show ?thesis using I unfolding allocator_inv_def free_block_def by auto
qed

section \<open>The allocator as an interface\<close>

locale pool_allocator =
  fixes alloc :: "'a \<Rightarrow> int \<Rightarrow> 'a \<times> int option"
    and release :: "'a \<Rightarrow> int \<Rightarrow> int \<Rightarrow> 'a"
    and extent :: "'a \<Rightarrow> int" and capacity :: "'a \<Rightarrow> int"
    and holds :: "'a \<Rightarrow> (int \<times> int) list \<Rightarrow> bool"
  assumes alloc_holds: "holds A live \<Longrightarrow> 0 \<le> n \<Longrightarrow> alloc A n = (A', Some off) \<Longrightarrow>
             holds A' (live @ [(off, n)]) \<and> extent A \<le> extent A' \<and> capacity A' = capacity A"
    and alloc_full: "holds A live \<Longrightarrow> 0 \<le> n \<Longrightarrow> alloc A n = (A', None) \<Longrightarrow> A' = A"
    and release_holds: "holds A (l1 @ (off, n) # l2) \<Longrightarrow> holds (release A off n) (l1 @ l2)"
    and release_extent: "extent (release A off n) = extent A" "capacity (release A off n) = capacity A"
    and holds_disjoint: "holds A live \<Longrightarrow> blocks_disjoint live"
    and holds_bounds: "holds A live \<Longrightarrow> (off, n) \<in> set live \<Longrightarrow> 0 \<le> off \<and> 0 \<le> n \<and> off + n \<le> extent A"
    and extent_capacity: "holds A live \<Longrightarrow> extent A \<le> capacity A"
begin

text \<open>Releasing every pending block that meets a condition leaves the others held.\<close>

lemma release_all:
  "holds A (pre @ map snd pend) \<Longrightarrow>
   holds (foldl (\<lambda>A (e, off, sz). release A off sz) A (filter P pend)) (pre @ map snd (filter (\<lambda>x. \<not> P x) pend))
   \<and> extent (foldl (\<lambda>A (e, off, sz). release A off sz) A (filter P pend)) = extent A
   \<and> capacity (foldl (\<lambda>A (e, off, sz). release A off sz) A (filter P pend)) = capacity A"
proof (induction pend arbitrary: A pre)
  case (Cons x pend)
  obtain e off sz where x: "x = (e, off, sz)" by (cases x)
  show ?case
  proof (cases "P x")
    case True
    have "holds (release A off sz) (pre @ map snd pend)" using Cons.prems x by (intro release_holds) simp
    from Cons.IH [OF this] show ?thesis using True x by (simp add: release_extent)
  next
    case False
    have "holds A ((pre @ [snd x]) @ map snd pend)" using Cons.prems by simp
    from Cons.IH [OF this] show ?thesis using False by simp
  qed
qed simp

text \<open>A fresh block is inside the pool and shares no byte with a block that is still held.\<close>

lemma fresh_block:
  assumes "holds A live" "0 \<le> n" "alloc A n = (A', Some off)"
  shows "0 \<le> off" "off + n \<le> extent A'" "extent A' \<le> capacity A"
    and "(o', s') \<in> set live \<Longrightarrow> ivl_disjoint o' s' off n"
proof -
  have h: "holds A' (live @ [(off, n)])" and c: "capacity A' = capacity A"
    using alloc_holds [OF assms] by blast+
  then show "0 \<le> off" "off + n \<le> extent A'" "extent A' \<le> capacity A"
    using holds_bounds [OF h, of off n] extent_capacity [OF h] by auto
  show "ivl_disjoint o' s' off n" if "(o', s') \<in> set live"
    using holds_disjoint [OF h] that by (fastforce simp: blocks_disjoint_def sorted_wrt_append)
qed

end

interpretation hbm: pool_allocator allocate free_block pool_end segment_size allocator_inv
proof unfold_locales
  fix A live n A' off
  assume "allocator_inv A live" "0 \<le> n" "allocate A n = (A', Some off)"
  then show "allocator_inv A' (live @ [(off, n)]) \<and> pool_end A \<le> pool_end A' \<and> segment_size A' = segment_size A"
    by (auto elim: allocate_cases)
next
  fix A live n A'
  assume "allocator_inv A live" "0 \<le> n" "allocate A n = (A', None)"
  then show "A' = A" by (auto elim: allocate_cases)
next
  show "blocks_disjoint live" if "allocator_inv A live" for A live
    using that by (auto simp: allocator_inv_def blocks_disjoint_def sorted_wrt_append)
qed (auto simp: free_block_inv, auto simp: free_block_def allocator_inv_def)

section \<open>Groups that are live together get disjoint blocks\<close>

definition ranges_meet :: "live_range \<Rightarrow> live_range \<Rightarrow> bool" where
  "ranges_meet r q \<longleftrightarrow> fst r \<le> snd q \<and> fst q \<le> snd r"

text \<open>A placed group: its representative with its range, the offset and the size.\<close>

type_synonym placed_group = "(string \<times> live_range) \<times> int \<times> int"

definition groups_apart :: "placed_group \<Rightarrow> placed_group \<Rightarrow> bool" where
  "groups_apart h k \<longleftrightarrow> (ranges_meet (snd (fst h)) (snd (fst k)) \<longrightarrow>
     ivl_disjoint (fst (snd h)) (snd (snd h)) (fst (snd k)) (snd (snd k)))"


definition group_ok :: "hbm_graph \<Rightarrow> pool_state \<Rightarrow> int \<Rightarrow> placed_group \<Rightarrow> bool" where
  "group_ok g st now h \<longleftrightarrow>
     (case h of ((rep, s, e), off, sz) \<Rightarrow>
        0 \<le> off \<and> off + sz \<le> pool_end (allocator st) \<and> compute_size_bytes g rep = Inr sz \<and>
        (\<exists>i. alloc_id g rep = Some i \<and> pool_offset st i = Some off) \<and>
        (now \<le> e \<longrightarrow> (e, off, sz) \<in> set (pending_frees st)))"

definition pool_inv :: "hbm_graph \<Rightarrow> pool_state \<Rightarrow> placed_group list \<Rightarrow> int \<Rightarrow> bool" where
  "pool_inv g st hist now \<longleftrightarrow>
     allocator_inv (allocator st) (map snd (pending_frees st)) \<and>
     (\<forall>h \<in> set hist. group_ok g st now h) \<and> sorted_wrt groups_apart hist"





lemma pool_inv_later: "pool_inv g st hist now \<Longrightarrow> now \<le> now' \<Longrightarrow> pool_inv g st hist now'"
  by (force simp: pool_inv_def group_ok_def split: prod.splits)


section \<open>The order of a bundle\<close>






lemma alloc_order_represents:
  assumes "x \<in> set xs" "aid (fst x) = Some i" "reps i = None"
  shows "\<exists>y \<in> set (alloc_order aid reps xs). aid (fst y) = Some i"
  using assms
proof (induction xs arbitrary: reps)
  case (Cons y ys)
  obtain n r where y: "y = (n, r)" by (cases y)
  show ?case
  proof (cases "aid n = Some i")
    case True
    then have "alloc_order aid reps (y # ys) = y # alloc_order aid (reps(i \<mapsto> n)) ys" using y Cons.prems(3) by simp
    then show ?thesis using True y by simp
  next
    case False
    then have x: "x \<in> set ys" using Cons.prems(1,2) y by auto
    have ih: "\<exists>z \<in> set (alloc_order aid reps' ys). aid (fst z) = Some i" if "reps' i = None" for reps'
      using Cons.IH [of reps'] x Cons.prems(2) that by blast
    consider "aid n = None" | k where "aid n = Some k" "k \<noteq> i" "reps k = None"
      | k m where "aid n = Some k" "reps k = Some m" using False by (metis option.exhaust)
    then show ?thesis
    proof cases
      case 1
      then show ?thesis using ih [of reps] Cons.prems(3) y by simp
    next
      case 2
      then show ?thesis using ih [of "reps(k \<mapsto> n)"] Cons.prems(3) y by simp
    next
      case 3
      then show ?thesis using ih [of reps] Cons.prems(3) y by simp
    qed
  qed
qed simp

section \<open>Live ranges cover the uses\<close>

lemma live_walk_append:
  "live_walk cands idx (xs @ ys) se = live_walk cands (idx + int (length xs)) ys (live_walk cands idx xs se)"
  by (induction xs arbitrary: idx se) (auto simp: algebra_simps)

lemma live_writes_fold:
  "foldl (live_write cands idx loop) (st, en) ws =
     (\<lambda>n. if n \<in> set cands \<and> n \<in> set ws then Some idx else st n,
      \<lambda>n. if loop \<and> n \<in> set cands \<and> n \<in> set ws
           then Some (max (case en n of None \<Rightarrow> idx | Some e \<Rightarrow> e) idx) else en n)"
proof (induction ws arbitrary: st en)
  case (Cons w ws)
  obtain st1 en1 where w: "live_write cands idx loop (st, en) w = (st1, en1)" by fastforce
  have s1: "st1 n = (if n \<in> set cands \<and> n = w then Some idx else st n)"
    and e1: "en1 n = (if loop \<and> n \<in> set cands \<and> n = w
        then Some (max (case en n of None \<Rightarrow> idx | Some e \<Rightarrow> e) idx) else en n)" for n
    using w by (auto simp: live_write_def split: if_splits)
  have "foldl (live_write cands idx loop) (st, en) (w # ws) = foldl (live_write cands idx loop) (st1, en1) ws"
    using w by simp
  also note Cons.IH
  finally show ?case by (auto simp: fun_eq_iff s1 e1 split: option.splits)
qed simp

lemma live_reads_fold:
  "foldl (live_read cands idx) (st, en) rs =
     (st, \<lambda>n. if n \<in> set cands \<and> n \<in> set rs then Some idx else en n)"
  by (induction rs arbitrary: en) (auto simp: live_read_def fun_eq_iff)

text \<open>
  The steps at which a name must still be held: those that read it, and a counted loop that
  writes it, whose own reads of what it writes stay inside the step.
\<close>

definition held_at :: "string \<Rightarrow> snode \<Rightarrow> bool" where
  "held_at n nd \<longleftrightarrow> n \<in> set (node_reads nd) \<or> is_counted_loop nd \<and> n \<in> set (node_writes nd)"

definition live_facts :: "string list \<Rightarrow> snode list \<Rightarrow> steps \<times> steps \<Rightarrow> bool" where
  "live_facts cands nodes se \<longleftrightarrow> (\<forall>n \<in> set cands.
     (case fst se n of
        None \<Rightarrow> \<forall>k < length nodes. n \<notin> set (node_writes (nodes ! k))
      | Some s \<Rightarrow> \<exists>k < length nodes. s = int k \<and> n \<in> set (node_writes (nodes ! k)) \<and>
                    (\<forall>j < length nodes. k < j \<longrightarrow> n \<notin> set (node_writes (nodes ! j)))) \<and>
     (case snd se n of
        None \<Rightarrow> \<forall>k < length nodes. \<not> held_at n (nodes ! k)
      | Some e \<Rightarrow> e < int (length nodes) \<and>
                  (\<forall>k < length nodes. held_at n (nodes ! k) \<longrightarrow> int k \<le> e)))"

lemma live_walk_facts: "live_facts cands nodes (live_walk cands 0 nodes (\<lambda>_. None, \<lambda>_. None))"
proof (induction nodes rule: rev_induct)
  case Nil
  then show ?case by (simp add: live_facts_def)
next
  case (snoc nd nodes)
  obtain st en where w: "live_walk cands 0 nodes (\<lambda>_. None, \<lambda>_. None) = (st, en)" by fastforce
  let ?i = "int (length nodes)"
  let ?st = "\<lambda>n. if n \<in> set cands \<and> n \<in> set (node_writes nd) then Some ?i else st n"
  let ?en1 = "\<lambda>n. if is_counted_loop nd \<and> n \<in> set cands \<and> n \<in> set (node_writes nd)
           then Some (max (case en n of None \<Rightarrow> ?i | Some e \<Rightarrow> e) ?i) else en n"
  let ?en = "\<lambda>n. if n \<in> set cands \<and> n \<in> set (node_reads nd) then Some ?i else ?en1 n"
  have step: "live_walk cands 0 (nodes @ [nd]) (\<lambda>_. None, \<lambda>_. None) = (?st, ?en)"
    by (simp add: live_walk_append w live_writes_fold live_reads_fold)
  have ih: "live_facts cands nodes (st, en)" using snoc w by simp
  have "(case ?st n of
        None \<Rightarrow> \<forall>k < length (nodes @ [nd]). n \<notin> set (node_writes ((nodes @ [nd]) ! k))
      | Some s \<Rightarrow> \<exists>k < length (nodes @ [nd]). s = int k \<and> n \<in> set (node_writes ((nodes @ [nd]) ! k)) \<and>
                    (\<forall>j < length (nodes @ [nd]). k < j \<longrightarrow> n \<notin> set (node_writes ((nodes @ [nd]) ! j))))"
    if n: "n \<in> set cands" for n
  proof (cases "n \<in> set (node_writes nd)")
    case True
    then show ?thesis using n by (auto simp: nth_append intro!: exI [of _ "length nodes"])
  next
    case False
    show ?thesis
    proof (cases "st n")
      case None
      then show ?thesis using ih n False by (auto simp: live_facts_def nth_append less_Suc_eq split: option.splits)
    next
      case (Some s)
      then obtain k where "k < length nodes" "s = int k" "n \<in> set (node_writes (nodes ! k))"
          "\<forall>j < length nodes. k < j \<longrightarrow> n \<notin> set (node_writes (nodes ! j))"
        using ih n by (fastforce simp: live_facts_def)
      then show ?thesis using Some False by (auto simp: nth_append less_Suc_eq intro!: exI [of _ k])
    qed
  qed
  moreover have "(case ?en n of
        None \<Rightarrow> \<forall>k < length (nodes @ [nd]). \<not> held_at n ((nodes @ [nd]) ! k)
      | Some e \<Rightarrow> e < int (length (nodes @ [nd])) \<and>
                  (\<forall>k < length (nodes @ [nd]). held_at n ((nodes @ [nd]) ! k) \<longrightarrow> int k \<le> e))"
    if n: "n \<in> set cands" for n
  proof -
    have "case en n of None \<Rightarrow> \<forall>k < length nodes. \<not> held_at n (nodes ! k)
      | Some e \<Rightarrow> e < int (length nodes) \<and> (\<forall>k < length nodes. held_at n (nodes ! k) \<longrightarrow> int k \<le> e)"
      using ih n by (simp add: live_facts_def)
    then show ?thesis using n by (cases "en n") (auto simp: nth_append less_Suc_eq held_at_def)
  qed
  ultimately show ?case unfolding step live_facts_def by simp
qed

lemma own_ranges_iff:
  assumes "live_walk cands 0 nodes (\<lambda>_. None, \<lambda>_. None) = (st, en)"
  shows "(n, s, e) \<in> set (own_ranges nodes cands) \<longleftrightarrow>
    n \<in> set cands \<and> st n = Some s \<and> e = (case en n of None \<Rightarrow> int (length nodes) + 1 | Some e \<Rightarrow> e)"
  unfolding own_ranges_def assms Let_def prod.case map_filter_iff
  by (auto split: option.splits)

lemma own_ranges_mem:
  assumes "(n, s, e) \<in> set (own_ranges nodes cands)"
  shows "n \<in> set cands" "\<exists>k < length nodes. s = int k \<and> n \<in> set (node_writes (nodes ! k)) \<and>
            (\<forall>j < length nodes. k < j \<longrightarrow> n \<notin> set (node_writes (nodes ! j)))"
    and "\<forall>j < length nodes. held_at n (nodes ! j) \<longrightarrow> int j \<le> e"
proof -
  obtain st en where w: "live_walk cands 0 nodes (\<lambda>_. None, \<lambda>_. None) = (st, en)" by fastforce
  have n: "n \<in> set cands" "st n = Some s" "e = (case en n of None \<Rightarrow> int (length nodes) + 1 | Some e \<Rightarrow> e)"
    using assms unfolding own_ranges_iff [OF w] by blast+
  then show "n \<in> set cands" by blast
  note f = live_walk_facts [of cands nodes, unfolded w live_facts_def, rule_format, OF n(1)]
  show "\<exists>k < length nodes. s = int k \<and> n \<in> set (node_writes (nodes ! k)) \<and>
            (\<forall>j < length nodes. k < j \<longrightarrow> n \<notin> set (node_writes (nodes ! j)))"
    using f n(2) by simp
  show "\<forall>j < length nodes. held_at n (nodes ! j) \<longrightarrow> int j \<le> e"
    using f n(3) by (auto split: option.splits)
qed

lemma own_ranges_exists:
  assumes "n \<in> set cands" "k < length nodes" "n \<in> set (node_writes (nodes ! k))"
  shows "\<exists>s e. (n, s, e) \<in> set (own_ranges nodes cands)"
proof -
  obtain st en where w: "live_walk cands 0 nodes (\<lambda>_. None, \<lambda>_. None) = (st, en)" by fastforce
  have "st n \<noteq> None"
    using live_walk_facts [of cands nodes, unfolded w live_facts_def, rule_format, OF assms(1)] assms(2,3)
    by (auto split: option.splits)
  then show ?thesis unfolding own_ranges_iff [OF w] using assms(1) by blast
qed

definition range_within :: "live_range \<Rightarrow> live_range \<Rightarrow> bool" where
  "range_within r q \<longleftrightarrow> fst q \<le> fst r \<and> snd r \<le> snd q"

lemma merge_range_fold:
  assumes "\<forall>x \<in> set xs. aid (fst x) \<noteq> None"
  shows "(\<forall>i r. gr i = Some r \<longrightarrow> (\<exists>q. foldl (merge_range aid) gr xs i = Some q \<and> range_within r q)) \<and>
         (\<forall>x \<in> set xs. \<forall>i. aid (fst x) = Some i \<longrightarrow>
            (\<exists>q. foldl (merge_range aid) gr xs i = Some q \<and> range_within (snd x) q))"
  using assms
proof (induction xs arbitrary: gr)
  case Nil
  then show ?case by (simp add: range_within_def)
next
  case (Cons x xs)
  obtain i s e where x: "aid (fst x) = Some i" "snd x = (s, e)" using Cons.prems by (cases "snd x") auto
  let ?gr = "merge_range aid gr x"
  have step: "\<exists>q. ?gr i = Some q \<and> range_within (s, e) q"
    "gr j = Some r \<Longrightarrow> \<exists>q. ?gr j = Some q \<and> range_within r q" for j r
    using x by (cases r; auto simp: merge_range_def range_within_def split: option.splits prod.splits)+
  have trans: "range_within a b \<Longrightarrow> range_within b c \<Longrightarrow> range_within a c" for a b c
    by (auto simp: range_within_def)
  have ih: "(\<forall>i r. ?gr i = Some r \<longrightarrow> (\<exists>q. foldl (merge_range aid) ?gr xs i = Some q \<and> range_within r q))"
    "(\<forall>x \<in> set xs. \<forall>i. aid (fst x) = Some i \<longrightarrow>
            (\<exists>q. foldl (merge_range aid) ?gr xs i = Some q \<and> range_within (snd x) q))"
    using Cons.IH [of ?gr] Cons.prems by auto
  have "\<exists>q. foldl (merge_range aid) gr (x # xs) j = Some q \<and> range_within r q" if gj: "gr j = Some r" for j r
  proof -
    obtain q where "?gr j = Some q" "range_within r q" using step(2) [OF gj] by blast
    then show ?thesis using ih(1) trans by (metis foldl_Cons)
  qed
  moreover have "\<exists>q. foldl (merge_range aid) gr (x # xs) i = Some q \<and> range_within (snd x) q"
  proof -
    obtain q where "?gr i = Some q" "range_within (snd x) q" using step(1) x(2) by auto
    then show ?thesis using ih(1) trans by (metis foldl_Cons)
  qed
  ultimately show ?case using ih(2) x(1) by auto
qed

text \<open>A name's range contains its own uses, and aliases have one range.\<close>

lemma compute_live_ranges_own:
  assumes "\<forall>n \<in> set cands. aid n \<noteq> None"
  shows "(n, r) \<in> set (own_ranges nodes cands) \<Longrightarrow>
           \<exists>q. (n, q) \<in> set (compute_live_ranges nodes cands aid) \<and> range_within r q"
    and "(n, q) \<in> set (compute_live_ranges nodes cands aid) \<Longrightarrow>
           \<exists>r. (n, r) \<in> set (own_ranges nodes cands) \<and> range_within r q"
    and "(n, q) \<in> set (compute_live_ranges nodes cands aid) \<Longrightarrow>
         (m, q') \<in> set (compute_live_ranges nodes cands aid) \<Longrightarrow> aid n = aid m \<Longrightarrow> q = q'"
proof -
  let ?own = "own_ranges nodes cands"
  let ?gr = "foldl (merge_range aid) (\<lambda>_. None) ?own"
  have some: "\<forall>x \<in> set ?own. aid (fst x) \<noteq> None"
    using own_ranges_mem(1) assms by fastforce
  have gr: "\<exists>i p. aid n = Some i \<and> ?gr i = Some p \<and> range_within r p" if nr: "(n, r) \<in> set ?own" for n r
  proof -
    have "aid n \<noteq> None" using some nr by force
    then obtain i where "aid n = Some i" by blast
    then show ?thesis using merge_range_fold [OF some, of "\<lambda>_. None", THEN conjunct2, rule_format, OF nr] by auto
  qed
  have eq: "(n, q) \<in> set (compute_live_ranges nodes cands aid) \<longleftrightarrow>
      (\<exists>r i. (n, r) \<in> set ?own \<and> aid n = Some i \<and> ?gr i = Some q \<and> range_within r q)" for n q
  proof -
    have "(n, q) \<in> set (compute_live_ranges nodes cands aid) \<longleftrightarrow> (\<exists>r. (n, r) \<in> set ?own \<and>
        q = (case aid n of None \<Rightarrow> r | Some i \<Rightarrow> (case ?gr i of None \<Rightarrow> r | Some r' \<Rightarrow> r')))"
      by (force simp: compute_live_ranges_def Let_def image_iff)
    then show ?thesis using gr by fastforce
  qed
  show "\<exists>q. (n, q) \<in> set (compute_live_ranges nodes cands aid) \<and> range_within r q" if "(n, r) \<in> set ?own"
    using gr [OF that] that unfolding eq by blast
  show "\<exists>r. (n, r) \<in> set ?own \<and> range_within r q" if "(n, q) \<in> set (compute_live_ranges nodes cands aid)"
    using that unfolding eq by blast
  show "q = q'" if "(n, q) \<in> set (compute_live_ranges nodes cands aid)"
    "(m, q') \<in> set (compute_live_ranges nodes cands aid)" "aid n = aid m"
    using that unfolding eq by auto
qed

section \<open>The pass over all bundles\<close>


lemma candidate_facts:
  assumes "n \<in> set (all_candidates g nodes)"
  obtains i where "alloc_id g n = Some i" "\<not> lx_claimed g i" "i \<notin> set (io_alloc_ids g)"
    "i \<notin> set (fallback_read_alloc_ids g nodes)" "length (remdups (alloc_id_bundles g nodes i)) \<le> 1"
    "\<forall>r \<in> set (alloc_id_reader_bundles g nodes i). r \<in> set (alloc_id_bundles g nodes i)"
    "n \<notin> set (fallback_read nodes)"
proof -
  have int: "is_intermediate g nodes n" and nc: "\<not> is_cross_bundle g nodes n" "n \<notin> set (fallback_read nodes)"
    and wr: "\<exists>b \<in> set nodes. n \<in> set (bundle_writes g b)"
    using assms by (auto simp: all_candidates_def)
  obtain i where i: "alloc_id g n = Some i" "\<not> lx_claimed g i" "i \<notin> set (io_alloc_ids g)"
      "i \<notin> set (fallback_read_alloc_ids g nodes)"
    using int by (auto simp: is_intermediate_def split: option.splits)
  have "alloc_id_bundles g nodes i \<noteq> []" using wr i(1) by (auto simp: alloc_id_bundles_def filter_empty_conv)
  then have "length (remdups (alloc_id_bundles g nodes i)) \<le> 1"
    "\<forall>r \<in> set (alloc_id_reader_bundles g nodes i). r \<in> set (alloc_id_bundles g nodes i)"
    using nc(1) i(1) by (auto simp: is_cross_bundle_def Let_def list_ex_iff split: if_splits)
  then show thesis using that i nc(2) by blast
qed

lemma remdups_single: "length (remdups xs) \<le> 1 \<Longrightarrow> x \<in> set xs \<Longrightarrow> y \<in> set xs \<Longrightarrow> x = y"
proof -
  assume len: "length (remdups xs) \<le> 1" and "x \<in> set xs" "y \<in> set xs"
  then have "x \<in> set (remdups xs)" "y \<in> set (remdups xs)" by simp_all
  then show "x = y" using len by (cases "remdups xs") auto
qed

lemma writer_in_alloc_bundles:
  assumes "buffer_writer_bundle g nodes n = Some B" "alloc_id g n = Some i"
  shows "B \<in> set (alloc_id_bundles g nodes i)"
proof -
  have "B \<in> set (buffer_writer_bundles g nodes n)"
    using assms(1) by (auto simp: buffer_writer_bundle_def Let_def split: if_splits)
  then show ?thesis using assms(2) by (auto simp: buffer_writer_bundles_def alloc_id_bundles_def)
qed












section \<open>When a storage object must be kept\<close>











section \<open>Properties of the pool\<close>


definition demo_node :: "string \<Rightarrow> string list \<Rightarrow> string list \<Rightarrow> snode" where
  "demo_node n rs ws = Leaf KernelNode n rs ws"

definition demo_hbm_graph :: hbm_graph where
  "demo_hbm_graph = \<lparr>get_buffer = [''acc'' \<mapsto> \<lparr>alloc_obj = Some 1, device_bytes = 100, is_empty_fallback = False\<rparr>,
       ''x'' \<mapsto> \<lparr>alloc_obj = Some 2, device_bytes = 100, is_empty_fallback = False\<rparr>,
       ''y'' \<mapsto> \<lparr>alloc_obj = Some 3, device_bytes = 100, is_empty_fallback = False\<rparr>],
     graph_inputs = [''in''], graph_outputs = [''out''], lx_claimed = (\<lambda>_. False)\<rparr>"

definition demo_bundle :: snode where
  "demo_bundle = Fused ''bundle'' [''in''] [''out'']
     [demo_node ''k0'' [''in''] [''x''], demo_node ''k1'' [''x''] [''y''], demo_node ''k2'' [''y''] [''acc''],
      demo_node ''k3'' [''acc''] [''out'']]"





text \<open>
  The allocator states a sequence of calls can reach, with the blocks in use and the bytes
  that were in use after each call so far.
\<close>

inductive pool_reach :: "int \<Rightarrow> Allocator \<Rightarrow> (int \<times> int) list \<Rightarrow> int list \<Rightarrow> bool" for seg where
  start: "pool_reach seg (new_allocator seg) [] [0]"
| alloc: "pool_reach seg A live us \<Longrightarrow> 0 \<le> n \<Longrightarrow> allocate A n = (A', Some off) \<Longrightarrow>
    pool_reach seg A' (live @ [(off, n)]) (us @ [\<Sum>(off, n) \<leftarrow> live @ [(off, n)]. n])"
| full: "pool_reach seg A live us \<Longrightarrow> 0 \<le> n \<Longrightarrow> allocate A n = (A', None) \<Longrightarrow> pool_reach seg A' live us"
| free: "pool_reach seg A (l1 @ (off, n) # l2) us \<Longrightarrow>
    pool_reach seg (free_block A off n) (l1 @ l2) (us @ [\<Sum>(off, n) \<leftarrow> l1 @ l2. n])"

inductive_cases pool_reach_cases: "pool_reach seg A live us"

lemma pool_reach_inv: "pool_reach seg A live us \<Longrightarrow> 0 \<le> seg \<Longrightarrow> allocator_inv A live \<and> segment_size A = seg"
proof (induction rule: pool_reach.induct)
  case start
  then show ?case by (simp add: allocator_inv_new, simp add: new_allocator_def)
next
  case (alloc A live us n A' off)
  then show ?case using hbm.alloc_holds by blast
next
  case (full A live us n A')
  then show ?case using hbm.alloc_full by blast
next
  case (free A l1 off n l2 us)
  then show ?case using hbm.release_holds hbm.release_extent by metis
qed

lemma allocate_peak:
  assumes "allocate A n = (A', Some off)"
  shows "currently_allocated A' = currently_allocated A + n" "peak_usage A' = max (currently_allocated A') (peak_usage A)"
  using assms by (auto simp: allocate_def Let_def split: if_splits)

lemma pool_reach_peak:
  "pool_reach seg A live us \<Longrightarrow> 0 \<le> seg \<Longrightarrow> us \<noteq> [] \<and> last us = currently_allocated A \<and> peak_usage A = Max (set us)"
proof (induction rule: pool_reach.induct)
  case start
  then show ?case by (simp add: new_allocator_def)
next
  case (alloc A live us n A' off)
  have "allocator_inv A' (live @ [(off, n)])" using alloc hbm.alloc_holds pool_reach_inv by blast
  then have "currently_allocated A' = (\<Sum>(off, n) \<leftarrow> live @ [(off, n)]. n)" by (simp add: allocator_inv_def)
  then show ?case using alloc.IH alloc.prems allocate_peak [OF alloc.hyps(3)] by (simp add: max.commute)
next
  case (full A live us n A')
  then show ?case using hbm.alloc_full pool_reach_inv by blast
next
  case (free A l1 off n l2 us)
  have inv: "allocator_inv A (l1 @ (off, n) # l2)" using free pool_reach_inv by blast
  then have "0 \<le> n" "currently_allocated A = (\<Sum>(off, n) \<leftarrow> l1 @ l2. n) + n" by (auto simp: allocator_inv_def)
  moreover have "currently_allocated A \<le> Max (set us)"
    using free.IH free.prems by (metis List.finite_set Max_ge last_in_set)
  ultimately show ?case using free.IH free.prems by (simp add: free_block_def max_absorb2)
qed

text \<open>
  C33. Whatever sequence of allocations and releases the pool serves, the blocks in use and
  the free blocks tile the pool up to its end without overlapping, the end never passes the
  segment, the recorded usage is the total of the blocks in use, and the recorded peak is
  the greatest such total over the calls so far.
\<close>

theorem pool_never_overlaps:
  assumes "pool_reach seg A live us" "0 \<le> seg"
  shows "blocks_disjoint (live @ free_blocks A) \<and> (\<Sum>(off, n) \<leftarrow> live @ free_blocks A. n) = pool_end A \<and>
    pool_end A \<le> seg \<and> currently_allocated A = (\<Sum>(off, n) \<leftarrow> live. n) \<and> peak_usage A = Max (set us) \<and>
    (\<forall>(off, n) \<in> set live. 0 \<le> off \<and> off + n \<le> pool_end A)"
  using pool_reach_inv [OF assms] pool_reach_peak [OF assms] by (auto simp: allocator_inv_def)

theorem pool_never_overlaps_witness:
  "blocks_disjoint ([] @ free_blocks (free_block (fst (allocate (new_allocator 1024) 256)) 0 256)) \<and>
   peak_usage (free_block (fst (allocate (new_allocator 1024) 256)) 0 256) = 256"
proof -
  have "allocate (new_allocator 1024) 256 = (fst (allocate (new_allocator 1024) 256), Some 0)" by code_simp
  from pool_reach.alloc [OF pool_reach.start _ this]
  have "pool_reach 1024 (fst (allocate (new_allocator 1024) 256)) ([] @ (0, 256) # []) [0, 256]" by simp
  from pool_never_overlaps [OF pool_reach.free [OF this]] show ?thesis by simp
qed

text \<open>
  C34. A pooled name is confined to its bundle.  Take any node of any bundle, however deep,
  that reads a name sharing the storage of a pool candidate, or that is a kernel and writes
  such a name: the node's bundle is the candidate's writer, the node is a kernel, and the
  name is neither a graph input nor a graph output.  Writes by fallback, extern and nop nodes
  are outside the claim: the bundle walk of the pass skips them.
\<close>

theorem candidate_confined:
  assumes "n \<in> set (all_candidates g nodes)" "alloc_id g m = alloc_id g n" "b \<in> set nodes"
    and "nd \<in> set (iter_all_nodes b)"
    and "m \<in> set (node_reads nd) \<or> \<not> is_kernel_arg_type nd \<and> m \<in> set (node_writes nd)"
  shows "buffer_writer_bundle g nodes n = Some (node_name b) \<and> \<not> is_kernel_arg_type nd \<and>
    m \<notin> set (graph_inputs g) \<and> m \<notin> set (graph_outputs g)"
proof -
  obtain i where i: "alloc_id g n = Some i" "i \<notin> set (io_alloc_ids g)" "i \<notin> set (fallback_read_alloc_ids g nodes)"
      "length (remdups (alloc_id_bundles g nodes i)) \<le> 1"
      "\<forall>r \<in> set (alloc_id_reader_bundles g nodes i). r \<in> set (alloc_id_bundles g nodes i)"
    by (rule candidate_facts [OF assms(1)])
  have m: "m \<notin> set (graph_inputs g)" "m \<notin> set (graph_outputs g)" "m \<notin> set (fallback_read nodes)"
    using i(1-3) assms(2) by (auto simp: io_alloc_ids_def fallback_read_alloc_ids_def map_filter_iff)
  have kernel: "\<not> is_kernel_arg_type nd"
    using m(3) assms(3-5) by (auto simp: fallback_read_def)
  then have "m \<in> set (bundle_writes g b) \<or> m \<in> set (bundle_reads g b)"
    using assms(4,5) m(1,2) by (auto simp: bundle_writes_def bundle_reads_def)
  then have wr: "node_name b \<in> set (alloc_id_bundles g nodes i)"
    using assms(2,3) i(1,5) unfolding alloc_id_bundles_def alloc_id_reader_bundles_def by force
  have "\<exists>c \<in> set nodes. n \<in> set (bundle_writes g c)" using assms(1) by (auto simp: all_candidates_def)
  then have "buffer_writer_bundle g nodes n \<noteq> None"
    by (auto simp: buffer_writer_bundle_def buffer_writer_bundles_def Let_def filter_empty_conv)
  then obtain B where B: "buffer_writer_bundle g nodes n = Some B" by blast
  have "B = node_name b" using remdups_single [OF i(4) writer_in_alloc_bundles [OF B i(1)] wr] .
  then show ?thesis using B kernel m by simp
qed

theorem candidate_confined_witness:
  "buffer_writer_bundle demo_hbm_graph [demo_bundle] ''x'' = Some (node_name demo_bundle)"
proof -
  have "''x'' \<in> set (all_candidates demo_hbm_graph [demo_bundle])" by code_simp
  moreover have "demo_node ''k0'' [''in''] [''x''] \<in> set (iter_all_nodes demo_bundle)"
    by (simp add: demo_bundle_def demo_node_def)
  ultimately show ?thesis
    using candidate_confined [of "''x''" demo_hbm_graph "[demo_bundle]" "''x''" demo_bundle "demo_node ''k0'' [''in''] [''x'']"]
    by (simp add: demo_node_def)
qed

definition acc_bundle :: snode where
  "acc_bundle = Fused ''bundle'' [''in''] [''out'']
     [demo_node ''k0'' [''in''] [''acc''], demo_node ''k1'' [''in''] [''x''], demo_node ''k2'' [''x''] [''y''],
      CountedLoop ''loop'' [''acc'', ''y''] [''acc''] [demo_node ''k3'' [''acc'', ''y''] [''acc'']],
      demo_node ''k4'' [''acc''] [''out'']]"

lemma merge_range_start:
  assumes "foldl (merge_range aid) gr xs i = Some q"
  shows "(\<exists>r. gr i = Some r \<and> fst q = fst r) \<or> (\<exists>x \<in> set xs. aid (fst x) = Some i \<and> fst q = fst (snd x))"
  using assms
proof (induction xs arbitrary: gr)
  case (Cons x xs)
  obtain n s e where x: "x = (n, s, e)" by (metis prod.exhaust)
  have "(\<exists>r. merge_range aid gr x i = Some r \<and> fst q = fst r) \<or> (\<exists>x \<in> set xs. aid (fst x) = Some i \<and> fst q = fst (snd x))"
    using Cons.IH [of "merge_range aid gr x"] Cons.prems by simp
  moreover have "(\<exists>r'. gr i = Some r' \<and> fst r = fst r') \<or> (aid n = Some i \<and> fst r = s)" if "merge_range aid gr x i = Some r" for r
    using that x by (cases r) (auto simp: merge_range_def min_def split: option.splits if_splits prod.splits)
  ultimately show ?case using x by fastforce
qed simp

lemma compute_live_ranges_start:
  assumes "(n, q) \<in> set (compute_live_ranges ns cands aid)" "\<forall>m \<in> set cands. aid m = aid n \<longrightarrow> m = n"
  shows "\<exists>r. (n, r) \<in> set (own_ranges ns cands) \<and> fst q = fst r"
proof -
  let ?gr = "foldl (merge_range aid) (\<lambda>_. None) (own_ranges ns cands)"
  obtain r where r: "(n, r) \<in> set (own_ranges ns cands)"
      "q = (case aid n of None \<Rightarrow> r | Some i \<Rightarrow> (case ?gr i of None \<Rightarrow> r | Some r' \<Rightarrow> r'))"
    using assms(1) by (auto simp: compute_live_ranges_def Let_def)
  show ?thesis
  proof (cases "aid n = None \<or> q = r")
    case True
    then have "q = r" using r(2) by auto
    then show ?thesis using r(1) by blast
  next
    case False
    then obtain i where i: "aid n = Some i" "?gr i = Some q" using r(2) by (auto split: option.splits)
    obtain x where x: "x \<in> set (own_ranges ns cands)" "aid (fst x) = Some i" "fst q = fst (snd x)"
      using merge_range_start [OF i(2)] by blast
    have "fst x \<in> set cands" using own_ranges_mem(1) [of "fst x" "fst (snd x)" "snd (snd x)"] x(1) by simp
    then have "fst x = n" using assms(2) x(2) i(1) by simp
    then show ?thesis using x by (metis prod.collapse)
  qed
qed

text \<open>
  A candidate that two nodes of one bundle write, and that shares its storage with no
  other candidate, gets a live range that starts at its last write: no earlier write is
  inside the range, so its storage is free for other buffers between the two.  The witness is
  an accumulator that is initialised at step 0 and updated by a loop at step 3, where the
  pass gives it the block of a temporary that is written at step 1 and read at step 2.
\<close>

lemma rewritten_range_starts_late:
  assumes "\<forall>m \<in> set cands. aid m \<noteq> None \<and> (aid m = aid n \<longrightarrow> m = n)" "n \<in> set cands"
    and "j < k" "k < length ns" "n \<in> set (node_writes (ns ! j))" "n \<in> set (node_writes (ns ! k))"
  shows "\<exists>s e. map_of (compute_live_ranges ns cands aid) n = Some (int s, e) \<and> j < s \<and> s < length ns \<and>
    n \<in> set (node_writes (ns ! s)) \<and> (\<forall>l < length ns. s < l \<longrightarrow> n \<notin> set (node_writes (ns ! l)))"
proof -
  have some: "\<forall>m \<in> set cands. aid m \<noteq> None" and alone: "\<forall>m \<in> set cands. aid m = aid n \<longrightarrow> m = n"
    using assms(1) by blast+
  obtain s e where own: "(n, s, e) \<in> set (own_ranges ns cands)"
    using own_ranges_exists [OF assms(2,4,6)] by blast
  then have "n \<in> fst ` set (compute_live_ranges ns cands aid)"
    using compute_live_ranges_own(1) [OF some] by (metis fst_conv image_eqI)
  then obtain q where q: "map_of (compute_live_ranges ns cands aid) n = Some q"
    by (metis map_of_eq_None_iff not_None_eq)
  obtain r where r: "(n, r) \<in> set (own_ranges ns cands)" "fst q = fst r"
    using compute_live_ranges_start [OF map_of_SomeD [OF q] alone] by blast
  have "(n, fst r, snd r) \<in> set (own_ranges ns cands)" using r(1) by simp
  from own_ranges_mem(2) [OF this] obtain w where w: "w < length ns" "fst r = int w" "n \<in> set (node_writes (ns ! w))"
      "\<forall>l < length ns. w < l \<longrightarrow> n \<notin> set (node_writes (ns ! l))" by blast
  have "\<not> w < k" using w(4) assms(4,6) by blast
  then have "j < w" using assms(3) by simp
  then show ?thesis using q w r(2) by (intro exI [of _ w] exI [of _ "snd q"]) (simp add: prod_eq_iff)
qed

lemma acc_ranges:
  "all_candidates demo_hbm_graph [acc_bundle] = [''x'', ''y'', ''acc'']"
  "map_sum id (\<lambda>ps. (pass_offsets ps 1, pass_offsets ps 2)) (hbm_pool_planning True True demo_hbm_graph [acc_bundle])
      = Inr (Some 0, Some 0)"
  by code_simp+

lemma rewritten_range_starts_late_example:
  "(\<exists>s e. map_of (compute_live_ranges (get_nodes acc_bundle) [''x'', ''y'', ''acc''] (alloc_id demo_hbm_graph)) ''acc''
       = Some (int s, e) \<and> 0 < s) \<and>
   all_candidates demo_hbm_graph [acc_bundle] = [''x'', ''y'', ''acc''] \<and>
   map_sum id (\<lambda>ps. (pass_offsets ps 1, pass_offsets ps 2)) (hbm_pool_planning True True demo_hbm_graph [acc_bundle])
      = Inr (Some 0, Some 0)"
proof -
  let ?ns = "get_nodes acc_bundle" and ?aid = "alloc_id demo_hbm_graph"
  have "\<forall>m \<in> set [''x'', ''y'', ''acc'']. ?aid m \<noteq> None \<and> (?aid m = ?aid ''acc'' \<longrightarrow> m = ''acc'')" by code_simp
  moreover have "3 < length ?ns" "''acc'' \<in> set (node_writes (?ns ! 0))" "''acc'' \<in> set (node_writes (?ns ! 3))"
    by (simp_all add: acc_bundle_def demo_node_def)
  ultimately show ?thesis
    using rewritten_range_starts_late [of "[''x'', ''y'', ''acc'']" ?aid "''acc''" 0 3 ?ns] acc_ranges by auto
qed

end
