(* ===== verification/Buffer_Lifetimes.thy ===== *)
theory Buffer_Lifetimes
  imports Plan_Solver
begin

text \<open>
  When a buffer of the lowered graph is live:
  \<^verbatim>\<open>src/torch_spyre/_inductor/scratchpad/utils.py\<close> (liveness, the lifetime bounds of
  counted loops, the closure of constant-offset mutations) and the read-only loop facts it
  rests on, \<^verbatim>\<open>src/torch_spyre/_inductor/loop_facts.py\<close>.

  A graph is the list of its operations in execution order with the names of its inputs.
  An operation carries what the analyses read of it: its name, its kind (an extern kernel; a
  \<open>ComputedBuffer\<close> over a \<open>Pointwise\<close>; one whose origin node has a target), its loop metadata,
  the dependencies of \<open>op_read_writes\<close> (ordered sets, here lists) and the buffer its mutation
  layout targets.  The device layout of a buffer, where it has one, is an opaque identity.  Index expressions of SymPy are kept as their printed form: the
  code only compares them, and asks whether the offset of an access is a constant.

  Dictionaries that are only looked up are maps.  The first half of the theory is the code;
  the second half shows that liveness lists exactly the accesses, that a value read inside a
  counted loop is kept for every iteration of it, and that the mutation closure terminates
  with exactly the operations reachable from its seeds.
\<close>

section \<open>Operations and graphs\<close>

datatype dep_offset = NoOffset | ConstOffset int | SymbolicOffset string

text \<open>\<open>dep_is_memory\<close>: the dependency is a \<open>MemoryDep\<close> with an index, not a \<open>StarDep\<close>.\<close>

record MemoryDep =
  dep_is_memory :: bool
  dep_name :: string
  dep_index :: string
  dep_offset_of :: dep_offset

text \<open>\<open>loop_group_id\<close>: absent, a tuple, or a value \<open>tuple()\<close> rejects (a bare int).\<close>

datatype group_id = NoGroup | GroupPath "int list" | MalformedGroup

record CoarseTileInfo =
  loop_group_id :: group_id
  loop_count :: "string list"
  loop_tiled_dims :: "int list list"
  loop_tiled_reduction_dims :: "int list list"

record operation =
  op_name :: string
  op_is_extern :: bool
  op_is_pointwise :: bool
  op_has_target :: bool
  op_loop_info :: "CoarseTileInfo option"
  op_reads :: "MemoryDep list"
  op_writes :: "MemoryDep list"
  op_mutation_target :: "string option"

record graph =
  graph_input_names :: "string list"
  graph_operations :: "operation list"
  graph_device_layout :: "string \<rightharpoonup> string"

text \<open>\<open>rw.reads | rw.writes\<close> of two ordered sets: the reads, then the writes not among them.\<close>

definition op_deps :: "operation \<Rightarrow> MemoryDep list" where
  "op_deps op = op_reads op @ filter (\<lambda>d. d \<notin> set (op_reads op)) (op_writes op)"

definition map_get :: "('k \<rightharpoonup> 'v) \<Rightarrow> 'k \<Rightarrow> 'v \<Rightarrow> 'v" where
  "map_get m k v = (case m k of None \<Rightarrow> v | Some w \<Rightarrow> w)"

definition setdefault :: "('k \<rightharpoonup> 'v) \<Rightarrow> 'k \<Rightarrow> 'v \<Rightarrow> ('k \<rightharpoonup> 'v)" where
  "setdefault m k v = (case m k of None \<Rightarrow> m(k \<mapsto> v) | Some _ \<Rightarrow> m)"

section \<open>Loop facts\<close>

definition group_path :: "CoarseTileInfo option \<Rightarrow> int list" where
  "group_path li = (case li of None \<Rightarrow> [] | Some i \<Rightarrow>
     (case loop_group_id i of GroupPath p \<Rightarrow> p | NoGroup \<Rightarrow> [] | MalformedGroup \<Rightarrow> []))"

record LoopLevel =
  level_path :: "int list"
  trip_count :: string
  tiled_dims :: "int list"
  tiled_reduction_dims :: "int list"

definition level_at :: "int list list \<Rightarrow> nat \<Rightarrow> int list" where
  "level_at ls i = (if i < length ls then ls ! i else [])"

definition loop_levels :: "CoarseTileInfo option \<Rightarrow> LoopLevel list" where
  "loop_levels li = (case li of None \<Rightarrow> [] | Some i \<Rightarrow>
     (let path = group_path li; counts = loop_count i in
      if path = [] \<or> length counts < length path then []
      else map (\<lambda>k. \<lparr>level_path = take (k + 1) path, trip_count = counts ! k,
                 tiled_dims = level_at (loop_tiled_dims i) k,
                 tiled_reduction_dims = level_at (loop_tiled_reduction_dims i) k\<rparr>)
             [0..<length path]))"

definition enclosing_loops :: "operation \<Rightarrow> LoopLevel list" where
  "enclosing_loops op = loop_levels (op_loop_info op)"

definition loop_depth :: "operation \<Rightarrow> nat" where
  "loop_depth op = length (enclosing_loops op)"

definition counted_loop_path :: "operation \<Rightarrow> bool \<Rightarrow> int list" where
  "counted_loop_path op include_extern =
     (if op_is_extern op \<and> \<not> include_extern then [] else group_path (op_loop_info op))"

definition counted_loop_group_path :: "operation \<Rightarrow> int list" where
  "counted_loop_group_path op = counted_loop_path op False"

definition counted_loop_entry :: "operation list \<Rightarrow> operation \<Rightarrow> operation option" where
  "counted_loop_entry ops op =
     (let outer = take 1 (counted_loop_group_path op) in
      if outer = [] then None
      else find (\<lambda>q. take 1 (counted_loop_group_path q) = outer) ops)"

section \<open>Liveness\<close>

text \<open>Operations are walked in order, so only the tail of a list can repeat the index.\<close>

definition record_use :: "int \<Rightarrow> (string \<rightharpoonup> int list) \<Rightarrow> MemoryDep \<Rightarrow> (string \<rightharpoonup> int list)" where
  "record_use i liveness d =
     (let buf_name = dep_name d; uses = map_get liveness buf_name [] in
      liveness(buf_name \<mapsto> (if uses = [] \<or> last uses \<noteq> i then uses @ [i] else uses)))"

fun liveness_ops :: "int \<Rightarrow> operation list \<Rightarrow> (string \<rightharpoonup> int list) \<Rightarrow> (string \<rightharpoonup> int list)" where
  "liveness_ops i [] liveness = liveness"
| "liveness_ops i (op # ops) liveness =
     liveness_ops (i + 1) ops (foldl (record_use i) liveness (op_deps op))"

definition calculate_liveness :: "graph \<Rightarrow> string \<rightharpoonup> int list" where
  "calculate_liveness g =
     liveness_ops 0 (graph_operations g) (\<lambda>n. if n \<in> set (graph_input_names g) then Some [] else None)"

section \<open>Lifetime bounds of counted loops\<close>

record loop_scan =
  loop_start :: "int list \<rightharpoonup> int"
  loop_end :: "int list \<rightharpoonup> int"
  birth_group :: "string \<rightharpoonup> int list"
  first_access :: "string \<rightharpoonup> int"
  last_access :: "string \<rightharpoonup> int"

definition enter_loop :: "int \<Rightarrow> int list \<Rightarrow> loop_scan \<Rightarrow> nat \<Rightarrow> loop_scan" where
  "enter_loop index path S depth =
     (let loop = take depth path in
      S\<lparr>loop_start := setdefault (loop_start S) loop index,
        loop_end := (loop_end S)(loop \<mapsto> index)\<rparr>)"

text \<open>A write is born in the loop of its operation, a value first seen in a read outside every loop.\<close>

definition scan_access :: "int \<Rightarrow> int list \<Rightarrow> loop_scan \<Rightarrow> MemoryDep \<Rightarrow> loop_scan" where
  "scan_access index path S d =
     S\<lparr>birth_group := setdefault (birth_group S) (dep_name d) path,
       first_access := setdefault (first_access S) (dep_name d) index,
       last_access := (last_access S)(dep_name d \<mapsto> index)\<rparr>"

definition scan_op :: "int \<Rightarrow> operation \<Rightarrow> loop_scan \<Rightarrow> loop_scan" where
  "scan_op index op S =
     (let path = counted_loop_group_path op;
          S = foldl (enter_loop index path) S [1..<length path + 1];
          S = foldl (scan_access index path) S (op_writes op)
      in foldl (scan_access index []) S (op_reads op))"

fun scan_ops :: "int \<Rightarrow> operation list \<Rightarrow> loop_scan \<Rightarrow> loop_scan" where
  "scan_ops index [] S = S"
| "scan_ops index (op # ops) S = scan_ops (index + 1) ops (scan_op index op S)"

definition scan_init :: "graph \<Rightarrow> loop_scan" where
  "scan_init g = \<lparr>loop_start = Map.empty, loop_end = Map.empty,
      birth_group = (\<lambda>n. if n \<in> set (graph_input_names g) then Some [] else None),
      first_access = Map.empty, last_access = Map.empty\<rparr>"

definition scan_graph :: "graph \<Rightarrow> loop_scan" where
  "scan_graph g = scan_ops 0 (graph_operations g) (scan_init g)"

fun common_prefix :: "int list \<Rightarrow> int list \<Rightarrow> nat" where
  "common_prefix (a # as) (b # bs) = (if a = b then Suc (common_prefix as bs) else 0)"
| "common_prefix _ _ = 0"

type_synonym overrides = "(string \<rightharpoonup> int) \<times> (string \<rightharpoonup> int)"

definition widen_read :: "loop_scan \<Rightarrow> int \<Rightarrow> int list \<Rightarrow> overrides \<Rightarrow> MemoryDep \<Rightarrow> overrides result" where
  "widen_read S index consumer_path ov d =
     (let n = dep_name d;
          producer_path = map_get (birth_group S) n [];
          common = common_prefix producer_path consumer_path
      in if common = length consumer_path then Inr ov
         else
          (let enclosing_loop = take (common + 1) consumer_path in
           case (loop_start S enclosing_loop, loop_end S enclosing_loop) of
             (Some start, Some end') \<Rightarrow>
               Inr (if start < map_get (first_access S) n index
                    then (fst ov)(n \<mapsto> min (map_get (fst ov) n start) start) else fst ov,
                    if end' + 1 > map_get (last_access S) n index + 1
                    then (snd ov)(n \<mapsto> max (map_get (snd ov) n 0) (end' + 1)) else snd ov)
           | _ \<Rightarrow> Inl KeyError))"

fun widen_reads :: "loop_scan \<Rightarrow> int \<Rightarrow> int list \<Rightarrow> MemoryDep list \<Rightarrow> overrides \<Rightarrow> overrides result" where
  "widen_reads S index path [] ov = Inr ov"
| "widen_reads S index path (d # ds) ov = rbind (widen_read S index path ov d) (widen_reads S index path ds)"

fun widen_ops :: "loop_scan \<Rightarrow> int \<Rightarrow> operation list \<Rightarrow> overrides \<Rightarrow> overrides result" where
  "widen_ops S index [] ov = Inr ov"
| "widen_ops S index (op # ops) ov =
     (let consumer_path = counted_loop_group_path op in
      rbind (if consumer_path = [] then Inr ov else widen_reads S index consumer_path (op_reads op) ov)
            (widen_ops S (index + 1) ops))"

definition counted_loop_lifetime_overrides :: "graph \<Rightarrow> overrides result" where
  "counted_loop_lifetime_overrides g =
     widen_ops (scan_graph g) 0 (graph_operations g) (Map.empty, Map.empty)"

definition counted_loop_lifetime_end_overrides :: "graph \<Rightarrow> (string \<rightharpoonup> int) result" where
  "counted_loop_lifetime_end_overrides g = rbind (counted_loop_lifetime_overrides g) (\<lambda>ov. Inr (snd ov))"

section \<open>Constant-offset mutations\<close>

definition dep_has_constant_offset :: "MemoryDep \<Rightarrow> bool" where
  "dep_has_constant_offset d =
     (case dep_offset_of d of ConstOffset k \<Rightarrow> k \<noteq> 0 | NoOffset \<Rightarrow> False | SymbolicOffset _ \<Rightarrow> False)"

definition writes_at_constant_offset :: "operation \<Rightarrow> bool" where
  "writes_at_constant_offset op = list_ex dep_has_constant_offset (op_writes op)"

text \<open>
  The successor dictionary as the list of its edges: a buffer to each operation that reads
  it, and a mutating operation and its target in both directions.
\<close>

definition op_edges :: "operation \<Rightarrow> (string \<times> string) list" where
  "op_edges op = map (\<lambda>d. (dep_name d, op_name op)) (op_reads op) @
     (case op_mutation_target op of None \<Rightarrow> []
      | Some target \<Rightarrow> [(op_name op, target), (target, op_name op)])"

definition successor_edges :: "operation list \<Rightarrow> (string \<times> string) list" where
  "successor_edges ops = concat (map op_edges ops)"

definition successors :: "(string \<times> string) list \<Rightarrow> string \<Rightarrow> string list" where
  "successors es n = remdups (map snd (filter (\<lambda>e. fst e = n) es))"

text \<open>
  The worklist loop.  \<open>stack.pop()\<close> takes the last element and \<open>extend\<close> appends; the stack is
  kept reversed, so both work on its head.  A Python set has no order: the successors are
  pushed in the order of the edges.
\<close>

function walk_reached :: "(string \<times> string) list \<Rightarrow> string list \<Rightarrow> string list \<Rightarrow> string list" where
  "walk_reached es [] reached = reached"
| "walk_reached es (n # stack) reached =
     (if n \<in> set reached then walk_reached es stack reached
      else walk_reached es (rev (successors es n) @ stack) (reached @ [n]))"
  by pat_completeness auto

definition unreached :: "(string \<times> string) list \<Rightarrow> string list \<Rightarrow> string list \<Rightarrow> string set" where
  "unreached es stack reached = (set stack \<union> snd ` set es) - set reached"

lemma unreached_finite [simp]: "finite (unreached es stack reached)"
  by (simp add: unreached_def)

lemma unreached_skip: "n \<in> set reached \<Longrightarrow> unreached es stack reached = unreached es (n # stack) reached"
  by (auto simp: unreached_def)

lemma unreached_push:
  assumes "n \<notin> set reached"
  shows "unreached es (rev (successors es n) @ stack) (reached @ [n]) \<subset> unreached es (n # stack) reached"
proof (rule psubsetI)
  have "set (successors es n) \<subseteq> snd ` set es" by (auto simp: successors_def)
  then show "unreached es (rev (successors es n) @ stack) (reached @ [n]) \<subseteq> unreached es (n # stack) reached"
    by (auto simp: unreached_def)
  have "n \<notin> unreached es (rev (successors es n) @ stack) (reached @ [n])" "n \<in> unreached es (n # stack) reached"
    using assms by (simp_all add: unreached_def)
  then show "unreached es (rev (successors es n) @ stack) (reached @ [n]) \<noteq> unreached es (n # stack) reached"
    by metis
qed

termination walk_reached
proof (relation "measures [\<lambda>(es, stack, reached). card (unreached es stack reached),
        \<lambda>(es, stack, reached). length stack]", goal_cases)
  case (2 es n stack reached)
  then show ?case by (simp add: unreached_skip [of n reached es stack])
next
  case (3 es n stack reached)
  then show ?case by (simp add: psubset_card_mono unreached_push)
qed simp

definition ops_in_offset_mutation_component :: "graph \<Rightarrow> string list" where
  "ops_in_offset_mutation_component g =
     (let seeds = map op_name (filter writes_at_constant_offset (graph_operations g)) in
      if seeds = [] then []
      else
       (let reached = walk_reached (successor_edges (graph_operations g)) (rev seeds) [] in
        filter (\<lambda>n. n \<in> op_name ` set (graph_operations g)) reached))"

section \<open>Users of a buffer\<close>

text \<open>One entry per dependency: an operation that touches a buffer twice is listed twice.\<close>

definition get_buffer_users :: "graph \<Rightarrow> string \<Rightarrow> operation list" where
  "get_buffer_users g n =
     concat (map (\<lambda>op. map (\<lambda>_. op) (filter (\<lambda>d. dep_name d = n) (op_deps op))) (graph_operations g))"

definition get_buffer_user_deps :: "graph \<Rightarrow> string \<Rightarrow> (operation \<times> MemoryDep) list" where
  "get_buffer_user_deps g n =
     concat (map (\<lambda>op. map (\<lambda>d. (op, d)) (filter (\<lambda>d. dep_name d = n) (op_deps op))) (graph_operations g))"

section \<open>Liveness lists exactly the accesses\<close>

definition accesses :: "operation \<Rightarrow> string \<Rightarrow> bool" where
  "accesses op n \<longleftrightarrow> n \<in> dep_name ` (set (op_reads op) \<union> set (op_writes op))"

fun access_ticks :: "int \<Rightarrow> operation list \<Rightarrow> string \<Rightarrow> int list" where
  "access_ticks i [] n = []"
| "access_ticks i (op # ops) n = (if accesses op n then [i] else []) @ access_ticks (i + 1) ops n"

lemma op_deps_names: "dep_name ` set (op_deps op) = {n. accesses op n}"
  by (auto simp: op_deps_def accesses_def)

lemma map_get_upd [simp]: "map_get (m(k \<mapsto> v)) j w = (if j = k then v else map_get m j w)"
  by (simp add: map_get_def)

lemma record_uses:
  "foldl (record_use i) L ds n =
     (if n \<in> dep_name ` set ds
      then Some (if map_get L n [] = [] \<or> last (map_get L n []) \<noteq> i then map_get L n [] @ [i] else map_get L n [])
      else L n)"
proof (induction ds arbitrary: L)
  case (Cons d ds)
  show ?case unfolding foldl_Cons Cons.IH by (auto simp: record_use_def Let_def)
qed simp

lemma access_ticks_ge: "t \<in> set (access_ticks i ops n) \<Longrightarrow> i \<le> t"
  by (induction i ops n rule: access_ticks.induct) (auto split: if_splits)

lemma access_ticks_sorted: "sorted_wrt (<) (access_ticks i ops n)"
proof (induction i ops n rule: access_ticks.induct)
  case (2 i op ops n)
  then show ?case using access_ticks_ge [of _ "i + 1" ops n] by force
qed simp

lemma access_ticks_empty: "access_ticks i ops n = [] \<longleftrightarrow> (\<forall>op \<in> set ops. \<not> accesses op n)"
  by (induction i ops n rule: access_ticks.induct) auto

lemma liveness_ops_eq:
  assumes "\<forall>u. L n = Some u \<longrightarrow> (\<forall>t \<in> set u. t < i)"
  shows "liveness_ops i ops L n =
    (if L n = None \<and> access_ticks i ops n = [] then None else Some (map_get L n [] @ access_ticks i ops n))"
  using assms
proof (induction i ops L rule: liveness_ops.induct)
  case (1 i L)
  then show ?case by (auto simp: map_get_def split: option.splits)
next
  case (2 i op ops L)
  let ?L = "foldl (record_use i) L (op_deps op)"
  have old: "\<forall>t \<in> set (map_get L n []). t < i"
    using 2(2) by (cases "L n") (auto simp: map_get_def)
  then have fresh: "map_get L n [] = [] \<or> last (map_get L n []) \<noteq> i"
    by (metis last_in_set less_irrefl)
  have step: "?L n = (if accesses op n then Some (map_get L n [] @ [i]) else L n)"
    using fresh by (auto simp: record_uses op_deps_names)
  then have "\<forall>u. ?L n = Some u \<longrightarrow> (\<forall>t \<in> set u. t < i + 1)"
    using old 2(2) by (cases "accesses op n") (auto intro: less_imp_le)
  from 2(1) [OF this] step show ?case by (auto simp: map_get_def split: option.splits)
qed

lemma access_ticks_filter:
  "access_ticks i ops n = map (\<lambda>k. i + int k) (filter (\<lambda>k. accesses (ops ! k) n) [0..<length ops])"
proof (induction i ops n rule: access_ticks.induct)
  case (2 i op ops n)
  have up: "[0..<length (op # ops)] = 0 # map Suc [0..<length ops]"
    unfolding map_Suc_upt by (simp add: upt_conv_Cons del: upt_Suc)
  show ?case unfolding up access_ticks.simps 2 by (simp add: filter_map comp_def add.assoc)
qed simp

text \<open>
  C27. Liveness is exact: a name is in the result exactly if it is a graph input or some
  operation touches it, and its list holds each index at which an operation reads or writes
  it once, in increasing order, whatever the number of dependencies of that operation.
\<close>

theorem calculate_liveness_exact:
  "calculate_liveness g n =
     (if n \<in> set (graph_input_names g) \<or> (\<exists>op \<in> set (graph_operations g). accesses op n)
      then Some (map int (filter (\<lambda>k. accesses (graph_operations g ! k) n) [0..<length (graph_operations g)]))
      else None)"
proof -
  have "access_ticks 0 (graph_operations g) n
    = map int (filter (\<lambda>k. accesses (graph_operations g ! k) n) [0..<length (graph_operations g)])"
    by (simp add: access_ticks_filter)
  moreover have "calculate_liveness g n =
    (if n \<in> set (graph_input_names g) \<or> (\<exists>op \<in> set (graph_operations g). accesses op n)
     then Some (access_ticks 0 (graph_operations g) n) else None)"
    using access_ticks_empty [of 0 "graph_operations g" n]
    unfolding calculate_liveness_def by (subst liveness_ops_eq) (auto simp: map_get_def)
  ultimately show ?thesis by simp
qed

section \<open>The mutation closure is reachability\<close>

lemma closure_step: "(E\<^sup>*) `` {n} = insert n ((E\<^sup>*) `` (E `` {n}))"
  by (auto elim: converse_rtranclE intro: converse_rtrancl_into_rtrancl)

lemma closed_contains: "E `` R \<subseteq> R \<union> (E\<^sup>*) `` T \<Longrightarrow> n \<in> R \<Longrightarrow> (E\<^sup>*) `` {n} \<subseteq> R \<union> (E\<^sup>*) `` T"
proof
  fix m assume cl: "E `` R \<subseteq> R \<union> (E\<^sup>*) `` T" and n: "n \<in> R" and "m \<in> (E\<^sup>*) `` {n}"
  then have "(n, m) \<in> E\<^sup>*" by simp
  then show "m \<in> R \<union> (E\<^sup>*) `` T"
  proof (induction rule: rtrancl_induct)
    case (step y z)
    then show ?case using cl by (auto intro: rtrancl_into_rtrancl)
  qed (simp add: n)
qed

lemma successors_set: "set (successors es n) = set es `` {n}"
  by (force simp: successors_def)

lemma walk_reached_set:
  "set es `` set reached \<subseteq> set reached \<union> set stack \<Longrightarrow>
   set (walk_reached es stack reached) = set reached \<union> ((set es)\<^sup>*) `` set stack"
proof (induction es stack reached rule: walk_reached.induct)
  case (2 es n stack reached)
  let ?E = "set es"
  show ?case
  proof (cases "n \<in> set reached")
    case True
    have cl: "?E `` set reached \<subseteq> set reached \<union> set stack" using 2(3) True by auto
    moreover have "set stack \<subseteq> (?E\<^sup>*) `` set stack" by auto
    ultimately have "(?E\<^sup>*) `` {n} \<subseteq> set reached \<union> (?E\<^sup>*) `` set stack"
      using closed_contains [of ?E "set reached" "set stack" n] True by blast
    then show ?thesis using 2(1) [OF True cl] True by auto
  next
    case False
    have cl: "?E `` set (reached @ [n]) \<subseteq> set (reached @ [n]) \<union> set (rev (successors es n) @ stack)"
      using 2(3) by (auto simp: successors_set)
    show ?thesis using 2(2) [OF False cl] False closure_step [of ?E n]
      by (auto simp: successors_set Image_Un)
  qed
qed simp

text \<open>
  C28. The worklist of the mutation closure ends on every graph, cyclic ones included, and its
  result is exactly the operations reachable from a constant-offset write by following reads
  forwards and mutation links in both directions, over any number of hops.
\<close>

theorem mutation_component_exact:
  "set (ops_in_offset_mutation_component g) =
     {n \<in> op_name ` set (graph_operations g).
        \<exists>op \<in> set (graph_operations g). writes_at_constant_offset op
          \<and> (op_name op, n) \<in> (set (successor_edges (graph_operations g)))\<^sup>*}"
proof -
  have "set (walk_reached (successor_edges (graph_operations g))
          (rev (map op_name (filter writes_at_constant_offset (graph_operations g)))) [])
    = ((set (successor_edges (graph_operations g)))\<^sup>*) ``
        (op_name ` {op \<in> set (graph_operations g). writes_at_constant_offset op})"
    by (subst walk_reached_set) simp_all
  then show ?thesis
    by (auto simp: ops_in_offset_mutation_component_def Let_def filter_empty_conv)
qed

section \<open>What the scan records\<close>

definition in_loop :: "operation \<Rightarrow> int list \<Rightarrow> bool" where
  "in_loop op loop \<longleftrightarrow> loop \<noteq> [] \<and> take (length loop) (counted_loop_group_path op) = loop"

lemma in_loop_take:
  "0 < k \<Longrightarrow> k \<le> length (counted_loop_group_path op) \<Longrightarrow> in_loop op (take k (counted_loop_group_path op))"
  by (auto simp: in_loop_def)

lemma in_loop_depth:
  "in_loop op loop \<longleftrightarrow> (\<exists>d \<in> set [1..<length (counted_loop_group_path op) + 1].
     loop = take d (counted_loop_group_path op))"
proof
  assume l: "in_loop op loop"
  then have len: "length loop \<le> length (counted_loop_group_path op)"
    by (metis in_loop_def length_take min.bounded_iff order_refl)
  show "\<exists>d \<in> set [1..<length (counted_loop_group_path op) + 1].
     loop = take d (counted_loop_group_path op)"
  proof (rule bexI [rotated])
    show "length loop \<in> set [1..<length (counted_loop_group_path op) + 1]"
      using l len by (cases loop) (auto simp: in_loop_def Suc_le_eq less_Suc_eq_le simp del: upt_Suc)
    show "loop = take (length loop) (counted_loop_group_path op)"
      using l unfolding in_loop_def by (elim conjE) (erule sym)
  qed
qed (auto intro: in_loop_take)

lemma setdefault_apply: "setdefault m k v j = (if j = k then Some (map_get m k v) else m j)"
  by (auto simp: setdefault_def map_get_def split: option.splits)

lemma map_get_setdefault [simp]: "map_get (setdefault m k v) j w = (if j = k then map_get m k v else map_get m j w)"
  by (simp add: map_get_def setdefault_apply)

lemma enter_loops:
  "loop_start (foldl (enter_loop i path) S ds) loop =
     (if \<exists>d \<in> set ds. loop = take d path then Some (map_get (loop_start S) loop i) else loop_start S loop)"
  "loop_end (foldl (enter_loop i path) S ds) loop =
     (if \<exists>d \<in> set ds. loop = take d path then Some i else loop_end S loop)"
  "birth_group (foldl (enter_loop i path) S ds) = birth_group S"
  "first_access (foldl (enter_loop i path) S ds) = first_access S"
  "last_access (foldl (enter_loop i path) S ds) = last_access S"
  by (induction ds arbitrary: S) (auto simp: enter_loop_def Let_def setdefault_apply)

lemma scan_accesses:
  "loop_start (foldl (scan_access i path) S ds) = loop_start S"
  "loop_end (foldl (scan_access i path) S ds) = loop_end S"
  "birth_group (foldl (scan_access i path) S ds) n =
     (if n \<in> dep_name ` set ds then Some (map_get (birth_group S) n path) else birth_group S n)"
  "first_access (foldl (scan_access i path) S ds) n =
     (if n \<in> dep_name ` set ds then Some (map_get (first_access S) n i) else first_access S n)"
  "last_access (foldl (scan_access i path) S ds) n =
     (if n \<in> dep_name ` set ds then Some i else last_access S n)"
  by (induction ds arbitrary: S) (auto simp: scan_access_def setdefault_apply)


abbreviation op_writes_name :: "operation \<Rightarrow> string \<Rightarrow> bool" where
  "op_writes_name op n \<equiv> n \<in> dep_name ` set (op_writes op)"

abbreviation op_reads_name :: "operation \<Rightarrow> string \<Rightarrow> bool" where
  "op_reads_name op n \<equiv> n \<in> dep_name ` set (op_reads op)"

lemma scan_op_loops:
  "loop_start (scan_op i op S) loop =
     (if in_loop op loop then Some (map_get (loop_start S) loop i) else loop_start S loop)"
  "loop_end (scan_op i op S) loop = (if in_loop op loop then Some i else loop_end S loop)"
  unfolding scan_op_def Let_def in_loop_depth by (simp_all only: scan_accesses enter_loops)

lemma scan_op_names:
  "birth_group (scan_op i op S) n =
     (if accesses op n
      then Some (map_get (birth_group S) n (if op_writes_name op n then counted_loop_group_path op else []))
      else birth_group S n)"
  "first_access (scan_op i op S) n =
     (if accesses op n then Some (map_get (first_access S) n i) else first_access S n)"
  "last_access (scan_op i op S) n = (if accesses op n then Some i else last_access S n)"
  unfolding scan_op_def Let_def accesses_def
  by (auto simp: scan_accesses enter_loops map_get_def)

lemma scan_ops_start_kept:
  "loop_start S loop = Some v \<Longrightarrow> loop_start (scan_ops i ops S) loop = Some v"
  by (induction i ops S rule: scan_ops.induct) (simp_all add: scan_op_loops map_get_def)

lemma scan_ops_start:
  assumes "k < length ops" "in_loop (ops ! k) loop" "\<forall>v. loop_start S loop = Some v \<longrightarrow> v \<le> i"
  shows "\<exists>s. loop_start (scan_ops i ops S) loop = Some s \<and> s \<le> i + int k"
  using assms
proof (induction i ops S arbitrary: k rule: scan_ops.induct)
  case (2 i op ops S)
  show ?case
  proof (cases "in_loop op loop")
    case True
    have "map_get (loop_start S) loop i \<le> i" using 2(4) by (auto simp: map_get_def split: option.splits)
    then show ?thesis
      using scan_ops_start_kept [of "scan_op i op S" loop _ "i + 1" ops] True
      by (fastforce simp: scan_op_loops)
  next
    case False
    then obtain k' where k: "k = Suc k'" using 2(3) by (cases k) auto
    have "\<forall>v. loop_start (scan_op i op S) loop = Some v \<longrightarrow> v \<le> i + 1"
      using 2(4) False by (auto simp: scan_op_loops)
    then show ?thesis using 2(1) [of k'] 2(2,3) k by fastforce
  qed
qed simp

lemma scan_ops_end_mono:
  "loop_end S loop = Some e \<Longrightarrow> e \<le> i \<Longrightarrow> \<exists>e'. loop_end (scan_ops i ops S) loop = Some e' \<and> e \<le> e'"
proof (induction i ops S arbitrary: e rule: scan_ops.induct)
  case (2 i op ops S)
  show ?case
  proof (cases "in_loop op loop")
    case True
    then have "\<exists>e'. loop_end (scan_ops i (op # ops) S) loop = Some e' \<and> i \<le> e'"
      using 2(1) [of i] by (simp add: scan_op_loops)
    then show ?thesis using 2(3) by force
  next
    case False
    then show ?thesis using 2(1) [of e] 2(2,3) by (simp add: scan_op_loops)
  qed
qed simp

lemma scan_ops_end:
  assumes "k < length ops" "in_loop (ops ! k) loop"
  shows "\<exists>e. loop_end (scan_ops i ops S) loop = Some e \<and> i + int k \<le> e"
  using assms
proof (induction i ops S arbitrary: k rule: scan_ops.induct)
  case (2 i op ops S)
  show ?case
  proof (cases k)
    case 0
    then show ?thesis
      using scan_ops_end_mono [of "scan_op i op S" loop i "i + 1" ops] 2(3) by (simp add: scan_op_loops)
  next
    case (Suc k')
    then show ?thesis using 2(1) [of k'] 2(2,3) by (simp add: algebra_simps)
  qed
qed simp

lemma scan_ops_accesses:
  "first_access (scan_ops i ops S) n =
     (case first_access S n of Some v \<Rightarrow> Some v
      | None \<Rightarrow> if access_ticks i ops n = [] then None else Some (hd (access_ticks i ops n)))"
  "last_access (scan_ops i ops S) n =
     (if access_ticks i ops n = [] then last_access S n else Some (last (access_ticks i ops n)))"
  by (induction i ops S rule: scan_ops.induct) (auto simp: scan_op_names map_get_def split: option.splits)

text \<open>The loop a value is born in: the one of its first write, none for an input or a read first.\<close>

definition born_in :: "graph \<Rightarrow> string \<Rightarrow> int list" where
  "born_in g n =
     (if n \<in> set (graph_input_names g) then []
      else case find (\<lambda>op. accesses op n) (graph_operations g) of None \<Rightarrow> []
        | Some op \<Rightarrow> if op_writes_name op n then counted_loop_group_path op else [])"

lemma scan_ops_birth:
  "map_get (birth_group (scan_ops i ops S)) n [] =
     (case birth_group S n of Some p \<Rightarrow> p
      | None \<Rightarrow> (case find (\<lambda>op. accesses op n) ops of None \<Rightarrow> []
        | Some op \<Rightarrow> if op_writes_name op n then counted_loop_group_path op else []))"
  by (induction i ops S rule: scan_ops.induct) (auto simp: scan_op_names map_get_def split: option.splits)

lemma scan_graph_facts:
  "map_get (birth_group (scan_graph g)) n [] = born_in g n"
  "first_access (scan_graph g) n =
     (if access_ticks 0 (graph_operations g) n = [] then None else Some (hd (access_ticks 0 (graph_operations g) n)))"
  "last_access (scan_graph g) n =
     (if access_ticks 0 (graph_operations g) n = [] then None else Some (last (access_ticks 0 (graph_operations g) n)))"
  by (auto simp: scan_graph_def scan_init_def scan_ops_birth scan_ops_accesses born_in_def)

lemma scan_graph_loops:
  assumes "k < length (graph_operations g)" "in_loop (graph_operations g ! k) loop"
  obtains s e where "loop_start (scan_graph g) loop = Some s" "loop_end (scan_graph g) loop = Some e"
    "\<forall>j < length (graph_operations g). in_loop (graph_operations g ! j) loop \<longrightarrow> s \<le> int j \<and> int j \<le> e"
proof -
  have "\<exists>s e. loop_start (scan_graph g) loop = Some s \<and> loop_end (scan_graph g) loop = Some e
      \<and> s \<le> int j \<and> int j \<le> e"
    if "j < length (graph_operations g)" "in_loop (graph_operations g ! j) loop" for j
    using scan_ops_start [OF that, of "scan_init g" 0] scan_ops_end [OF that, of 0 "scan_init g"]
    by (auto simp: scan_graph_def scan_init_def)
  then show ?thesis using that assms by (metis option.inject)
qed

section \<open>What the overrides cover\<close>

text \<open>Overrides only widen: an entry stays, and moves outwards.\<close>

definition ov_le :: "overrides \<Rightarrow> overrides \<Rightarrow> bool" where
  "ov_le a b \<longleftrightarrow> (\<forall>n v. fst a n = Some v \<longrightarrow> (\<exists>w \<le> v. fst b n = Some w))
     \<and> (\<forall>n v. snd a n = Some v \<longrightarrow> (\<exists>w \<ge> v. snd b n = Some w))"

lemma ov_le_refl [simp]: "ov_le a a"
  by (auto simp: ov_le_def)

lemma ov_le_trans: "ov_le a b \<Longrightarrow> ov_le b c \<Longrightarrow> ov_le a c"
  unfolding ov_le_def by (meson order_trans)

definition covered :: "loop_scan \<Rightarrow> overrides \<Rightarrow> string \<Rightarrow> int \<Rightarrow> int \<Rightarrow> int \<Rightarrow> bool" where
  "covered S ov n index s e \<longleftrightarrow>
     (s < map_get (first_access S) n index \<longrightarrow> (\<exists>w \<le> s. fst ov n = Some w))
     \<and> (e > map_get (last_access S) n index \<longrightarrow> (\<exists>w \<ge> e + 1. snd ov n = Some w))"

lemma covered_mono: "covered S a n i s e \<Longrightarrow> ov_le a b \<Longrightarrow> covered S b n i s e"
  unfolding covered_def ov_le_def by (meson order_trans)

text \<open>No override falls inside the span from the first to the last access.\<close>

definition outside_accesses :: "loop_scan \<Rightarrow> overrides \<Rightarrow> bool" where
  "outside_accesses S ov \<longleftrightarrow> (\<forall>n f l. first_access S n = Some f \<and> last_access S n = Some l \<longrightarrow>
     (\<forall>v. fst ov n = Some v \<longrightarrow> v < f) \<and> (\<forall>v. snd ov n = Some v \<longrightarrow> l + 1 < v))"

definition crosses :: "loop_scan \<Rightarrow> int list \<Rightarrow> MemoryDep \<Rightarrow> int list \<Rightarrow> bool" where
  "crosses S path d loop \<longleftrightarrow>
     (let c = common_prefix (map_get (birth_group S) (dep_name d) []) path in
      c < length path \<and> loop = take (c + 1) path)"

lemma common_prefix_le: "common_prefix p q \<le> length q"
  by (induction p q rule: common_prefix.induct) auto

lemma widen_read_le: "widen_read S i path ov d = Inr ov' \<Longrightarrow> ov_le ov ov'"
  by (auto simp: widen_read_def ov_le_def Let_def map_get_def split: if_splits option.splits)

lemma widen_read_outside:
  "widen_read S i path ov d = Inr ov' \<Longrightarrow> outside_accesses S ov \<Longrightarrow> outside_accesses S ov'"
  by (auto simp: widen_read_def outside_accesses_def Let_def map_get_def split: if_splits option.splits)

lemma widen_read_covers:
  assumes "widen_read S i path ov d = Inr ov'" "crosses S path d loop"
    and "loop_start S loop = Some s" "loop_end S loop = Some e"
  shows "covered S ov' (dep_name d) i s e"
  using assms by (auto simp: widen_read_def crosses_def covered_def Let_def)

lemma widen_read_total:
  assumes "\<forall>loop. crosses S path d loop \<longrightarrow> loop_start S loop \<noteq> None \<and> loop_end S loop \<noteq> None"
  shows "\<exists>ov'. widen_read S i path ov d = Inr ov'"
  using assms common_prefix_le [of "map_get (birth_group S) (dep_name d) []" path]
  by (auto simp: widen_read_def crosses_def Let_def)

lemma widen_reads_le: "widen_reads S i path ds ov = Inr ov' \<Longrightarrow> ov_le ov ov'"
  by (induction ds arbitrary: ov) (auto dest: widen_read_le intro: ov_le_trans)

lemma widen_reads_covers:
  assumes "widen_reads S i path ds ov = Inr ov'" "d \<in> set ds" "crosses S path d loop"
    and "loop_start S loop = Some s" "loop_end S loop = Some e"
  shows "covered S ov' (dep_name d) i s e"
  using assms
proof (induction ds arbitrary: ov)
  case (Cons x xs)
  from Cons.prems(1) obtain ov1 where 1: "widen_read S i path ov x = Inr ov1"
    and 2: "widen_reads S i path xs ov1 = Inr ov'" by auto
  show ?case
  proof (cases "d = x")
    case True
    then show ?thesis
      using widen_read_covers [OF 1 _ Cons.prems(4,5)] Cons.prems(3) widen_reads_le [OF 2] covered_mono by blast
  next
    case False
    then show ?thesis using Cons.IH [OF 2 _ Cons.prems(3-5)] Cons.prems(2) by simp
  qed
qed simp

lemma widen_reads_outside:
  "widen_reads S i path ds ov = Inr ov' \<Longrightarrow> outside_accesses S ov \<Longrightarrow> outside_accesses S ov'"
  by (induction ds arbitrary: ov) (auto dest: widen_read_outside)

lemma widen_reads_total:
  assumes "\<forall>d \<in> set ds. \<forall>loop. crosses S path d loop \<longrightarrow> loop_start S loop \<noteq> None \<and> loop_end S loop \<noteq> None"
  shows "\<exists>ov'. widen_reads S i path ds ov = Inr ov'"
  using assms
proof (induction ds arbitrary: ov)
  case (Cons d ds)
  obtain ov1 where "widen_read S i path ov d = Inr ov1"
    using widen_read_total [of S path d i ov] Cons.prems by auto
  then show ?case using Cons.IH [of ov1] Cons.prems by auto
qed simp

lemma widen_ops_le: "widen_ops S i ops ov = Inr ov' \<Longrightarrow> ov_le ov ov'"
  by (induction ops arbitrary: i ov)
    (auto simp: Let_def split: if_splits dest: widen_reads_le intro: ov_le_trans)

lemma widen_ops_outside:
  "widen_ops S i ops ov = Inr ov' \<Longrightarrow> outside_accesses S ov \<Longrightarrow> outside_accesses S ov'"
  by (induction ops arbitrary: i ov) (auto simp: Let_def split: if_splits dest: widen_reads_outside)

lemma widen_ops_covers:
  assumes "widen_ops S i ops ov = Inr ov'" "k < length ops" "d \<in> set (op_reads (ops ! k))"
    and "crosses S (counted_loop_group_path (ops ! k)) d loop"
    and "loop_start S loop = Some s" "loop_end S loop = Some e"
  shows "covered S ov' (dep_name d) (i + int k) s e"
  using assms
proof (induction ops arbitrary: i ov k)
  case (Cons op ops)
  from Cons.prems(1) obtain ov1 where
    1: "(if counted_loop_group_path op = [] then Inr ov
         else widen_reads S i (counted_loop_group_path op) (op_reads op) ov) = Inr ov1"
    and 2: "widen_ops S (i + 1) ops ov1 = Inr ov'" by (auto simp: Let_def)
  show ?case
  proof (cases k)
    case 0
    then have ne: "counted_loop_group_path op \<noteq> []" using Cons.prems(4) by (auto simp: crosses_def)
    then have "covered S ov1 (dep_name d) i s e"
      using widen_reads_covers [of S i _ _ ov ov1 d loop] 1 0 Cons.prems(3-6) by simp
    then show ?thesis using widen_ops_le [OF 2] covered_mono 0 by fastforce
  next
    case (Suc k')
    then show ?thesis using Cons.IH [OF 2, of k'] Cons.prems(2-6) by (simp add: algebra_simps)
  qed
qed simp

lemma widen_ops_total:
  assumes "\<forall>op \<in> set ops. \<forall>d \<in> set (op_reads op). \<forall>loop. crosses S (counted_loop_group_path op) d loop
             \<longrightarrow> loop_start S loop \<noteq> None \<and> loop_end S loop \<noteq> None"
  shows "\<exists>ov'. widen_ops S i ops ov = Inr ov'"
  using assms
proof (induction ops arbitrary: i ov)
  case (Cons op ops)
  have "\<exists>ov1. (if counted_loop_group_path op = [] then Inr ov
      else widen_reads S i (counted_loop_group_path op) (op_reads op) ov) = Inr ov1"
    using widen_reads_total [of "op_reads op" S "counted_loop_group_path op" i ov] Cons.prems by simp
  then obtain ov1 where "(if counted_loop_group_path op = [] then Inr ov
      else widen_reads S i (counted_loop_group_path op) (op_reads op) ov) = Inr ov1" ..
  then show ?case using Cons.IH [of "i + 1" ov1] Cons.prems by (auto simp: Let_def)
qed simp

lemma crosses_in_loop: "crosses S (counted_loop_group_path op) d loop \<Longrightarrow> in_loop op loop"
  by (auto simp: crosses_def Let_def intro!: in_loop_take)

lemma overrides_total: "\<exists>ov. counted_loop_lifetime_overrides g = Inr ov"
  unfolding counted_loop_lifetime_overrides_def
proof (rule widen_ops_total, intro ballI allI impI)
  fix op d loop assume "op \<in> set (graph_operations g)"
    and "crosses (scan_graph g) (counted_loop_group_path op) d loop"
  then obtain k where "k < length (graph_operations g)" "in_loop (graph_operations g ! k) loop"
    using crosses_in_loop by (metis in_set_conv_nth)
  then show "loop_start (scan_graph g) loop \<noteq> None \<and> loop_end (scan_graph g) loop \<noteq> None"
    using scan_graph_loops by (metis option.distinct(1))
qed

lemma common_prefix_take: "take (common_prefix p q) p = take (common_prefix p q) q"
  by (induction p q rule: common_prefix.induct) auto

lemma common_prefix_outside:
  assumes "in_loop op loop" "take (length loop) p \<noteq> loop"
  shows "common_prefix p (counted_loop_group_path op) < length loop"
proof (rule ccontr)
  assume "\<not> ?thesis"
  then have "length loop \<le> common_prefix p (counted_loop_group_path op)" by simp
  then have "take (length loop) p = take (length loop) (counted_loop_group_path op)"
    using common_prefix_take [of p "counted_loop_group_path op"] by (metis min_absorb1 take_take)
  then show False using assms by (simp add: in_loop_def)
qed

text \<open>The loop that is widened to encloses every loop the value crosses into.\<close>

lemma crossing_encloses:
  assumes "in_loop op loop" "take (length loop) (map_get (birth_group S) (dep_name d) []) \<noteq> loop"
  obtains outer where "crosses S (counted_loop_group_path op) d outer"
    "\<forall>q. in_loop q loop \<longrightarrow> in_loop q outer"
proof -
  let ?path = "counted_loop_group_path op"
  define c where "c = common_prefix (map_get (birth_group S) (dep_name d) []) ?path"
  have c: "c < length loop" unfolding c_def using common_prefix_outside [OF assms] .
  have len: "length loop \<le> length ?path"
    using assms(1) unfolding in_loop_def by (metis length_take min.bounded_iff order_refl)
  have outer: "take (c + 1) ?path = take (c + 1) loop"
    using assms(1) c unfolding in_loop_def by (metis Suc_eq_plus1 Suc_leI min_absorb1 take_take)
  have "in_loop q (take (c + 1) loop)" if q: "in_loop q loop" for q
  proof -
    have "take (length (take (c + 1) loop)) (counted_loop_group_path q)
        = take (c + 1) (take (length loop) (counted_loop_group_path q))" using c by simp
    also have "\<dots> = take (c + 1) loop" using q by (simp only: in_loop_def)
    finally show ?thesis using c q unfolding in_loop_def by simp
  qed
  then have "\<forall>q. in_loop q loop \<longrightarrow> in_loop q (take (c + 1) ?path)" unfolding outer by blast
  moreover have "crosses S ?path d (take (c + 1) ?path)" using c len by (simp add: crosses_def flip: c_def)
  ultimately show ?thesis using that by blast
qed

section \<open>Lifetimes of the buffers of a graph\<close>

text \<open>\<open>b\<close> has the uses and the lifetime bounds the analyses give to its name.\<close>

definition bound_to_graph :: "graph \<Rightarrow> overrides \<Rightarrow> LifetimeBoundBuffer \<Rightarrow> bool" where
  "bound_to_graph g ov b \<longleftrightarrow> calculate_liveness g (buf_name b) = Some (buf_uses b)
     \<and> lifetime_start_override b = fst ov (buf_name b) \<and> lifetime_end_override b = snd ov (buf_name b)"

lemma liveness_ticks: "calculate_liveness g n = Some u \<Longrightarrow> u = access_ticks 0 (graph_operations g) n"
  unfolding calculate_liveness_def by (subst (asm) liveness_ops_eq) (auto simp: map_get_def split: if_splits)

lemma override_outside:
  assumes "counted_loop_lifetime_overrides g = Inr ov" "calculate_liveness g n = Some u" "u \<noteq> []"
  shows "fst ov n = Some v \<Longrightarrow> v < hd u" "snd ov n = Some v \<Longrightarrow> last u + 1 < v"
proof -
  have "outside_accesses (scan_graph g) ov"
    using assms(1) widen_ops_outside [of "scan_graph g" 0 "graph_operations g" "(Map.empty, Map.empty)" ov]
    by (simp add: counted_loop_lifetime_overrides_def outside_accesses_def)
  moreover have "first_access (scan_graph g) n = Some (hd u)" "last_access (scan_graph g) n = Some (last u)"
    using liveness_ticks [OF assms(2)] assms(3) by (simp_all add: scan_graph_facts)
  ultimately show "fst ov n = Some v \<Longrightarrow> v < hd u" "snd ov n = Some v \<Longrightarrow> last u + 1 < v"
    unfolding outside_accesses_def by blast+
qed

lemma sorted_pairs: "sorted_wrt (<) xs \<Longrightarrow> list_all (\<lambda>(a, c). a < (c::int)) (zip xs (drop 1 xs))"
proof (induction xs)
  case (Cons x xs)
  then show ?case by (cases xs) auto
qed simp

lemma bound_post_init:
  assumes ov: "counted_loop_lifetime_overrides g = Inr ov" and b: "bound_to_graph g ov b"
  shows "buffer_post_init b = Inr ()"
proof -
  have u: "calculate_liveness g (buf_name b) = Some (buf_uses b)"
    and st: "lifetime_start_override b = fst ov (buf_name b)"
    and en: "lifetime_end_override b = snd ov (buf_name b)"
    using b by (simp_all add: bound_to_graph_def)
  note out = override_outside [OF ov u]
  have "sorted_wrt (<) (buf_uses b)" using liveness_ticks [OF u] access_ticks_sorted by simp
  then show ?thesis
    using sorted_pairs out(1) out(2) by (fastforce simp: buffer_post_init_def st en split: option.splits)
qed

text \<open>
  C29. The lifetime analyses produce well-typed buffers: the scan of counted loops never
  raises, and a buffer given its uses and bounds by them passes the checks of
  \<open>LifetimeBoundBuffer.__post_init__\<close> (uses strictly increasing, no bound inside the uses).
\<close>

theorem lifetimes_accepted:
  "\<exists>ov. counted_loop_lifetime_overrides g = Inr ov
     \<and> (\<forall>b. bound_to_graph g ov b \<longrightarrow> buffer_post_init b = Inr ())"
  using overrides_total [of g] bound_post_init by blast

text \<open>A loop of two operations that reads \<open>w\<close> first, with a local value and a consumer after it.\<close>

definition demo_dep :: "string \<Rightarrow> MemoryDep" where
  "demo_dep n = \<lparr>dep_is_memory = True, dep_name = n, dep_index = ''d0'', dep_offset_of = ConstOffset 0\<rparr>"

definition demo_op :: "string \<Rightarrow> string list \<Rightarrow> int list \<Rightarrow> operation" where
  "demo_op n rs path = \<lparr>op_name = n, op_is_extern = False, op_is_pointwise = True, op_has_target = True,
     op_loop_info = (if path = [] then None else Some \<lparr>loop_group_id = GroupPath path,
       loop_count = map (\<lambda>_. ''4'') path, loop_tiled_dims = [], loop_tiled_reduction_dims = []\<rparr>),
     op_reads = map demo_dep rs, op_writes = [demo_dep n], op_mutation_target = None\<rparr>"

definition demo_loop :: graph where
  "demo_loop = \<lparr>graph_input_names = [''x''],
     graph_operations = [demo_op ''w'' [''x''] [], demo_op ''t'' [''w'', ''w''] [0],
       demo_op ''u'' [''t''] [0], demo_op ''v'' [''t''] [0], demo_op ''y'' [''v''] []],
     graph_device_layout = (\<lambda>_. Some ''L'')\<rparr>"

definition demo_bound :: "string \<Rightarrow> int list \<Rightarrow> int option \<Rightarrow> LifetimeBoundBuffer" where
  "demo_bound n us e = \<lparr>buf_name = n, buf_size = 128, buf_uses = us, first_use_is_read = False,
     buf_address = None, in_place_parents = [], residency_reason = None, untiled_bar = None,
     lifetime_start_override = None, lifetime_end_override = e, paired_with = [],
     spill_reason = None, core_divisions = [], lx_relayout_plans = []\<rparr>"

lemma demo_loop_run:
  "\<exists>ov. counted_loop_lifetime_overrides demo_loop = Inr ov
     \<and> bound_to_graph demo_loop ov (demo_bound ''w'' [0, 1] (Some 4))"
proof -
  have "case counted_loop_lifetime_overrides demo_loop of Inl _ \<Rightarrow> False
    | Inr ov \<Rightarrow> fst ov ''w'' = None \<and> snd ov ''w'' = Some 4" by code_simp
  moreover have "calculate_liveness demo_loop ''w'' = Some [0, 1]" by code_simp
  ultimately show ?thesis by (auto simp: bound_to_graph_def demo_bound_def split: sum.splits)
qed

theorem lifetimes_accepted_witness: "buffer_post_init (demo_bound ''w'' [0, 1] (Some 4)) = Inr ()"
  using lifetimes_accepted [of demo_loop] demo_loop_run by auto

lemma loop_live:
  assumes "counted_loop_lifetime_overrides g = Inr ov" "bound_to_graph g ov b"
    and "k < length (graph_operations g)" "in_loop (graph_operations g ! k) loop"
    and "op_reads_name (graph_operations g ! k) (buf_name b)"
    and "take (length loop) (born_in g (buf_name b)) \<noteq> loop"
    and "j < length (graph_operations g)" "in_loop (graph_operations g ! j) loop"
  shows "start_time b \<le> int j \<and> int j < end_time b"
proof -
  let ?S = "scan_graph g" and ?n = "buf_name b"
  from assms(5) obtain d where d: "d \<in> set (op_reads (graph_operations g ! k))" "dep_name d = ?n" by auto
  obtain outer where cr: "crosses ?S (counted_loop_group_path (graph_operations g ! k)) d outer"
    and sub: "\<forall>q. in_loop q loop \<longrightarrow> in_loop q outer"
    using crossing_encloses [OF assms(4), of ?S d] assms(6) d(2) scan_graph_facts(1) by metis
  obtain s e where se: "loop_start ?S outer = Some s" "loop_end ?S outer = Some e"
    and sej: "s \<le> int j" "int j \<le> e"
    using scan_graph_loops [OF assms(7), of outer] sub assms(7,8) by metis
  have cov: "covered ?S ov ?n (int k) s e"
    using widen_ops_covers [OF assms(1) [unfolded counted_loop_lifetime_overrides_def] assms(3) d(1) cr se] d(2)
    by simp
  have u: "buf_uses b = access_ticks 0 (graph_operations g) ?n"
    using assms(2) liveness_ticks by (auto simp: bound_to_graph_def)
  have ne: "access_ticks 0 (graph_operations g) ?n \<noteq> []"
    using nth_mem [OF assms(3)] assms(5) unfolding access_ticks_empty accesses_def image_Un by blast
  then have fl: "map_get (first_access ?S) ?n (int k) = hd (buf_uses b)"
      "map_get (last_access ?S) ?n (int k) = last (buf_uses b)"
    by (simp_all add: scan_graph_facts u map_get_def)
  have "start_time b \<le> s"
    using cov assms(2) unfolding covered_def fl
    by (cases "s < hd (buf_uses b)") (auto simp: start_time_def bound_to_graph_def Let_def)
  moreover have "e < end_time b"
    using cov assms(2) sej(2) unfolding covered_def fl
    by (cases "last (buf_uses b) < e") (auto simp: end_time_def bound_to_graph_def Let_def)
  ultimately show ?thesis using sej by linarith
qed

text \<open>
  C15. A value that is born outside a counted loop and read in its body is live at every
  operation of that loop, before its first textual read and after its last one too: the
  next iteration reads it again, so no operation of the body may take its storage.
\<close>

theorem loop_keeps_value_alive:
  assumes "counted_loop_lifetime_overrides g = Inr ov" "bound_to_graph g ov b"
    and "k < length (graph_operations g)" "in_loop (graph_operations g ! k) loop"
    and "op_reads_name (graph_operations g ! k) (buf_name b)"
    and "take (length loop) (born_in g (buf_name b)) \<noteq> loop"
    and "j < length (graph_operations g)" "in_loop (graph_operations g ! j) loop"
  shows "start_time b \<le> int j \<and> int j < end_time b"
  using assms by (rule loop_live)

theorem loop_keeps_value_alive_witness:
  "start_time (demo_bound ''w'' [0, 1] (Some 4)) \<le> int 3 \<and> int 3 < end_time (demo_bound ''w'' [0, 1] (Some 4))"
proof -
  obtain ov where ov: "counted_loop_lifetime_overrides demo_loop = Inr ov"
    "bound_to_graph demo_loop ov (demo_bound ''w'' [0, 1] (Some 4))" using demo_loop_run by blast
  have "1 < length (graph_operations demo_loop)" "in_loop (graph_operations demo_loop ! 1) [0]"
    "op_reads_name (graph_operations demo_loop ! 1) (buf_name (demo_bound ''w'' [0, 1] (Some 4)))"
    "take (length [0::int]) (born_in demo_loop (buf_name (demo_bound ''w'' [0, 1] (Some 4)))) \<noteq> [0]"
    "3 < length (graph_operations demo_loop)" "in_loop (graph_operations demo_loop ! 3) [0]"
    by code_simp+
  from loop_keeps_value_alive [OF ov this] show ?thesis .
qed

end
