(* ===== verification/Bound_Buffers.thy ===== *)
theory Bound_Buffers
  imports Buffer_Lifetimes
begin

text \<open>
  What the scratchpad allocator hands to a layout solver on the placement path, where each
  operation's core division is already fixed, and what it does with the solver's answer:
  \<^verbatim>\<open>src/torch_spyre/_inductor/scratchpad/allocator.py\<close>, \<open>ScratchpadAllocator\<close> with its
  helpers, and \<open>get_op_pointwise_inputs\<close> of \<^verbatim>\<open>scratchpad/utils.py\<close>.

  Arguments of the definitions, as they are of the methods: the memory usage per buffer
  (\<open>mem_usage_by_buf\<close>), the core count per buffer, the residency verdicts and the size in
  bytes of a device layout.  The verdict of a graph input is computed per input, so it is a
  function argument.  A buffer object that several lists share is updated in each by name.
\<close>

section \<open>In-place edges\<close>

definition get_op_pointwise_inputs :: "operation \<Rightarrow> string list" where
  "get_op_pointwise_inputs op =
     (if \<not> op_is_pointwise op then []
      else
       (let writes = filter dep_is_memory (op_writes op) in
        if length writes \<noteq> 1 then []
        else
         (let invalid = map dep_name (filter (\<lambda>d. \<not> dep_is_memory d \<or> dep_index d \<noteq> dep_index (hd writes))
                          (op_reads op)) in
          filter (\<lambda>n. n \<notin> set invalid) (rev (remdups (rev (map dep_name (op_reads op))))))))"

definition op_inputs_good_for_lx_inplace :: "operation \<Rightarrow> string list" where
  "op_inputs_good_for_lx_inplace op = (if op_has_target op then get_op_pointwise_inputs op else [])"

definition lookup_uses :: "(string \<rightharpoonup> int list) \<Rightarrow> string \<Rightarrow> int list result" where
  "lookup_uses lifetimes n = (case lifetimes n of None \<Rightarrow> Inl KeyError | Some u \<Rightarrow> Inr u)"

definition handoff_child_start ::
  "string \<Rightarrow> (string \<rightharpoonup> int list) \<Rightarrow> (string \<rightharpoonup> int) \<Rightarrow> int result" where
  "handoff_child_start n lifetimes start_overrides =
     rbind (lookup_uses lifetimes n) (\<lambda>uses.
     if uses = [] then Inl IndexError
     else Inr (min (hd uses) (map_get start_overrides n (hd uses))))"

definition handoff_parent_end ::
  "string \<Rightarrow> (string \<rightharpoonup> int list) \<Rightarrow> (string \<rightharpoonup> int) \<Rightarrow> int result" where
  "handoff_parent_end n lifetimes end_overrides =
     rbind (lookup_uses lifetimes n) (\<lambda>uses.
     if uses = [] then Inl IndexError
     else Inr (max (last uses) (map_get end_overrides n (last uses + 1) - 1)))"

definition inplace_edge_ok ::
  "string list \<Rightarrow> string \<Rightarrow> string \<Rightarrow> string \<Rightarrow> int \<Rightarrow> int \<Rightarrow> int \<Rightarrow> int \<Rightarrow> bool \<Rightarrow> bool \<Rightarrow> bool" where
  "inplace_edge_ok child_pointwise_inputs parent_name child_device_layout parent_device_layout
     child_start parent_end child_size_per_core parent_size_per_core child_core_div_mismatch
     division_invariant =
     (let base_ok = parent_name \<in> set child_pointwise_inputs \<and> child_device_layout = parent_device_layout
                    \<and> parent_end = child_start in
      if division_invariant then base_ok
      else base_ok \<and> child_size_per_core = parent_size_per_core \<and> \<not> child_core_div_mismatch)"

record MemUsage =
  size_per_core :: int
  core_div_mismatch :: bool
  op_inputs :: "string list"

type_synonym mem_usage = "(string \<times> MemUsage) list"

text \<open>\<open>{op.name: ... for op in graph.operations}\<close>: of two operations with one name the last counts.\<close>

definition op_named :: "graph \<Rightarrow> string \<Rightarrow> operation option" where
  "op_named g n = find (\<lambda>op. op_name op = n) (rev (graph_operations g))"

definition in_place_allowed :: "graph \<Rightarrow> string \<Rightarrow> string list" where
  "in_place_allowed g n = (case op_named g n of None \<Rightarrow> [] | Some op \<Rightarrow> op_inputs_good_for_lx_inplace op)"

definition device_layout_of :: "graph \<Rightarrow> string \<Rightarrow> string result" where
  "device_layout_of g n = (case graph_device_layout g n of None \<Rightarrow> Inl AttributeError | Some l \<Rightarrow> Inr l)"

fun in_place_parents_of ::
  "graph \<Rightarrow> mem_usage \<Rightarrow> (string \<rightharpoonup> int list) \<Rightarrow> (string \<Rightarrow> string option) \<Rightarrow> overrides
   \<Rightarrow> string \<Rightarrow> MemUsage \<Rightarrow> int \<Rightarrow> string \<Rightarrow> string list \<Rightarrow> string list result" where
  "in_place_parents_of g mu lifetimes reasons ov n info out_start out_layout [] = Inr []"
| "in_place_parents_of g mu lifetimes reasons ov n info out_start out_layout (p # ps) =
     (let rest = in_place_parents_of g mu lifetimes reasons ov n info out_start out_layout ps in
      case map_of mu p of
        None \<Rightarrow> rest
      | Some pinfo \<Rightarrow>
          rbind (lookup_uses lifetimes p) (\<lambda>p_uses.
          if p_uses = [] \<or> reasons p \<noteq> None then rest
          else
            rbind (device_layout_of g p) (\<lambda>in_layout.
            rbind (handoff_parent_end p lifetimes (snd ov)) (\<lambda>parent_end.
            if inplace_edge_ok (in_place_allowed g n) p out_layout in_layout out_start parent_end
                 (size_per_core info) (size_per_core pinfo) (core_div_mismatch info) False
            then rbind rest (\<lambda>r. Inr (p # r)) else rest))))"

definition in_place_of ::
  "graph \<Rightarrow> mem_usage \<Rightarrow> (string \<rightharpoonup> int list) \<Rightarrow> (string \<Rightarrow> string option) \<Rightarrow> overrides
   \<Rightarrow> string \<times> MemUsage \<Rightarrow> (string \<times> string list) result" where
  "in_place_of g mu lifetimes reasons ov entry =
     (let (n, info) = entry in
      if in_place_allowed g n = [] \<or> reasons n \<noteq> None \<or> map_get lifetimes n [] = [] then Inr (n, [])
      else
        rbind (handoff_child_start n lifetimes (fst ov)) (\<lambda>out_start.
        rbind (device_layout_of g n) (\<lambda>out_layout.
        rbind (in_place_parents_of g mu lifetimes reasons ov n info out_start out_layout (op_inputs info)) (\<lambda>ps.
        Inr (n, ps)))))"

definition determine_in_place ::
  "graph \<Rightarrow> mem_usage \<Rightarrow> (string \<rightharpoonup> int list) \<Rightarrow> (string \<Rightarrow> string option) \<Rightarrow> overrides
   \<Rightarrow> (string \<times> string list) list result" where
  "determine_in_place g mu lifetimes reasons ov = traverse (in_place_of g mu lifetimes reasons ov) mu"

section \<open>One buffer per live name\<close>

text \<open>The constructor of \<open>LifetimeBoundBuffer\<close> with the arguments the allocator passes.\<close>

definition mk_bound_buffer ::
  "string \<Rightarrow> int \<Rightarrow> int list \<Rightarrow> bool \<Rightarrow> string list \<Rightarrow> string option \<Rightarrow> int option \<Rightarrow> int option
   \<Rightarrow> LifetimeBoundBuffer result" where
  "mk_bound_buffer n sz uses is_read parents reason start_ov end_ov =
     (let b = \<lparr>buf_name = n, buf_size = sz, buf_uses = uses, first_use_is_read = is_read,
        buf_address = None, in_place_parents = parents, residency_reason = reason, untiled_bar = None,
        lifetime_start_override = start_ov, lifetime_end_override = end_ov, paired_with = [],
        spill_reason = None, core_divisions = [], lx_relayout_plans = []\<rparr>
      in and_then (buffer_post_init b) (Inr b))"

fun build_op_buffers ::
  "(string \<times> string list) list \<Rightarrow> (string \<Rightarrow> string option) \<Rightarrow> (string \<rightharpoonup> int list) \<Rightarrow> overrides
   \<Rightarrow> mem_usage \<Rightarrow> LifetimeBoundBuffer list result" where
  "build_op_buffers in_place reasons lifetimes ov [] = Inr []"
| "build_op_buffers in_place reasons lifetimes ov ((n, info) # mu) =
     (let uses = map_get lifetimes n []; rest = build_op_buffers in_place reasons lifetimes ov mu in
      if uses = [] then rest
      else
        rbind (mk_bound_buffer n (max 0 (size_per_core info)) uses False
                 (map_get (map_of in_place) n []) (reasons n) (fst ov n) (snd ov n)) (\<lambda>b.
        rbind rest (\<lambda>bs. Inr (b # bs))))"

definition input_footprint :: "graph \<Rightarrow> (string \<Rightarrow> int) \<Rightarrow> string \<Rightarrow> (string \<rightharpoonup> int) \<Rightarrow> int" where
  "input_footprint g device_bytes n ncores =
     (case graph_device_layout g n of None \<Rightarrow> 0
      | Some l \<Rightarrow> if map_get ncores n (- 1) < 1 then 0 else device_bytes l div map_get ncores n (- 1))"

definition add_parent :: "string \<Rightarrow> string \<Rightarrow> LifetimeBoundBuffer list \<Rightarrow> LifetimeBoundBuffer list" where
  "add_parent child parent bs =
     map (\<lambda>b. if buf_name b = child then b\<lparr>in_place_parents := in_place_parents b @ [parent]\<rparr> else b) bs"

text \<open>The reverse-parent edge: the last consumer of an input clone may take the clone's slot.\<close>

definition reverse_parent ::
  "graph \<Rightarrow> mem_usage \<Rightarrow> (string \<rightharpoonup> int list) \<Rightarrow> overrides \<Rightarrow> string \<Rightarrow> int \<Rightarrow> int list
   \<Rightarrow> LifetimeBoundBuffer list \<Rightarrow> LifetimeBoundBuffer list result" where
  "reverse_parent g mu lifetimes ov n clone_size uses built =
     (if \<not> last uses < int (length (graph_operations g)) then Inl IndexError
      else
       (let consumer_op = graph_operations g ! nat (last uses) in
        case buf_by_name built (op_name consumer_op) of
          None \<Rightarrow> Inr built
        | Some consumer \<Rightarrow>
            if n \<in> set (in_place_parents consumer) then Inr built
            else
             (case (graph_device_layout g (op_name consumer_op), graph_device_layout g n) of
                (Some consumer_layout, Some input_layout) \<Rightarrow>
                  rbind (handoff_child_start (op_name consumer_op) lifetimes (fst ov)) (\<lambda>child_start.
                  rbind (handoff_parent_end n lifetimes (snd ov)) (\<lambda>parent_end.
                  case map_of mu (op_name consumer_op) of None \<Rightarrow> Inl KeyError
                  | Some info \<Rightarrow>
                      Inr (if inplace_edge_ok (op_inputs_good_for_lx_inplace consumer_op) n
                                consumer_layout input_layout child_start parent_end
                                (buf_size consumer) clone_size (core_div_mismatch info) False
                           then add_parent (op_name consumer_op) n built else built)))
              | _ \<Rightarrow> Inr built)))"

fun build_input_buffers ::
  "graph \<Rightarrow> (string \<Rightarrow> int) \<Rightarrow> mem_usage \<Rightarrow> (string \<Rightarrow> int list \<Rightarrow> string option)
   \<Rightarrow> (string \<rightharpoonup> int list) \<Rightarrow> overrides \<Rightarrow> (string \<rightharpoonup> int) \<Rightarrow> string list
   \<Rightarrow> LifetimeBoundBuffer list \<Rightarrow> (LifetimeBoundBuffer list \<times> LifetimeBoundBuffer list) result" where
  "build_input_buffers g device_bytes mu input_reason lifetimes ov ncores [] built = Inr (built, [])"
| "build_input_buffers g device_bytes mu input_reason lifetimes ov ncores (n # ns) built =
     (let uses = map_get lifetimes n [] in
      if uses = [] then build_input_buffers g device_bytes mu input_reason lifetimes ov ncores ns built
      else
       (let reason = input_reason n uses; clone_size = input_footprint g device_bytes n ncores in
        rbind (mk_bound_buffer n clone_size uses True [] reason (fst ov n) (snd ov n)) (\<lambda>b.
        rbind (if reason \<noteq> None then Inr built
               else reverse_parent g mu lifetimes ov n clone_size uses built) (\<lambda>built'.
        rbind (build_input_buffers g device_bytes mu input_reason lifetimes ov ncores ns built') (\<lambda>(built'', inputs).
        Inr (built'', b # inputs))))))"

definition build_bound_buffers ::
  "graph \<Rightarrow> (string \<Rightarrow> int) \<Rightarrow> (string \<times> string list) list \<Rightarrow> mem_usage \<Rightarrow> (string \<Rightarrow> string option)
   \<Rightarrow> (string \<Rightarrow> int list \<Rightarrow> string option) \<Rightarrow> (string \<rightharpoonup> int list) \<Rightarrow> (string \<rightharpoonup> int) \<Rightarrow> overrides
   \<Rightarrow> LifetimeBoundBuffer list result" where
  "build_bound_buffers g device_bytes in_place mu reasons input_reason lifetimes ncores ov =
     rbind (build_op_buffers in_place reasons lifetimes ov mu) (\<lambda>built.
     rbind (build_input_buffers g device_bytes mu input_reason lifetimes ov ncores (graph_input_names g) built)
       (\<lambda>(built', inputs). Inr (built' @ inputs)))"

section \<open>Buffers for the relayout plans\<close>

definition apply_relayout_plan :: "mem_usage \<Rightarrow> LXRelayoutPlan \<Rightarrow> mem_usage" where
  "apply_relayout_plan mu plan =
     map (\<lambda>(n, info). if n = plan_source_name plan
            then (n, info\<lparr>size_per_core := max (size_per_core info) (plan_source_footprint plan),
                          core_div_mismatch := False\<rparr>)
            else (n, info)) mu"

definition attach_plan ::
  "LifetimeBoundBuffer list \<Rightarrow> LXRelayoutPlan \<Rightarrow> LifetimeBoundBuffer list result" where
  "attach_plan bufs plan =
     (case buf_by_name bufs (plan_source_name plan) of None \<Rightarrow> Inl KeyError
      | Some _ \<Rightarrow> Inr (map (\<lambda>b. if buf_name b = plan_source_name plan
                             then b\<lparr>lx_relayout_plans := lx_relayout_plans b @ [plan]\<rparr> else b) bufs))"

fun attach_plans ::
  "LifetimeBoundBuffer list \<Rightarrow> LXRelayoutPlan list \<Rightarrow> LifetimeBoundBuffer list result" where
  "attach_plans bufs [] = Inr bufs"
| "attach_plans bufs (plan # plans) = rbind (attach_plan bufs plan) (\<lambda>bs. attach_plans bs plans)"

text \<open>
  A plan also replaces its source's entries of \<open>ncores\<close> and \<open>lx_views\<close>; the former is only
  read again for graph inputs, which are no sources, the latter only carried along.
\<close>

definition generate_buffers ::
  "graph \<Rightarrow> (string \<Rightarrow> int) \<Rightarrow> mem_usage \<Rightarrow> (string \<Rightarrow> string option)
   \<Rightarrow> (string \<Rightarrow> int list \<Rightarrow> string option) \<Rightarrow> (string \<rightharpoonup> int) \<Rightarrow> LXRelayoutPlan list
   \<Rightarrow> LifetimeBoundBuffer list result" where
  "generate_buffers g device_bytes mem_usage_by_buf reasons input_reason ncores plans =
     (let lifetimes = calculate_liveness g in
      rbind (counted_loop_lifetime_overrides g) (\<lambda>ov.
      let mu = foldl apply_relayout_plan mem_usage_by_buf plans in
      rbind (determine_in_place g mu lifetimes reasons ov) (\<lambda>in_place.
      rbind (build_bound_buffers g device_bytes in_place mu reasons input_reason lifetimes ncores ov) (\<lambda>bufs.
      attach_plans bufs plans))))"

definition destination_name :: "LXRelayoutPlan \<Rightarrow> string result" where
  "destination_name plan =
     (case plan_consumer_names plan of [] \<Rightarrow> Inl IndexError
      | c # _ \<Rightarrow> Inr (''__spyre_lx_relayout__:'' @ plan_source_name plan @ '':'' @ c))"

definition op_index :: "graph \<Rightarrow> string \<Rightarrow> int result" where
  "op_index g n =
     (case filter (\<lambda>i. op_name (graph_operations g ! i) = n) [0..<length (graph_operations g)] of
        [] \<Rightarrow> Inl KeyError | i # is \<Rightarrow> Inr (int (last (i # is))))"

definition plan_ticks :: "graph \<Rightarrow> LifetimeBoundBuffer \<Rightarrow> LXRelayoutPlan \<Rightarrow> (LXRelayoutPlan \<times> int list) result" where
  "plan_ticks g source plan =
     rbind (traverse (op_index g) (plan_consumer_names plan)) (\<lambda>ticks.
     and_then (raise_if (\<not> list_all (\<lambda>t. t \<in> set (buf_uses source)) ticks)
                 (AssertionError ''all(tick in source.uses for tick in consumer_ticks)''))
       (Inr (plan, ticks)))"

definition clear_lx_relayout_groups ::
  "LifetimeBoundBuffer list \<Rightarrow> string list \<Rightarrow> LifetimeBoundBuffer list result" where
  "clear_lx_relayout_groups allocation sources =
     rbind (traverse (\<lambda>n. case buf_by_name allocation n of None \<Rightarrow> Inl KeyError
                        | Some b \<Rightarrow> traverse destination_name (lx_relayout_plans b)) sources) (\<lambda>dests.
     Inr (map (\<lambda>b. b\<lparr>lx_relayout_plans := (if buf_name b \<in> set sources then [] else lx_relayout_plans b),
                      buf_address := (if buf_name b \<in> set (sources @ concat dests) then None else buf_address b)\<rparr>)
            allocation))"

definition half_ticks :: "LifetimeBoundBuffer \<Rightarrow> LifetimeBoundBuffer" where
  "half_ticks b = b\<lparr>buf_uses := map (\<lambda>u. 2 * u + 1) (buf_uses b),
     lifetime_start_override := map_option (\<lambda>v. v * 2) (lifetime_start_override b),
     lifetime_end_override := map_option (\<lambda>v. v * 2) (lifetime_end_override b)\<rparr>"

definition LX_ALLOCATION_GRANULARITY_BYTES :: int where
  "LX_ALLOCATION_GRANULARITY_BYTES = 128"

text \<open>One plan of a source: its consumers move to the destination, the source is read once, before them.\<close>

definition relayout_destination ::
  "LifetimeBoundBuffer \<Rightarrow> int option \<Rightarrow> int option \<Rightarrow> LXRelayoutPlan \<times> int list
   \<Rightarrow> (LifetimeBoundBuffer \<times> LifetimeBoundBuffer \<times> int) result" where
  "relayout_destination source original_start original_end entry =
     (let (plan, original_ticks) = entry; consumer_ticks = map (\<lambda>t. 2 * t + 1) original_ticks in
      if consumer_ticks = [] then Inl IndexError
      else
       (let transfer_tick = hd consumer_ticks - 1;
            uses = sort (remdups (filter (\<lambda>u. u \<notin> set consumer_ticks) (buf_uses source) @ [transfer_tick]));
            nominal_end = last consumer_ticks + 1;
            destination_end = (case original_end of None \<Rightarrow> None
                               | Some e \<Rightarrow> if e > nominal_end then Some e else None);
            fp = (if plan_destination_footprint plan \<noteq> 0 then plan_destination_footprint plan
                  else buf_size source)
        in rbind (destination_name plan) (\<lambda>dn.
           rbind (mk_bound_buffer dn (round_up fp LX_ALLOCATION_GRANULARITY_BYTES)
                    (transfer_tick # consumer_ticks) False [] None original_start destination_end) (\<lambda>d.
           Inr (source\<lparr>buf_uses := uses, paired_with := paired_with source @ [dn]\<rparr>, d, transfer_tick)))))"

fun relayout_destinations ::
  "LifetimeBoundBuffer \<Rightarrow> int option \<Rightarrow> int option \<Rightarrow> (LXRelayoutPlan \<times> int list) list
   \<Rightarrow> (LifetimeBoundBuffer \<times> LifetimeBoundBuffer list \<times> int list) result" where
  "relayout_destinations source st en [] = Inr (source, [], [])"
| "relayout_destinations source st en (e # es) =
     rbind (relayout_destination source st en e) (\<lambda>(source', d, t).
     rbind (relayout_destinations source' st en es) (\<lambda>(source'', ds, ts).
     Inr (source'', d # ds, t # ts)))"

definition remaining_reads :: "LifetimeBoundBuffer \<Rightarrow> int list" where
  "remaining_reads b = drop (if first_use_is_read b then 0 else 1) (buf_uses b)"

definition split_source ::
  "LifetimeBoundBuffer \<Rightarrow> (LXRelayoutPlan \<times> int list) list \<Rightarrow> LifetimeBoundBuffer list result" where
  "split_source source es =
     (if es = [] then Inr [source]
      else
        rbind (relayout_destinations source (lifetime_start_override source) (lifetime_end_override source) es)
          (\<lambda>(source', ds, transfer_ticks).
          Inr (ds @ [if list_ex (\<lambda>u. u > foldl max (hd transfer_ticks) (tl transfer_ticks)) (remaining_reads source')
                     then source'
                     else source'\<lparr>lifetime_start_override := None, lifetime_end_override := None\<rparr>])))"

text \<open>A source that may not reside loses its plans; the others keep an entry per plan.\<close>

definition invalid_sources :: "LifetimeBoundBuffer list \<Rightarrow> string list" where
  "invalid_sources bufs = concat (map (\<lambda>b. if residency_reason b = None then []
                                          else map plan_source_name (lx_relayout_plans b)) bufs)"

definition plan_entries ::
  "LifetimeBoundBuffer list \<Rightarrow> (LXRelayoutPlan \<times> int list) list list \<Rightarrow> (LXRelayoutPlan \<times> int list) list list" where
  "plan_entries bufs ticks =
     map (\<lambda>(b, es). if residency_reason b \<noteq> None \<or> buf_name b \<in> set (invalid_sources bufs) then [] else es)
       (zip bufs ticks)"

definition planned_sources ::
  "LifetimeBoundBuffer list \<Rightarrow> (LXRelayoutPlan \<times> int list) list list \<Rightarrow> string list" where
  "planned_sources bufs entries = map (buf_name \<circ> fst) (filter (\<lambda>(b, es). es \<noteq> []) (zip bufs entries))"

definition drop_parents :: "string list \<Rightarrow> LifetimeBoundBuffer \<Rightarrow> LifetimeBoundBuffer" where
  "drop_parents sources b = b\<lparr>in_place_parents := filter (\<lambda>p. p \<notin> set sources) (in_place_parents b)\<rparr>"

definition append_lx_relayout_destinations ::
  "graph \<Rightarrow> LifetimeBoundBuffer list \<Rightarrow> LifetimeBoundBuffer list result" where
  "append_lx_relayout_destinations g bufs =
     rbind (traverse (\<lambda>b. traverse (plan_ticks g b) (lx_relayout_plans b)) bufs) (\<lambda>ticks.
     let invalid = invalid_sources bufs;
         entries = plan_entries bufs ticks;
         sources = planned_sources bufs entries in
     rbind (if invalid = [] then Inr bufs else clear_lx_relayout_groups bufs invalid) (\<lambda>bufs.
     let bufs = map (drop_parents sources) bufs in
     if sources = [] then Inr bufs
     else rbind (traverse (\<lambda>(b, es). split_source b es) (zip (map half_ticks bufs) entries)) (\<lambda>groups.
            Inr (concat groups))))"

section \<open>After the solve\<close>

definition group_complete ::
  "LifetimeBoundBuffer list \<Rightarrow> LifetimeBoundBuffer \<Rightarrow> bool result" where
  "group_complete allocation source =
     rbind (traverse (\<lambda>plan. rbind (destination_name plan) (\<lambda>dn.
              case buf_by_name allocation dn of None \<Rightarrow> Inl KeyError | Some d \<Rightarrow> Inr d))
            (lx_relayout_plans source)) (\<lambda>destinations.
     let allocated = map (\<lambda>b. buf_address b \<noteq> None) (source # destinations) in
     and_then (raise_if (\<not> (list_all id allocated \<or> \<not> list_ex id allocated))
                 (AssertionError ''paired-buffer group was only partially allocated''))
     (case buf_address source of
        None \<Rightarrow> Inr False
      | Some a \<Rightarrow>
          and_then (raise_if (\<not> list_all (\<lambda>d. case buf_address d of None \<Rightarrow> False
              | Some da \<Rightarrow> \<not> (a < da + buf_size d \<and> da < a + buf_size source)) destinations)
              (AssertionError ''paired-buffer group has overlapping placements''))
            (Inr True)))"

definition allocated_lx_relayout_sources ::
  "LifetimeBoundBuffer list \<Rightarrow> string list result" where
  "allocated_lx_relayout_sources allocation =
     rbind (traverse (\<lambda>s. rbind (group_complete allocation s) (\<lambda>c. Inr (buf_name s, c)))
              (filter (\<lambda>b. lx_relayout_plans b \<noteq> []) allocation)) (\<lambda>groups.
     Inr (map fst (filter snd groups)))"

definition accepted_plans :: "LifetimeBoundBuffer list \<Rightarrow> LXRelayoutPlan list result" where
  "accepted_plans allocation =
     traverse (\<lambda>plan. rbind (destination_name plan) (\<lambda>dn.
         case (buf_by_name allocation (plan_source_name plan), buf_by_name allocation dn) of
           (Some s, Some d) \<Rightarrow> Inr (plan\<lparr>plan_source_address := buf_address s,
                                    plan_destination_address := buf_address d\<rparr>)
         | _ \<Rightarrow> Inl KeyError))
       (concat (map lx_relayout_plans allocation))"

definition finalize_lx_relayout_allocation ::
  "LifetimeBoundBuffer list \<Rightarrow> (LifetimeBoundBuffer list \<times> LXRelayoutPlan list) result" where
  "finalize_lx_relayout_allocation allocation =
     (let plans = concat (map lx_relayout_plans allocation) in
      if plans = [] then Inr (allocation, [])
      else
        rbind (allocated_lx_relayout_sources allocation) (\<lambda>complete.
        let rejected = sort (filter (\<lambda>n. n \<notin> set complete) (remdups (map plan_source_name plans))) in
        rbind (if rejected = [] then Inr allocation else clear_lx_relayout_groups allocation rejected) (\<lambda>bufs.
        rbind (accepted_plans bufs) (\<lambda>accepted. Inr (bufs, accepted)))))"

text \<open>The solver's own reason, or that nothing was left of the scratchpad.\<close>

definition get_spill_reasons :: "LifetimeBoundBuffer list \<Rightarrow> (string \<times> string) list" where
  "get_spill_reasons allocation =
     map (\<lambda>b. (buf_name b, case spill_reason b of None \<Rightarrow> ''no room on scratchpad''
                            | Some r \<Rightarrow> if r = [] then ''no room on scratchpad'' else r))
       (filter (\<lambda>b. buf_address b = None) allocation)"

section \<open>Lifetimes of generated buffers\<close>

text \<open>
  What the graph guarantees: an operation's buffer is first touched by the operation itself,
  which writes and does not read it, and no name is used twice.
\<close>

definition ssa_graph :: "graph \<Rightarrow> bool" where
  "ssa_graph g \<longleftrightarrow>
     distinct (graph_input_names g @ map op_name (graph_operations g)) \<and>
     (\<forall>k < length (graph_operations g).
        op_writes_name (graph_operations g ! k) (op_name (graph_operations g ! k)) \<and>
        \<not> op_reads_name (graph_operations g ! k) (op_name (graph_operations g ! k)) \<and>
        (\<forall>j < k. \<not> accesses (graph_operations g ! j) (op_name (graph_operations g ! k))))"

lemma mk_bound_buffer_Inr [simp]:
  "mk_bound_buffer n sz uses r ps reason st en = Inr b \<longleftrightarrow>
     buffer_post_init b = Inr () \<and> b = \<lparr>buf_name = n, buf_size = sz, buf_uses = uses, first_use_is_read = r,
        buf_address = None, in_place_parents = ps, residency_reason = reason, untiled_bar = None,
        lifetime_start_override = st, lifetime_end_override = en, paired_with = [],
        spill_reason = None, core_divisions = [], lx_relayout_plans = []\<rparr>"
  by (auto simp: mk_bound_buffer_def Let_def)

lemma access_ticks_bound: "t \<in> set (access_ticks i ops n) \<Longrightarrow> t < i + int (length ops)"
  by (induction i ops n rule: access_ticks.induct) (auto split: if_splits)

lemma liveness_uses:
  assumes "calculate_liveness g n = Some u" "t \<in> set u"
  shows "0 \<le> t" "t < int (length (graph_operations g))" "accesses (graph_operations g ! nat t) n"
proof -
  have "u = map int (filter (\<lambda>k. accesses (graph_operations g ! k) n) [0..<length (graph_operations g)])"
    using liveness_ticks [OF assms(1)] by (simp add: access_ticks_filter)
  then show "0 \<le> t" "t < int (length (graph_operations g))" "accesses (graph_operations g ! nat t) n"
    using assms(2) by auto
qed

lemma liveness_member:
  assumes "calculate_liveness g n = Some u" "k < length (graph_operations g)" "accesses (graph_operations g ! k) n"
  shows "int k \<in> set u"
  using liveness_ticks [OF assms(1)] assms(2,3) by (auto simp: access_ticks_filter)

lemma liveness_sorted: "calculate_liveness g n = Some u \<Longrightarrow> sorted_wrt (<) u"
  using liveness_ticks access_ticks_sorted by metis

lemma liveness_some:
  assumes "k < length (graph_operations g)" "accesses (graph_operations g ! k) n"
  obtains u where "calculate_liveness g n = Some u" "u \<noteq> []"
proof -
  have ne: "access_ticks 0 (graph_operations g) n \<noteq> []"
    using nth_mem [OF assms(1)] assms(2) unfolding access_ticks_empty by blast
  then show ?thesis
    using that unfolding calculate_liveness_def
    by (subst (asm) liveness_ops_eq) (auto simp: map_get_def split: if_splits)
qed

lemma hd_least: "sorted_wrt (<) u \<Longrightarrow> t \<in> set u \<Longrightarrow> hd u \<le> (t::int)"
  by (cases u) auto

lemma last_greatest: "sorted_wrt (<) u \<Longrightarrow> t \<in> set u \<Longrightarrow> t \<le> (last u::int)"
  by (induction u) (auto split: if_splits intro: less_imp_le)

text \<open>A buffer of an operation is read after its write by an operation that takes it as input.\<close>

lemma read_after_write:
  assumes "ssa_graph g" "calculate_liveness g p = Some u"
    and "m < length (graph_operations g)" "op_name (graph_operations g ! m) = p"
    and "k < length (graph_operations g)" "op_reads_name (graph_operations g ! k) p"
  shows "1 < length u \<and> hd u < last u"
proof -
  have am: "accesses (graph_operations g ! m) p" and ak: "accesses (graph_operations g ! k) p" and ne: "k \<noteq> m"
    using assms unfolding ssa_graph_def accesses_def by blast+
  have mem: "int m \<in> set u" "int k \<in> set u"
    using liveness_member [OF assms(2)] assms(3,5) am ak by blast+
  then have "1 < length u" using ne by (cases u; cases "tl u") auto
  moreover have "hd u \<le> int m" "hd u \<le> int k" "int m \<le> last u" "int k \<le> last u"
    using hd_least [OF liveness_sorted [OF assms(2)]] last_greatest [OF liveness_sorted [OF assms(2)]] mem
    by blast+
  ultimately show ?thesis using ne by linarith
qed

lemma pointwise_inputs_read: "n \<in> set (op_inputs_good_for_lx_inplace op) \<Longrightarrow> op_reads_name op n"
  by (auto simp: op_inputs_good_for_lx_inplace_def get_op_pointwise_inputs_def Let_def split: if_splits)

text \<open>The handoff ticks are the lifetime of the buffer that is built for the name.\<close>

lemma handoff_ticks:
  assumes "counted_loop_lifetime_overrides g = Inr ov" "bound_to_graph g ov b" "buf_uses b \<noteq> []"
  shows "handoff_child_start (buf_name b) (calculate_liveness g) (fst ov) = Inr (start_time b)"
    and "handoff_parent_end (buf_name b) (calculate_liveness g) (snd ov) = Inr (end_time b - 1)"
proof -
  have u: "calculate_liveness g (buf_name b) = Some (buf_uses b)" using assms(2) by (simp add: bound_to_graph_def)
  have "0 \<le> last (buf_uses b)" using liveness_uses(1) [OF u] assms(3) by simp
  then have "snd ov (buf_name b) = Some v \<Longrightarrow> v \<noteq> 0" for v
    using override_outside(2) [OF assms(1) u assms(3)] by fastforce
  then show "handoff_parent_end (buf_name b) (calculate_liveness g) (snd ov) = Inr (end_time b - 1)"
    using assms(2,3) u
    by (auto simp: handoff_parent_end_def lookup_uses_def end_time_def Let_def map_get_def bound_to_graph_def
        max_def split: option.splits)
  show "handoff_child_start (buf_name b) (calculate_liveness g) (fst ov) = Inr (start_time b)"
    using assms(2,3) u
    by (auto simp: handoff_child_start_def lookup_uses_def start_time_def Let_def map_get_def bound_to_graph_def
        split: option.splits)
qed

section \<open>The edges the allocator declares\<close>

text \<open>
  \<open>handoff\<close>: the parent's last tick is the child's first one.  An operation edge is declared
  by \<open>_determine_in_place\<close>, an input edge by the reverse-parent rule.
\<close>

definition handoff :: "graph \<Rightarrow> overrides \<Rightarrow> string \<Rightarrow> string \<Rightarrow> bool" where
  "handoff g ov c p \<longleftrightarrow> (\<exists>t. handoff_child_start c (calculate_liveness g) (fst ov) = Inr t
     \<and> handoff_parent_end p (calculate_liveness g) (snd ov) = Inr t)"

definition op_edge :: "graph \<Rightarrow> mem_usage \<Rightarrow> overrides \<Rightarrow> string \<Rightarrow> int \<Rightarrow> string \<Rightarrow> bool" where
  "op_edge g mu ov c sz p \<longleftrightarrow> handoff g ov c p \<and> p \<in> set (in_place_allowed g c)
     \<and> (\<exists>pinfo. map_of mu p = Some pinfo \<and> sz = max 0 (size_per_core pinfo))"

definition input_edge :: "graph \<Rightarrow> (string \<Rightarrow> int) \<Rightarrow> (string \<rightharpoonup> int) \<Rightarrow> overrides \<Rightarrow> string \<Rightarrow> int \<Rightarrow> string \<Rightarrow> bool" where
  "input_edge g db ncores ov c sz p \<longleftrightarrow> handoff g ov c p \<and> p \<in> set (graph_input_names g)
     \<and> sz = input_footprint g db p ncores"

lemma in_place_parents_of_edges:
  assumes "in_place_parents_of g mu (calculate_liveness g) reasons ov n info st l ps = Inr r" "p \<in> set r"
    and "handoff_child_start n (calculate_liveness g) (fst ov) = Inr st"
  shows "op_edge g mu ov n (max 0 (size_per_core info)) p"
  using assms(1,2)
proof (induction ps arbitrary: r)
  case (Cons q qs)
  show ?case
  proof (cases "in_place_parents_of g mu (calculate_liveness g) reasons ov n info st l qs = Inr r")
    case True
    then show ?thesis using Cons.IH Cons.prems(2) by blast
  next
    case False
    then obtain r' pinfo where r: "r = q # r'"
        "in_place_parents_of g mu (calculate_liveness g) reasons ov n info st l qs = Inr r'"
      and q: "map_of mu q = Some pinfo" "handoff_parent_end q (calculate_liveness g) (snd ov) = Inr st"
        "q \<in> set (in_place_allowed g n)" "size_per_core info = size_per_core pinfo"
      using Cons.prems(1)
      by (auto simp: Let_def inplace_edge_ok_def split: option.splits if_splits)
    then have "op_edge g mu ov n (max 0 (size_per_core info)) q"
      using assms(3) by (simp add: op_edge_def handoff_def)
    then show ?thesis using Cons.IH [OF r(2)] Cons.prems(2) r(1) by auto
  qed
qed simp

lemma determine_in_place_edges:
  assumes "determine_in_place g mu (calculate_liveness g) reasons ov = Inr ip"
    and "(c, info) \<in> set mu" "distinct (map fst mu)" "p \<in> set (map_get (map_of ip) c [])"
  shows "op_edge g mu ov c (max 0 (size_per_core info)) p"
proof -
  have all: "list_all2 (\<lambda>x y. in_place_of g mu (calculate_liveness g) reasons ov x = Inr y) mu ip"
    using assms(1) by (simp add: determine_in_place_def traverse_Inr)
  from assms(4) obtain ps where "map_of ip c = Some ps" and p: "p \<in> set ps"
    by (cases "map_of ip c") (auto simp: map_get_def)
  then have "(c, ps) \<in> set ip" by (rule_tac map_of_SomeD)
  then obtain i where i: "i < length ip" "ip ! i = (c, ps)" by (auto simp: in_set_conv_nth)
  obtain c' info' where mi: "mu ! i = (c', info')" by (cases "mu ! i")
  have "i < length mu" using all i(1) by (simp add: list_all2_lengthD)
  then have m: "(c', info') \<in> set mu"
    "in_place_of g mu (calculate_liveness g) reasons ov (c', info') = Inr (c, ps)"
    using list_all2_nthD2 [OF all i(1)] i(2) mi nth_mem by fastforce+
  then have c': "c' = c" by (auto simp: in_place_of_def split: if_splits)
  then have "info' = info" using m(1) assms(2,3) by (meson eq_key_imp_eq_value)
  then show ?thesis using m(2) c' p by (auto simp: in_place_of_def split: if_splits intro: in_place_parents_of_edges)
qed

text \<open>What the buffers of the operations look like.\<close>

definition op_buffer :: "graph \<Rightarrow> mem_usage \<Rightarrow> overrides \<Rightarrow> (string \<times> string list) list \<Rightarrow> LifetimeBoundBuffer \<Rightarrow> bool" where
  "op_buffer g mu ov ip b \<longleftrightarrow> bound_to_graph g ov b \<and> buf_uses b \<noteq> [] \<and> buffer_post_init b = Inr ()
     \<and> (\<exists>info. (buf_name b, info) \<in> set mu \<and> buf_size b = max 0 (size_per_core info))
     \<and> \<not> first_use_is_read b \<and> buf_address b = None \<and> core_divisions b = []
     \<and> in_place_parents b = map_get (map_of ip) (buf_name b) []"

lemma build_op_buffers_spec:
  assumes "build_op_buffers ip reasons (calculate_liveness g) ov mu' = Inr bs" "set mu' \<subseteq> set mu"
  shows "list_all (op_buffer g mu ov ip) bs
    \<and> map buf_name bs = filter (\<lambda>n. map_get (calculate_liveness g) n [] \<noteq> []) (map fst mu')"
  using assms
proof (induction mu' arbitrary: bs)
  case (Cons x xs)
  obtain n info where x: "x = (n, info)" by (cases x)
  have IH: "\<And>bs. build_op_buffers ip reasons (calculate_liveness g) ov xs = Inr bs \<Longrightarrow>
      list_all (op_buffer g mu ov ip) bs
      \<and> map buf_name bs = filter (\<lambda>n. map_get (calculate_liveness g) n [] \<noteq> []) (map fst xs)"
    using Cons.IH Cons.prems(2) by simp
  have mem: "(n, info) \<in> set mu" using Cons.prems(2) x by simp
  show ?case
  proof (cases "map_get (calculate_liveness g) n [] = []")
    case True
    then show ?thesis using Cons.prems(1) IH by (simp add: x)
  next
    case False
    from Cons.prems(1) obtain b bs' where bs: "bs = b # bs'"
        "build_op_buffers ip reasons (calculate_liveness g) ov xs = Inr bs'"
      and b: "mk_bound_buffer n (max 0 (size_per_core info)) (map_get (calculate_liveness g) n []) False
         (map_get (map_of ip) n []) (reasons n) (fst ov n) (snd ov n) = Inr b"
      using False unfolding x by (auto simp del: mk_bound_buffer_Inr)
    have "calculate_liveness g n = Some (map_get (calculate_liveness g) n [])"
      using False by (cases "calculate_liveness g n") (simp_all add: map_get_def)
    then have "op_buffer g mu ov ip b"
      using b mem False by (auto simp: op_buffer_def bound_to_graph_def)
    then show ?thesis using IH [OF bs(2)] b False by (simp add: bs(1) x)
  qed
qed simp

text \<open>Reverse-parent edges only add input edges to the buffers of the operations.\<close>

definition no_parents :: "LifetimeBoundBuffer \<Rightarrow> LifetimeBoundBuffer" where
  "no_parents b = b\<lparr>in_place_parents := []\<rparr>"

definition grown :: "(LifetimeBoundBuffer \<Rightarrow> string \<Rightarrow> bool) \<Rightarrow> LifetimeBoundBuffer \<Rightarrow> LifetimeBoundBuffer \<Rightarrow> bool" where
  "grown E a b \<longleftrightarrow> no_parents a = no_parents b
     \<and> (\<forall>p \<in> set (in_place_parents b). p \<in> set (in_place_parents a) \<or> E a p)"

lemma no_parents_eq:
  assumes "no_parents a = no_parents b"
  shows "buf_name a = buf_name b" "buf_size a = buf_size b" "buf_uses a = buf_uses b"
    "first_use_is_read a = first_use_is_read b" "buf_address a = buf_address b"
    "lifetime_start_override a = lifetime_start_override b"
    "lifetime_end_override a = lifetime_end_override b" "core_divisions a = core_divisions b"
  using assms by (cases a, cases b, simp add: no_parents_def)+

lemma grown_trans:
  assumes "grown E a b" "grown E b c" "\<And>x y p. no_parents x = no_parents y \<Longrightarrow> E y p \<Longrightarrow> E x p"
  shows "grown E a c"
  using assms unfolding grown_def by metis

lemma list_all2_trans_grown:
  assumes "list_all2 (grown E) xs ys" "list_all2 (grown E) ys zs"
    and "\<And>x y p. no_parents x = no_parents y \<Longrightarrow> E y p \<Longrightarrow> E x p"
  shows "list_all2 (grown E) xs zs"
proof (rule list_all2_trans [OF _ assms(1,2)])
  show "grown E a c" if "grown E a b" "grown E b c" for a b c
    using that assms(3) by (rule grown_trans)
qed

abbreviation inp_edge :: "graph \<Rightarrow> (string \<Rightarrow> int) \<Rightarrow> (string \<rightharpoonup> int) \<Rightarrow> overrides \<Rightarrow> LifetimeBoundBuffer \<Rightarrow> string \<Rightarrow> bool" where
  "inp_edge g db ncores ov \<equiv> (\<lambda>b p. input_edge g db ncores ov (buf_name b) (buf_size b) p)"

lemma reverse_parent_grown:
  assumes "reverse_parent g mu (calculate_liveness g) ov n (input_footprint g db n ncores) uses built = Inr built'"
    and "n \<in> set (graph_input_names g)" "distinct (map buf_name built)"
  shows "list_all2 (grown (inp_edge g db ncores ov)) built built'"
proof -
  have same: "list_all2 (grown (inp_edge g db ncores ov)) built built"
    by (rule list_all2_refl) (simp add: grown_def)
  show ?thesis
  proof (cases "built' = built")
    case True
    then show ?thesis using same by simp
  next
    case False
    let ?op = "graph_operations g ! nat (last uses)"
    from False assms(1) obtain c where b': "built' = add_parent (op_name ?op) n built"
      and c: "buf_by_name built (op_name ?op) = Some c" "handoff g ov (op_name ?op) n"
        "buf_size c = input_footprint g db n ncores"
      by (auto simp: reverse_parent_def Let_def inplace_edge_ok_def handoff_def
          split: if_splits option.splits)
    have mem: "c \<in> set built" "buf_name c = op_name ?op"
      using buf_by_name_SomeD [OF c(1)] by simp_all
    have "grown (inp_edge g db ncores ov) b (if buf_name b = op_name ?op
            then b\<lparr>in_place_parents := in_place_parents b @ [n]\<rparr> else b)" if b: "b \<in> set built" for b
    proof (cases "b = c")
      case True
      then show ?thesis using c(2,3) mem(2) assms(2) by (simp add: grown_def no_parents_def input_edge_def)
    next
      case False
      then have "buf_name b \<noteq> op_name ?op" using b mem assms(3) by (metis distinct_map inj_onD)
      then show ?thesis by (simp add: grown_def)
    qed
    then show ?thesis unfolding b' add_parent_def
      by (simp add: list_all2_map2 list_all2_same)
  qed
qed

definition input_buffer :: "graph \<Rightarrow> (string \<Rightarrow> int) \<Rightarrow> (string \<rightharpoonup> int) \<Rightarrow> overrides \<Rightarrow> LifetimeBoundBuffer \<Rightarrow> bool" where
  "input_buffer g db ncores ov b \<longleftrightarrow> bound_to_graph g ov b \<and> buf_uses b \<noteq> [] \<and> buffer_post_init b = Inr ()
     \<and> buf_size b = input_footprint g db (buf_name b) ncores
     \<and> first_use_is_read b \<and> buf_address b = None \<and> core_divisions b = [] \<and> in_place_parents b = []"

lemma grown_names: "list_all2 (grown E) xs ys \<Longrightarrow> map buf_name ys = map buf_name xs"
  by (induction rule: list_all2_induct) (auto simp: grown_def dest: no_parents_eq(1))

lemma input_edge_cong:
  "no_parents x = no_parents y \<Longrightarrow> inp_edge g db ncores ov y p \<Longrightarrow> inp_edge g db ncores ov x p"
  using no_parents_eq(1,2) by metis

lemma build_input_buffers_spec:
  assumes "build_input_buffers g db mu ir (calculate_liveness g) ov ncores ns built = Inr (built', ins)"
    and "set ns \<subseteq> set (graph_input_names g)" "distinct (map buf_name built)"
  shows "list_all2 (grown (inp_edge g db ncores ov)) built built' \<and> list_all (input_buffer g db ncores ov) ins
    \<and> map buf_name ins = filter (\<lambda>n. map_get (calculate_liveness g) n [] \<noteq> []) ns"
  using assms
proof (induction ns arbitrary: built built' ins)
  case Nil
  then show ?case by (auto intro!: list_all2_refl simp: grown_def)
next
  case (Cons n ns)
  show ?case
  proof (cases "map_get (calculate_liveness g) n [] = []")
    case True
    then show ?thesis using Cons by (simp add: Let_def)
  next
    case False
    let ?u = "map_get (calculate_liveness g) n []" and ?sz = "input_footprint g db n ncores"
    from Cons.prems(1) False obtain b built1 ins' where
      b: "mk_bound_buffer n ?sz ?u True [] (ir n ?u) (fst ov n) (snd ov n) = Inr b"
      and 1: "(if ir n ?u \<noteq> None then Inr built
               else reverse_parent g mu (calculate_liveness g) ov n ?sz ?u built) = Inr built1"
      and 2: "build_input_buffers g db mu ir (calculate_liveness g) ov ncores ns built1 = Inr (built', ins')"
      and ins: "ins = b # ins'"
      by (auto simp: Let_def simp del: mk_bound_buffer_Inr)
    have g1: "list_all2 (grown (inp_edge g db ncores ov)) built built1"
    proof (cases "ir n ?u")
      case None
      then show ?thesis using 1 reverse_parent_grown Cons.prems(2,3) by simp
    next
      case (Some r)
      then show ?thesis using 1 by (auto intro!: list_all2_refl simp: grown_def)
    qed
    then have "distinct (map buf_name built1)" using grown_names Cons.prems(3) by metis
    note IH = Cons.IH [OF 2 _ this]
    have "calculate_liveness g n = Some ?u"
      using False by (cases "calculate_liveness g n") (simp_all add: map_get_def)
    then have "input_buffer g db ncores ov b" using b False by (auto simp: input_buffer_def bound_to_graph_def)
    moreover have "list_all2 (grown (inp_edge g db ncores ov)) built built'"
      by (rule list_all2_trans_grown [OF g1]) (use IH Cons.prems(2) input_edge_cong in simp_all)
    ultimately show ?thesis using IH Cons.prems(2) b False by (simp add: ins)
  qed
qed

section \<open>The solver accepts what the allocator generates\<close>

text \<open>What \<open>mem_usage_by_buf\<close> returns: one entry per operation, in order.\<close>

definition mem_usage_ok :: "graph \<Rightarrow> mem_usage \<Rightarrow> bool" where
  "mem_usage_ok g mu \<longleftrightarrow> distinct (map fst mu) \<and> fst ` set mu \<subseteq> op_name ` set (graph_operations g)"

lemma input_footprint_nonneg: "\<forall>l. 0 \<le> db l \<Longrightarrow> 0 \<le> input_footprint g db n ncores"
  by (auto simp: input_footprint_def pos_imp_zdiv_nonneg_iff split: option.splits)

lemma built_parts:
  assumes "ssa_graph g" "mem_usage_ok g mu"
    and "determine_in_place g mu (calculate_liveness g) reasons ov = Inr ip"
    and "build_bound_buffers g db ip mu reasons ir (calculate_liveness g) ncores ov = Inr bufs"
  obtains ops built ins where "bufs = built @ ins" "distinct (map buf_name bufs)"
    "list_all (op_buffer g mu ov ip) ops" "list_all2 (grown (inp_edge g db ncores ov)) ops built"
    "list_all (input_buffer g db ncores ov) ins"
    "set (map buf_name built) \<subseteq> op_name ` set (graph_operations g)"
    "set (map buf_name ins) \<subseteq> set (graph_input_names g)"
proof -
  from assms(4) obtain ops built ins where o: "build_op_buffers ip reasons (calculate_liveness g) ov mu = Inr ops"
    and i: "build_input_buffers g db mu ir (calculate_liveness g) ov ncores (graph_input_names g) ops = Inr (built, ins)"
    and bufs: "bufs = built @ ins"
    by (auto simp: build_bound_buffers_def)
  note O = build_op_buffers_spec [OF o order_refl]
  have names: "map buf_name ops = filter (\<lambda>n. map_get (calculate_liveness g) n [] \<noteq> []) (map fst mu)" using O ..
  then have d: "distinct (map buf_name ops)" using assms(2) by (simp add: mem_usage_ok_def del: map_eq_conv)
  note I = build_input_buffers_spec [OF i order_refl d]
  have nb: "map buf_name built = map buf_name ops" using I grown_names by blast
  have sub: "set (map buf_name built) \<subseteq> op_name ` set (graph_operations g)"
    using assms(2) unfolding nb names by (auto simp: mem_usage_ok_def)
  have ni: "map buf_name ins = filter (\<lambda>n. map_get (calculate_liveness g) n [] \<noteq> []) (graph_input_names g)"
    using I by blast
  then have subi: "set (map buf_name ins) \<subseteq> set (graph_input_names g)" unfolding ni by auto
  have "distinct (map buf_name ins)" unfolding ni using assms(1) by (simp add: ssa_graph_def)
  moreover have "op_name ` set (graph_operations g) \<inter> set (graph_input_names g) = {}"
    using assms(1) by (auto simp: ssa_graph_def)
  ultimately have "distinct (map buf_name bufs)"
    using d sub subi unfolding bufs map_append distinct_append nb by blast
  then show ?thesis using that [OF bufs] O I sub subi by blast
qed

lemma in_place_allowed_read:
  assumes "p \<in> set (in_place_allowed g c)"
  obtains k where "k < length (graph_operations g)" "op_reads_name (graph_operations g ! k) p"
proof -
  from assms obtain op where op: "op_named g c = Some op" "p \<in> set (op_inputs_good_for_lx_inplace op)"
    by (cases "op_named g c") (auto simp: in_place_allowed_def)
  then have "op \<in> set (graph_operations g)"
    unfolding op_named_def by (metis (mono_tags, lifting) find_Some_iff nth_mem set_rev)
  then show ?thesis using that pointwise_inputs_read [OF op(2)] by (metis in_set_conv_nth)
qed

text \<open>Every buffer of the list has the lifetime the analyses give it, and no address yet.\<close>

definition generated :: "graph \<Rightarrow> mem_usage \<Rightarrow> (string \<Rightarrow> int) \<Rightarrow> (string \<rightharpoonup> int) \<Rightarrow> overrides \<Rightarrow> LifetimeBoundBuffer \<Rightarrow> bool" where
  "generated g mu db ncores ov b \<longleftrightarrow> bound_to_graph g ov b \<and> buf_uses b \<noteq> [] \<and> buffer_post_init b = Inr ()
     \<and> buf_address b = None \<and> core_divisions b = []
     \<and> (if first_use_is_read b then in_place_parents b = [] \<and> buf_name b \<in> set (graph_input_names g)
            \<and> buf_size b = input_footprint g db (buf_name b) ncores
        else buf_name b \<in> op_name ` set (graph_operations g) \<and> (\<forall>info. map_of mu (buf_name b) = Some info \<longrightarrow>
              buf_size b = max 0 (size_per_core info)) \<and> 0 \<le> buf_size b)
     \<and> (\<forall>p \<in> set (in_place_parents b). op_edge g mu ov (buf_name b) (buf_size b) p
            \<or> input_edge g db ncores ov (buf_name b) (buf_size b) p)"

lemma op_buffer_generated:
  assumes "op_buffer g mu ov ip a" "grown (inp_edge g db ncores ov) a b" "mem_usage_ok g mu"
    and "determine_in_place g mu (calculate_liveness g) reasons ov = Inr ip"
  shows "generated g mu db ncores ov b"
proof -
  have eq: "no_parents a = no_parents b" using assms(2) by (simp add: grown_def)
  note f = no_parents_eq [OF eq]
  from assms(1) obtain info where info: "(buf_name a, info) \<in> set mu" "buf_size a = max 0 (size_per_core info)"
    by (auto simp: op_buffer_def)
  have d: "distinct (map fst mu)" using assms(3) by (simp add: mem_usage_ok_def)
  have "buffer_post_init b = buffer_post_init a" by (rule post_init_cong) (simp_all only: f)
  moreover have "op_edge g mu ov (buf_name b) (buf_size b) p \<or> input_edge g db ncores ov (buf_name b) (buf_size b) p"
    if "p \<in> set (in_place_parents b)" for p
  proof -
    have "p \<in> set (map_get (map_of ip) (buf_name a) []) \<or> inp_edge g db ncores ov a p"
      using assms(1,2) that by (auto simp: grown_def op_buffer_def)
    then show ?thesis
      using determine_in_place_edges [OF assms(4) info(1) d] info(2) f(1,2) by metis
  qed
  moreover have "buf_name b \<in> op_name ` set (graph_operations g)"
    using info(1) assms(3) f(1) by (force simp: mem_usage_ok_def)
  moreover have "map_of mu (buf_name b) = Some info" using info(1) d f(1) by simp
  ultimately show ?thesis
    using assms(1) info(2) f by (auto simp: generated_def op_buffer_def bound_to_graph_def)
qed

lemma built_generated:
  assumes "ssa_graph g" "mem_usage_ok g mu" "\<forall>l. 0 \<le> db l"
    and "determine_in_place g mu (calculate_liveness g) reasons ov = Inr ip"
    and "build_bound_buffers g db ip mu reasons ir (calculate_liveness g) ncores ov = Inr bufs"
  shows "distinct (map buf_name bufs) \<and> (\<forall>b \<in> set bufs. generated g mu db ncores ov b)"
proof -
  from built_parts [OF assms(1,2,4,5)] obtain ops built ins where bufs: "bufs = built @ ins"
    and d: "distinct (map buf_name bufs)" and o: "list_all (op_buffer g mu ov ip) ops"
    and gr: "list_all2 (grown (inp_edge g db ncores ov)) ops built"
    and i: "list_all (input_buffer g db ncores ov) ins"
    and ni: "set (map buf_name ins) \<subseteq> set (graph_input_names g)" by metis
  have "generated g mu db ncores ov b" if "b \<in> set built" for b
  proof -
    from that obtain i where i: "i < length built" "built ! i = b" by (auto simp: in_set_conv_nth)
    then have "grown (inp_edge g db ncores ov) (ops ! i) b" "ops ! i \<in> set ops"
      using list_all2_nthD2 [OF gr i(1)] list_all2_lengthD [OF gr] by simp_all
    then show ?thesis using op_buffer_generated [OF _ _ assms(2,4)] o by (auto simp: list_all_iff)
  qed
  moreover have "generated g mu db ncores ov b" if "b \<in> set ins" for b
    using that i ni by (auto simp: generated_def input_buffer_def list_all_iff)
  ultimately show ?thesis using d unfolding bufs by auto
qed

lemma generated_pair:
  assumes "ssa_graph g" "counted_loop_lifetime_overrides g = Inr ov" "mem_usage_ok g mu"
    and "generated g mu db ncores ov c" "generated g mu db ncores ov p" "buf_name p \<in> set (in_place_parents c)"
  shows "end_time p = start_time c + 1" "first_use_is_read p \<or> has_read_after_write p" "buf_size c = buf_size p"
proof -
  let ?p = "buf_name p"
  have bd: "bound_to_graph g ov c" "buf_uses c \<noteq> []" "bound_to_graph g ov p" "buf_uses p \<noteq> []"
    using assms(4,5) by (simp_all add: generated_def)
  from assms(4,6) have e: "op_edge g mu ov (buf_name c) (buf_size c) ?p
      \<or> input_edge g db ncores ov (buf_name c) (buf_size c) ?p" by (auto simp: generated_def)
  then have "handoff g ov (buf_name c) ?p" by (auto simp: op_edge_def input_edge_def)
  then show "end_time p = start_time c + 1"
    using handoff_ticks [OF assms(2) bd(1,2)] handoff_ticks [OF assms(2) bd(3,4)] by (simp add: handoff_def)
  have dis: "\<not> (?p \<in> set (graph_input_names g) \<and> ?p \<in> op_name ` set (graph_operations g))"
    using assms(1) by (auto simp: ssa_graph_def)
  show "first_use_is_read p \<or> has_read_after_write p"
  proof (cases "first_use_is_read p")
    case False
    then have po: "?p \<in> op_name ` set (graph_operations g)" using assms(5) by (simp add: generated_def)
    then obtain m where m: "m < length (graph_operations g)" "op_name (graph_operations g ! m) = ?p"
      by (metis imageE in_set_conv_nth)
    have "?p \<in> set (in_place_allowed g (buf_name c))"
      using e po dis by (auto simp: op_edge_def input_edge_def)
    then obtain k where "k < length (graph_operations g)" "op_reads_name (graph_operations g ! k) ?p"
      by (rule in_place_allowed_read)
    then show ?thesis
      using read_after_write [OF assms(1) _ m] bd(3) by (auto simp: bound_to_graph_def has_read_after_write_def)
  qed simp
  show "buf_size c = buf_size p"
  proof (cases "first_use_is_read p")
    case True
    then have "?p \<notin> op_name ` set (graph_operations g)" using assms(5) dis by (simp add: generated_def)
    then have "map_of mu ?p = None" using assms(3) by (force simp: mem_usage_ok_def map_of_eq_None_iff)
    then show ?thesis using e assms(5) True by (auto simp: generated_def op_edge_def input_edge_def)
  next
    case False
    then show ?thesis using e assms(5) dis by (auto simp: generated_def op_edge_def input_edge_def)
  qed
qed

lemma generated_accepted:
  assumes "ssa_graph g" "counted_loop_lifetime_overrides g = Inr ov" "mem_usage_ok g mu" "\<forall>l. 0 \<le> db l"
    and "distinct (map buf_name bufs)" "\<forall>b \<in> set bufs. generated g mu db ncores ov b"
  shows "solver_input bufs" "check_in_place_relationships bufs = Inr ()"
proof -
  have "0 \<le> buf_size b" if "generated g mu db ncores ov b" for b
    using that input_footprint_nonneg [OF assms(4)] by (auto simp: generated_def split: if_splits)
  then show "solver_input bufs"
    using assms(5,6) by (auto simp: solver_input_def list_all_iff generated_def)
  have "check_in_place_pair bufs c p = Inr ()" if c: "c \<in> set bufs" and p: "p \<in> set (in_place_parents c)" for c p
  proof (cases "buf_by_name bufs p")
    case (Some b)
    have b: "b \<in> set bufs" "buf_name b = p" using buf_by_name_SomeD [OF Some] by simp_all
    have g: "generated g mu db ncores ov c" "generated g mu db ncores ov b" using assms(6) c b(1) by blast+
    have "buf_name b \<in> set (in_place_parents c)" using b(2) p by simp
    note e = generated_pair [OF assms(1,2,3) g this]
    show ?thesis using Some e(1,2,3) g
      by (simp add: check_in_place_pair_def check_in_place_parent_is_read_def generated_def)
  qed (simp add: check_in_place_pair_def)
  then show "check_in_place_relationships bufs = Inr ()"
    by (simp add: check_in_place_relationships_def check_children_iff)
qed

lemma generated_plans [simp]:
  "generated g mu db ncores ov (b\<lparr>lx_relayout_plans := ps\<rparr>) = generated g mu db ncores ov b"
proof -
  have "buffer_post_init (b\<lparr>lx_relayout_plans := ps\<rparr>) = buffer_post_init b"
    by (rule post_init_cong) simp_all
  then show ?thesis by (simp add: generated_def bound_to_graph_def)
qed

lemma attach_plans_generated:
  "attach_plans bufs plans = Inr bufs' \<Longrightarrow> map buf_name bufs' = map buf_name bufs
     \<and> ((\<forall>b \<in> set bufs. generated g mu db ncores ov b) \<longrightarrow> (\<forall>b \<in> set bufs'. generated g mu db ncores ov b))"
proof (induction plans arbitrary: bufs)
  case (Cons plan plans)
  from Cons.prems obtain bs where 1: "attach_plan bufs plan = Inr bs" and 2: "attach_plans bs plans = Inr bufs'"
    by auto
  have "map buf_name bs = map buf_name bufs" and
    "(\<forall>b \<in> set bufs. generated g mu db ncores ov b) \<longrightarrow> (\<forall>b \<in> set bs. generated g mu db ncores ov b)"
    using 1 by (auto simp: attach_plan_def split: option.splits)
  then show ?case using Cons.IH [OF 2] by simp
qed simp

lemma apply_relayout_plans_names: "map fst (foldl apply_relayout_plan mu plans) = map fst mu"
proof (induction plans arbitrary: mu)
  case (Cons plan plans)
  have "map fst (apply_relayout_plan mu plan) = map fst mu"
    by (auto simp: apply_relayout_plan_def)
  then show ?case using Cons.IH by simp
qed simp

lemma apply_relayout_plans_ok: "mem_usage_ok g mu \<Longrightarrow> mem_usage_ok g (foldl apply_relayout_plan mu plans)"
  unfolding mem_usage_ok_def by (metis apply_relayout_plans_names set_map)

lemma generate_buffers_generated:
  assumes "ssa_graph g" "mem_usage_ok g mu" "\<forall>l. 0 \<le> db l"
    and "generate_buffers g db mu reasons ir ncores plans = Inr bufs"
  obtains ov mu' where "counted_loop_lifetime_overrides g = Inr ov" "mem_usage_ok g mu'"
    "distinct (map buf_name bufs)" "\<forall>b \<in> set bufs. generated g mu' db ncores ov b"
proof -
  let ?mu = "foldl apply_relayout_plan mu plans"
  from assms(4) obtain ov ip bs where ov: "counted_loop_lifetime_overrides g = Inr ov"
    and ip: "determine_in_place g ?mu (calculate_liveness g) reasons ov = Inr ip"
    and bs: "build_bound_buffers g db ip ?mu reasons ir (calculate_liveness g) ncores ov = Inr bs"
    and at: "attach_plans bs plans = Inr bufs"
    by (auto simp: generate_buffers_def Let_def)
  have mu: "mem_usage_ok g ?mu" using assms(2) by (rule apply_relayout_plans_ok)
  note B = built_generated [OF assms(1) mu assms(3) ip bs]
  show ?thesis
    using that [OF ov mu] B attach_plans_generated [OF at, of g ?mu db ncores ov] by simp
qed

section \<open>Generation never raises\<close>

text \<open>What the residency verdicts guarantee: a buffer they admit has a device layout.\<close>

definition admitted_sized :: "graph \<Rightarrow> mem_usage \<Rightarrow> (string \<Rightarrow> string option) \<Rightarrow> bool" where
  "admitted_sized g mu reasons \<longleftrightarrow> (\<forall>n \<in> fst ` set mu. reasons n = None \<longrightarrow> graph_device_layout g n \<noteq> None)"

lemma op_uses:
  assumes "ssa_graph g" "n \<in> op_name ` set (graph_operations g)"
  obtains u where "calculate_liveness g n = Some u" "u \<noteq> []"
proof -
  from assms(2) obtain k where k: "k < length (graph_operations g)" "op_name (graph_operations g ! k) = n"
    by (metis imageE in_set_conv_nth)
  then have "accesses (graph_operations g ! k) n" using assms(1) unfolding ssa_graph_def accesses_def by blast
  with k(1) show ?thesis using that by (rule liveness_some)
qed

lemma handoff_total:
  "calculate_liveness g n = Some u \<Longrightarrow> u \<noteq> [] \<Longrightarrow> \<exists>t. handoff_child_start n (calculate_liveness g) st = Inr t"
  "calculate_liveness g n = Some u \<Longrightarrow> u \<noteq> [] \<Longrightarrow> \<exists>t. handoff_parent_end n (calculate_liveness g) en = Inr t"
  by (simp_all add: handoff_child_start_def handoff_parent_end_def lookup_uses_def)

lemma in_place_parents_of_total:
  assumes "ssa_graph g" "mem_usage_ok g mu" "admitted_sized g mu reasons"
  shows "\<exists>r. in_place_parents_of g mu (calculate_liveness g) reasons ov n info st l ps = Inr r"
proof (induction ps)
  case (Cons p ps)
  then obtain r where r: "in_place_parents_of g mu (calculate_liveness g) reasons ov n info st l ps = Inr r" by blast
  show ?case
  proof (cases "map_of mu p")
    case (Some pinfo)
    then have m: "p \<in> fst ` set mu" by (metis domI dom_map_of_conv_image_fst)
    then obtain u where u: "calculate_liveness g p = Some u" "u \<noteq> []"
      using op_uses [OF assms(1)] assms(2) unfolding mem_usage_ok_def by blast
    obtain t where "handoff_parent_end p (calculate_liveness g) (snd ov) = Inr t"
      using handoff_total(2) [OF u] by blast
    then show ?thesis using Some r u m assms(3)
      by (auto simp: Let_def lookup_uses_def admitted_sized_def device_layout_of_def)
  qed (use r in simp)
qed simp

lemma determine_in_place_total:
  assumes "ssa_graph g" "mem_usage_ok g mu" "admitted_sized g mu reasons"
  shows "\<exists>ip. determine_in_place g mu (calculate_liveness g) reasons ov = Inr ip"
  unfolding determine_in_place_def
proof (rule traverse_total, rule ballI)
  fix x assume xm: "x \<in> set mu"
  obtain n info where x: "x = (n, info)" by (cases x)
  have m: "n \<in> fst ` set mu" using xm x by force
  then obtain u where u: "calculate_liveness g n = Some u" "u \<noteq> []"
    using op_uses [OF assms(1)] assms(2) unfolding mem_usage_ok_def by blast
  obtain t where t: "handoff_child_start n (calculate_liveness g) (fst ov) = Inr t"
    using handoff_total(1) [OF u] by blast
  show "\<exists>y. in_place_of g mu (calculate_liveness g) reasons ov x = Inr y"
    using t u m assms(3) in_place_parents_of_total [OF assms, of ov n info t]
    by (auto simp: x in_place_of_def admitted_sized_def device_layout_of_def map_get_def rbind_Inr)
qed

lemma mk_bound_total:
  assumes "counted_loop_lifetime_overrides g = Inr ov" "calculate_liveness g n = Some u"
  shows "\<exists>b. mk_bound_buffer n sz u r ps reason (fst ov n) (snd ov n) = Inr b"
  unfolding mk_bound_buffer_Inr
  by (rule exI, rule conjI [rotated, OF refl], rule bound_post_init [OF assms(1)])
    (simp add: bound_to_graph_def assms(2))

lemma build_op_buffers_total:
  assumes "counted_loop_lifetime_overrides g = Inr ov"
  shows "\<exists>bs. build_op_buffers ip reasons (calculate_liveness g) ov mu = Inr bs"
proof (induction mu)
  case (Cons x mu)
  obtain n info where x: "x = (n, info)" by (cases x)
  show ?case
  proof (cases "map_get (calculate_liveness g) n [] = []")
    case False
    then have "calculate_liveness g n = Some (map_get (calculate_liveness g) n [])"
      by (cases "calculate_liveness g n") (simp_all add: map_get_def)
    then obtain b where "mk_bound_buffer n (max 0 (size_per_core info)) (map_get (calculate_liveness g) n []) False
         (map_get (map_of ip) n []) (reasons n) (fst ov n) (snd ov n) = Inr b"
      using mk_bound_total [OF assms] by blast
    then show ?thesis using Cons False by (auto simp: x simp del: mk_bound_buffer_Inr)
  qed (use Cons in \<open>simp add: x\<close>)
qed simp

lemma reverse_parent_total:
  assumes "ssa_graph g" "calculate_liveness g n = Some u" "u \<noteq> []"
    and "set (map buf_name built) \<subseteq> fst ` set mu"
  shows "\<exists>built'. reverse_parent g mu (calculate_liveness g) ov n sz u built = Inr built'"
proof -
  let ?op = "graph_operations g ! nat (last u)"
  have k: "0 \<le> last u" "last u < int (length (graph_operations g))"
    using liveness_uses(1,2) [OF assms(2)] assms(3) by simp_all
  then have "?op \<in> set (graph_operations g)" by simp
  then obtain v where v: "calculate_liveness g (op_name ?op) = Some v" "v \<noteq> []"
    using op_uses [OF assms(1)] by blast
  obtain t where t: "handoff_child_start (op_name ?op) (calculate_liveness g) (fst ov) = Inr t"
    using handoff_total(1) [OF v] by blast
  obtain e where e: "handoff_parent_end n (calculate_liveness g) (snd ov) = Inr e"
    using handoff_total(2) [OF assms(2,3)] by blast
  show ?thesis
  proof (cases "buf_by_name built (op_name ?op)")
    case (Some c)
    have "op_name ?op \<in> fst ` set mu" using buf_by_name_SomeD [OF Some] assms(4) by force
    then obtain info where "map_of mu (op_name ?op) = Some info" by (metis domD dom_map_of_conv_image_fst)
    then show ?thesis using Some k t e by (auto simp: reverse_parent_def Let_def split: option.splits)
  qed (use k in \<open>simp add: reverse_parent_def Let_def\<close>)
qed

lemma build_input_buffers_total:
  assumes "ssa_graph g" "counted_loop_lifetime_overrides g = Inr ov"
    and "set (map buf_name built) \<subseteq> fst ` set mu" "distinct (map buf_name built)" "set ns \<subseteq> set (graph_input_names g)"
  shows "\<exists>r. build_input_buffers g db mu ir (calculate_liveness g) ov ncores ns built = Inr r"
  using assms(3-5)
proof (induction ns arbitrary: built)
  case (Cons n ns)
  let ?u = "map_get (calculate_liveness g) n []" and ?sz = "input_footprint g db n ncores"
  show ?case
  proof (cases "?u = []")
    case False
    then have u: "calculate_liveness g n = Some ?u"
      by (cases "calculate_liveness g n") (simp_all add: map_get_def)
    obtain b where b: "mk_bound_buffer n ?sz ?u True [] (ir n ?u) (fst ov n) (snd ov n) = Inr b"
      using mk_bound_total [OF assms(2) u] by blast
    have "\<exists>built1. (if ir n ?u \<noteq> None then Inr built
        else reverse_parent g mu (calculate_liveness g) ov n ?sz ?u built) = Inr built1"
      using reverse_parent_total [OF assms(1) u False Cons.prems(1)] by simp
    then obtain built1 where 1: "(if ir n ?u \<noteq> None then Inr built
        else reverse_parent g mu (calculate_liveness g) ov n ?sz ?u built) = Inr built1" ..
    have "map buf_name built1 = map buf_name built"
    proof (cases "ir n ?u")
      case None
      then have "reverse_parent g mu (calculate_liveness g) ov n ?sz ?u built = Inr built1" using 1 by simp
      from reverse_parent_grown [OF this _ Cons.prems(2)] Cons.prems(3) show ?thesis
        using grown_names by simp
    next
      case (Some r)
      then show ?thesis using 1 by simp
    qed
    then obtain r where "build_input_buffers g db mu ir (calculate_liveness g) ov ncores ns built1 = Inr r"
      using Cons.IH [of built1] Cons.prems by auto
    then show ?thesis using b 1 False by (cases r) (auto simp: Let_def simp del: mk_bound_buffer_Inr)
  qed (use Cons in \<open>simp add: Let_def\<close>)
qed simp

lemma build_bound_buffers_total:
  assumes "ssa_graph g" "counted_loop_lifetime_overrides g = Inr ov" "mem_usage_ok g mu"
  shows "\<exists>bufs. build_bound_buffers g db ip mu reasons ir (calculate_liveness g) ncores ov = Inr bufs
    \<and> fst ` set mu \<subseteq> buf_name ` set bufs"
proof -
  obtain ops where o: "build_op_buffers ip reasons (calculate_liveness g) ov mu = Inr ops"
    using build_op_buffers_total [OF assms(2)] by blast
  have n: "map buf_name ops = filter (\<lambda>n. map_get (calculate_liveness g) n [] \<noteq> []) (map fst mu)"
    using build_op_buffers_spec [OF o order_refl] by blast
  have d: "distinct (map buf_name ops)" and sub: "set (map buf_name ops) \<subseteq> fst ` set mu"
    unfolding n using assms(3) by (auto simp: mem_usage_ok_def)
  obtain built ins where i: "build_input_buffers g db mu ir (calculate_liveness g) ov ncores (graph_input_names g) ops
      = Inr (built, ins)"
    using build_input_buffers_total [OF assms(1,2) sub d order_refl] by (metis surj_pair)
  have nb: "map buf_name built = map buf_name ops"
    using build_input_buffers_spec [OF i order_refl d] grown_names by blast
  have "fst ` set mu \<subseteq> set (map buf_name ops)"
  proof
    fix m assume "m \<in> fst ` set mu"
    moreover from this obtain u where "calculate_liveness g m = Some u" "u \<noteq> []"
      using op_uses [OF assms(1)] assms(3) unfolding mem_usage_ok_def by blast
    ultimately show "m \<in> set (map buf_name ops)" unfolding n by (auto simp: map_get_def)
  qed
  then have "fst ` set mu \<subseteq> buf_name ` set (built @ ins)" unfolding nb [symmetric] by auto
  then show ?thesis using o i by (simp add: build_bound_buffers_def)
qed

lemma attach_plans_total:
  assumes "\<forall>p \<in> set plans. plan_source_name p \<in> buf_name ` set bufs" "distinct (map buf_name bufs)"
  shows "\<exists>bufs'. attach_plans bufs plans = Inr bufs'"
  using assms
proof (induction plans arbitrary: bufs)
  case (Cons plan plans)
  from Cons.prems obtain b where "b \<in> set bufs" "buf_name b = plan_source_name plan" by auto
  then have "buf_by_name bufs (plan_source_name plan) = Some b" using buf_by_name_eq [OF Cons.prems(2)] by metis
  then obtain bs where bs: "attach_plan bufs plan = Inr bs" "map buf_name bs = map buf_name bufs"
    by (auto simp: attach_plan_def)
  then have "buf_name ` set bs = buf_name ` set bufs" by (metis set_map)
  then have "\<exists>bufs'. attach_plans bs plans = Inr bufs'" using Cons.IH [of bs] Cons.prems bs(2) by simp
  then show ?case using bs(1) by simp
qed simp

lemma generate_buffers_total:
  assumes "ssa_graph g" "mem_usage_ok g mu" "admitted_sized g mu reasons" "\<forall>l. 0 \<le> db l"
    and "\<forall>p \<in> set plans. plan_source_name p \<in> fst ` set mu"
  shows "\<exists>bufs. generate_buffers g db mu reasons ir ncores plans = Inr bufs"
proof -
  let ?mu = "foldl apply_relayout_plan mu plans"
  obtain ov where ov: "counted_loop_lifetime_overrides g = Inr ov" using overrides_total by blast
  have mu: "mem_usage_ok g ?mu" using assms(2) by (rule apply_relayout_plans_ok)
  have names: "fst ` set ?mu = fst ` set mu" by (metis apply_relayout_plans_names set_map)
  have ad: "admitted_sized g ?mu reasons" using assms(3) by (simp add: admitted_sized_def names)
  obtain ip where ip: "determine_in_place g ?mu (calculate_liveness g) reasons ov = Inr ip"
    using determine_in_place_total [OF assms(1) mu ad] by blast
  obtain bs where bs: "build_bound_buffers g db ip ?mu reasons ir (calculate_liveness g) ncores ov = Inr bs"
    and sub: "fst ` set ?mu \<subseteq> buf_name ` set bs" using build_bound_buffers_total [OF assms(1) ov mu] by blast
  have "distinct (map buf_name bs)" using built_generated [OF assms(1) mu assms(4) ip bs] by simp
  then obtain bufs where "attach_plans bs plans = Inr bufs"
    using attach_plans_total [of plans bs] assms(5) sub names by blast
  then show ?thesis using ov ip bs by (simp add: generate_buffers_def Let_def)
qed

text \<open>
  C14. The allocator never hands a solver a list it rejects: on a graph in single-assignment
  form whose admitted buffers have a device layout, the generation of the buffers returns
  (no KeyError, IndexError or failed assertion), the buffers satisfy the solvers' input
  contract, every declared in-place pair passes \<open>_check_in_place_relationships\<close> (one handoff
  tick, a parent that is read, sizes that fit), and none has an address yet.
\<close>

theorem generate_buffers_accepted:
  assumes "ssa_graph g" "mem_usage_ok g mu" "admitted_sized g mu reasons" "\<forall>l. 0 \<le> db l"
    and "\<forall>p \<in> set plans. plan_source_name p \<in> fst ` set mu"
  shows "\<exists>bufs. generate_buffers g db mu reasons ir ncores plans = Inr bufs \<and> solver_input bufs
    \<and> check_in_place_relationships bufs = Inr () \<and> (\<forall>b \<in> set bufs. buf_address b = None)"
proof -
  obtain bufs where b: "generate_buffers g db mu reasons ir ncores plans = Inr bufs"
    using generate_buffers_total [OF assms] by blast
  from generate_buffers_generated [OF assms(1,2,4) b] obtain ov mu' where
    g: "counted_loop_lifetime_overrides g = Inr ov" "mem_usage_ok g mu'" "distinct (map buf_name bufs)"
      "\<forall>b \<in> set bufs. generated g mu' db ncores ov b" by blast
  have "\<forall>b \<in> set bufs. buf_address b = None" using g(4) by (simp add: generated_def)
  then show ?thesis using b generated_accepted [OF assms(1) g(1,2) assms(4) g(3,4)] by blast
qed

definition demo_usage :: mem_usage where
  "demo_usage = map (\<lambda>n. (n, \<lparr>size_per_core = 256, core_div_mismatch = False, op_inputs = [''v'', ''t'', ''x'']\<rparr>))
     [''w'', ''t'', ''u'', ''v'', ''y'']"

theorem generate_buffers_accepted_witness:
  "\<exists>bufs. generate_buffers demo_loop (\<lambda>_. 256) demo_usage (\<lambda>_. None) (\<lambda>_ _. None) (\<lambda>_. Some 1) [] = Inr bufs
     \<and> solver_input bufs \<and> check_in_place_relationships bufs = Inr ()"
proof -
  have "ssa_graph demo_loop" "mem_usage_ok demo_loop demo_usage" "admitted_sized demo_loop demo_usage (\<lambda>_. None)"
    by code_simp+
  from generate_buffers_accepted [OF this, of "\<lambda>_. 256" "[]"] show ?thesis by fastforce
qed

section \<open>Relayout groups\<close>

text \<open>A buffer with a lifetime that the constructor would accept.\<close>

definition lifetime_ok :: "LifetimeBoundBuffer \<Rightarrow> bool" where
  "lifetime_ok b \<longleftrightarrow> buf_uses b \<noteq> [] \<and> buffer_post_init b = Inr ()"

lemma lifetime_ok_iff:
  "lifetime_ok b \<longleftrightarrow> buf_uses b \<noteq> [] \<and> sorted_wrt (<) (buf_uses b)
     \<and> (\<forall>v. lifetime_start_override b = Some v \<longrightarrow> v \<le> hd (buf_uses b))
     \<and> (\<forall>v. lifetime_end_override b = Some v \<longrightarrow> last (buf_uses b) + 1 \<le> v)"
proof -
  have "sorted_wrt (<) xs \<longleftrightarrow> list_all (\<lambda>(a, c). a < (c::int)) (zip xs (drop 1 xs))" for xs
    using uses_sorted sorted_pairs by blast
  then show ?thesis
    by (auto simp: lifetime_ok_def buffer_post_init_def split: option.splits)
qed

lemma lifetime_ok_live:
  assumes "lifetime_ok b" "t \<in> set (buf_uses b)"
  shows "start_time b \<le> t" "t < end_time b"
proof -
  have s: "sorted_wrt (<) (buf_uses b)" using assms(1) by (simp add: lifetime_ok_iff)
  show "start_time b \<le> t" "t < end_time b"
    using hd_least [OF s assms(2)] last_greatest [OF s assms(2)]
    by (auto simp: start_time_def end_time_def Let_def split: option.splits)
qed

lemma lifetime_ok_half: "lifetime_ok b \<Longrightarrow> lifetime_ok (half_ticks b)"
  unfolding lifetime_ok_iff
  by (auto simp: half_ticks_def sorted_wrt_map hd_map last_map elim: sorted_wrt_mono_rel [rotated])

text \<open>The ticks of a plan are uses of its source, in the original numbering.\<close>

definition ticks_of :: "LifetimeBoundBuffer \<Rightarrow> int list \<Rightarrow> bool" where
  "ticks_of s ticks \<longleftrightarrow> (\<forall>t \<in> set ticks. 2 * t + 1 \<in> set (buf_uses s))"

text \<open>A transfer tick lies within the bounds of the source.\<close>

definition tick_within :: "LifetimeBoundBuffer \<Rightarrow> int \<Rightarrow> bool" where
  "tick_within s t \<longleftrightarrow> (\<forall>v. lifetime_start_override s = Some v \<longrightarrow> v \<le> t)
     \<and> (\<forall>v. lifetime_end_override s = Some v \<longrightarrow> t + 1 \<le> v)"

lemma relayout_destination_spec:
  assumes "relayout_destination s st en (plan, ticks) = Inr (s', d, t)" "lifetime_ok s"
    and "tick_within s t"
  shows "lifetime_ok s'" "lifetime_ok d" "t \<in> set (buf_uses s')" "t \<in> set (buf_uses d)" "even t"
    and "\<forall>u \<in> set (buf_uses s). even u \<longrightarrow> u \<in> set (buf_uses s')"
    and "destination_name plan = Inr (buf_name d)" "in_place_parents d = []"
    and "\<exists>us. s' = s\<lparr>buf_uses := us, paired_with := paired_with s @ [buf_name d]\<rparr>"
    and "0 \<le> plan_destination_footprint plan \<Longrightarrow> 0 \<le> buf_size s \<Longrightarrow> 0 \<le> buf_size d"
    and "core_divisions d = []" "lx_relayout_plans d = []" "\<not> first_use_is_read d" "ticks \<noteq> []" "t = 2 * hd ticks"
proof -
  let ?us = "sort (remdups (filter (\<lambda>u. u \<notin> (\<lambda>t. 2 * t + 1) ` set ticks) (buf_uses s) @ [t]))"
  from assms(1) have ne: "ticks \<noteq> []" and t: "t = 2 * hd ticks" and dn: "destination_name plan = Inr (buf_name d)"
    and s': "s' = s\<lparr>buf_uses := ?us, paired_with := paired_with s @ [buf_name d]\<rparr>"
    and d: "buf_uses d = t # map (\<lambda>t. 2 * t + 1) ticks" "buffer_post_init d = Inr ()" "in_place_parents d = []"
      "core_divisions d = []" "lx_relayout_plans d = []" "\<not> first_use_is_read d"
    and sz: "buf_size d = round_up (if plan_destination_footprint plan \<noteq> 0 then plan_destination_footprint plan
                  else buf_size s) LX_ALLOCATION_GRANULARITY_BYTES"
    by (auto simp: relayout_destination_def Let_def hd_map split: if_splits)
  show "ticks \<noteq> []" "t = 2 * hd ticks" "even t" "destination_name plan = Inr (buf_name d)" "in_place_parents d = []"
    "core_divisions d = []" "lx_relayout_plans d = []" "\<not> first_use_is_read d"
    using ne t dn d by simp_all
  show "\<exists>us. s' = s\<lparr>buf_uses := us, paired_with := paired_with s @ [buf_name d]\<rparr>" using s' by blast
  show "lifetime_ok d" using d by (simp add: lifetime_ok_def)
  show "t \<in> set (buf_uses s')" "t \<in> set (buf_uses d)" using s' d by simp_all
  show "\<forall>u \<in> set (buf_uses s). even u \<longrightarrow> u \<in> set (buf_uses s')" using s' by auto
  show "0 \<le> buf_size d" if "0 \<le> plan_destination_footprint plan" "0 \<le> buf_size s"
    using that round_up_ge [of LX_ALLOCATION_GRANULARITY_BYTES]
    unfolding sz LX_ALLOCATION_GRANULARITY_BYTES_def by (smt (verit))
  have tu: "t \<in> set ?us" by simp
  then have u: "set ?us \<subseteq> insert t (set (buf_uses s))" "?us \<noteq> []" "sorted_wrt (<) ?us"
    by (auto simp: strict_sorted_iff simp del: sort_key_simps) (metis empty_iff empty_set tu)
  have hl: "hd ?us \<in> insert t (set (buf_uses s))" "last ?us \<in> insert t (set (buf_uses s))"
    using u(1,2) hd_in_set last_in_set by blast+
  have s: "sorted_wrt (<) (buf_uses s)" using assms(2) by (simp add: lifetime_ok_iff)
  have "v \<le> hd ?us" if "lifetime_start_override s = Some v" for v
    using hl(1) hd_least [OF s] assms(2,3) that unfolding lifetime_ok_iff tick_within_def by force
  moreover have "last ?us + 1 \<le> v" if "lifetime_end_override s = Some v" for v
    using hl(2) last_greatest [OF s] assms(2,3) that unfolding lifetime_ok_iff tick_within_def by force
  ultimately show "lifetime_ok s'" using u(2,3) unfolding lifetime_ok_iff s' by simp
qed

text \<open>What one group of buffers is: the destinations of a source, then the source.\<close>

definition relayout_group :: "LifetimeBoundBuffer \<Rightarrow> LXRelayoutPlan list \<Rightarrow> LifetimeBoundBuffer list \<Rightarrow> LifetimeBoundBuffer \<Rightarrow> bool" where
  "relayout_group s plans ds s' \<longleftrightarrow>
     lifetime_ok s' \<and> buf_name s' = buf_name s \<and> buf_size s' = buf_size s
     \<and> in_place_parents s' = in_place_parents s \<and> core_divisions s' = core_divisions s
     \<and> first_use_is_read s' = first_use_is_read s \<and> lx_relayout_plans s' = lx_relayout_plans s
     \<and> set (map buf_name ds) \<subseteq> set (paired_with s')
     \<and> list_all2 (\<lambda>plan d. destination_name plan = Inr (buf_name d)) plans ds
     \<and> list_all (\<lambda>d. lifetime_ok d \<and> in_place_parents d = [] \<and> core_divisions d = [] \<and> lx_relayout_plans d = []
          \<and> \<not> first_use_is_read d \<and> (\<exists>t. even t \<and> t \<in> set (buf_uses s') \<and> t \<in> set (buf_uses d))) ds"

lemma relayout_destinations_group:
  assumes "relayout_destinations s st en es = Inr (s', ds, ts)" "lifetime_ok s"
    and "\<forall>(plan, ticks) \<in> set es. ticks \<noteq> [] \<longrightarrow> tick_within s (2 * hd ticks)"
  shows "relayout_group s (map fst es) ds s' \<and> (\<forall>u \<in> set (buf_uses s). even u \<longrightarrow> u \<in> set (buf_uses s'))
    \<and> set (paired_with s) \<subseteq> set (paired_with s')
    \<and> (0 \<le> buf_size s \<longrightarrow> (\<forall>(plan, _) \<in> set es. 0 \<le> plan_destination_footprint plan) \<longrightarrow> (\<forall>d \<in> set ds. 0 \<le> buf_size d))"
  using assms
proof (induction es arbitrary: s ds ts)
  case Nil
  then show ?case by (simp add: relayout_group_def)
next
  case (Cons e es)
  obtain plan ticks where e: "e = (plan, ticks)" by (cases e)
  from Cons.prems(1) obtain s1 d t ds' ts' where 1: "relayout_destination s st en (plan, ticks) = Inr (s1, d, t)"
    and 2: "relayout_destinations s1 st en es = Inr (s', ds', ts')" and ds: "ds = d # ds'"
    by (auto simp: e)
  have "ticks \<noteq> []" "t = 2 * hd ticks"
    using 1 by (auto simp: relayout_destination_def Let_def hd_map split: if_splits)
  then have tw: "tick_within s t" using Cons.prems(3) by (simp add: e)
  note D = relayout_destination_spec [OF 1 Cons.prems(2) tw]
  from D(9) obtain us where s1: "s1 = s\<lparr>buf_uses := us, paired_with := paired_with s @ [buf_name d]\<rparr>" by blast
  have "\<forall>(plan, ticks) \<in> set es. ticks \<noteq> [] \<longrightarrow> tick_within s1 (2 * hd ticks)"
    using Cons.prems(3) by (auto simp: tick_within_def s1)
  note IH = Cons.IH [OF 2 D(1) this]
  then have "t \<in> set (buf_uses s')" "buf_name d \<in> set (paired_with s')" using D(3,5) s1 by auto
  then have "relayout_group s (plan # map fst es) (d # ds') s'"
    using IH D(2,4,5,7,8,11,12,13) unfolding relayout_group_def by (auto simp: s1)
  moreover have "\<forall>u \<in> set (buf_uses s). even u \<longrightarrow> u \<in> set (buf_uses s')" using IH D(6) by blast
  moreover have "set (paired_with s) \<subseteq> set (paired_with s')" using IH s1 by auto
  ultimately show ?case using IH D(10) s1 by (auto simp: ds e)
qed

lemma drop_overrides_group:
  "relayout_group s plans ds s' \<Longrightarrow>
   relayout_group s plans ds (s'\<lparr>lifetime_start_override := None, lifetime_end_override := None\<rparr>)"
  by (simp add: relayout_group_def lifetime_ok_iff)

lemma split_source_group:
  assumes "split_source s es = Inr grp" "lifetime_ok s" "0 \<le> buf_size s"
    and "\<forall>(plan, ticks) \<in> set es. (ticks \<noteq> [] \<longrightarrow> tick_within s (2 * hd ticks)) \<and> 0 \<le> plan_destination_footprint plan"
  shows "\<exists>ds s'. grp = ds @ [s'] \<and> relayout_group s (map fst es) ds s' \<and> (\<forall>d \<in> set ds. 0 \<le> buf_size d)"
proof (cases "es = []")
  case True
  then show ?thesis using assms(1,2) by (auto simp: split_source_def relayout_group_def)
next
  case False
  from assms(1) False obtain s1 ds ts where
    r: "relayout_destinations s (lifetime_start_override s) (lifetime_end_override s) es = Inr (s1, ds, ts)"
    and grp: "grp = ds @ [s1] \<or> grp = ds @ [s1\<lparr>lifetime_start_override := None, lifetime_end_override := None\<rparr>]"
    by (auto simp: split_source_def split: if_splits)
  have "relayout_group s (map fst es) ds s1 \<and> (\<forall>d \<in> set ds. 0 \<le> buf_size d)"
    using relayout_destinations_group [OF r assms(2)] assms(3,4) by fastforce
  then show ?thesis using grp drop_overrides_group by blast
qed

text \<open>How the group that replaces a buffer relates to it.\<close>

definition group_of :: "LifetimeBoundBuffer \<Rightarrow> LifetimeBoundBuffer list \<Rightarrow> bool" where
  "group_of b grp \<longleftrightarrow> (\<exists>s ds s'. grp = ds @ [s'] \<and> relayout_group s (lx_relayout_plans s') ds s'
     \<and> buf_name s = buf_name b \<and> buf_size s = buf_size b \<and> core_divisions s = core_divisions b
     \<and> first_use_is_read s = first_use_is_read b \<and> set (in_place_parents s) \<subseteq> set (in_place_parents b)
     \<and> (lx_relayout_plans s' = [] \<or> lx_relayout_plans s' = lx_relayout_plans b) \<and> (\<forall>d \<in> set ds. 0 \<le> buf_size d))"

lemma plan_ticks_spec:
  assumes "traverse (plan_ticks g b) ps = Inr es"
  shows "map fst es = ps" "\<forall>(p, tk) \<in> set es. p \<in> set ps \<and> set tk \<subseteq> set (buf_uses b)"
proof -
  have "map fst es = ps \<and> (\<forall>(p, tk) \<in> set es. p \<in> set ps \<and> set tk \<subseteq> set (buf_uses b))"
    using assms
    by (induction ps arbitrary: es) (fastforce simp: plan_ticks_def list_all_iff)+
  then show "map fst es = ps" "\<forall>(p, tk) \<in> set es. p \<in> set ps \<and> set tk \<subseteq> set (buf_uses b)" by blast+
qed

lemma half_tick_within:
  assumes "lifetime_ok b" "tk \<noteq> []" "set tk \<subseteq> set (buf_uses b)"
    and "lifetime_start_override c = lifetime_start_override b" "lifetime_end_override c = lifetime_end_override b"
  shows "tick_within (half_ticks c) (2 * hd tk)"
proof -
  have s: "sorted_wrt (<) (buf_uses b)" using assms(1) by (simp add: lifetime_ok_iff)
  have m: "hd tk \<in> set (buf_uses b)" using assms(2,3) by auto
  have "hd (buf_uses b) \<le> hd tk" "hd tk \<le> last (buf_uses b)"
    using hd_least [OF s m] last_greatest [OF s m] by simp_all
  moreover have "\<forall>v. lifetime_start_override b = Some v \<longrightarrow> v \<le> hd (buf_uses b)"
    "\<forall>v. lifetime_end_override b = Some v \<longrightarrow> last (buf_uses b) + 1 \<le> v"
    using assms(1) unfolding lifetime_ok_iff by blast+
  ultimately show ?thesis unfolding tick_within_def half_ticks_def by (force simp: assms(4,5))
qed

text \<open>The bookkeeping before the split: which plans survive, and on which buffers.\<close>

lemma surviving_plans:
  assumes "\<forall>b \<in> set bufs. \<forall>p \<in> set (lx_relayout_plans b). plan_source_name p = buf_name b"
    and "b \<in> set bufs" "map fst es = lx_relayout_plans b"
  shows "map fst (if residency_reason b \<noteq> None \<or> buf_name b \<in> set (invalid_sources bufs) then [] else es)
    = (if buf_name b \<in> set (invalid_sources bufs) then [] else lx_relayout_plans b)"
proof (cases "residency_reason b = None \<or> buf_name b \<in> set (invalid_sources bufs)")
  case True
  then show ?thesis using assms(3) by auto
next
  case False
  have "lx_relayout_plans b = []"
  proof (rule ccontr)
    assume "lx_relayout_plans b \<noteq> []"
    then obtain p where p: "p \<in> set (lx_relayout_plans b)" by (meson ex_in_conv set_empty)
    then have "plan_source_name p \<in> set (invalid_sources bufs)"
      using assms(2) False unfolding invalid_sources_def by auto
    then show False using False p assms(1,2) by metis
  qed
  then show ?thesis using False by simp
qed

lemma group_of_split:
  assumes "lifetime_ok b" "0 \<le> buf_size b" "\<forall>p \<in> set (lx_relayout_plans b). 0 \<le> plan_destination_footprint p"
    and "split_source (half_ticks (b\<lparr>lx_relayout_plans := ps, buf_address := a, in_place_parents := qs\<rparr>)) es = Inr grp"
    and "map fst es = ps" "\<forall>(p, tk) \<in> set es. p \<in> set (lx_relayout_plans b) \<and> set tk \<subseteq> set (buf_uses b)"
    and "set qs \<subseteq> set (in_place_parents b)" "ps = [] \<or> ps = lx_relayout_plans b"
  shows "group_of b grp"
proof -
  let ?c = "b\<lparr>lx_relayout_plans := ps, buf_address := a, in_place_parents := qs\<rparr>"
  have "lifetime_ok ?c" using assms(1) by (simp add: lifetime_ok_iff)
  then have ok: "lifetime_ok (half_ticks ?c)" by (rule lifetime_ok_half)
  have "\<forall>(plan, ticks) \<in> set es. (ticks \<noteq> [] \<longrightarrow> tick_within (half_ticks ?c) (2 * hd ticks))
      \<and> 0 \<le> plan_destination_footprint plan"
    using assms(3,6) half_tick_within [OF assms(1), of _ ?c] by fastforce
  then obtain ds s' where "grp = ds @ [s']" "relayout_group (half_ticks ?c) ps ds s'" "\<forall>d \<in> set ds. 0 \<le> buf_size d"
    using split_source_group [OF assms(4) ok] assms(2,5) by (auto simp: half_ticks_def)
  moreover from this(2) have "lx_relayout_plans s' = ps" by (simp add: relayout_group_def half_ticks_def)
  ultimately show ?thesis unfolding group_of_def using assms(7,8)
    by (intro exI [of _ "half_ticks ?c"] exI [of _ ds] exI [of _ s']) (simp add: half_ticks_def)
qed

text \<open>What the relayout pass assumes of the buffers it is given.\<close>

definition relayout_ready :: "LifetimeBoundBuffer list \<Rightarrow> bool" where
  "relayout_ready bufs \<longleftrightarrow> solver_input bufs \<and> (\<forall>b \<in> set bufs. \<forall>p \<in> set (lx_relayout_plans b).
     plan_source_name p = buf_name b \<and> 0 \<le> plan_destination_footprint p)"

lemma clear_groups_Inr:
  assumes "(if invalid = [] then Inr bufs else clear_lx_relayout_groups bufs invalid) = Inr bufs1"
  obtains f where "bufs1 = map (\<lambda>b. b\<lparr>lx_relayout_plans := (if buf_name b \<in> set invalid then [] else lx_relayout_plans b),
      buf_address := f b\<rparr>) bufs"
proof (cases "invalid = []")
  case True
  then show ?thesis using assms that [of buf_address] by simp
next
  case False
  with assms obtain dests where "bufs1 = map (\<lambda>b. b\<lparr>lx_relayout_plans := (if buf_name b \<in> set invalid then []
      else lx_relayout_plans b), buf_address := (\<lambda>b. if buf_name b \<in> set (invalid @ concat dests) then None
      else buf_address b) b\<rparr>) bufs" by (auto simp: clear_lx_relayout_groups_def)
  then show ?thesis by (rule that)
qed

lemma append_groups:
  assumes "append_lx_relayout_destinations g bufs = Inr out" "relayout_ready bufs"
  obtains groups where "out = concat groups" "list_all2 group_of bufs groups"
proof -
  let ?inv = "invalid_sources bufs"
  from assms(1) obtain ticks bufs1 where
    tr: "traverse (\<lambda>b. traverse (plan_ticks g b) (lx_relayout_plans b)) bufs = Inr ticks"
    and cl: "(if ?inv = [] then Inr bufs else clear_lx_relayout_groups bufs ?inv) = Inr bufs1"
    by (auto simp: append_lx_relayout_destinations_def Let_def)
  define entries where "entries = plan_entries bufs ticks"
  define sources where "sources = planned_sources bufs entries"
  from cl obtain f where b1: "bufs1 = map (\<lambda>b. b\<lparr>lx_relayout_plans := (if buf_name b \<in> set ?inv then []
      else lx_relayout_plans b), buf_address := f b\<rparr>) bufs" by (rule clear_groups_Inr)
  define prep where "prep = (\<lambda>b. b\<lparr>lx_relayout_plans := (if buf_name b \<in> set ?inv then [] else lx_relayout_plans b),
      buf_address := f b, in_place_parents := filter (\<lambda>p. p \<notin> set sources) (in_place_parents b)\<rparr>)"
  have "map (drop_parents sources) bufs1 = map prep bufs"
    by (simp add: b1 prep_def drop_parents_def)
  then have out: "(if sources = [] then Inr (map prep bufs)
      else rbind (traverse (\<lambda>(b, es). split_source b es) (zip (map half_ticks (map prep bufs)) entries))
        (\<lambda>groups. Inr (concat groups))) = Inr out"
    using assms(1) tr cl unfolding append_lx_relayout_destinations_def Let_def
    by (simp only: rbind_simps flip: entries_def sources_def)
  have tk: "length ticks = length bufs"
    "\<And>i. i < length bufs \<Longrightarrow> traverse (plan_ticks g (bufs ! i)) (lx_relayout_plans (bufs ! i)) = Inr (ticks ! i)"
    using tr by (auto simp: traverse_Inr list_all2_conv_all_nth)
  have len: "length entries = length bufs" by (simp add: entries_def plan_entries_def tk(1))
  have own: "\<forall>b \<in> set bufs. \<forall>p \<in> set (lx_relayout_plans b). plan_source_name p = buf_name b"
    using assms(2) by (simp add: relayout_ready_def)
  have ent: "map fst (entries ! i) = lx_relayout_plans (prep (bufs ! i))"
    "\<forall>(p, t) \<in> set (entries ! i). p \<in> set (lx_relayout_plans (bufs ! i)) \<and> set t \<subseteq> set (buf_uses (bufs ! i))"
    if i: "i < length bufs" for i
    using surviving_plans [OF own nth_mem [OF i]] plan_ticks_spec [OF tk(2) [OF i]] i tk(1)
    by (auto simp: entries_def plan_entries_def prep_def)
  have ok: "lifetime_ok (bufs ! i)" "0 \<le> buf_size (bufs ! i)"
    "\<forall>p \<in> set (lx_relayout_plans (bufs ! i)). 0 \<le> plan_destination_footprint p" if i: "i < length bufs" for i
    using assms(2) nth_mem [OF i] by (auto simp: relayout_ready_def solver_input_def list_all_iff lifetime_ok_def)
  have pl: "lx_relayout_plans (prep b) = [] \<or> lx_relayout_plans (prep b) = lx_relayout_plans b" for b
    by (simp add: prep_def)
  show ?thesis
  proof (cases "sources = []")
    case True
    have "group_of (bufs ! i) [prep (bufs ! i)]" if i: "i < length bufs" for i
    proof -
      have "entries ! i = []"
      proof (rule ccontr)
        assume "entries ! i \<noteq> []"
        then have "(bufs ! i, entries ! i) \<in> set (filter (\<lambda>(b, es). es \<noteq> []) (zip bufs entries))"
          using i len in_set_zip by fastforce
        then show False
          using True unfolding sources_def planned_sources_def by (simp only: map_is_Nil_conv list.set(1) empty_iff)
      qed
      then have "lx_relayout_plans (prep (bufs ! i)) = []" using ent(1) [OF i] by simp
      moreover have "lifetime_ok (prep (bufs ! i))" using ok(1) [OF i] by (simp add: lifetime_ok_iff prep_def)
      ultimately have "relayout_group (prep (bufs ! i)) [] [] (prep (bufs ! i))" by (simp add: relayout_group_def)
      then show ?thesis unfolding group_of_def using \<open>lx_relayout_plans (prep (bufs ! i)) = []\<close>
        by (rule_tac x = "prep (bufs ! i)" in exI, rule_tac x = "[]" in exI, rule_tac x = "prep (bufs ! i)" in exI)
          (simp, simp add: prep_def)
    qed
    then have "list_all2 group_of bufs (map (\<lambda>b. [prep b]) bufs)" by (simp add: list_all2_conv_all_nth)
    moreover have "out = concat (map (\<lambda>b. [prep b]) bufs)" using out True by simp
    ultimately show ?thesis using that by blast
  next
    case False
    then obtain groups where o: "out = concat groups"
      and sp: "list_all2 (\<lambda>x y. (case x of (b, es) \<Rightarrow> split_source b es) = Inr y)
        (zip (map half_ticks (map prep bufs)) entries) groups"
      using out by (auto simp: traverse_Inr)
    have "group_of (bufs ! i) (groups ! i)" if i: "i < length bufs" for i
    proof -
      have "split_source (half_ticks (prep (bufs ! i))) (entries ! i) = Inr (groups ! i)"
        using list_all2_nthD [OF sp, of i] i len by simp
      then show ?thesis
        using group_of_split [OF ok [OF i], of _ "f (bufs ! i)"] ent [OF i] pl [of "bufs ! i"]
        by (simp add: prep_def)
    qed
    moreover have "length groups = length bufs" using list_all2_lengthD [OF sp] len by simp
    ultimately have "list_all2 group_of bufs groups" by (simp add: list_all2_conv_all_nth)
    then show ?thesis using o that by blast
  qed
qed

definition dest_name_of :: "LXRelayoutPlan \<Rightarrow> string" where
  "dest_name_of plan = (case destination_name plan of Inr n \<Rightarrow> n | Inl _ \<Rightarrow> [])"

definition group_names :: "LifetimeBoundBuffer \<Rightarrow> string list" where
  "group_names b = map dest_name_of (lx_relayout_plans b) @ [buf_name b]"

lemma group_of_names:
  assumes "group_of b grp"
  shows "\<exists>ps. (ps = [] \<or> ps = lx_relayout_plans b) \<and> map buf_name grp = map dest_name_of ps @ [buf_name b]"
proof -
  from assms obtain s ds s' where g: "grp = ds @ [s']" "relayout_group s (lx_relayout_plans s') ds s'"
    "buf_name s = buf_name b" "lx_relayout_plans s' = [] \<or> lx_relayout_plans s' = lx_relayout_plans b"
    by (auto simp: group_of_def)
  have "list_all2 (\<lambda>plan d. destination_name plan = Inr (buf_name d)) (lx_relayout_plans s') ds"
    using g(2) unfolding relayout_group_def by (elim conjE)
  then have "map dest_name_of (lx_relayout_plans s') = map buf_name ds"
    by (induction rule: list_all2_induct) (simp_all add: dest_name_of_def)
  then show ?thesis using g by (auto simp: relayout_group_def)
qed

lemma groups_distinct:
  "list_all2 group_of bufs groups \<Longrightarrow> distinct (concat (map group_names bufs)) \<Longrightarrow>
   distinct (map buf_name (concat groups)) \<and> set (map buf_name (concat groups)) \<subseteq> set (concat (map group_names bufs))"
proof (induction rule: list_all2_induct)
  case (Cons b bs grp grps)
  from group_of_names [OF Cons(1)] obtain ps where ps: "ps = [] \<or> ps = lx_relayout_plans b"
    "map buf_name grp = map dest_name_of ps @ [buf_name b]" by blast
  have "distinct (map buf_name grp) \<and> set (map buf_name grp) \<subseteq> set (group_names b)"
    using ps(1) Cons(4) unfolding ps(2) by (auto simp: group_names_def)
  moreover have "distinct (map buf_name (concat grps))
      \<and> set (map buf_name (concat grps)) \<subseteq> set (concat (map group_names bs))" using Cons(3,4) by simp
  moreover have "set (group_names b) \<inter> set (concat (map group_names bs)) = {}" using Cons(4) by simp
  ultimately show ?case unfolding concat.simps list.map map_append distinct_append set_append by blast
qed simp

lemma group_of_member:
  assumes "group_of b grp" "c \<in> set grp" "solver_input [b]"
  shows "buf_uses c \<noteq> [] \<and> buffer_post_init c = Inr () \<and> 0 \<le> buf_size c \<and> core_divisions c = []
    \<and> (first_use_is_read c \<longrightarrow> in_place_parents c = []) \<and> set (in_place_parents c) \<subseteq> set (in_place_parents b)"
proof -
  from assms(1) obtain s ds s' where g: "grp = ds @ [s']" "relayout_group s (lx_relayout_plans s') ds s'"
    "buf_size s = buf_size b" "core_divisions s = core_divisions b" "first_use_is_read s = first_use_is_read b"
    "set (in_place_parents s) \<subseteq> set (in_place_parents b)" "\<forall>d \<in> set ds. 0 \<le> buf_size d"
    unfolding group_of_def by blast
  show ?thesis
  proof (cases "c = s'")
    case True
    then show ?thesis using g assms(3) by (auto simp: relayout_group_def solver_input_def lifetime_ok_def)
  next
    case False
    then have "c \<in> set ds" using g(1) assms(2) by simp
    then show ?thesis using g(2,7) unfolding relayout_group_def list_all_iff lifetime_ok_def by simp
  qed
qed

text \<open>
  A list of buffers with relayout groups, as the solver gets it: every plan of a source has
  its destination in the list, paired with the source and live at the transfer tick with it.
\<close>

definition groups_ready :: "LifetimeBoundBuffer list \<Rightarrow> bool" where
  "groups_ready out \<longleftrightarrow> (\<forall>s \<in> set out. \<forall>plan \<in> set (lx_relayout_plans s). \<exists>d \<in> set out.
     destination_name plan = Inr (buf_name d) \<and> buf_name d \<in> set (paired_with s) \<and> buf_name d \<noteq> buf_name s
     \<and> overlaps_in_time s d \<and> in_place_parents d = [] \<and> buf_name d \<notin> set (in_place_parents s))"

lemma group_of_pair:
  assumes "group_of b grp" "s \<in> set grp" "plan \<in> set (lx_relayout_plans s)"
  shows "\<exists>d \<in> set grp. destination_name plan = Inr (buf_name d) \<and> buf_name d \<in> set (paired_with s)
    \<and> overlaps_in_time s d \<and> in_place_parents d = [] \<and> buf_name s = buf_name b
    \<and> dest_name_of plan = buf_name d \<and> plan \<in> set (lx_relayout_plans b) \<and> set (in_place_parents s) \<subseteq> set (in_place_parents b)"
proof -
  from assms(1) obtain s0 ds s' where g: "grp = ds @ [s']" "relayout_group s0 (lx_relayout_plans s') ds s'"
    "buf_name s0 = buf_name b" "lx_relayout_plans s' = [] \<or> lx_relayout_plans s' = lx_relayout_plans b"
    "set (in_place_parents s0) \<subseteq> set (in_place_parents b)"
    by (auto simp: group_of_def)
  have "\<forall>d \<in> set ds. lx_relayout_plans d = []" using g(2) by (simp add: relayout_group_def list_all_iff)
  then have s: "s = s'" using assms(2,3) g(1) by auto
  have "list_all2 (\<lambda>plan d. destination_name plan = Inr (buf_name d)) (lx_relayout_plans s') ds"
    using g(2) unfolding relayout_group_def by (elim conjE)
  note l = this
  from assms(3) s obtain i where i: "i < length (lx_relayout_plans s')" "lx_relayout_plans s' ! i = plan"
    by (auto simp: in_set_conv_nth)
  define d where "d = ds ! i"
  have d: "d \<in> set ds" "destination_name plan = Inr (buf_name d)"
    using list_all2_nthD [OF l i(1)] list_all2_lengthD [OF l] i by (simp_all add: d_def)
  obtain t where t: "t \<in> set (buf_uses s')" "t \<in> set (buf_uses d)" and ok: "lifetime_ok d" "lifetime_ok s'"
    and e: "in_place_parents d = []" "buf_name d \<in> set (paired_with s')" "buf_name s' = buf_name b"
      "in_place_parents s' = in_place_parents s0"
    using g(2,3) d(1) unfolding relayout_group_def list_all_iff by auto
  have "overlaps_in_time s' d"
    using lifetime_ok_live [OF ok(2) t(1)] lifetime_ok_live [OF ok(1) t(2)] by (simp add: overlaps_in_time_def)
  then show ?thesis using d e s assms(3) g(1,4,5) by (auto simp: dest_name_of_def)
qed

lemma append_ready:
  assumes "append_lx_relayout_destinations g bufs = Inr out" "relayout_ready bufs"
    and "distinct (concat (map group_names bufs))"
    and "\<forall>b \<in> set bufs. \<forall>p \<in> set (lx_relayout_plans b). dest_name_of p \<notin> set (in_place_parents b)"
  shows "solver_input out" "groups_ready out"
proof -
  from append_groups [OF assms(1,2)] obtain groups where o: "out = concat groups"
    and gs: "list_all2 group_of bufs groups" by blast
  have one: "solver_input [b]" if "b \<in> set bufs" for b
    using assms(2) that by (auto simp: relayout_ready_def solver_input_def list_all_iff)
  have mem: "\<exists>b grp. b \<in> set bufs \<and> grp \<in> set groups \<and> group_of b grp \<and> c \<in> set grp" if "c \<in> set out" for c
  proof -
    from that obtain grp where "grp \<in> set groups" "c \<in> set grp" unfolding o by auto
    then obtain i where i: "i < length groups" "c \<in> set (groups ! i)" by (metis in_set_conv_nth)
    then show ?thesis using list_all2_nthD2 [OF gs i(1)] list_all2_lengthD [OF gs] by (metis nth_mem)
  qed
  show "solver_input out"
    unfolding solver_input_def list_all_iff
  proof (rule conjI, use groups_distinct [OF gs assms(3)] in \<open>simp add: o\<close>, rule ballI)
    fix c assume "c \<in> set out"
    from mem [OF this] group_of_member one show "buf_uses c \<noteq> [] \<and> buffer_post_init c = Inr () \<and> 0 \<le> buf_size c
      \<and> core_divisions c = [] \<and> (first_use_is_read c \<longrightarrow> in_place_parents c = [])" by meson
  qed
  show "groups_ready out"
    unfolding groups_ready_def
  proof (intro ballI)
    fix s plan assume s: "s \<in> set out" and plan: "plan \<in> set (lx_relayout_plans s)"
    from mem [OF s] obtain b grp where bg: "b \<in> set bufs" "grp \<in> set groups" "group_of b grp" "s \<in> set grp" by blast
    from group_of_pair [OF bg(3,4) plan] obtain d where d: "d \<in> set grp" "destination_name plan = Inr (buf_name d)"
      "buf_name d \<in> set (paired_with s)" "overlaps_in_time s d" "in_place_parents d = []" "buf_name s = buf_name b"
      "dest_name_of plan = buf_name d" "plan \<in> set (lx_relayout_plans b)"
      "set (in_place_parents s) \<subseteq> set (in_place_parents b)" by blast
    have "distinct (group_names b)" using assms(3) bg(1) by (simp add: distinct_concat_iff)
    then have "buf_name b \<notin> dest_name_of ` set (lx_relayout_plans b)" by (simp add: group_names_def)
    then have "buf_name d \<noteq> buf_name s" using d(6-8) by (metis imageI)
    moreover have "buf_name d \<notin> set (in_place_parents s)" using assms(4) bg(1) d(7-9) by (metis subsetD)
    ultimately show "\<exists>d \<in> set out. destination_name plan = Inr (buf_name d) \<and> buf_name d \<in> set (paired_with s)
        \<and> buf_name d \<noteq> buf_name s \<and> overlaps_in_time s d \<and> in_place_parents d = [] \<and> buf_name d \<notin> set (in_place_parents s)"
      using d(1-5) bg(2) unfolding o by (intro bexI [of _ d]) auto
  qed
qed

text \<open>
  A solver that places a group together, keeps the fields it is not to write, and returns a
  safe layout satisfies the two assertions on relayout groups.
\<close>

lemma group_complete_ok:
  assumes "distinct (map buf_name out)" "groups_ready bufs" "map erase_plan out = map erase_plan bufs"
    and "safe_layout limit al out"
    and "\<And>b c. b \<in> set out \<Longrightarrow> c \<in> set out \<Longrightarrow> buf_name c \<in> set (paired_with b) \<Longrightarrow>
           buf_address b = None \<longleftrightarrow> buf_address c = None"
    and "s \<in> set out"
  shows "group_complete out s = Inr (buf_address s \<noteq> None)"
proof -
  have sets: "erase_plan ` set out = erase_plan ` set bufs" using arg_cong [OF assms(3), of set] by simp
  have img: "\<exists>c' \<in> set out. erase_plan c' = erase_plan c" if "c \<in> set bufs" for c
    using sets that by (metis imageE imageI)
  obtain s0 where s0: "s0 \<in> set bufs" "erase_plan s0 = erase_plan s"
    using sets assms(6) by (metis imageE imageI)
  have eq: "lx_relayout_plans x = lx_relayout_plans y \<and> paired_with x = paired_with y \<and> buf_name x = buf_name y
      \<and> in_place_parents x = in_place_parents y \<and> start_time x = start_time y \<and> end_time x = end_time y"
    if "erase_plan x = erase_plan y" for x y
    using that by (cases x, cases y) (simp add: erase_plan_def start_time_def end_time_def)
  have dest: "\<exists>d. destination_name plan = Inr (buf_name d) \<and> buf_by_name out (buf_name d) = Some d
      \<and> (buf_address s = None \<longleftrightarrow> buf_address d = None) \<and> addr_disjoint s d" if "plan \<in> set (lx_relayout_plans s)" for plan
  proof -
    have "plan \<in> set (lx_relayout_plans s0)" using that eq [OF s0(2)] by simp
    then obtain d0 where d0: "d0 \<in> set bufs" "destination_name plan = Inr (buf_name d0)"
      "buf_name d0 \<in> set (paired_with s0)" "buf_name d0 \<noteq> buf_name s0" "overlaps_in_time s0 d0"
      "in_place_parents d0 = []" "buf_name d0 \<notin> set (in_place_parents s0)"
      using assms(2) s0(1) unfolding groups_ready_def by blast
    from img [OF d0(1)] obtain d where d: "d \<in> set out" "erase_plan d = erase_plan d0" by blast
    note es = eq [OF s0(2)] and ed = eq [OF d(2)]
    have "addr_disjoint s d \<or> handed_over s d \<or> handed_over d s"
      using assms(4,6) d(1) d0(4,5) es ed by (simp add: safe_layout_def overlaps_in_time_def)
    then have "addr_disjoint s d" using es ed d0(6,7) by (simp add: handed_over_def)
    then show ?thesis
      using d0(2,3) ed es assms(5) [OF assms(6) d(1)] buf_by_name_eq [OF assms(1) d(1)] by (intro exI [of _ d]) simp
  qed
  have "\<exists>ds. traverse (\<lambda>plan. rbind (destination_name plan) (\<lambda>dn.
        case buf_by_name out dn of None \<Rightarrow> Inl KeyError | Some d \<Rightarrow> Inr d)) (lx_relayout_plans s) = Inr ds"
  proof (rule traverse_total, rule ballI)
    fix plan assume "plan \<in> set (lx_relayout_plans s)"
    from dest [OF this] obtain d where "destination_name plan = Inr (buf_name d)"
      "buf_by_name out (buf_name d) = Some d" by blast
    then show "\<exists>y. rbind (destination_name plan) (\<lambda>dn.
        case buf_by_name out dn of None \<Rightarrow> Inl KeyError | Some d \<Rightarrow> Inr d) = Inr y" by simp
  qed
  then obtain ds where ds: "traverse (\<lambda>plan. rbind (destination_name plan) (\<lambda>dn.
        case buf_by_name out dn of None \<Rightarrow> Inl KeyError | Some d \<Rightarrow> Inr d)) (lx_relayout_plans s) = Inr ds" ..
  have d: "(buf_address s = None \<longleftrightarrow> buf_address d = None) \<and> addr_disjoint s d" if dm: "d \<in> set ds" for d
  proof -
    from ds have l: "list_all2 (\<lambda>plan d. rbind (destination_name plan) (\<lambda>dn.
        case buf_by_name out dn of None \<Rightarrow> Inl KeyError | Some d \<Rightarrow> Inr d) = Inr d) (lx_relayout_plans s) ds"
      by (simp add: traverse_Inr)
    obtain i where i: "i < length ds" "ds ! i = d" using dm by (auto simp: in_set_conv_nth)
    have "lx_relayout_plans s ! i \<in> set (lx_relayout_plans s)" using i(1) list_all2_lengthD [OF l] by simp
    from dest [OF this] list_all2_nthD2 [OF l i(1)] i(2) show ?thesis by auto
  qed
  show ?thesis
  proof (cases "buf_address s")
    case None
    then show ?thesis using d by (auto simp: group_complete_def ds list_all_iff list_ex_iff and_then_unfold)
  next
    case (Some a)
    have "\<exists>da. buf_address x = Some da \<and> \<not> (a < da + buf_size x \<and> da < a + buf_size s)" if "x \<in> set ds" for x
      using d [OF that] Some by (auto simp: addr_disjoint_def ivl_disjoint_def)
    then show ?thesis using Some
      by (fastforce simp: group_complete_def ds list_all_iff list_ex_iff and_then_unfold)
  qed
qed

end
