(* ===== verification/Exhaustive_Search.thy ===== *)
theory Exhaustive_Search
  imports Gap_Solver Greedy_Solver
begin

text \<open>
  The joint search over core divisions and placements:
  \<^verbatim>\<open>src/torch_spyre/_inductor/scratchpad/exhaustive_search.py\<close>.  A depth-first walk sets the
  division of each buffer that has a choice, scores every complete choice with a fresh inner
  placement solver, and places the buffers once more under the cheapest one.

  The inner solver is a class parameter in the code and an argument here.  The dictionary
  \<open>chosen\<close> is a function on names: the code only looks names of the solve up, all of which it
  enters with the value 0.  \<open>math.inf\<close>, the score before the first leaf, is \<open>None\<close>.
\<close>

section \<open>Buffers with candidate divisions\<close>

text \<open>The fields a joint solver reads beside those of the base class.\<close>

record CoreDivisionBuffer =
  cdb_base :: LifetimeBoundBuffer
  cdb_parents :: "string list"
  cd_parent_matches :: "(string \<times> (nat \<times> nat) list) list"
  chosen_division :: "nat option"

type_synonym division_choice = "string \<Rightarrow> nat"

definition cdb_name :: "CoreDivisionBuffer \<Rightarrow> string" where
  "cdb_name b = buf_name (cdb_base b)"

definition candidates :: "CoreDivisionBuffer \<Rightarrow> CoreDivision list" where
  "candidates b = core_divisions (cdb_base b)"

text \<open>\<open>per_core_size\<close> of a division index: out of range and a zero part count raise.\<close>

definition per_core_size_at :: "CoreDivisionBuffer \<Rightarrow> nat \<Rightarrow> int result" where
  "per_core_size_at b ci =
     (if ci < length (candidates b) then
        (let cd = candidates b ! ci in
         if output_partition cd * output_tile_count (tiling cd) = 0 then Inl ZeroDivisionError
         else Inr (per_core_size (cdb_base b) cd))
      else Inl IndexError)"

definition cdb_by_name :: "CoreDivisionBuffer list \<Rightarrow> string \<Rightarrow> CoreDivisionBuffer option" where
  "cdb_by_name bufs n = find (\<lambda>b. cdb_name b = n) (rev bufs)"

section \<open>The solver class\<close>

definition exhaustive_caps :: Capabilities where
  "exhaustive_caps = \<lparr>chooses_core_divisions = True, supports_paired_buffers = False,
     decides_lx_relayouts = False, generates_divisions = False, chooses_tilings = False,
     tilings_from_menu = False, linear_cost_only = False\<rparr>"

text \<open>\<open>has_inner\<close>: the class was made by \<open>wrapping\<close>.\<close>

definition exhaustive_init :: "bool \<Rightarrow> CoreDivisionBuffer list \<Rightarrow> unit result" where
  "exhaustive_init has_inner bufs =
     and_then (raise_if (\<not> has_inner) (TypeError ''ExhaustiveSearchSolver needs an inner solver''))
       (solver_init exhaustive_caps (map cdb_base bufs))"

section \<open>One leaf of the search\<close>

definition children_by_parent ::
  "CoreDivisionBuffer list \<Rightarrow> string \<Rightarrow> (CoreDivisionBuffer \<times> (nat \<times> nat) list) list" where
  "children_by_parent bufs n =
     (if cdb_by_name bufs n = None then []
      else concat (map (\<lambda>child. map (\<lambda>p. (child, case map_of (cd_parent_matches child) p of None \<Rightarrow> [] | Some ps \<Rightarrow> ps))
                         (filter (\<lambda>p. p = n) (cdb_parents child))) bufs))"

definition search_residency_reason ::
  "CoreDivisionBuffer list \<Rightarrow> division_choice \<Rightarrow> CoreDivisionBuffer \<Rightarrow> nat \<Rightarrow> string option" where
  "search_residency_reason bufs chosen b ci =
     (case residency_reason (cdb_base b) of Some r \<Rightarrow> Some r
      | None \<Rightarrow>
          if list_ex (\<lambda>(child, pairs). \<not> list_ex (\<lambda>(producer_division, consumer_division).
                 producer_division = ci \<and> consumer_division = chosen (cdb_name child)) pairs)
               (children_by_parent bufs (cdb_name b))
          then Some ''core div mismatch'' else None)"

definition parent_fits ::
  "CoreDivisionBuffer list \<Rightarrow> division_choice \<Rightarrow> int \<Rightarrow> string \<Rightarrow> bool result" where
  "parent_fits bufs chosen b_per_core p_name =
     (case cdb_by_name bufs p_name of
        None \<Rightarrow> Inr True
      | Some p \<Rightarrow> rbind (per_core_size_at p (chosen p_name)) (\<lambda>p_per_core. Inr (b_per_core \<le> p_per_core)))"

definition valid_inplace_parents ::
  "CoreDivisionBuffer list \<Rightarrow> division_choice \<Rightarrow> CoreDivisionBuffer \<Rightarrow> nat \<Rightarrow> string list result" where
  "valid_inplace_parents bufs chosen b ci =
     rbind (per_core_size_at b ci) (\<lambda>b_per_core.
     rbind (traverse (\<lambda>p. rbind (parent_fits bufs chosen b_per_core p) (\<lambda>ok. Inr (p, ok)))
              (in_place_parents (cdb_base b))) (\<lambda>ps.
     Inr (map fst (filter snd ps))))"

text \<open>The plain buffer a leaf hands to the inner solver: the fields not listed keep their default.\<close>

definition temp_buf :: "LifetimeBoundBuffer \<Rightarrow> int \<Rightarrow> string list \<Rightarrow> string option \<Rightarrow> LifetimeBoundBuffer" where
  "temp_buf l sz parents reason =
     \<lparr>buf_name = buf_name l, buf_size = sz, buf_uses = buf_uses l,
      first_use_is_read = first_use_is_read l, buf_address = None, in_place_parents = parents,
      residency_reason = reason, untiled_bar = None,
      lifetime_start_override = lifetime_start_override l,
      lifetime_end_override = lifetime_end_override l, paired_with = [], spill_reason = None,
      core_divisions = [], lx_relayout_plans = []\<rparr>"

definition make_temp_buf ::
  "CoreDivisionBuffer list \<Rightarrow> division_choice \<Rightarrow> CoreDivisionBuffer \<Rightarrow> LifetimeBoundBuffer result" where
  "make_temp_buf bufs chosen b =
     (let ci = chosen (cdb_name b) in
      rbind (per_core_size_at b ci) (\<lambda>sz.
      rbind (valid_inplace_parents bufs chosen b ci) (\<lambda>parents.
      (let t = temp_buf (cdb_base b) sz parents (search_residency_reason bufs chosen b ci) in
       and_then (buffer_post_init t) (Inr t)))))"

definition make_temp_bufs ::
  "CoreDivisionBuffer list \<Rightarrow> division_choice \<Rightarrow> LifetimeBoundBuffer list result" where
  "make_temp_bufs bufs chosen = traverse (make_temp_buf bufs chosen) bufs"

type_synonym inner_solver = "int \<Rightarrow> int \<Rightarrow> LifetimeBoundBuffer list \<Rightarrow> LifetimeBoundBuffer list result"

text \<open>The inner solver is built without an alignment and takes its default.\<close>

definition default_alignment :: int where
  "default_alignment = 128"

definition buf_total_bytes :: "CoreDivisionBuffer list \<Rightarrow> string \<Rightarrow> int" where
  "buf_total_bytes bufs n = (case cdb_by_name bufs n of None \<Rightarrow> 0 | Some b \<Rightarrow> buf_size (cdb_base b))"

definition score_leaf :: "inner_solver \<Rightarrow> int \<Rightarrow> CoreDivisionBuffer list \<Rightarrow> division_choice \<Rightarrow> int result" where
  "score_leaf inner limit bufs chosen =
     rbind (make_temp_bufs bufs chosen) (\<lambda>temps.
     rbind (inner limit default_alignment temps) (\<lambda>allocation.
     (let pinned = map buf_name (filter (\<lambda>a. buf_address a \<noteq> None) allocation) in
      Inr (sum_list (map (buf_total_bytes bufs)
             (filter (\<lambda>k. k \<notin> set pinned) (remdups (map cdb_name bufs))))))))"

section \<open>The search\<close>

record search_state =
  chosen :: division_choice
  best_total :: "int option"
  best_chosen :: division_choice

definition better :: "int \<Rightarrow> int option \<Rightarrow> bool" where
  "better hbm best = (case best of None \<Rightarrow> True | Some t \<Rightarrow> hbm < t)"

definition visit_leaf :: "(division_choice \<Rightarrow> int result) \<Rightarrow> search_state \<Rightarrow> search_state result" where
  "visit_leaf score st =
     rbind (score (chosen st)) (\<lambda>hbm.
     Inr (if better hbm (best_total st) then st\<lparr>best_total := Some hbm, best_chosen := chosen st\<rparr> else st))"

primrec try_options ::
  "(search_state \<Rightarrow> search_state result) \<Rightarrow> string \<Rightarrow> nat list \<Rightarrow> search_state \<Rightarrow> search_state result" where
  "try_options below n [] st = Inr st"
| "try_options below n (opt_idx # rest) st =
     rbind (below (st\<lparr>chosen := (chosen st)(n := opt_idx)\<rparr>)) (try_options below n rest)"

primrec recurse ::
  "(division_choice \<Rightarrow> int result) \<Rightarrow> CoreDivisionBuffer list \<Rightarrow> search_state \<Rightarrow> search_state result" where
  "recurse score [] st = visit_leaf score st"
| "recurse score (b # bs) st =
     (let prev = chosen st (cdb_name b) in
      rbind (try_options (recurse score bs) (cdb_name b) [0..<length (candidates b)] st) (\<lambda>st'.
      Inr (st'\<lparr>chosen := (chosen st')(cdb_name b := prev)\<rparr>)))"

definition variable_buffers :: "CoreDivisionBuffer list \<Rightarrow> CoreDivisionBuffer list" where
  "variable_buffers bufs = filter (\<lambda>b. 1 < length (candidates b)) bufs"

definition commit :: "division_choice \<Rightarrow> LifetimeBoundBuffer list \<Rightarrow> CoreDivisionBuffer \<Rightarrow> CoreDivisionBuffer" where
  "commit ch final_alloc b =
     b\<lparr>chosen_division := Some (ch (cdb_name b)),
       cdb_base := (cdb_base b)\<lparr>
         buf_address := (case buf_by_name final_alloc (cdb_name b) of None \<Rightarrow> None | Some a \<Rightarrow> buf_address a),
         spill_reason := (case buf_by_name final_alloc (cdb_name b) of None \<Rightarrow> None | Some a \<Rightarrow> spill_reason a)\<rparr>\<rparr>"

definition place_with ::
  "inner_solver \<Rightarrow> int \<Rightarrow> CoreDivisionBuffer list \<Rightarrow> division_choice \<Rightarrow> CoreDivisionBuffer list result" where
  "place_with inner limit bufs ch =
     rbind (make_temp_bufs bufs ch) (\<lambda>temps.
     rbind (inner limit default_alignment temps) (\<lambda>final_alloc.
     Inr (map (commit ch final_alloc) bufs)))"

text \<open>\<open>alignment\<close> is the one the solver was constructed with.\<close>

definition plan_layout_and_core_divisions ::
  "inner_solver \<Rightarrow> int \<Rightarrow> int \<Rightarrow> CoreDivisionBuffer list \<Rightarrow> CoreDivisionBuffer list result" where
  "plan_layout_and_core_divisions inner limit alignment bufs =
     and_then (raise_if (list_ex (\<lambda>b. list_ex (\<lambda>cd. \<not> is_untiled (tiling cd)) (candidates b)) bufs)
                 (ValueError ''Exhaustive search requires untiled candidates''))
    (rbind (recurse (score_leaf inner limit bufs) (variable_buffers bufs)
              \<lparr>chosen = (\<lambda>_. 0), best_total = None, best_chosen = (\<lambda>_. 0)\<rparr>) (\<lambda>st.
     place_with inner limit bufs (best_chosen st)))"

definition exhaustive_plan_layout ::
  "inner_solver \<Rightarrow> int \<Rightarrow> int \<Rightarrow> CoreDivisionBuffer list \<Rightarrow> CoreDivisionBuffer list result" where
  "exhaustive_plan_layout inner limit alignment bufs = plan_layout_and_core_divisions inner limit alignment bufs"

section \<open>What is promised\<close>

text \<open>A choice gives every buffer of the solve one of its candidate divisions.\<close>

definition divides :: "CoreDivisionBuffer list \<Rightarrow> division_choice \<Rightarrow> bool" where
  "divides bufs ch \<longleftrightarrow> (\<forall>b \<in> set bufs. ch (cdb_name b) < length (candidates b))
     \<and> (\<forall>n. n \<notin> cdb_name ` set bufs \<longrightarrow> ch n = 0)"

text \<open>The bytes a layout leaves in HBM, and a buffer as one core holds it under its division.\<close>

definition hbm_bytes :: "CoreDivisionBuffer list \<Rightarrow> int" where
  "hbm_bytes out = sum_list (map (\<lambda>b. buf_size (cdb_base b)) (filter (\<lambda>b. buf_address (cdb_base b) = None) out))"

definition core_view :: "CoreDivisionBuffer \<Rightarrow> LifetimeBoundBuffer" where
  "core_view b = (cdb_base b)\<lparr>core_divisions := [],
     buf_size := (case chosen_division b of None \<Rightarrow> buf_size (cdb_base b)
                  | Some ci \<Rightarrow> per_core_size (cdb_base b) (candidates b ! ci))\<rparr>"

text \<open>A resident producer is read by every consumer in the slicing its division gives it.\<close>

definition reads_match :: "CoreDivisionBuffer list \<Rightarrow> bool" where
  "reads_match out \<longleftrightarrow> (\<forall>b c. b \<in> set out \<and> c \<in> set out \<and> buf_address (cdb_base b) \<noteq> None
       \<and> cdb_name b \<in> set (cdb_parents c) \<longrightarrow>
     (\<exists>ps i j. map_of (cd_parent_matches c) (cdb_name b) = Some ps \<and> (i, j) \<in> set ps
       \<and> chosen_division b = Some i \<and> chosen_division c = Some j))"

text \<open>What the allocator hands over: distinct names, live buffers, untiled candidates with parts.\<close>

definition joint_buffer_ok :: "CoreDivisionBuffer \<Rightarrow> bool" where
  "joint_buffer_ok b \<longleftrightarrow> buf_uses (cdb_base b) \<noteq> [] \<and> buffer_post_init (cdb_base b) = Inr ()
     \<and> 0 \<le> buf_size (cdb_base b) \<and> candidates b \<noteq> []
     \<and> list_all (\<lambda>cd. is_untiled (tiling cd) \<and> 0 < output_partition cd) (candidates b)
     \<and> (first_use_is_read (cdb_base b) \<longrightarrow> in_place_parents (cdb_base b) = [])"

definition joint_input :: "CoreDivisionBuffer list \<Rightarrow> bool" where
  "joint_input bufs \<longleftrightarrow> distinct (map cdb_name bufs) \<and> list_all joint_buffer_ok bufs
     \<and> check_in_place_relationships (map cdb_base bufs) = Inr ()"

section \<open>The walk enumerates the choices\<close>

primrec assignments :: "CoreDivisionBuffer list \<Rightarrow> division_choice \<Rightarrow> division_choice list" where
  "assignments [] ch = [ch]"
| "assignments (b # bs) ch =
     concat (map (\<lambda>i. assignments bs (ch(cdb_name b := i))) [0..<length (candidates b)])"

text \<open>The reference: the first cheapest of a list of choices, \<open>None\<close> standing for no choice yet.\<close>

primrec best_over ::
  "(division_choice \<Rightarrow> int result) \<Rightarrow> division_choice list \<Rightarrow> int option \<times> division_choice
   \<Rightarrow> (int option \<times> division_choice) result" where
  "best_over score [] best = Inr best"
| "best_over score (a # as) best =
     rbind (score a) (\<lambda>h. best_over score as (if better h (fst best) then (Some h, a) else best))"

definition with_best :: "search_state \<Rightarrow> int option \<times> division_choice \<Rightarrow> search_state" where
  "with_best st p = st\<lparr>best_total := fst p, best_chosen := snd p\<rparr>"

lemma rbind_assoc: "rbind (rbind c f) g = rbind c (\<lambda>x. rbind (f x) g)"
  by (cases c) simp_all

lemma best_over_append: "best_over score (xs @ ys) p = rbind (best_over score xs p) (best_over score ys)"
  by (induction xs arbitrary: p) (simp_all add: rbind_assoc)

lemma try_options_eq:
  assumes "\<And>st :: search_state. below st = rbind (best_over score (f (chosen st)) (best_total st, best_chosen st)) (\<lambda>p. Inr (with_best st p))"
  shows "try_options below n is st =
    rbind (best_over score (concat (map (\<lambda>i. f ((chosen st)(n := i))) is)) (best_total st, best_chosen st))
      (\<lambda>p. Inr (with_best (st\<lparr>chosen := if is = [] then chosen st else (chosen st)(n := last is)\<rparr>) p))"
proof (induction "is" arbitrary: st)
  case Nil
  then show ?case by (simp add: with_best_def)
next
  case (Cons i "is")
  let ?st = "st\<lparr>chosen := (chosen st)(n := i)\<rparr>"
  have "try_options below n (i # is) st =
      rbind (best_over score (f (chosen ?st)) (best_total ?st, best_chosen ?st))
        (\<lambda>p. try_options below n is (with_best ?st p))"
    by (simp only: try_options.simps assms [of ?st] rbind_assoc rbind_simps)
  also have "\<dots> = rbind (best_over score (f (chosen ?st)) (best_total ?st, best_chosen ?st))
      (\<lambda>p. rbind (best_over score (concat (map (\<lambda>i. f ((chosen ?st)(n := i))) is)) p)
        (\<lambda>p. Inr (with_best (st\<lparr>chosen := (chosen st)(n := last (i # is))\<rparr>) p)))"
    by (simp only: Cons.IH) (simp add: with_best_def del: fun_upd_apply)
  finally show ?case by (simp add: best_over_append rbind_assoc del: fun_upd_apply)
qed

lemma recurse_eq:
  "recurse score bs st =
     rbind (best_over score (assignments bs (chosen st)) (best_total st, best_chosen st)) (\<lambda>p. Inr (with_best st p))"
proof (induction bs arbitrary: st)
  case Nil
  then show ?case
    by (cases "score (chosen st)") (simp_all add: visit_leaf_def with_best_def)
next
  case (Cons b bs)
  show ?case
    by (simp only: recurse.simps Let_def try_options_eq [OF Cons.IH] rbind_assoc rbind_simps)
      (simp add: with_best_def del: fun_upd_apply)
qed

lemma best_over_least:
  assumes "\<forall>a \<in> set xs. score a = Inr (h a)"
  shows "\<exists>c \<in> insert c0 (set xs). best_over score xs (Some (h c0), c0) = Inr (Some (h c), c)
    \<and> (\<forall>a \<in> insert c0 (set xs). h c \<le> h a)"
  using assms
proof (induction xs arbitrary: c0)
  case (Cons x xs)
  show ?case
  proof (cases "h x < h c0")
    case True
    then show ?thesis using Cons.IH [of x] Cons.prems by (fastforce simp: better_def)
  next
    case False
    then show ?thesis using Cons.IH [of c0] Cons.prems by (fastforce simp: better_def)
  qed
qed simp

lemma best_over_first:
  assumes "xs \<noteq> []" "\<forall>a \<in> set xs. score a = Inr (h a)"
  shows "\<exists>c \<in> set xs. best_over score xs (None, c0) = Inr (Some (h c), c) \<and> (\<forall>a \<in> set xs. h c \<le> h a)"
  using assms best_over_least [of "tl xs" score h "hd xs"] by (cases xs) (auto simp: better_def)

lemma assignments_iff:
  assumes "distinct (map cdb_name bs)"
  shows "ch \<in> set (assignments bs ch0) \<longleftrightarrow> (\<forall>b \<in> set bs. ch (cdb_name b) < length (candidates b))
     \<and> (\<forall>n. n \<notin> cdb_name ` set bs \<longrightarrow> ch n = ch0 n)"
  using assms
proof (induction bs arbitrary: ch0)
  case Nil
  then show ?case by auto
next
  case (Cons b bs)
  have "ch \<in> set (assignments (b # bs) ch0) \<longleftrightarrow>
      (\<exists>i < length (candidates b). ch \<in> set (assignments bs (ch0(cdb_name b := i))))"
    by (auto simp: atLeast0LessThan)
  also have "\<dots> \<longleftrightarrow> (\<exists>i < length (candidates b). (\<forall>b \<in> set bs. ch (cdb_name b) < length (candidates b))
      \<and> (\<forall>n. n \<notin> cdb_name ` set bs \<longrightarrow> ch n = (ch0(cdb_name b := i)) n))"
    using Cons by simp
  also have "\<dots> \<longleftrightarrow> (\<forall>b \<in> set (b # bs). ch (cdb_name b) < length (candidates b))
     \<and> (\<forall>n. n \<notin> cdb_name ` set (b # bs) \<longrightarrow> ch n = ch0 n)"
    using Cons.prems by (auto simp: image_iff)
  finally show ?case .
qed

lemma divides_iff:
  assumes "distinct (map cdb_name bufs)" "\<forall>b \<in> set bufs. candidates b \<noteq> []"
  shows "divides bufs ch \<longleftrightarrow> ch \<in> set (assignments (variable_buffers bufs) (\<lambda>_. 0))"
proof -
  have inj: "inj_on cdb_name (set bufs)" using assms(1) by (simp add: distinct_map)
  have d: "distinct (map cdb_name (variable_buffers bufs))"
    using assms(1) by (simp add: variable_buffers_def distinct_map_filter)
  have "(\<forall>b \<in> set bufs. ch (cdb_name b) < length (candidates b)) \<and> (\<forall>n. n \<notin> cdb_name ` set bufs \<longrightarrow> ch n = 0)
    \<longleftrightarrow> (\<forall>b \<in> set (variable_buffers bufs). ch (cdb_name b) < length (candidates b))
       \<and> (\<forall>n. n \<notin> cdb_name ` set (variable_buffers bufs) \<longrightarrow> ch n = 0)" (is "?l \<longleftrightarrow> ?r")
  proof
    assume l: ?l
    have "ch n = 0" if n: "n \<notin> cdb_name ` set (variable_buffers bufs)" for n
    proof (cases "n \<in> cdb_name ` set bufs")
      case True
      then obtain b where b: "b \<in> set bufs" "n = cdb_name b" by blast
      then have "length (candidates b) \<le> 1" using n by (auto simp: variable_buffers_def)
      then show ?thesis using l b by fastforce
    qed (use l in blast)
    then show ?r using l by (auto simp: variable_buffers_def)
  next
    assume r: ?r
    have "ch (cdb_name b) < length (candidates b)" if b: "b \<in> set bufs" for b
    proof (cases "1 < length (candidates b)")
      case True
      then show ?thesis using r b by (auto simp: variable_buffers_def)
    next
      case False
      then have "cdb_name b \<notin> cdb_name ` set (variable_buffers bufs)"
        using inj b by (auto simp: variable_buffers_def inj_on_def)
      then show ?thesis using r assms(2) b by (auto simp: length_greater_0_conv)
    qed
    then show ?l using r by (auto simp: variable_buffers_def)
  qed
  then show ?thesis by (simp add: divides_def assignments_iff [OF d])
qed

section \<open>The buffers of a leaf\<close>

definition per_core_of :: "division_choice \<Rightarrow> CoreDivisionBuffer \<Rightarrow> int" where
  "per_core_of ch b = per_core_size (cdb_base b) (candidates b ! ch (cdb_name b))"

definition kept_parents :: "CoreDivisionBuffer list \<Rightarrow> division_choice \<Rightarrow> CoreDivisionBuffer \<Rightarrow> string list" where
  "kept_parents bufs ch b = filter (\<lambda>n. case cdb_by_name bufs n of None \<Rightarrow> True
     | Some p \<Rightarrow> per_core_of ch b \<le> per_core_of ch p) (in_place_parents (cdb_base b))"

definition leaf_buf :: "CoreDivisionBuffer list \<Rightarrow> division_choice \<Rightarrow> CoreDivisionBuffer \<Rightarrow> LifetimeBoundBuffer" where
  "leaf_buf bufs ch b = temp_buf (cdb_base b) (per_core_of ch b) (kept_parents bufs ch b)
     (search_residency_reason bufs ch b (ch (cdb_name b)))"

lemma temp_buf_simps [simp]:
  "buf_name (temp_buf l sz ps r) = buf_name l" "buf_size (temp_buf l sz ps r) = sz"
  "buf_uses (temp_buf l sz ps r) = buf_uses l" "in_place_parents (temp_buf l sz ps r) = ps"
  "residency_reason (temp_buf l sz ps r) = r" "buf_address (temp_buf l sz ps r) = None"
  "paired_with (temp_buf l sz ps r) = []" "core_divisions (temp_buf l sz ps r) = []"
  "first_use_is_read (temp_buf l sz ps r) = first_use_is_read l"
  "start_time (temp_buf l sz ps r) = start_time l" "end_time (temp_buf l sz ps r) = end_time l"
  "has_read_after_write (temp_buf l sz ps r) = has_read_after_write l"
  by (simp_all add: temp_buf_def start_time_def end_time_def has_read_after_write_def)

lemma temp_buf_post_init [simp]: "buffer_post_init (temp_buf l sz ps r) = buffer_post_init l"
  by (rule post_init_cong) (simp_all add: temp_buf_def)

lemma leaf_buf_simps [simp]:
  "buf_name (leaf_buf bufs ch b) = cdb_name b" "buf_size (leaf_buf bufs ch b) = per_core_of ch b"
  by (simp_all add: leaf_buf_def cdb_name_def)

lemma cdb_by_name_eq:
  "distinct (map cdb_name bufs) \<Longrightarrow> b \<in> set bufs \<Longrightarrow> cdb_by_name bufs (cdb_name b) = Some b"
  unfolding cdb_by_name_def by (rule find_rev_distinct)

lemma cdb_by_name_SomeD: "cdb_by_name bufs n = Some b \<Longrightarrow> b \<in> set bufs \<and> cdb_name b = n"
  unfolding cdb_by_name_def by (metis (mono_tags, lifting) find_Some_iff nth_mem set_rev)

lemma joint_inputD:
  assumes "joint_input bufs" "b \<in> set bufs"
  shows "joint_buffer_ok b" "candidates b \<noteq> []"
  using assms by (auto simp: joint_input_def joint_buffer_ok_def list_all_iff)

lemma joint_input_distinct: "joint_input bufs \<Longrightarrow> distinct (map cdb_name bufs)"
  by (simp add: joint_input_def)

text \<open>Under a choice of the candidates the sizes of the buffers are defined and not negative.\<close>

lemma per_core_defined:
  assumes "joint_input bufs" "divides bufs ch" "b \<in> set bufs"
  shows "per_core_size_at b (ch (cdb_name b)) = Inr (per_core_of ch b)" "0 \<le> per_core_of ch b"
proof -
  let ?cd = "candidates b ! ch (cdb_name b)"
  have i: "ch (cdb_name b) < length (candidates b)" using assms(2,3) by (simp add: divides_def)
  have cd: "is_untiled (tiling ?cd)" "0 < output_partition ?cd" and sz: "0 \<le> buf_size (cdb_base b)"
    using joint_inputD(1) [OF assms(1,3)] nth_mem [OF i] by (auto simp: joint_buffer_ok_def list_all_iff)
  have parts: "output_partition ?cd * output_tile_count (tiling ?cd) = output_partition ?cd"
    using cd(1) by (simp add: is_untiled_def output_tile_count_def)
  show "per_core_size_at b (ch (cdb_name b)) = Inr (per_core_of ch b)"
    using i parts cd(2) by (simp add: per_core_size_at_def per_core_of_def Let_def)
  have "buf_size (cdb_base b) \<le> ceil_div (buf_size (cdb_base b)) (output_partition ?cd) * output_partition ?cd"
    using ceil_div_bounds [OF cd(2)] by blast
  then have "0 \<le> ceil_div (buf_size (cdb_base b)) (output_partition ?cd) * output_partition ?cd"
    using sz by linarith
  then show "0 \<le> per_core_of ch b"
    using cd(2) by (simp add: per_core_of_def per_core_size_def parts zero_le_mult_iff)
qed

lemma parent_fits_defined:
  assumes "joint_input bufs" "divides bufs ch"
  shows "parent_fits bufs ch sz n = Inr (case cdb_by_name bufs n of None \<Rightarrow> True | Some p \<Rightarrow> sz \<le> per_core_of ch p)"
proof (cases "cdb_by_name bufs n")
  case (Some p)
  then have "p \<in> set bufs" "cdb_name p = n" using cdb_by_name_SomeD by blast+
  then show ?thesis using Some per_core_defined(1) [OF assms, of p] by (simp add: parent_fits_def)
qed (simp add: parent_fits_def)

lemma make_temp_buf_defined:
  assumes "joint_input bufs" "divides bufs ch" "b \<in> set bufs"
  shows "make_temp_buf bufs ch b = Inr (leaf_buf bufs ch b)"
proof -
  let ?ok = "\<lambda>n. case cdb_by_name bufs n of None \<Rightarrow> True | Some p \<Rightarrow> per_core_of ch b \<le> per_core_of ch p"
  have tr: "traverse (\<lambda>p. rbind (parent_fits bufs ch (per_core_of ch b) p) (\<lambda>ok. Inr (p, ok))) ns
      = Inr (map (\<lambda>n. (n, ?ok n)) ns)" for ns
    by (rule traverse_map) (simp add: parent_fits_defined [OF assms(1,2)])
  have "map fst (filter snd (map (\<lambda>n. (n, ?ok n)) ns)) = filter ?ok ns" for ns
    by (induction ns) auto
  then have "valid_inplace_parents bufs ch b (ch (cdb_name b)) = Inr (kept_parents bufs ch b)"
    by (simp add: valid_inplace_parents_def per_core_defined(1) [OF assms] tr kept_parents_def)
  moreover have "buffer_post_init (cdb_base b) = Inr ()"
    using joint_inputD(1) [OF assms(1,3)] by (simp add: joint_buffer_ok_def)
  ultimately show ?thesis
    by (simp add: make_temp_buf_def per_core_defined(1) [OF assms] leaf_buf_def and_then_def)
qed

lemma make_temp_bufs_defined:
  assumes "joint_input bufs" "divides bufs ch"
  shows "make_temp_bufs bufs ch = Inr (map (leaf_buf bufs ch) bufs)"
  unfolding make_temp_bufs_def by (rule traverse_map) (simp add: make_temp_buf_defined [OF assms])

lemma leaf_input_ok:
  assumes "joint_input bufs" "divides bufs ch"
  shows "solver_input (map (leaf_buf bufs ch) bufs)"
    and "check_in_place_relationships (map (leaf_buf bufs ch) bufs) = Inr ()"
proof -
  let ?T = "map (leaf_buf bufs ch) bufs"
  note dst = joint_input_distinct [OF assms(1)]
  have names: "map buf_name ?T = map cdb_name bufs" by simp
  have "buf_uses t \<noteq> [] \<and> buffer_post_init t = Inr () \<and> 0 \<le> buf_size t \<and> core_divisions t = []
      \<and> (first_use_is_read t \<longrightarrow> in_place_parents t = [])" if t: "t \<in> set ?T" for t
  proof -
    obtain b where b: "b \<in> set bufs" "t = leaf_buf bufs ch b" using t by auto
    then show ?thesis using joint_inputD(1) [OF assms(1) b(1)] per_core_defined(2) [OF assms b(1)]
      by (auto simp: leaf_buf_def joint_buffer_ok_def kept_parents_def)
  qed
  then show "solver_input ?T" using dst names unfolding solver_input_def list_all_iff by (simp add: comp_def)
  have dstb: "distinct (map buf_name (map cdb_base bufs))"
    using dst by (simp add: comp_def cdb_name_def [abs_def])
  have "check_in_place_pair ?T (leaf_buf bufs ch c) n = Inr ()"
    if c: "c \<in> set bufs" and n: "n \<in> set (kept_parents bufs ch c)" for c n
  proof (cases "buf_by_name ?T n")
    case None
    then show ?thesis by (simp add: check_in_place_pair_def)
  next
    case (Some t)
    then have "t \<in> leaf_buf bufs ch ` set bufs" "buf_name t = n" using buf_by_name_SomeD [OF Some] by simp_all
    then obtain p where p: "p \<in> set bufs" "t = leaf_buf bufs ch p" "cdb_name p = n" by (elim imageE) simp
    have fits: "per_core_of ch c \<le> per_core_of ch p" and nc: "n \<in> set (in_place_parents (cdb_base c))"
      using n cdb_by_name_eq [OF dst p(1)] p(3) by (auto simp: kept_parents_def)
    have "check_in_place_relationships (map cdb_base bufs) = Inr ()" using assms(1) by (simp add: joint_input_def)
    note pair = in_place_checked(1,2) [OF this dstb, of "cdb_base c" "cdb_base p"]
    have "end_time (cdb_base p) = start_time (cdb_base c) + 1"
      "first_use_is_read (cdb_base p) \<or> has_read_after_write (cdb_base p)"
      using pair c p(1,3) nc by (auto simp: cdb_name_def)
    moreover have "buf_uses (cdb_base p) \<noteq> []" "buf_uses (cdb_base c) \<noteq> []"
      using joint_inputD(1) [OF assms(1)] c p(1) by (auto simp: joint_buffer_ok_def)
    ultimately show ?thesis
      using Some p(2) fits by (simp add: check_in_place_pair_def check_in_place_parent_is_read_def leaf_buf_def)
  qed
  then show "check_in_place_relationships ?T = Inr ()"
    by (auto simp: check_in_place_relationships_def check_children_iff leaf_buf_def)
qed

section \<open>One placement\<close>

text \<open>Layouts that agree on names, blocks and lifetimes and declare no fewer parents are equally safe.\<close>

definition relabels :: "LifetimeBoundBuffer \<Rightarrow> LifetimeBoundBuffer \<Rightarrow> bool" where
  "relabels v a \<longleftrightarrow> buf_name v = buf_name a \<and> buf_size v = buf_size a \<and> buf_address v = buf_address a
     \<and> start_time v = start_time a \<and> end_time v = end_time a
     \<and> set (in_place_parents a) \<subseteq> set (in_place_parents v)"

lemma safe_layout_relabels:
  assumes "safe_layout limit al A" "\<forall>v \<in> set V. \<exists>a \<in> set A. relabels v a"
  shows "safe_layout limit al V"
  unfolding safe_layout_def
proof (intro conjI ballI impI)
  fix v assume "v \<in> set V"
  then obtain a where a: "a \<in> set A" "relabels v a" using assms(2) by blast
  then have "in_bounds limit al a" using assms(1) by (simp add: safe_layout_def)
  then show "in_bounds limit al v" using a(2) by (simp add: in_bounds_def relabels_def)
next
  fix v w assume vw: "v \<in> set V" "w \<in> set V" "buf_name v \<noteq> buf_name w" "overlaps_in_time v w"
  obtain a b where ab: "a \<in> set A" "relabels v a" "b \<in> set A" "relabels w b" using assms(2) vw(1,2) by meson
  then have "addr_disjoint a b \<or> handed_over a b \<or> handed_over b a"
    using assms(1) vw(3,4) unfolding safe_layout_def relabels_def overlaps_in_time_def by metis
  moreover have "addr_disjoint a b \<Longrightarrow> addr_disjoint v w" using ab by (simp add: addr_disjoint_def relabels_def)
  moreover have "handed_over a b \<Longrightarrow> handed_over v w" using ab by (auto simp: handed_over_def relabels_def)
  moreover have "handed_over b a \<Longrightarrow> handed_over w v" using ab by (auto simp: handed_over_def relabels_def)
  ultimately show "addr_disjoint v w \<or> handed_over v w \<or> handed_over w v" by blast
qed

lemma filter_names_map:
  "map (buf_total_bytes bufs) (filter P (map cdb_name bs)) = map (\<lambda>b. buf_total_bytes bufs (cdb_name b)) (filter (\<lambda>b. P (cdb_name b)) bs)"
  by (induction bs) auto

lemma unbarred_reads:
  assumes "distinct (map cdb_name bufs)" "b \<in> set bufs" "c \<in> set bufs" "cdb_name b \<in> set (cdb_parents c)"
    and "search_residency_reason bufs ch b (ch (cdb_name b)) = None"
  shows "\<exists>ps. map_of (cd_parent_matches c) (cdb_name b) = Some ps \<and> (ch (cdb_name b), ch (cdb_name c)) \<in> set ps"
proof -
  let ?ps = "case map_of (cd_parent_matches c) (cdb_name b) of None \<Rightarrow> [] | Some ps \<Rightarrow> ps"
  have "(c, ?ps) \<in> set (children_by_parent bufs (cdb_name b))"
    using assms(3,4) cdb_by_name_eq [OF assms(1,2)] by (auto simp: children_by_parent_def)
  moreover have "list_all (\<lambda>(child, pairs). list_ex (\<lambda>(i, j). i = ch (cdb_name b) \<and> j = ch (cdb_name child)) pairs)
      (children_by_parent bufs (cdb_name b))"
    using assms(5) by (auto simp: search_residency_reason_def list_all_iff list_ex_iff split: option.splits if_splits)
  ultimately have "list_ex (\<lambda>(i, j). i = ch (cdb_name b) \<and> j = ch (cdb_name c)) ?ps"
    by (auto simp: list_all_iff)
  then show ?thesis by (cases "map_of (cd_parent_matches c) (cdb_name b)") (auto simp: list_ex_iff)
qed

lemma commit_simps [simp]:
  "cdb_name (commit ch al b) = cdb_name b" "chosen_division (commit ch al b) = Some (ch (cdb_name b))"
  "cdb_parents (commit ch al b) = cdb_parents b" "cd_parent_matches (commit ch al b) = cd_parent_matches b"
  "candidates (commit ch al b) = candidates b" "buf_size (cdb_base (commit ch al b)) = buf_size (cdb_base b)"
  by (simp_all add: commit_def cdb_name_def candidates_def)

context total_solver
begin

text \<open>Under any choice the placement returns; its score is the bytes it leaves in HBM.\<close>

lemma leaf_runs:
  assumes "joint_input bufs" "divides bufs ch"
  obtains alloc where "plan limit default_alignment (map (leaf_buf bufs ch) bufs) = Inr alloc"
    "\<forall>b \<in> set bufs. \<exists>a \<in> set alloc. buf_by_name alloc (cdb_name b) = Some a \<and> erase_plan a = leaf_buf bufs ch b"
proof -
  let ?T = "map (leaf_buf bufs ch) bufs"
  note ok = leaf_input_ok [OF assms]
  have "\<forall>b \<in> set ?T. buf_address b = None \<and> paired_with b = []" by (simp add: leaf_buf_def)
  then obtain alloc where a: "plan limit default_alignment ?T = Inr alloc"
    using plan_returns [OF _ ok, of default_alignment limit] by (auto simp: default_alignment_def)
  have dst: "distinct (map buf_name alloc)"
    using plan_names(1) [OF a] solver_input_distinct [OF ok(1)] by simp
  have "\<exists>a \<in> set alloc. buf_by_name alloc (cdb_name b) = Some a \<and> erase_plan a = leaf_buf bufs ch b"
    if b: "b \<in> set bufs" for b
  proof -
    have "erase_plan (leaf_buf bufs ch b) \<in> set (map erase_plan alloc)"
      unfolding plan_frame [OF a] using b by simp
    then obtain x where x: "x \<in> set alloc" "erase_plan x = erase_plan (leaf_buf bufs ch b)" by auto
    have e: "erase_plan (leaf_buf bufs ch b) = leaf_buf bufs ch b"
      by (simp add: erase_plan_def leaf_buf_def temp_buf_def)
    have "buf_name x = buf_name (erase_plan x)" by (simp add: erase_plan_def)
    then have "buf_name x = cdb_name b" using x(2) e by simp
    then show ?thesis using buf_by_name_eq [OF dst x(1)] x e by auto
  qed
  then show ?thesis using that a by blast
qed

lemma place_with_facts:
  assumes "joint_input bufs" "divides bufs ch"
  shows "\<exists>out. place_with plan limit bufs ch = Inr out \<and> score_leaf plan limit bufs ch = Inr (hbm_bytes out)
    \<and> safe_layout limit default_alignment (map core_view out) \<and> reads_match out"
proof -
  obtain alloc where al: "plan limit default_alignment (map (leaf_buf bufs ch) bufs) = Inr alloc"
    and found: "\<forall>b \<in> set bufs. \<exists>a \<in> set alloc. buf_by_name alloc (cdb_name b) = Some a \<and> erase_plan a = leaf_buf bufs ch b"
    by (rule leaf_runs [OF assms])
  let ?out = "map (commit ch alloc) bufs"
  note in_ok = leaf_input_ok(1) [OF assms] and dst = joint_input_distinct [OF assms(1)]
  have pos: "0 < default_alignment" by (simp add: default_alignment_def)
  have addr: "buf_address (cdb_base (commit ch alloc b)) = buf_address a" if "buf_by_name alloc (cdb_name b) = Some a" for a b
    using that by (simp add: commit_def)
  have view: "relabels (core_view (commit ch alloc b)) a"
    if a: "buf_by_name alloc (cdb_name b) = Some a" "erase_plan a = leaf_buf bufs ch b" for a b
  proof -
    have "buf_name a = cdb_name b" "buf_size a = per_core_of ch b"
      "start_time a = start_time (cdb_base b)" "end_time a = end_time (cdb_base b)"
      "in_place_parents a = kept_parents bufs ch b"
      using arg_cong [OF a(2), of buf_name] arg_cong [OF a(2), of buf_size] arg_cong [OF a(2), of start_time]
        arg_cong [OF a(2), of end_time] arg_cong [OF a(2), of in_place_parents]
      by (simp_all add: erase_plan_def leaf_buf_def cdb_name_def)
    then show ?thesis using addr [OF a(1)]
      by (auto simp: relabels_def core_view_def per_core_of_def per_core_size_def candidates_def cdb_name_def
            commit_def kept_parents_def start_time_def end_time_def Let_def)
  qed
  have "\<forall>v \<in> set (map core_view ?out). \<exists>a \<in> set alloc. relabels v a" using found view by fastforce
  then have "safe_layout limit default_alignment (map core_view ?out)"
    by (rule safe_layout_relabels [OF plan_safe [OF pos in_ok al]])
  moreover have "reads_match ?out"
  proof -
    have "\<exists>ps. map_of (cd_parent_matches c) (cdb_name b) = Some ps \<and> (ch (cdb_name b), ch (cdb_name c)) \<in> set ps"
      if b: "b \<in> set bufs" "c \<in> set bufs" "buf_address (cdb_base (commit ch alloc b)) \<noteq> None"
        "cdb_name b \<in> set (cdb_parents c)" for b c
    proof (rule unbarred_reads [OF dst b(1,2,4)])
      obtain a where a: "a \<in> set alloc" "buf_by_name alloc (cdb_name b) = Some a" "erase_plan a = leaf_buf bufs ch b"
        using found b(1) by blast
      have "residency_reason a = None" using plan_bars [OF pos in_ok al a(1)] addr [OF a(2)] b(3)
        by (cases "residency_reason a") auto
      then show "search_residency_reason bufs ch b (ch (cdb_name b)) = None"
        using arg_cong [OF a(3), of residency_reason] by (simp add: erase_plan_def leaf_buf_def)
    qed
    then show ?thesis unfolding reads_match_def by fastforce
  qed
  moreover have "score_leaf plan limit bufs ch = Inr (hbm_bytes ?out)"
  proof -
    let ?pin = "map buf_name (filter (\<lambda>a. buf_address a \<noteq> None) alloc)"
    have "distinct (map buf_name alloc)" using plan_names(1) [OF al] solver_input_distinct [OF in_ok] by simp
    then have same: "x = y" if "x \<in> set alloc" "y \<in> set alloc" "buf_name x = buf_name y" for x y
      using that by (auto simp: distinct_map inj_on_def)
    have "cdb_name b \<notin> set ?pin \<longleftrightarrow> buf_address (cdb_base (commit ch alloc b)) = None" if b: "b \<in> set bufs" for b
    proof -
      obtain a where a: "a \<in> set alloc" "buf_by_name alloc (cdb_name b) = Some a" using found b by blast
      then have "buf_name a = cdb_name b" using buf_by_name_SomeD by blast
      have "cdb_name b \<in> set ?pin \<longleftrightarrow> buf_address a \<noteq> None"
      proof
        assume "cdb_name b \<in> set ?pin"
        then obtain x where "x \<in> set alloc" "buf_address x \<noteq> None" "buf_name x = cdb_name b" by auto
        then show "buf_address a \<noteq> None" using same [of x a] a(1) \<open>buf_name a = cdb_name b\<close> by simp
      next
        assume "buf_address a \<noteq> None"
        then show "cdb_name b \<in> set ?pin" using a(1) \<open>buf_name a = cdb_name b\<close> [symmetric] by simp
      qed
      then show ?thesis using addr [OF a(2)] by simp
    qed
    then have pins: "filter (\<lambda>b. cdb_name b \<notin> set ?pin) bufs = filter (\<lambda>b. buf_address (cdb_base (commit ch alloc b)) = None) bufs"
      by (rule filter_cong [OF refl])
    have sizes: "map (\<lambda>b. buf_total_bytes bufs (cdb_name b)) (filter P bufs) = map (\<lambda>b. buf_size (cdb_base b)) (filter P bufs)" for P
      using cdb_by_name_eq [OF dst] by (intro map_cong refl) (simp add: buf_total_bytes_def)
    show ?thesis using dst pins
      by (simp add: sizes score_leaf_def make_temp_bufs_defined [OF assms] al Let_def distinct_remdups_id
          filter_names_map hbm_bytes_def filter_map comp_def)
  qed
  ultimately show ?thesis
    by (simp add: place_with_def make_temp_bufs_defined [OF assms] al)
qed

text \<open>The search returns the placement of a cheapest choice.\<close>

lemma search_optimal:
  assumes "joint_input bufs"
  shows "\<exists>ch out. plan_layout_and_core_divisions plan limit alignment bufs = Inr out
    \<and> divides bufs ch \<and> place_with plan limit bufs ch = Inr out
    \<and> (\<forall>ch' out'. divides bufs ch' \<and> place_with plan limit bufs ch' = Inr out' \<longrightarrow> hbm_bytes out \<le> hbm_bytes out')
    \<and> safe_layout limit default_alignment (map core_view out) \<and> reads_match out"
proof -
  let ?score = "score_leaf plan limit bufs"
  let ?all = "assignments (variable_buffers bufs) (\<lambda>_. 0)"
  define place where "place ch = (SOME out. place_with plan limit bufs ch = Inr out)" for ch
  have run: "place_with plan limit bufs ch = Inr (place ch) \<and> ?score ch = Inr (hbm_bytes (place ch))
      \<and> safe_layout limit default_alignment (map core_view (place ch)) \<and> reads_match (place ch)"
    if ch: "divides bufs ch" for ch
  proof -
    obtain out where out: "place_with plan limit bufs ch = Inr out" "?score ch = Inr (hbm_bytes out)"
      "safe_layout limit default_alignment (map core_view out)" "reads_match out"
      using place_with_facts [OF assms ch, of limit] by blast
    then show ?thesis by (simp add: place_def)
  qed
  have cand: "\<forall>b \<in> set bufs. candidates b \<noteq> []" using joint_inputD(2) [OF assms] by blast
  have all: "divides bufs ch \<longleftrightarrow> ch \<in> set ?all" for ch
    by (rule divides_iff [OF _ cand]) (use assms in \<open>simp add: joint_input_def\<close>)
  have "divides bufs (\<lambda>_. 0)" using cand by (simp add: divides_def)
  then have "?all \<noteq> []" using all by fastforce
  then obtain ch where ch: "ch \<in> set ?all" "best_over ?score ?all (None, \<lambda>_. 0) = Inr (Some (hbm_bytes (place ch)), ch)"
      "\<forall>a \<in> set ?all. hbm_bytes (place ch) \<le> hbm_bytes (place a)"
    using best_over_first [of ?all ?score "\<lambda>ch. hbm_bytes (place ch)" "\<lambda>_. 0"] run all by blast
  have untiled: "\<not> list_ex (\<lambda>b. list_ex (\<lambda>cd. \<not> is_untiled (tiling cd)) (candidates b)) bufs"
    using joint_inputD(1) [OF assms] by (auto simp: list_ex_iff list_all_iff joint_buffer_ok_def)
  have chd: "divides bufs ch" using ch(1) all by simp
  have "plan_layout_and_core_divisions plan limit alignment bufs = Inr (place ch)"
    using run [OF chd] ch(2)
    by (simp add: plan_layout_and_core_divisions_def untiled recurse_eq with_best_def and_then_def raise_if_def)
  moreover have "hbm_bytes (place ch) \<le> hbm_bytes out'"
    if o: "divides bufs ch'" "place_with plan limit bufs ch' = Inr out'" for ch' out'
    using run [OF o(1)] o ch(3) all by simp
  ultimately show ?thesis using run [OF chd] chd by blast
qed

end

section \<open>Properties of the search\<close>

text \<open>
  C3. The search refines its specification, \<open>place the buffers under a cheapest choice of
  divisions\<close>: on the allocator's buffers the depth-first walk over first-fit placements returns
  the placement of some choice of candidate divisions, and no other choice leaves fewer bytes
  in HBM.  One core's view of that placement is a safe layout, and every resident producer is
  read by each of its consumers in the slicing both divisions agree on.
\<close>

theorem exhaustive_search_optimal:
  assumes "joint_input bufs"
  shows "\<exists>ch out. plan_layout_and_core_divisions firstfit_plan_layout limit alignment bufs = Inr out
    \<and> divides bufs ch \<and> place_with firstfit_plan_layout limit bufs ch = Inr out
    \<and> (\<forall>ch' out'. divides bufs ch' \<and> place_with firstfit_plan_layout limit bufs ch' = Inr out' \<longrightarrow>
          hbm_bytes out \<le> hbm_bytes out')
    \<and> safe_layout limit default_alignment (map core_view out) \<and> reads_match out"
  unfolding firstfit_plan_layout_def using assms by (rule first_fit.search_optimal)

definition joint_demo_buffer ::
  "string \<Rightarrow> int \<Rightarrow> int list \<Rightarrow> int list \<Rightarrow> (string \<times> (nat \<times> nat) list) list \<Rightarrow> CoreDivisionBuffer" where
  "joint_demo_buffer n sz us parts ms =
     \<lparr>cdb_base = (gap_demo_buffer n sz us [])\<lparr>core_divisions := map (\<lambda>k.
        \<lparr>splits = [(''s0'', k)], reduction_syms = [], tiling = [], tile_splits = []\<rparr>) parts\<rparr>,
      cdb_parents = map fst ms, cd_parent_matches = ms, chosen_division = None\<rparr>"

text \<open>
  A producer and its consumer that only agree when both are split over four cores: in 256 bytes
  of scratchpad they only fit, side by side, under their second candidates.
\<close>

definition joint_demo :: "CoreDivisionBuffer list" where
  "joint_demo = [joint_demo_buffer ''p'' 512 [0, 1] [1, 4] [],
     joint_demo_buffer ''c'' 512 [1, 2] [1, 4] [(''p'', [(0, 0), (1, 1)])]]"

lemma joint_demo_ok: "joint_input joint_demo"
  by code_simp

theorem exhaustive_search_optimal_witness:
  "\<exists>ch out. plan_layout_and_core_divisions firstfit_plan_layout 256 128 joint_demo = Inr out
    \<and> divides joint_demo ch \<and> hbm_bytes out \<le> 0 \<and> safe_layout 256 default_alignment (map core_view out) \<and> reads_match out"
proof -
  let ?ch = "\<lambda>n. if n = ''p'' \<or> n = ''c'' then 1 else 0"
  have "case place_with firstfit_plan_layout 256 joint_demo ?ch of Inl _ \<Rightarrow> False | Inr out \<Rightarrow> hbm_bytes out = 0"
    by code_simp
  then obtain out' where leaf: "place_with firstfit_plan_layout 256 joint_demo ?ch = Inr out'" "hbm_bytes out' = 0"
    by (auto split: sum.splits)
  have ch: "divides joint_demo ?ch"
    by (auto simp: divides_def joint_demo_def joint_demo_buffer_def gap_demo_buffer_def cdb_name_def candidates_def)
  obtain ch out where opt: "plan_layout_and_core_divisions firstfit_plan_layout 256 128 joint_demo = Inr out"
    "divides joint_demo ch" "\<forall>ch' out'. divides joint_demo ch' \<and> place_with firstfit_plan_layout 256 joint_demo ch' = Inr out'
      \<longrightarrow> hbm_bytes out \<le> hbm_bytes out'"
    "safe_layout 256 default_alignment (map core_view out)" "reads_match out"
    using exhaustive_search_optimal [OF joint_demo_ok, of 256 128] by (elim exE conjE)
  have "hbm_bytes out \<le> 0" using opt(3) [rule_format, OF conjI, OF ch leaf(1)] leaf(2) by simp
  then show ?thesis using opt(1,2,4,5) by (intro exI conjI)
qed

text \<open>
  The alignment the search is constructed with does not reach the inner solver: asked for
  blocks at multiples of 256 bytes, it returns one at byte 128.
\<close>

lemma alignment_not_passed_on:
  "(case plan_layout_and_core_divisions firstfit_plan_layout 256 256 joint_demo of Inl _ \<Rightarrow> []
    | Inr out \<Rightarrow> map (\<lambda>b. buf_address (cdb_base b)) out) = [Some 0, Some 128]"
  by code_simp

end
