(* ===== verification/Loop_Nodes.thy ===== *)
theory Loop_Nodes
  imports Buffer_Lifetimes "HOL-Library.Multiset"
begin

text \<open>
  Counted loops as a tree of operations: \<^verbatim>\<open>src/torch_spyre/_inductor/loop_node.py\<close> (building
  the tree from the group paths, flattening it, the flat view passes edit through, the
  insertion points, peeling non-members off the edges of a body) and
  \<^verbatim>\<open>src/torch_spyre/_inductor/loop_checker.py\<close> (the structural checks between passes).

  Python's object identity is \<open>leaf_id\<close> for an operation and \<open>node_num\<close>, the number in its
  name, for a loop node.  A list a pass edits in place is addressed by the positions of the
  nodes that lead to it.  A leaf carries an \<^typ>\<open>operation\<close> of the liveness analysis, its operation
  name (\<open>get_operation_name\<close>), whether it is a \<open>ComputedBuffer\<close>, whether it is a fallback
  kernel with side effects, the carry record stamped on it, and the free symbols of its memory
  dependencies, \<open>None\<close> where tracing them raises.  Carry records are compared by identity, \<open>carry_id\<close>.
\<close>

section \<open>The tree\<close>

record carry =
  carry_id :: nat
  storage_name :: string
  update_name :: string

record leaf =
  leaf_id :: nat
  leaf_operation_name :: string
  leaf_is_computed :: bool
  leaf_impure :: bool
  leaf_op :: operation
  leaf_carry :: "carry option"
  leaf_symbols :: "string list option"

datatype entry =
    Leaf leaf
  | LoopNode (node_num: nat) (node_body: "entry list") (node_induction: "string option")
      (node_trip_count: string) (node_carries: "carry list")

definition leaf_name :: "leaf \<Rightarrow> string" where
  "leaf_name l = op_name (leaf_op l)"

text \<open>Operations and nodes are distinct objects whatever their numbers.\<close>

definition ident :: "entry \<Rightarrow> nat + nat" where
  "ident e = (case e of Leaf l \<Rightarrow> Inl (leaf_id l) | LoopNode n _ _ _ _ \<Rightarrow> Inr n)"

definition is_loop_node :: "entry \<Rightarrow> bool" where
  "is_loop_node e = (case e of Leaf _ \<Rightarrow> False | LoopNode _ _ _ _ _ \<Rightarrow> True)"

fun all_ops :: "entry list \<Rightarrow> leaf list" where
  "all_ops [] = []"
| "all_ops (Leaf l # es) = l # all_ops es"
| "all_ops (LoopNode n b i t c # es) = all_ops b @ all_ops es"

definition has_loop_nodes :: "entry list \<Rightarrow> bool" where
  "has_loop_nodes es = list_ex is_loop_node es"

text \<open>What a node tells a pass that judges liveness by reads and writes.\<close>

text \<open>The target of a mutation, or the storage of a loop carry that is still written in its pure form.\<close>

definition mutation_target :: "leaf \<Rightarrow> string option" where
  "mutation_target l =
     (if \<not> leaf_is_computed l then None
      else case op_mutation_target (leaf_op l) of
        Some t \<Rightarrow> Some t
      | None \<Rightarrow> (case leaf_carry l of
            Some r \<Rightarrow> if update_name r = leaf_name l then Some (storage_name r) else None
          | None \<Rightarrow> None))"

definition mutation_targets :: "entry list \<Rightarrow> string list" where
  "mutation_targets body = foldl (\<lambda>targets l. case mutation_target l of
       None \<Rightarrow> targets | Some t \<Rightarrow> if t \<in> set targets then targets else targets @ [t]) [] (all_ops body)"

definition star_dep :: "string \<Rightarrow> MemoryDep" where
  "star_dep n = \<lparr>dep_is_memory = False, dep_name = n, dep_index = [], dep_offset_of = NoOffset\<rparr>"

definition ordered_union :: "'a list \<Rightarrow> 'a list \<Rightarrow> 'a list" where
  "ordered_union xs ys = xs @ filter (\<lambda>y. y \<notin> set xs) (remdups ys)"

fun body_reads :: "entry list \<Rightarrow> MemoryDep list" where
  "body_reads [] = []"
| "body_reads (Leaf l # es) = ordered_union (op_reads (leaf_op l)) (body_reads es)"
| "body_reads (LoopNode n b i t c # es) = ordered_union (body_reads b) (body_reads es)"

fun body_writes :: "entry list \<Rightarrow> MemoryDep list" where
  "body_writes [] = []"
| "body_writes (Leaf l # es) = ordered_union (op_writes (leaf_op l)) (body_writes es)"
| "body_writes (LoopNode n b i t c # es) =
     ordered_union (ordered_union (body_writes b) (map star_dep (mutation_targets b))) (body_writes es)"

definition node_read_writes :: "entry list \<Rightarrow> MemoryDep list \<times> MemoryDep list" where
  "node_read_writes body =
     (body_reads body, ordered_union (body_writes body) (map star_dep (mutation_targets body)))"

section \<open>Addresses of entries and edits in place\<close>

type_synonym address = "nat list \<times> nat"

definition next_entry :: "address \<Rightarrow> address" where
  "next_entry a = (case a of ([], j) \<Rightarrow> ([], Suc j) | (k # p, j) \<Rightarrow> (Suc k # p, j))"

fun owning_list :: "entry list \<Rightarrow> nat + nat \<Rightarrow> address option" where
  "owning_list [] t = None"
| "owning_list (Leaf l # es) t =
     (if Inl (leaf_id l) = t then Some ([], 0) else map_option next_entry (owning_list es t))"
| "owning_list (LoopNode n b i tc c # es) t =
     (if Inr n = t then Some ([], 0)
      else case owning_list b t of
             Some (p, j) \<Rightarrow> Some (0 # p, j)
           | None \<Rightarrow> map_option next_entry (owning_list es t))"

definition set_body :: "entry list \<Rightarrow> entry \<Rightarrow> entry" where
  "set_body b e = (case e of Leaf l \<Rightarrow> Leaf l | LoopNode n _ i t c \<Rightarrow> LoopNode n b i t c)"

definition body_of :: "entry \<Rightarrow> entry list" where
  "body_of e = (case e of Leaf l \<Rightarrow> [] | LoopNode _ b _ _ _ \<Rightarrow> b)"

text \<open>Run a list operation on the list an address leads to.\<close>

primrec edit_at :: "nat list \<Rightarrow> (entry list \<Rightarrow> entry list) \<Rightarrow> entry list \<Rightarrow> entry list" where
  "edit_at [] f es = f es"
| "edit_at (k # p) f es = es[k := set_body (edit_at p f (body_of (es ! k))) (es ! k)]"

definition list_insert :: "nat \<Rightarrow> 'a \<Rightarrow> 'a list \<Rightarrow> 'a list" where
  "list_insert j x xs = take j xs @ x # drop j xs"

definition list_delete :: "nat \<Rightarrow> 'a list \<Rightarrow> 'a list" where
  "list_delete j xs = take j xs @ drop (Suc j) xs"

definition holder :: "entry list \<Rightarrow> nat + nat \<Rightarrow> address result" where
  "holder es t = (case owning_list es t of
     None \<Rightarrow> Inl (ValueError ''not in the operations list'') | Some a \<Rightarrow> Inr a)"

definition insert_before :: "entry list \<Rightarrow> entry \<Rightarrow> entry \<Rightarrow> entry list result" where
  "insert_before es anchor op =
     rbind (holder es (ident anchor)) (\<lambda>(p, j). Inr (edit_at p (list_insert j op) es))"

definition insert_after :: "entry list \<Rightarrow> entry \<Rightarrow> entry \<Rightarrow> entry list result" where
  "insert_after es anchor op =
     rbind (holder es (ident anchor)) (\<lambda>(p, j). Inr (edit_at p (list_insert (j + 1) op) es))"

definition insert_at_start :: "entry \<Rightarrow> entry \<Rightarrow> entry" where
  "insert_at_start node op = set_body (list_insert 0 op (body_of node)) node"

definition insert_on_back_edge :: "entry \<Rightarrow> entry \<Rightarrow> entry" where
  "insert_on_back_edge node op = set_body (body_of node @ [op]) node"

section \<open>The flat view\<close>

text \<open>Python's index: negative indices count from the end, out of range raises.\<close>

definition py_index :: "int \<Rightarrow> nat \<Rightarrow> nat result" where
  "py_index i n = (if - int n \<le> i \<and> i < int n then Inr (nat (if i < 0 then i + int n else i)) else Inl IndexError)"

definition locate :: "entry list \<Rightarrow> leaf \<Rightarrow> address result" where
  "locate ops l = holder ops (Inl (leaf_id l))"

definition view_append :: "leaf \<Rightarrow> entry list \<Rightarrow> entry list" where
  "view_append op ops = ops @ [Leaf op]"

definition view_insert :: "int \<Rightarrow> leaf \<Rightarrow> entry list \<Rightarrow> entry list result" where
  "view_insert i op ops =
     (let flat = all_ops ops; n = int (length flat); i' = if i < 0 then max (i + n) 0 else i in
      if i' \<ge> n then Inr (ops @ [Leaf op])
      else rbind (locate ops (flat ! nat i')) (\<lambda>(p, j). Inr (edit_at p (list_insert j (Leaf op)) ops)))"

text \<open>\<open>eq\<close>: Python's \<open>==\<close> on operations, which holds of an object and itself.\<close>

definition first_index :: "(leaf \<Rightarrow> leaf \<Rightarrow> bool) \<Rightarrow> leaf list \<Rightarrow> leaf \<Rightarrow> nat result" where
  "first_index eq flat op = (case find (\<lambda>k. leaf_id (flat ! k) = leaf_id op \<or> eq (flat ! k) op) [0..<length flat] of
     None \<Rightarrow> Inl (ValueError ''not in list'') | Some k \<Rightarrow> Inr k)"

definition view_remove :: "(leaf \<Rightarrow> leaf \<Rightarrow> bool) \<Rightarrow> leaf \<Rightarrow> entry list \<Rightarrow> entry list result" where
  "view_remove eq op ops =
     rbind (first_index eq (all_ops ops) op) (\<lambda>k.
     rbind (locate ops (all_ops ops ! k)) (\<lambda>(p, j). Inr (edit_at p (list_delete j) ops)))"

definition view_setitem :: "int \<Rightarrow> leaf \<Rightarrow> entry list \<Rightarrow> entry list result" where
  "view_setitem i op ops =
     rbind (py_index i (length (all_ops ops))) (\<lambda>k.
     rbind (locate ops (all_ops ops ! k)) (\<lambda>(p, j). Inr (edit_at p (\<lambda>l. l[j := Leaf op]) ops)))"

definition view_delitem :: "int \<Rightarrow> entry list \<Rightarrow> entry list result" where
  "view_delitem i ops =
     rbind (py_index i (length (all_ops ops))) (\<lambda>k.
     rbind (locate ops (all_ops ops ! k)) (\<lambda>(p, j). Inr (edit_at p (list_delete j) ops)))"

text \<open>
  \<open>view[:] = new_flat\<close>: the operations of each list are put in the new order, a node at the
  rank of its earliest operation.
\<close>

fun first_ranks :: "(nat \<Rightarrow> nat) \<Rightarrow> entry list \<Rightarrow> nat list result" where
  "first_ranks rank [] = Inr []"
| "first_ranks rank (Leaf l # es) = rbind (first_ranks rank es) (\<lambda>ks. Inr (rank (leaf_id l) # ks))"
| "first_ranks rank (LoopNode n b i t c # es) =
     rbind (first_ranks rank b) (\<lambda>bs.
     if bs = [] then Inl (ValueError ''min of an empty body'')
     else rbind (first_ranks rank es) (\<lambda>ks. Inr (foldl min (hd bs) (tl bs) # ks)))"

definition sort_by_rank :: "(nat \<Rightarrow> nat) \<Rightarrow> entry list \<Rightarrow> entry list result" where
  "sort_by_rank rank es = rbind (first_ranks rank es) (\<lambda>ks. Inr (map snd (sort_key fst (zip ks es))))"

fun settle_bodies :: "(nat \<Rightarrow> nat) \<Rightarrow> entry list \<Rightarrow> entry list result" where
  "settle_bodies rank [] = Inr []"
| "settle_bodies rank (Leaf l # es) = rbind (settle_bodies rank es) (\<lambda>es'. Inr (Leaf l # es'))"
| "settle_bodies rank (LoopNode n b i t c # es) =
     rbind (rbind (settle_bodies rank b) (sort_by_rank rank)) (\<lambda>b'.
     rbind (settle_bodies rank es) (\<lambda>es'. Inr (LoopNode n b' i t c # es')))"

definition settle :: "(nat \<Rightarrow> nat) \<Rightarrow> entry list \<Rightarrow> entry list result" where
  "settle rank es = rbind (settle_bodies rank es) (sort_by_rank rank)"

definition rank_in :: "leaf list \<Rightarrow> nat \<Rightarrow> nat" where
  "rank_in new_flat i = last (filter (\<lambda>k. leaf_id (new_flat ! k) = i) [0..<length new_flat])"

definition view_reorder :: "leaf list \<Rightarrow> entry list \<Rightarrow> entry list result" where
  "view_reorder new_flat ops =
     and_then (raise_if (length new_flat \<noteq> length (all_ops ops)
                  \<or> leaf_id ` set new_flat \<noteq> leaf_id ` set (all_ops ops))
                (RuntimeError ''a wholesale rewrite of the view added or dropped ops''))
       (settle (rank_in new_flat) ops)"

section \<open>Building the tree and flattening it\<close>

definition leaf_path :: "leaf \<Rightarrow> int list" where
  "leaf_path l = counted_loop_path (leaf_op l) False"

definition entry_path :: "entry \<Rightarrow> int list" where
  "entry_path e = (case e of Leaf l \<Rightarrow> leaf_path l | LoopNode _ _ _ _ _ \<Rightarrow> [])"

definition add_carry :: "carry list \<Rightarrow> entry \<Rightarrow> carry list" where
  "add_carry records e = (case e of LoopNode _ _ _ _ _ \<Rightarrow> records | Leaf l \<Rightarrow>
     (case leaf_carry l of None \<Rightarrow> records
      | Some r \<Rightarrow> if list_ex (\<lambda>q. carry_id q = carry_id r) records then records else records @ [r]))"

definition carries_of :: "entry list \<Rightarrow> carry list" where
  "carries_of body = foldl add_carry [] body"

text \<open>\<open>ops[i].loop_info.loop_count[depth]\<close>.\<close>

definition trip_count_of :: "entry \<Rightarrow> nat \<Rightarrow> string result" where
  "trip_count_of e depth = (case e of LoopNode _ _ _ _ _ \<Rightarrow> Inl AttributeError
     | Leaf l \<Rightarrow> (case op_loop_info (leaf_op l) of None \<Rightarrow> Inl AttributeError
         | Some li \<Rightarrow> if depth < length (loop_count li) then Inr (loop_count li ! depth) else Inl IndexError))"

text \<open>The operations up to the last member of a loop, and those after it.\<close>

definition upto_last :: "('a \<Rightarrow> bool) \<Rightarrow> 'a list \<Rightarrow> 'a list" where
  "upto_last P xs = rev (dropWhile (\<lambda>x. \<not> P x) (rev xs))"

definition after_last :: "('a \<Rightarrow> bool) \<Rightarrow> 'a list \<Rightarrow> 'a list" where
  "after_last P xs = rev (takeWhile (\<lambda>x. \<not> P x) (rev xs))"

lemma upto_after_last [simp]: "upto_last P xs @ after_last P xs = xs"
  unfolding upto_last_def after_last_def by (metis rev_append rev_rev_ident takeWhile_dropWhile_id)

lemma length_after_last: "P x \<Longrightarrow> length (after_last P (x # xs)) \<le> length xs"
proof -
  assume "P x"
  then have "upto_last P (x # xs) \<noteq> []" by (auto simp: upto_last_def dropWhile_eq_Nil_conv)
  then have "0 < length (upto_last P (x # xs))" by simp
  moreover have "length (upto_last P (x # xs)) + length (after_last P (x # xs)) = Suc (length xs)"
    by (metis length_Cons length_append upto_after_last)
  ultimately show ?thesis by linarith
qed

lemma length_upto_last: "length (upto_last P xs) \<le> length xs"
  by (metis le_add1 length_append upto_after_last)

definition max_depth :: "entry list \<Rightarrow> nat" where
  "max_depth ops = foldr (\<lambda>e m. max (length (entry_path e)) m) ops 0"

lemma max_depth_ge: "e \<in> set ops \<Longrightarrow> length (entry_path e) \<le> max_depth ops"
  by (induction ops) (auto simp: max_depth_def)

lemma max_depth_append: "max_depth (xs @ ys) = max (max_depth xs) (max_depth ys)"
  by (induction xs) (auto simp: max_depth_def)

lemma max_depth_upto: "max_depth (upto_last P xs) \<le> max_depth xs"
  using max_depth_append [of "upto_last P xs" "after_last P xs"] by simp

text \<open>The list threaded as \<open>counter\<close> is a number here: the nodes made so far.\<close>

function wrap_ops ::
  "entry list \<Rightarrow> nat \<Rightarrow> int list \<Rightarrow> (int \<rightharpoonup> string) \<Rightarrow> nat \<Rightarrow> (entry list \<times> nat) result" where
  "wrap_ops [] depth pre inductions counter = Inr ([], counter)"
| "wrap_ops (op # ops) depth pre inductions counter =
     (let path = entry_path op in
      if length path \<le> depth \<or> take depth path \<noteq> pre then
        rbind (wrap_ops ops depth pre inductions counter) (\<lambda>(out, c). Inr (op # out, c))
      else
        (let key = take (depth + 1) path;
             member = (\<lambda>e. take (depth + 1) (entry_path e) = key)
         in rbind (trip_count_of op depth) (\<lambda>tc.
            rbind (wrap_ops (upto_last member (op # ops)) (depth + 1) key inductions (counter + 1)) (\<lambda>(body, c1).
            rbind (wrap_ops (after_last member (op # ops)) depth pre inductions c1) (\<lambda>(out, c2).
            Inr (LoopNode counter body (inductions (last key)) tc (carries_of body) # out, c2))))))"
  by pat_completeness auto

termination wrap_ops
proof (relation "measures [\<lambda>(ops, d, _). length ops, \<lambda>(ops, d, _). max_depth ops - d]", goal_cases)
  case (3 op ops depth pre inductions counter path key member tc)
  let ?run = "upto_last member (op # ops)"
  have "depth < max_depth (op # ops)"
    using 3(1,2) max_depth_ge [of op "op # ops"] by simp
  moreover have "max_depth ?run \<le> max_depth (op # ops)" by (rule max_depth_upto)
  moreover have "length ?run \<le> length (op # ops)" by (rule length_upto_last)
  ultimately show ?case by auto
next
  case (4 op ops depth pre inductions counter path key member)
  then show ?case using length_after_last [of member op ops] by (simp add: less_Suc_eq_le)
qed auto

text \<open>\<open>build\<close>: the switch \<open>BUILD_LOOP_NODES\<close>; a list without paths is left as it is.\<close>

definition collapse :: "bool \<Rightarrow> (int \<rightharpoonup> string) \<Rightarrow> entry list \<Rightarrow> entry list result" where
  "collapse build inductions ops =
     (if \<not> build \<or> \<not> list_ex (\<lambda>e. entry_path e \<noteq> []) ops then Inr ops
      else rbind (wrap_ops ops 0 [] inductions 0) (\<lambda>(out, _). Inr out))"

definition expand :: "entry list \<Rightarrow> entry list" where
  "expand ops = (if \<not> has_loop_nodes ops then ops else map Leaf (all_ops ops))"

section \<open>Peeling non-members\<close>

definition node_key :: "entry list \<Rightarrow> nat \<Rightarrow> int list option" where
  "node_key body depth = map_option (\<lambda>l. take (depth + 1) (leaf_path l))
     (find (\<lambda>l. depth < length (leaf_path l)) (all_ops body))"

definition belongs :: "int list \<Rightarrow> entry \<Rightarrow> bool" where
  "belongs key e \<longleftrightarrow> is_loop_node e \<or> take (length key) (entry_path e) = key"

lemma size_append_entries: "size_list f (xs @ ys) = size_list f xs + size_list f ys"
  by (induction xs) auto

lemma size_upto_last: "size_list f (upto_last P xs) \<le> size_list f xs"
  by (metis le_add1 size_append_entries upto_after_last)

lemma size_dropWhile: "size_list f (dropWhile P xs) \<le> size_list f xs"
  by (induction xs) auto

text \<open>The loop of the code goes from the last entry to the first; the entries do not interact.\<close>

function peel :: "nat \<Rightarrow> entry list \<Rightarrow> entry list" where
  "peel depth [] = []"
| "peel depth (Leaf l # es) = Leaf l # peel depth es"
| "peel depth (LoopNode n b i t c # es) =
     (case node_key b depth of
        None \<Rightarrow> [LoopNode n b i t c]
      | Some key \<Rightarrow>
          (let lead = takeWhile (\<lambda>e. \<not> belongs key e) b;
               rest = dropWhile (\<lambda>e. \<not> belongs key e) b;
               trail = after_last (belongs key) rest
           in lead @ [LoopNode n (peel (depth + 1) (upto_last (belongs key) rest)) i t c] @ trail))
     @ peel depth es"
  by pat_completeness auto

termination peel
proof (relation "measure (\<lambda>(d, es). size_list size es)", goal_cases)
  case (3 depth n b i t c es key lead rest trail)
  then have "size_list size (upto_last (belongs key) rest) \<le> size_list size b"
    by (meson le_trans size_dropWhile size_upto_last)
  then show ?case by simp
qed auto

definition peel_non_members :: "entry list \<Rightarrow> entry list" where
  "peel_non_members ops = (if has_loop_nodes ops then peel 0 ops else ops)"

section \<open>Running a pass on the flat list\<close>

fun inductions_of :: "nat \<Rightarrow> entry list \<Rightarrow> (int \<rightharpoonup> string) \<Rightarrow> (int \<rightharpoonup> string)" where
  "inductions_of depth [] out = out"
| "inductions_of depth (Leaf l # es) out = inductions_of depth es out"
| "inductions_of depth (LoopNode n b i t c # es) out =
     (let out' = (case i of None \<Rightarrow> out | Some v \<Rightarrow>
            (case find (\<lambda>l. depth < length (leaf_path l)) (all_ops b) of
               None \<Rightarrow> out | Some l \<Rightarrow> out(leaf_path l ! depth \<mapsto> v)))
      in inductions_of depth es (inductions_of (depth + 1) b out'))"

definition expanded :: "bool \<Rightarrow> (entry list \<Rightarrow> entry list) \<Rightarrow> entry list \<Rightarrow> entry list result" where
  "expanded build pass ops =
     (if \<not> has_loop_nodes ops then Inr (pass ops)
      else collapse build (inductions_of 0 ops Map.empty) (pass (expand ops)))"

section \<open>The loop checker\<close>

datatype violation =
    AppearsTwice string
  | StrayInduction string "string list"
  | MissingCarryUpdate nat string

fun walk :: "entry list \<Rightarrow> entry list \<Rightarrow> (leaf \<times> entry list) list" where
  "walk [] enclosing = []"
| "walk (Leaf l # es) enclosing = (l, enclosing) # walk es enclosing"
| "walk (LoopNode n b i t c # es) enclosing =
     walk b (enclosing @ [LoopNode n b i t c]) @ walk es enclosing"

definition node_inductions :: "entry list \<Rightarrow> string list" where
  "node_inductions nodes = List.map_filter node_induction nodes"

fun all_inductions :: "entry list \<Rightarrow> string list" where
  "all_inductions [] = []"
| "all_inductions (Leaf l # es) = all_inductions es"
| "all_inductions (LoopNode n b i t c # es) =
     (case i of None \<Rightarrow> [] | Some v \<Rightarrow> [v]) @ all_inductions b @ all_inductions es"

definition index_symbols :: "leaf \<Rightarrow> string list" where
  "index_symbols l = (case leaf_symbols l of None \<Rightarrow> [] | Some ss \<Rightarrow> ss)"

definition stray_symbols :: "string list \<Rightarrow> leaf \<Rightarrow> entry list \<Rightarrow> string list" where
  "stray_symbols inds l enclosing =
     sort (remdups (filter (\<lambda>s. s \<in> set inds \<and> s \<notin> set (node_inductions enclosing)) (index_symbols l)))"

fun leaf_violations :: "string list \<Rightarrow> nat list \<Rightarrow> (leaf \<times> entry list) list \<Rightarrow> violation list" where
  "leaf_violations inds seen [] = []"
| "leaf_violations inds seen ((l, enclosing) # rest) =
     (if leaf_id l \<in> set seen then [AppearsTwice (leaf_name l)] else [])
     @ (if inds = [] then []
        else (let stray = stray_symbols inds l enclosing in
              if stray = [] then [] else [StrayInduction (leaf_name l) stray]))
     @ leaf_violations inds (leaf_id l # seen) rest"

fun carry_violations :: "entry list \<Rightarrow> violation list" where
  "carry_violations [] = []"
| "carry_violations (Leaf l # es) = carry_violations es"
| "carry_violations (LoopNode n b i t c # es) =
     map (\<lambda>r. MissingCarryUpdate n (update_name r))
       (filter (\<lambda>r. update_name r \<notin> leaf_name ` set (all_ops b)) c)
     @ carry_violations b @ carry_violations es"

definition find_violations :: "entry list \<Rightarrow> violation list" where
  "find_violations ops = leaf_violations (all_inductions ops) [] (walk ops []) @ carry_violations ops"

text \<open>\<open>checking\<close>: \<open>checking_enabled()\<close> and not \<open>in_building_loop()\<close>.\<close>

definition check_loops :: "bool \<Rightarrow> entry list \<Rightarrow> violation list + unit" where
  "check_loops checking ops =
     (if \<not> checking \<or> \<not> has_loop_nodes ops then Inr ()
      else if find_violations ops = [] then Inr () else Inl (find_violations ops))"

section \<open>The view behaves like the flat list\<close>

lemma all_ops_append [simp]: "all_ops (xs @ ys) = all_ops xs @ all_ops ys"
proof (induction xs)
  case (Cons e es)
  then show ?case by (cases e) simp_all
qed simp

lemma all_ops_map_Leaf [simp]: "all_ops (map Leaf ls) = ls"
  by (induction ls) simp_all

lemma next_entry_iff:
  "next_entry a = ([], j) \<longleftrightarrow> (\<exists>j'. a = ([], j') \<and> j = Suc j')"
  "next_entry a = (k # p, j) \<longleftrightarrow> (\<exists>k'. a = (k' # p, j) \<and> k = Suc k')"
  by (cases a, cases "fst a"; auto simp: next_entry_def)+

lemma owning_here: "owning_list es t = Some ([], j) \<Longrightarrow> \<exists>l1 e l2. es = l1 @ e # l2 \<and> length l1 = j \<and> ident e = t"
proof (induction es t arbitrary: j rule: owning_list.induct)
  case (2 l es t)
  show ?case
  proof (cases "Inl (leaf_id l) = t")
    case True
    then show ?thesis using 2(2) by (intro exI [of _ "[]"]) (auto simp: ident_def)
  next
    case False
    then obtain j' where "owning_list es t = Some ([], j')" "j = Suc j'"
      using 2(2) by (auto simp: next_entry_iff)
    then obtain l1 e l2 where "es = l1 @ e # l2" "length l1 = j'" "ident e = t" using 2(1) [OF False] by blast
    then show ?thesis using \<open>j = Suc j'\<close> by (intro exI [of _ "Leaf l # l1"] exI [of _ e] exI [of _ l2]) simp
  qed
next
  case (3 n b i tc c es t)
  show ?case
  proof (cases "Inr n = t")
    case True
    then show ?thesis using 3(3) by (intro exI [of _ "[]"]) (auto simp: ident_def)
  next
    case False
    then have nb: "owning_list b t = None" using 3(3) by (auto split: option.splits)
    then obtain j' where "owning_list es t = Some ([], j')" "j = Suc j'"
      using False 3(3) by (auto simp: next_entry_iff)
    then obtain l1 e l2 where "es = l1 @ e # l2" "length l1 = j'" "ident e = t" using 3(2) [OF False nb] by blast
    then show ?thesis using \<open>j = Suc j'\<close>
      by (intro exI [of _ "LoopNode n b i tc c # l1"] exI [of _ e] exI [of _ l2]) simp
  qed
qed simp

lemma owning_below:
  "owning_list es t = Some (k # p, j) \<Longrightarrow>
   \<exists>l1 n b i tc c l2. es = l1 @ LoopNode n b i tc c # l2 \<and> length l1 = k \<and> owning_list b t = Some (p, j)"
proof (induction es t arbitrary: k rule: owning_list.induct)
  case (2 l es t)
  then obtain k' where k: "Inl (leaf_id l) \<noteq> t" "owning_list es t = Some (k' # p, j)" "k = Suc k'"
    by (auto simp: next_entry_iff split: if_splits)
  then obtain l1 n b i tc c l2 where "es = l1 @ LoopNode n b i tc c # l2" "length l1 = k'" "owning_list b t = Some (p, j)"
    using 2(1) by blast
  then show ?case using k(3) by (intro exI [of _ "Leaf l # l1"]) simp
next
  case (3 n b i tc c es t)
  show ?case
  proof (cases "owning_list b t")
    case None
    then obtain k' where k: "Inr n \<noteq> t" "owning_list es t = Some (k' # p, j)" "k = Suc k'"
      using 3(3) by (auto simp: next_entry_iff split: if_splits)
    then obtain l1 n' b' i' tc' c' l2 where
      "es = l1 @ LoopNode n' b' i' tc' c' # l2" "length l1 = k'" "owning_list b' t = Some (p, j)"
      using 3(2) None by blast
    then show ?thesis using k(3) by (intro exI [of _ "LoopNode n b i tc c # l1"]) simp
  next
    case (Some a)
    then have "k = 0" "a = (p, j)" using 3(3) by (cases a; auto split: if_splits)+
    then show ?thesis using Some by (intro exI [of _ "[]"]) simp
  qed
qed simp

text \<open>An edit at the address of an entry replaces that entry's part of the flat list.\<close>

lemma edit_at_spec:
  assumes "owning_list es t = Some (p, j)"
  shows "\<exists>e pre post. ident e = t \<and> all_ops es = pre @ all_ops [e] @ post \<and>
    (\<forall>f X. (\<forall>l1 l2. length l1 = j \<longrightarrow> f (l1 @ e # l2) = l1 @ X @ l2) \<longrightarrow>
       all_ops (edit_at p f es) = pre @ all_ops X @ post)"
  using assms
proof (induction p arbitrary: es)
  case Nil
  obtain l1 e l2 where d: "es = l1 @ e # l2" "length l1 = j" "ident e = t" using owning_here [OF Nil] by blast
  have split: "all_ops (e # l2) = all_ops [e] @ all_ops l2" using all_ops_append [of "[e]" l2] by simp
  show ?case
  proof (rule exI [of _ e], rule exI [of _ "all_ops l1"], rule exI [of _ "all_ops l2"], intro conjI allI impI)
    show "ident e = t" by (rule d(3))
    show "all_ops es = all_ops l1 @ all_ops [e] @ all_ops l2" by (simp add: d(1) split)
    fix f X assume "\<forall>l1 l2. length l1 = j \<longrightarrow> f (l1 @ e # l2) = l1 @ X @ l2"
    then have "f es = l1 @ X @ l2" using d(1,2) by blast
    then show "all_ops (edit_at [] f es) = all_ops l1 @ all_ops X @ all_ops l2" by simp
  qed
next
  case (Cons k p)
  obtain l1 n b i tc c l2 where d: "es = l1 @ LoopNode n b i tc c # l2" "length l1 = k" "owning_list b t = Some (p, j)"
    using owning_below [OF Cons.prems] by blast
  obtain e pre post where ih: "ident e = t" "all_ops b = pre @ all_ops [e] @ post"
    "\<forall>f X. (\<forall>l1 l2. length l1 = j \<longrightarrow> f (l1 @ e # l2) = l1 @ X @ l2) \<longrightarrow>
       all_ops (edit_at p f b) = pre @ all_ops X @ post"
    using Cons.IH [OF d(3)] by blast
  show ?case
  proof (rule exI [of _ e], rule exI [of _ "all_ops l1 @ pre"], rule exI [of _ "post @ all_ops l2"], intro conjI allI impI)
    show "ident e = t" by (rule ih(1))
    show "all_ops es = (all_ops l1 @ pre) @ all_ops [e] @ post @ all_ops l2" by (simp add: d(1) ih(2))
    fix f X assume "\<forall>l1 l2. length l1 = j \<longrightarrow> f (l1 @ e # l2) = l1 @ X @ l2"
    then have "all_ops (edit_at p f b) = pre @ all_ops X @ post" using ih(3) by blast
    then show "all_ops (edit_at (k # p) f es) = (all_ops l1 @ pre) @ all_ops X @ post @ all_ops l2"
      using d(2) by (simp add: d(1) body_of_def set_body_def list_update_append nth_append)
  qed
qed

lemma owning_complete: "l \<in> set (all_ops es) \<Longrightarrow> owning_list es (Inl (leaf_id l)) \<noteq> None"
  by (induction es rule: all_ops.induct) (auto split: option.splits)

text \<open>An edit of the entry at an address that holds the \<open>k\<close>th leaf.\<close>

definition edits_leaf :: "entry list \<Rightarrow> nat \<Rightarrow> nat list \<Rightarrow> nat \<Rightarrow> bool" where
  "edits_leaf es k p j \<longleftrightarrow> (\<forall>f X. (\<forall>l1 l2. length l1 = j \<longrightarrow> f (l1 @ Leaf (all_ops es ! k) # l2) = l1 @ X @ l2) \<longrightarrow>
       all_ops (edit_at p f es) = take k (all_ops es) @ all_ops X @ drop (Suc k) (all_ops es))"

lemma edits_leafD:
  "edits_leaf es k p j \<Longrightarrow> \<forall>l1 l2. length l1 = j \<longrightarrow> f (l1 @ Leaf (all_ops es ! k) # l2) = l1 @ X @ l2 \<Longrightarrow>
   all_ops (edit_at p f es) = take k (all_ops es) @ all_ops X @ drop (Suc k) (all_ops es)"
  by (simp add: edits_leaf_def)

lemma edit_flat:
  assumes "distinct (map leaf_id (all_ops es))" "k < length (all_ops es)"
  shows "\<exists>p j. locate es (all_ops es ! k) = Inr (p, j) \<and> edits_leaf es k p j"
proof -
  let ?l = "all_ops es ! k"
  obtain p j where a: "owning_list es (Inl (leaf_id ?l)) = Some (p, j)"
    using owning_complete [of ?l es] assms(2) by auto
  obtain e pre post where e: "ident e = Inl (leaf_id ?l)" "all_ops es = pre @ all_ops [e] @ post"
    and ed: "\<And>f X. (\<forall>l1 l2. length l1 = j \<longrightarrow> f (l1 @ e # l2) = l1 @ X @ l2) \<Longrightarrow> all_ops (edit_at p f es) = pre @ all_ops X @ post"
    using edit_at_spec [OF a] by blast
  obtain l where l: "e = Leaf l" "leaf_id l = leaf_id ?l" using e(1) by (cases e) (auto simp: ident_def)
  have flat: "all_ops es = pre @ l # post" using e(2) l(1) by simp
  have "all_ops es ! length pre = l" "length pre < length (all_ops es)" using flat by simp_all
  then have "length pre = k"
    using assms l(2) nth_eq_iff_index_eq [OF assms(1), of "length pre" k] by simp
  then have "pre = take k (all_ops es)" "post = drop (Suc k) (all_ops es)" "e = Leaf ?l" using flat l by auto
  then show ?thesis using a ed unfolding edits_leaf_def by (auto simp: locate_def holder_def)
qed

text \<open>A wholesale reorder neither adds nor drops an operation.\<close>

lemma all_ops_mset: "mset es = mset es' \<Longrightarrow> mset (all_ops es) = mset (all_ops es')"
proof -
  have total: "mset (all_ops xs) = \<Sum>\<^sub># (image_mset (\<lambda>e. mset (all_ops [e])) (mset xs))" for xs
  proof (induction xs)
    case (Cons e xs)
    then show ?case using all_ops_append [of "[e]" xs] by simp
  qed simp
  show "mset es = mset es' \<Longrightarrow> ?thesis" by (simp only: total [of es] total [of es'])
qed

lemma first_ranks_length: "first_ranks rank es = Inr ks \<Longrightarrow> length ks = length es"
  by (induction es arbitrary: ks rule: all_ops.induct) (auto split: if_splits)

lemma sort_by_rank_mset: "sort_by_rank rank es = Inr es' \<Longrightarrow> mset es' = mset es"
proof -
  assume "sort_by_rank rank es = Inr es'"
  then obtain ks where k: "first_ranks rank es = Inr ks" "es' = map snd (sort_key fst (zip ks es))"
    by (auto simp: sort_by_rank_def)
  have "mset es' = image_mset snd (mset (zip ks es))" unfolding k(2) mset_map by simp
  also have "\<dots> = mset (map snd (zip ks es))" by (simp only: mset_map)
  finally show ?thesis using first_ranks_length [OF k(1)] by simp
qed

lemma settle_bodies_mset: "settle_bodies rank es = Inr es' \<Longrightarrow> mset (all_ops es') = mset (all_ops es)"
proof (induction rank es arbitrary: es' rule: settle_bodies.induct)
  case (3 rank n b i t c es)
  then obtain b1 b2 e2 where d: "settle_bodies rank b = Inr b1" "sort_by_rank rank b1 = Inr b2"
    "settle_bodies rank es = Inr e2" "es' = LoopNode n b2 i t c # e2" by auto
  then show ?case using 3(1) [OF d(1)] 3(2) [OF d(3)] all_ops_mset [OF sort_by_rank_mset [OF d(2)]] by auto
qed auto

lemma view_reorder_mset: "view_reorder new_flat ops = Inr ops' \<Longrightarrow> mset (all_ops ops') = mset (all_ops ops)"
  unfolding view_reorder_def settle_def
  by (auto dest!: settle_bodies_mset all_ops_mset [OF sort_by_rank_mset])

datatype view_edit = AppendOp leaf | InsertOp int leaf | RemoveOp leaf | SetOp int leaf | DelOp int

definition view_run :: "(leaf \<Rightarrow> leaf \<Rightarrow> bool) \<Rightarrow> view_edit \<Rightarrow> entry list \<Rightarrow> entry list result" where
  "view_run eq ed ops = (case ed of AppendOp op \<Rightarrow> Inr (view_append op ops) | InsertOp i op \<Rightarrow> view_insert i op ops
     | RemoveOp op \<Rightarrow> view_remove eq op ops | SetOp i op \<Rightarrow> view_setitem i op ops | DelOp i \<Rightarrow> view_delitem i ops)"

text \<open>The same calls on a Python list of the leaves.\<close>

definition list_run :: "(leaf \<Rightarrow> leaf \<Rightarrow> bool) \<Rightarrow> view_edit \<Rightarrow> leaf list \<Rightarrow> leaf list result" where
  "list_run eq ed flat = (case ed of
       AppendOp op \<Rightarrow> Inr (flat @ [op])
     | InsertOp i op \<Rightarrow> Inr (list_insert (nat (min (int (length flat)) (max 0 (if i < 0 then i + int (length flat) else i)))) op flat)
     | RemoveOp op \<Rightarrow> rbind (first_index eq flat op) (\<lambda>k. Inr (list_delete k flat))
     | SetOp i op \<Rightarrow> rbind (py_index i (length flat)) (\<lambda>k. Inr (flat[k := op]))
     | DelOp i \<Rightarrow> rbind (py_index i (length flat)) (\<lambda>k. Inr (list_delete k flat)))"

lemma first_index_less: "first_index eq flat op = Inr k \<Longrightarrow> k < length flat"
  by (auto simp: first_index_def find_Some_iff split: option.splits)

lemma py_index_less: "py_index i n = Inr k \<Longrightarrow> k < n"
  by (auto simp: py_index_def split: if_splits)

lemma edit_delete:
  assumes "distinct (map leaf_id (all_ops es))" "k < length (all_ops es)"
  shows "rbind (rbind (locate es (all_ops es ! k)) (\<lambda>(p, j). Inr (edit_at p (list_delete j) es))) (\<lambda>r. Inr (all_ops r))
    = Inr (list_delete k (all_ops es))"
proof -
  obtain p j where a: "locate es (all_ops es ! k) = Inr (p, j)" "edits_leaf es (k) p j"
      using edit_flat [OF assms] by blast
  show ?thesis using edits_leafD [OF a(2), of "list_delete j" "[]"] by (simp add: a(1) list_delete_def)
qed

lemma view_insert_flat:
  assumes "distinct (map leaf_id (all_ops es))"
  shows "rbind (view_insert i op es) (\<lambda>r. Inr (all_ops r)) = list_run eq (InsertOp i op) (all_ops es)"
proof -
  let ?n = "int (length (all_ops es))"
  define i' where "i' = (if i < 0 then max (i + ?n) 0 else i)"
  have clip: "min ?n (max 0 (if i < 0 then i + ?n else i)) = min ?n i'" by (simp add: i'_def max.commute)
  show ?thesis
  proof (cases "i' \<ge> ?n")
    case True
    then show ?thesis unfolding list_run_def view_edit.case clip
      by (simp add: view_insert_def i'_def [symmetric] list_insert_def Let_def)
  next
    case False
    then have k: "nat i' < length (all_ops es)" by (auto simp: i'_def split: if_splits)
    obtain p j where a: "locate es (all_ops es ! nat i') = Inr (p, j)" "edits_leaf es (nat i') p j"
      using edit_flat [OF assms k] by blast
    have "all_ops (edit_at p (list_insert j (Leaf op)) es) = list_insert (nat i') op (all_ops es)"
      using edits_leafD [OF a(2), of "list_insert j (Leaf op)" "[Leaf op, Leaf (all_ops es ! nat i')]"] k
      by (simp add: list_insert_def Cons_nth_drop_Suc)
    then show ?thesis unfolding list_run_def view_edit.case clip
      using False a(1) by (simp add: view_insert_def i'_def [symmetric] Let_def)
  qed
qed

lemma view_setitem_flat:
  assumes "distinct (map leaf_id (all_ops es))"
  shows "rbind (view_setitem i op es) (\<lambda>r. Inr (all_ops r)) = list_run eq (SetOp i op) (all_ops es)"
proof (cases "py_index i (length (all_ops es))")
  case (Inr k)
  note k = py_index_less [OF Inr]
  obtain p j where a: "locate es (all_ops es ! k) = Inr (p, j)" "edits_leaf es (k) p j"
      using edit_flat [OF assms k] by blast
  show ?thesis using edits_leafD [OF a(2), of "\<lambda>l. l[j := Leaf op]" "[Leaf op]"] k Inr a(1)
    by (simp add: view_setitem_def list_run_def list_update_append upd_conv_take_nth_drop)
qed (simp add: view_setitem_def list_run_def)

section \<open>The tree has the loops of the group paths\<close>

lemma wrap_flat: "wrap_ops ops d pre ind c = Inr (out, c') \<Longrightarrow> all_ops out = all_ops ops"
proof (induction ops d pre ind c arbitrary: out c' rule: wrap_ops.induct)
  case (2 op ops d pre ind c)
  let ?key = "take (d + 1) (entry_path op)"
  let ?member = "\<lambda>e. take (d + 1) (entry_path e) = ?key"
  show ?case
  proof (cases "length (entry_path op) \<le> d \<or> take d (entry_path op) \<noteq> pre")
    case True
    then obtain out1 where "wrap_ops ops d pre ind c = Inr (out1, c')" "out = op # out1" using "2.prems" by auto
    then show ?thesis using "2.IH"(1) [OF refl True] by (cases op) auto
  next
    case False
    then obtain tc body c1 out2 where w: "wrap_ops (upto_last ?member (op # ops)) (d + 1) ?key ind (c + 1) = Inr (body, c1)"
      "wrap_ops (after_last ?member (op # ops)) d pre ind c1 = Inr (out2, c')"
      "out = LoopNode c body (ind (last ?key)) tc (carries_of body) # out2"
      using "2.prems" by (auto simp: Let_def split: prod.splits)
    have "all_ops body = all_ops (upto_last ?member (op # ops))" by (rule "2.IH"(2) [OF refl False refl refl w(1)])
    moreover have "all_ops out2 = all_ops (after_last ?member (op # ops))" by (rule "2.IH"(3) [OF refl False refl refl w(2)])
    ultimately show ?thesis using w(3) by (metis all_ops.simps(3) all_ops_append upto_after_last)
  qed
qed simp

text \<open>\<open>loop_count\<close> has an entry for each level, as \<open>CoarseTileInfo\<close> promises.\<close>

definition counts_complete :: "leaf \<Rightarrow> bool" where
  "counts_complete l = (case op_loop_info (leaf_op l) of None \<Rightarrow> True
     | Some li \<Rightarrow> length (leaf_path l) \<le> length (loop_count li))"

lemma trip_count_defined:
  "counts_complete l \<Longrightarrow> d < length (leaf_path l) \<Longrightarrow> \<exists>tc. trip_count_of (Leaf l) d = Inr tc"
  by (cases "op_loop_info (leaf_op l)")
    (auto simp: trip_count_of_def counts_complete_def leaf_path_def counted_loop_path_def group_path_def
      split: if_splits)

lemma wrap_total:
  assumes "\<forall>l. Leaf l \<in> set ops \<longrightarrow> counts_complete l"
  shows "\<exists>out c'. wrap_ops ops d pre ind c = Inr (out, c')"
  using assms
proof (induction ops d pre ind c rule: wrap_ops.induct)
  case (2 op ops d pre ind c)
  let ?key = "take (d + 1) (entry_path op)"
  let ?member = "\<lambda>e. take (d + 1) (entry_path e) = ?key"
  show ?case
  proof (cases "length (entry_path op) \<le> d \<or> take d (entry_path op) \<noteq> pre")
    case True
    then show ?thesis using "2.IH"(1) [OF refl True] "2.prems" by auto
  next
    case False
    then have "d < length (entry_path op)" by simp
    then obtain l where l: "op = Leaf l" "d < length (leaf_path l)" by (cases op) (auto simp: entry_path_def)
    then obtain tc where tc: "trip_count_of op d = Inr tc" using trip_count_defined "2.prems" by force
    have sub: "set (upto_last ?member (op # ops)) \<subseteq> set (op # ops)" "set (after_last ?member (op # ops)) \<subseteq> set (op # ops)"
      by (metis Un_upper1 set_append upto_after_last) (metis Un_upper2 set_append upto_after_last)
    obtain body c1 where b: "wrap_ops (upto_last ?member (op # ops)) (d + 1) ?key ind (c + 1) = Inr (body, c1)"
      using "2.IH"(2) [OF refl False refl refl] "2.prems" sub(1) by blast
    obtain out2 c2 where o: "wrap_ops (after_last ?member (op # ops)) d pre ind c1 = Inr (out2, c2)"
      using "2.IH"(3) [OF refl False refl refl] "2.prems" sub(2) by blast
    show ?thesis using False tc b o by (simp add: Let_def)
  qed
qed simp

lemma upto_last_Nil [simp]: "upto_last P [] = []"
  by (simp add: upto_last_def)

lemma upto_last_Cons: "upto_last P (x # xs) = (if P x \<or> list_ex P xs then x # upto_last P xs else [])"
proof (cases "list_ex P xs")
  case True
  then have "\<exists>y \<in> set (rev xs). \<not> \<not> P y" by (auto simp: list_ex_iff)
  then show ?thesis using True by (auto simp: upto_last_def dropWhile_append)
next
  case False
  then have "dropWhile (\<lambda>x. \<not> P x) (rev xs) = []" by (auto simp: list_ex_iff)
  then show ?thesis using False by (simp add: upto_last_def dropWhile_append)
qed

lemma after_last_no: "x \<in> set (after_last P xs) \<Longrightarrow> \<not> P x"
  unfolding after_last_def by (auto dest: set_takeWhileD)

lemma upto_last_map: "upto_last P (map f xs) = map f (upto_last (\<lambda>x. P (f x)) xs)"
  by (simp add: upto_last_def rev_map dropWhile_map comp_def)

lemma upto_last_mono: "set (upto_last P xs) \<subseteq> set (upto_last P (xs @ ys))"
  by (induction xs) (auto simp: upto_last_Cons)

text \<open>The operations of a loop, and of every loop inside it, are contiguous in program order.\<close>

fun contiguous :: "int list list \<Rightarrow> bool" where
  "contiguous [] = True"
| "contiguous (a # ps) = (list_all (\<lambda>m. list_all (\<lambda>v. take m v = take m a)
       (upto_last (\<lambda>b. take m b = take m a) (a # ps))) [0..<Suc (length a)] \<and> contiguous ps)"

lemma contiguous_suffix: "contiguous (xs @ ys) \<Longrightarrow> contiguous ys"
  by (induction xs) auto

lemma contiguous_prefix: "contiguous (xs @ ys) \<Longrightarrow> contiguous xs"
proof (induction xs)
  case (Cons a xs)
  have sub: "set (upto_last (\<lambda>b. take m b = take m a) (a # xs)) \<subseteq> set (upto_last (\<lambda>b. take m b = take m a) (a # xs @ ys))" for m
    using upto_last_mono [of _ "a # xs" ys] by simp
  have "list_all (\<lambda>v. take m v = take m a) (upto_last (\<lambda>b. take m b = take m a) (a # xs))" if "m \<in> set [0..<Suc (length a)]" for m
    using Cons.prems that sub [of m] unfolding append_Cons contiguous.simps list_all_iff by blast
  then show ?case using Cons unfolding append_Cons contiguous.simps list_all_iff by blast
qed simp

lemma contiguous_run:
  assumes "contiguous (map entry_path (e # es))" "m \<le> length (entry_path e)"
    and "x \<in> set (upto_last (\<lambda>x. take m (entry_path x) = take m (entry_path e)) (e # es))"
  shows "take m (entry_path x) = take m (entry_path e)"
proof -
  have "m \<in> set [0..<Suc (length (entry_path e))]" using assms(2) by (simp add: less_Suc_eq_le del: upt_Suc)
  moreover have "entry_path x \<in> set (upto_last (\<lambda>b. take m b = take m (entry_path e)) (map entry_path (e # es)))"
    unfolding upto_last_map using assms(3) by simp
  ultimately show ?thesis using assms(1) unfolding list.map contiguous.simps list_all_iff by blast
qed

text \<open>
  The nodes of a tree with their depths, and what a node is to hold.  The trip count of a node
  at depth \<open>k\<close> is the count its first operation records for that level.
\<close>

fun loop_nodes :: "nat \<Rightarrow> entry list \<Rightarrow> (nat \<times> entry) list" where
  "loop_nodes d [] = []"
| "loop_nodes d (Leaf l # es) = loop_nodes d es"
| "loop_nodes d (LoopNode n b i t c # es) = (d, LoopNode n b i t c) # loop_nodes (Suc d) b @ loop_nodes d es"

definition counted_as :: "leaf \<Rightarrow> nat \<Rightarrow> string \<Rightarrow> bool" where
  "counted_as l k tc \<longleftrightarrow> (\<exists>li. op_loop_info (leaf_op l) = Some li \<and> k < length (loop_count li) \<and> tc = loop_count li ! k)"

definition exact_node :: "(int \<rightharpoonup> string) \<Rightarrow> leaf list \<Rightarrow> nat \<Rightarrow> entry \<Rightarrow> bool" where
  "exact_node ind ls k n \<longleftrightarrow> (\<exists>key. length key = Suc k \<and> node_induction n = ind (last key)
     \<and> node_carries n = carries_of (node_body n) \<and> all_ops (node_body n) \<noteq> []
     \<and> counted_as (hd (all_ops (node_body n))) k (node_trip_count n)
     \<and> all_ops (node_body n) = filter (\<lambda>l. take (Suc k) (leaf_path l) = key) ls
     \<and> (\<forall>l. Leaf l \<in> set (node_body n) \<longrightarrow> leaf_path l = key))"

lemma exact_node_extend:
  assumes "exact_node ind ys k n" "d \<le> k"
    and "\<forall>x \<in> set xs \<union> set zs. \<forall>y \<in> set ys. d < length (leaf_path y) \<longrightarrow>
           take (Suc d) (leaf_path x) \<noteq> take (Suc d) (leaf_path y)"
  shows "exact_node ind (xs @ ys @ zs) k n"
proof -
  obtain key where k: "length key = Suc k" "node_induction n = ind (last key)" "node_carries n = carries_of (node_body n)"
    "all_ops (node_body n) \<noteq> []" "all_ops (node_body n) = filter (\<lambda>l. take (Suc k) (leaf_path l) = key) ys"
    "\<forall>l. Leaf l \<in> set (node_body n) \<longrightarrow> leaf_path l = key" "counted_as (hd (all_ops (node_body n))) k (node_trip_count n)"
    using assms(1) unfolding exact_node_def by blast
  obtain y where y: "y \<in> set ys" "take (Suc k) (leaf_path y) = key"
    using k(4) unfolding k(5) by (auto simp: filter_empty_conv)
  have "d < length (leaf_path y)" using arg_cong [OF y(2), of length] k(1) assms(2) by simp
  have "take (Suc k) (leaf_path x) \<noteq> key" if "x \<in> set xs \<union> set zs" for x
  proof
    assume "take (Suc k) (leaf_path x) = key"
    then have "take (Suc d) (leaf_path x) = take (Suc d) (leaf_path y)"
      using y(2) assms(2) by (metis Suc_le_mono min.absorb1 take_take)
    then show False using assms(3) that y(1) \<open>d < length (leaf_path y)\<close> by blast
  qed
  then have "filter (\<lambda>l. take (Suc k) (leaf_path l) = key) xs = []" "filter (\<lambda>l. take (Suc k) (leaf_path l) = key) zs = []"
    by (simp_all add: filter_empty_conv)
  then have "all_ops (node_body n) = filter (\<lambda>l. take (Suc k) (leaf_path l) = key) (xs @ ys @ zs)"
    using k(5) by simp
  then show ?thesis unfolding exact_node_def using k(1-4,6,7) by blast
qed

definition wrapped_exactly :: "(int \<rightharpoonup> string) \<Rightarrow> nat \<Rightarrow> leaf list \<Rightarrow> entry list \<Rightarrow> bool" where
  "wrapped_exactly ind d ls out \<longleftrightarrow>
     (\<forall>(k, n) \<in> set (loop_nodes d out). d \<le> k \<and> exact_node ind ls k n)
   \<and> (\<forall>l. Leaf l \<in> set out \<longrightarrow> length (leaf_path l) \<le> d)
   \<and> (\<forall>encl. \<forall>(l, ns) \<in> set (walk out encl). map node_induction ns = map node_induction encl @ map ind (drop d (leaf_path l)))"

lemma wrapped_skip:
  assumes "wrapped_exactly ind d ls out" "length (leaf_path l) \<le> d"
  shows "wrapped_exactly ind d (l # ls) (Leaf l # out)"
proof -
  have "exact_node ind ([l] @ ls @ []) k n" if "exact_node ind ls k n" "d \<le> k" for k n
    by (rule exact_node_extend [OF that]) (use assms(2) in \<open>auto dest: arg_cong [of _ _ length]\<close>)
  then show ?thesis using assms unfolding wrapped_exactly_def by fastforce
qed

lemma wrapped_node:
  assumes body: "wrapped_exactly ind (Suc d) run body" "all_ops body = run" "run \<noteq> []"
    and rest: "wrapped_exactly ind d ls out"
    and key: "length key = Suc d" "\<forall>l \<in> set run. take (Suc d) (leaf_path l) = key"
      "\<forall>l \<in> set ls. take (Suc d) (leaf_path l) \<noteq> key"
    and tc: "counted_as (hd run) d tc"
  shows "wrapped_exactly ind d (run @ ls) (LoopNode c body (ind (last key)) tc (carries_of body) # out)"
  unfolding wrapped_exactly_def
proof (intro conjI allI)
  let ?n = "LoopNode c body (ind (last key)) tc (carries_of body)"
  have direct: "leaf_path l = key" if "Leaf l \<in> set body" for l
  proof -
    have "l \<in> set run" using that unfolding body(2) [symmetric] by (induction body rule: all_ops.induct) auto
    moreover have "length (leaf_path l) \<le> Suc d" using body(1) that by (simp add: wrapped_exactly_def)
    ultimately show ?thesis using key(2) by auto
  qed
  have node: "exact_node ind (run @ ls) d ?n"
    unfolding exact_node_def using body(2,3) key direct tc
    by (intro exI [of _ key]) (auto simp: filter_True filter_empty_conv)
  have inner: "exact_node ind (run @ ls) k n" if kn: "exact_node ind run k n" "Suc d \<le> k" for k n
  proof -
    have "exact_node ind ([] @ run @ ls) k n"
      by (rule exact_node_extend [OF kn(1), of d]) (use kn(2) key in auto)
    then show ?thesis by simp
  qed
  have later: "exact_node ind (run @ ls) k n" if kn: "exact_node ind ls k n" "d \<le> k" for k n
  proof -
    have "exact_node ind (run @ ls @ []) k n"
      by (rule exact_node_extend [OF kn]) (use key in auto)
    then show ?thesis by simp
  qed
  show "\<forall>(k, n) \<in> set (loop_nodes d (?n # out)). d \<le> k \<and> exact_node ind (run @ ls) k n"
    using body(1) rest node inner later unfolding wrapped_exactly_def by fastforce
  show "Leaf l \<in> set (?n # out) \<longrightarrow> length (leaf_path l) \<le> d" for l
    using rest by (simp add: wrapped_exactly_def)
  show "\<forall>(l, ns) \<in> set (walk (?n # out) encl). map node_induction ns = map node_induction encl @ map ind (drop d (leaf_path l))" for encl
  proof (intro ballI, clarsimp)
    fix l ns assume "(l, ns) \<in> set (walk body (encl @ [?n])) \<or> (l, ns) \<in> set (walk out encl)"
    then show "map node_induction ns = map node_induction encl @ map ind (drop d (leaf_path l))"
    proof
      assume w: "(l, ns) \<in> set (walk body (encl @ [?n]))"
      have wl: "\<And>e. (l, ns) \<in> set (walk body e) \<Longrightarrow> l \<in> set (all_ops body)"
        by (induction body rule: all_ops.induct) auto
      have "map node_induction ns = map node_induction encl @ [ind (last key)] @ map ind (drop (Suc d) (leaf_path l))"
        using body(1) w unfolding wrapped_exactly_def by fastforce
      moreover have "drop d (leaf_path l) = last key # drop (Suc d) (leaf_path l)"
      proof -
        have t: "take (Suc d) (leaf_path l) = key" using key(2) wl [OF w] body(2) by simp
        then have "length (take (Suc d) (leaf_path l)) = Suc d" using key(1) by (simp only:)
        then have "d < length (leaf_path l)" by simp
        moreover from this have "last key = leaf_path l ! d" unfolding t [symmetric] by (simp add: take_Suc_conv_app_nth)
        ultimately show ?thesis by (simp add: Cons_nth_drop_Suc)
      qed
      ultimately show ?thesis by simp
    next
      assume "(l, ns) \<in> set (walk out encl)"
      then show ?thesis using rest unfolding wrapped_exactly_def by fastforce
    qed
  qed
qed

lemma leaves_of:
  assumes "\<forall>e \<in> set es. \<not> is_loop_node e"
  shows "es = map Leaf (all_ops es)"
  using assms
proof (induction es)
  case (Cons e es)
  then show ?case by (cases e) (auto simp: is_loop_node_def)
qed simp

lemma wrap_exact:
  assumes "wrap_ops ops d pre ind c = Inr (out, c')"
    and "\<forall>e \<in> set ops. \<not> is_loop_node e \<and> take d (entry_path e) = pre" "contiguous (map entry_path ops)"
  shows "wrapped_exactly ind d (all_ops ops) out"
  using assms
proof (induction ops d pre ind c arbitrary: out c' rule: wrap_ops.induct)
  case (1 d pre ind c)
  then show ?case by (simp add: wrapped_exactly_def)
next
  case (2 op ops d pre ind c)
  let ?key = "take (d + 1) (entry_path op)"
  let ?member = "\<lambda>e. take (d + 1) (entry_path e) = ?key"
  obtain l where l: "op = Leaf l" using "2.prems"(2) by (cases op) (auto simp: is_loop_node_def)
  show ?case
  proof (cases "length (entry_path op) \<le> d \<or> take d (entry_path op) \<noteq> pre")
    case True
    then obtain out1 where o: "wrap_ops ops d pre ind c = Inr (out1, c')" "out = op # out1" using "2.prems"(1) by auto
    have "wrapped_exactly ind d (all_ops ops) out1" using "2.IH"(1) [OF refl True o(1)] "2.prems"(2,3) by simp
    moreover have "length (leaf_path l) \<le> d" using True "2.prems"(2) l by (simp add: entry_path_def)
    ultimately show ?thesis using o(2) l wrapped_skip by simp
  next
    case False
    let ?run = "upto_last ?member (op # ops)" and ?rest = "after_last ?member (op # ops)"
    obtain tc body c1 out2 where w: "wrap_ops ?run (d + 1) ?key ind (c + 1) = Inr (body, c1)"
      "wrap_ops ?rest d pre ind c1 = Inr (out2, c')"
      "out = LoopNode c body (ind (last ?key)) tc (carries_of body) # out2" "trip_count_of op d = Inr tc"
      using False "2.prems"(1) by (auto simp: Let_def split: prod.splits)
    have split: "?run @ ?rest = op # ops" by simp
    have sub: "set ?run \<subseteq> set (op # ops)" "set ?rest \<subseteq> set (op # ops)"
      using arg_cong [OF split, of set] unfolding set_append by auto
    have len: "d < length (entry_path op)" using False by simp
    have mem: "take (Suc d) (entry_path x) = ?key" if "x \<in> set ?run" for x
      using contiguous_run [OF "2.prems"(3), of "d + 1" x] that len by simp
    have whole: "contiguous (map entry_path ?run @ map entry_path ?rest)"
      using "2.prems"(3) by (simp only: map_append [symmetric] split)
    note cont = contiguous_prefix [OF whole] contiguous_suffix [OF whole]
    have b: "wrapped_exactly ind (d + 1) (all_ops ?run) body"
    proof (rule "2.IH"(2) [OF refl False refl refl w(1) _ cont(1)], intro ballI conjI)
      fix e assume e: "e \<in> set ?run"
      then show "\<not> is_loop_node e" using "2.prems"(2) sub(1) by blast
      show "take (d + 1) (entry_path e) = ?key" using mem [OF e] by (simp only: Suc_eq_plus1)
    qed
    have r: "wrapped_exactly ind d (all_ops ?rest) out2"
      by (rule "2.IH"(3) [OF refl False refl refl w(2) _ cont(2)]) (use "2.prems"(2) sub(2) in blast)
    have leaf: "Leaf x \<in> set es" if "x \<in> set (all_ops es)" "set es \<subseteq> set (op # ops)" for x es
      using leaves_of [of es] that "2.prems"(2) by (metis image_eqI list.set_map subsetD)
    have "wrapped_exactly ind d (all_ops ?run @ all_ops ?rest) out"
      unfolding w(3)
    proof (rule wrapped_node)
      show "wrapped_exactly ind (Suc d) (all_ops ?run) body" using b by simp
      show "all_ops body = all_ops ?run" by (rule wrap_flat [OF w(1)])
      show "all_ops ?run \<noteq> []" using l by (simp add: upto_last_Cons)
      show "counted_as (hd (all_ops ?run)) d tc"
        using w(4) l by (auto simp: upto_last_Cons trip_count_of_def counted_as_def split: option.splits if_splits)
      show "length ?key = Suc d" using len by simp
      show "\<forall>x \<in> set (all_ops ?run). take (Suc d) (leaf_path x) = ?key"
      proof
        fix x assume "x \<in> set (all_ops ?run)"
        from mem [OF leaf [OF this sub(1)]] show "take (Suc d) (leaf_path x) = ?key" by (simp add: entry_path_def)
      qed
      show "\<forall>x \<in> set (all_ops ?rest). take (Suc d) (leaf_path x) \<noteq> ?key"
      proof
        fix x assume "x \<in> set (all_ops ?rest)"
        from after_last_no [OF leaf [OF this sub(2)]] show "take (Suc d) (leaf_path x) \<noteq> ?key" by (simp add: entry_path_def)
      qed
    qed (rule r)
    then show ?thesis by (metis all_ops_append split)
  qed
qed

section \<open>The checks\<close>

lemma leaf_in_ops: "Leaf l \<in> set es \<Longrightarrow> l \<in> set (all_ops es)"
  by (induction es rule: all_ops.induct) auto

lemma walk_leaves: "map fst (walk es encl) = all_ops es"
  by (induction es encl rule: walk.induct) simp_all

lemma leaf_violations_Nil:
  "leaf_violations inds seen ws = [] \<longleftrightarrow> distinct (map (leaf_id \<circ> fst) ws)
     \<and> (\<forall>w \<in> set ws. leaf_id (fst w) \<notin> set seen) \<and> (\<forall>(l, encl) \<in> set ws. stray_symbols inds l encl = [])"
proof (induction inds seen ws rule: leaf_violations.induct)
  case (2 inds seen l encl rest)
  have "inds = [] \<Longrightarrow> stray_symbols inds l encl = []" by (simp add: stray_symbols_def)
  then have "leaf_violations inds seen ((l, encl) # rest) = [] \<longleftrightarrow>
      leaf_id l \<notin> set seen \<and> stray_symbols inds l encl = [] \<and> leaf_violations inds (leaf_id l # seen) rest = []"
    by (auto simp: Let_def)
  also have "\<dots> \<longleftrightarrow> distinct (map (leaf_id \<circ> fst) ((l, encl) # rest))
     \<and> (\<forall>w \<in> set ((l, encl) # rest). leaf_id (fst w) \<notin> set seen)
     \<and> (\<forall>(l, encl) \<in> set ((l, encl) # rest). stray_symbols inds l encl = [])"
    unfolding 2 by (force simp: image_iff)
  finally show ?case .
qed simp

lemma carry_violations_Nil:
  "carry_violations es = [] \<longleftrightarrow>
     (\<forall>(k, n) \<in> set (loop_nodes d es). \<forall>r \<in> set (node_carries n). update_name r \<in> leaf_name ` set (all_ops (node_body n)))"
proof (induction d es rule: loop_nodes.induct)
  case (3 d n b i t c es)
  show ?case unfolding carry_violations.simps loop_nodes.simps append_is_Nil_conv 3 map_is_Nil_conv
    by (simp add: filter_empty_conv ball_Un)
qed simp_all

lemma stray_symbols_Nil:
  "stray_symbols inds l encl = [] \<longleftrightarrow>
     (\<forall>s \<in> set (index_symbols l). s \<in> set inds \<longrightarrow> Some s \<in> node_induction ` set encl)"
proof -
  have "s \<in> set (node_inductions encl) \<longleftrightarrow> Some s \<in> node_induction ` set encl" for s
    by (force simp: node_inductions_def map_filter_iff image_iff)
  moreover have "sort (remdups xs) = [] \<longleftrightarrow> xs = []" for xs :: "string list"
    by (metis remdups_eq_nil_iff set_empty set_sort)
  ultimately show ?thesis unfolding stray_symbols_def by (auto simp: filter_empty_conv)
qed

lemma all_inductions_nodes:
  "s \<in> set (all_inductions es) \<Longrightarrow> \<exists>(k, n) \<in> set (loop_nodes d es). node_induction n = Some s"
  by (induction d es rule: loop_nodes.induct) (fastforce split: option.splits)+

lemma carries_of_from: "r \<in> set (carries_of body) \<Longrightarrow> \<exists>l. Leaf l \<in> set body \<and> leaf_carry l = Some r"
proof -
  have "r \<in> set (foldl add_carry rs es) \<Longrightarrow> r \<in> set rs \<or> (\<exists>l. Leaf l \<in> set es \<and> leaf_carry l = Some r)" for rs es
  proof (induction es arbitrary: rs)
    case (Cons e es)
    have "r \<in> set (add_carry rs e) \<Longrightarrow> r \<in> set rs \<or> (\<exists>l. e = Leaf l \<and> leaf_carry l = Some r)"
      by (auto simp: add_carry_def split: entry.splits option.splits if_splits)
    then show ?case using Cons.IH [of "add_carry rs e"] Cons.prems by auto
  qed simp
  then show "r \<in> set (carries_of body) \<Longrightarrow> ?thesis" by (force simp: carries_of_def)
qed

text \<open>
  What the splice hands over: distinct operations in contiguous loops, indices that only use
  the variables of their own loops, and carries whose update is in the same loop.
\<close>

definition spliced :: "(int \<rightharpoonup> string) \<Rightarrow> leaf list \<Rightarrow> bool" where
  "spliced ind ls \<longleftrightarrow> distinct (map leaf_id ls) \<and> contiguous (map leaf_path ls) \<and> list_all counts_complete ls
     \<and> list_all (\<lambda>l. list_all (\<lambda>s. list_ex (\<lambda>l'. Some s \<in> ind ` set (leaf_path l')) ls \<longrightarrow> Some s \<in> ind ` set (leaf_path l))
         (index_symbols l)) ls
     \<and> list_all (\<lambda>l. case leaf_carry l of None \<Rightarrow> True | Some r \<Rightarrow>
         list_ex (\<lambda>l'. leaf_name l' = update_name r \<and> take (length (leaf_path l)) (leaf_path l') = leaf_path l) ls) ls"

lemma collapse_wrapped:
  assumes "list_all counts_complete ls" "contiguous (map leaf_path ls)"
  shows "\<exists>tree. collapse True ind (map Leaf ls) = Inr tree \<and> all_ops tree = ls \<and> wrapped_exactly ind 0 ls tree"
proof (cases "list_ex (\<lambda>e. entry_path e \<noteq> []) (map Leaf ls)")
  case True
  obtain out c where w: "wrap_ops (map Leaf ls) 0 [] ind 0 = Inr (out, c)"
    using wrap_total [of "map Leaf ls" 0 "[]" ind 0] assms(1) by (auto simp: list_all_iff)
  have "contiguous (map entry_path (map Leaf ls))" using assms(2) by (simp add: comp_def entry_path_def)
  then have "wrapped_exactly ind 0 (all_ops (map Leaf ls)) out"
    by (intro wrap_exact [OF w]) (auto simp: is_loop_node_def)
  then show ?thesis using True w wrap_flat [OF w] by (auto simp: collapse_def)
next
  case False
  have paths: "\<forall>l \<in> set ls. leaf_path l = []" using False by (auto simp: list_ex_iff entry_path_def)
  have "walk (map Leaf xs) encl = map (\<lambda>l. (l, encl)) xs" "loop_nodes 0 (map Leaf xs) = []" for xs encl
    by (induction xs) simp_all
  then show ?thesis using False paths by (auto simp: collapse_def wrapped_exactly_def)
qed

lemma wrapped_no_violations:
  assumes "spliced ind ls" "all_ops tree = ls" "wrapped_exactly ind 0 ls tree"
  shows "find_violations tree = []"
proof -
  have nodes: "exact_node ind ls k n" if "(k, n) \<in> set (loop_nodes 0 tree)" for k n
    using assms(3) that by (auto simp: wrapped_exactly_def)
  have sym: "Some s \<in> ind ` set (leaf_path l)"
    if "l \<in> set ls" "s \<in> set (index_symbols l)" "l' \<in> set ls" "Some s \<in> ind ` set (leaf_path l')" for l l' s
    using assms(1) that unfolding spliced_def list_all_iff list_ex_iff by blast
  have "distinct (map (leaf_id \<circ> fst) (walk tree []))"
    using assms(1,2) walk_leaves [of tree "[]"] by (metis list.map_comp spliced_def)
  moreover have "stray_symbols (all_inductions tree) l encl = []" if w: "(l, encl) \<in> set (walk tree [])" for l encl
    unfolding stray_symbols_Nil
  proof (intro ballI impI)
    fix s assume s: "s \<in> set (index_symbols l)" "s \<in> set (all_inductions tree)"
    obtain k n where n: "(k, n) \<in> set (loop_nodes 0 tree)" "node_induction n = Some s"
      using all_inductions_nodes [OF s(2), of 0] by auto
    obtain key where key: "length key = Suc k" "ind (last key) = Some s" "all_ops (node_body n) \<noteq> []"
      "all_ops (node_body n) = filter (\<lambda>l. take (Suc k) (leaf_path l) = key) ls"
      using nodes [OF n(1)] n(2) unfolding exact_node_def by auto
    obtain l' where l': "l' \<in> set ls" "take (Suc k) (leaf_path l') = key"
      using key(3) unfolding key(4) by (auto simp: filter_empty_conv)
    have "last key \<in> set key" using key(1) by (intro last_in_set) auto
    then have "last key \<in> set (leaf_path l')" using l'(2) by (metis in_set_takeD)
    moreover have "l \<in> set ls" using w walk_leaves [of tree "[]"] assms(2) by (metis fst_conv image_eqI list.set_map)
    ultimately have "Some s \<in> ind ` set (leaf_path l)" using sym [OF _ s(1) l'(1)] key(2) by (metis image_eqI)
    moreover have "map node_induction encl = map ind (leaf_path l)"
      using assms(3) w unfolding wrapped_exactly_def by fastforce
    ultimately show "Some s \<in> node_induction ` set encl" by (metis list.set_map)
  qed
  moreover have "update_name r \<in> leaf_name ` set (all_ops (node_body n))"
    if kn: "(k, n) \<in> set (loop_nodes 0 tree)" "r \<in> set (node_carries n)" for k n r
  proof -
    obtain key where key: "node_carries n = carries_of (node_body n)" "length key = Suc k"
      "all_ops (node_body n) = filter (\<lambda>l. take (Suc k) (leaf_path l) = key) ls"
      "\<forall>l. Leaf l \<in> set (node_body n) \<longrightarrow> leaf_path l = key"
      using nodes [OF kn(1)] unfolding exact_node_def by blast
    obtain l where l: "Leaf l \<in> set (node_body n)" "leaf_carry l = Some r" using carries_of_from kn(2) key(1) by force
    have "l \<in> set (all_ops (node_body n))" using l(1) by (rule leaf_in_ops)
    then have "l \<in> set ls" using key(3) by simp
    then have "case leaf_carry l of None \<Rightarrow> True | Some r \<Rightarrow>
         list_ex (\<lambda>l'. leaf_name l' = update_name r \<and> take (length (leaf_path l)) (leaf_path l') = leaf_path l) ls"
      using assms(1) unfolding spliced_def list_all_iff by blast
    then obtain l' where l': "l' \<in> set ls" "leaf_name l' = update_name r" "take (length (leaf_path l)) (leaf_path l') = leaf_path l"
      using l(2) by (auto simp: list_ex_iff)
    then have "l' \<in> set (all_ops (node_body n))" using key(2-4) l(1) by simp
    then show ?thesis using l'(2) by (metis image_eqI)
  qed
  ultimately show ?thesis
    using carry_violations_Nil [of tree 0] by (auto simp: find_violations_def leaf_violations_Nil)
qed

section \<open>Peeling\<close>




lemma peel_leaves: "\<forall>e \<in> set es. \<not> is_loop_node e \<Longrightarrow> peel d es = es"
proof (induction es)
  case (Cons e es)
  then show ?case by (cases e) (auto simp: is_loop_node_def)
qed simp



section \<open>Properties of the tree\<close>

text \<open>
  C5. Flattening undoes wrapping: for operations whose loop metadata gives a trip count per
  level, \<open>collapse\<close> returns, and \<open>expand\<close> gives back exactly the list it was given, whether or
  not the loops are contiguous.
\<close>

theorem collapse_expand_roundtrip:
  assumes "list_all counts_complete ls"
  shows "\<exists>tree. collapse build ind (map Leaf ls) = Inr tree \<and> expand tree = map Leaf ls"
proof -
  obtain out c where w: "wrap_ops (map Leaf ls) 0 [] ind 0 = Inr (out, c)"
    using wrap_total [of "map Leaf ls" 0 "[]" ind 0] assms by (auto simp: list_all_iff)
  have "\<exists>tree. collapse build ind (map Leaf ls) = Inr tree \<and> all_ops tree = ls"
    using w wrap_flat [OF w] by (simp add: collapse_def)
  then obtain tree where t: "collapse build ind (map Leaf ls) = Inr tree" "all_ops tree = ls" by blast
  have "expand tree = map Leaf (all_ops tree)"
    using leaves_of [of tree] by (auto simp: expand_def has_loop_nodes_def list_ex_iff)
  then show ?thesis using t by simp
qed

definition demo_leaf :: "nat \<Rightarrow> string \<Rightarrow> int list \<Rightarrow> string list \<Rightarrow> carry option \<Rightarrow> leaf" where
  "demo_leaf i n path syms r = \<lparr>leaf_id = i, leaf_operation_name = n, leaf_is_computed = True, leaf_impure = False,
     leaf_op = \<lparr>op_name = n, op_is_extern = False, op_is_pointwise = True, op_has_target = True,
       op_loop_info = (if path = [] then None else Some \<lparr>loop_group_id = GroupPath path,
          loop_count = map (\<lambda>_. ''4'') path, loop_tiled_dims = [], loop_tiled_reduction_dims = []\<rparr>),
       op_reads = [], op_writes = [], op_mutation_target = None\<rparr>,
     leaf_carry = r, leaf_symbols = Some syms\<rparr>"

text \<open>An operation before a loop, two loops nested, the inner with a carry, and one after them.\<close>

definition demo_ops :: "leaf list" where
  "demo_ops = [demo_leaf 0 ''a'' [] [] None, demo_leaf 1 ''b'' [0] [''i''] None,
     demo_leaf 2 ''c'' [0, 1] [''i'', ''j''] (Some \<lparr>carry_id = 0, storage_name = ''acc'', update_name = ''d''\<rparr>),
     demo_leaf 3 ''d'' [0, 1] [''j''] None, demo_leaf 4 ''e'' [] [] None]"

definition demo_inductions :: "int \<rightharpoonup> string" where
  "demo_inductions = [0 \<mapsto> ''i'', 1 \<mapsto> ''j'']"

lemma demo_counts: "list_all counts_complete demo_ops"
  by code_simp

theorem collapse_expand_roundtrip_witness:
  "\<exists>tree. collapse True demo_inductions (map Leaf demo_ops) = Inr tree \<and> expand tree = map Leaf demo_ops
     \<and> length tree = 3"
proof -
  have "case collapse True demo_inductions (map Leaf demo_ops) of Inl _ \<Rightarrow> False | Inr tree \<Rightarrow> length tree = 3"
    by code_simp
  then show ?thesis
    using collapse_expand_roundtrip [OF demo_counts, of True demo_inductions] by (auto split: sum.splits)
qed

text \<open>
  C18. Take operations as the splice hands them over (\<open>spliced\<close>): distinct objects, each loop's
  operations contiguous in program order, a recorded count for every level, and induction
  variables and carries used inside their own loops only.  Then \<open>collapse\<close> returns a tree the
  structural checker accepts, and every node of it, at any depth, holds exactly the operations
  whose group path starts with the node's key, in program order, with the induction variable of
  that level, the trip count its first operation records for that level, and the carries of its
  direct operations.
\<close>

theorem collapse_exact:
  assumes "spliced ind ls"
  shows "\<exists>tree. collapse True ind (map Leaf ls) = Inr tree \<and> check_loops checking tree = Inr ()
    \<and> (\<forall>(k, n) \<in> set (loop_nodes 0 tree). exact_node ind ls k n)"
proof -
  obtain tree where t: "collapse True ind (map Leaf ls) = Inr tree" "all_ops tree = ls" "wrapped_exactly ind 0 ls tree"
    using collapse_wrapped [of ls ind] assms by (auto simp: spliced_def)
  have "find_violations tree = []" by (rule wrapped_no_violations [OF assms t(2,3)])
  then show ?thesis using t by (auto simp: check_loops_def wrapped_exactly_def)
qed

lemma demo_spliced: "spliced demo_inductions demo_ops"
  by code_simp

theorem collapse_exact_witness:
  "\<exists>tree. collapse True demo_inductions (map Leaf demo_ops) = Inr tree \<and> check_loops True tree = Inr ()
     \<and> map fst (loop_nodes 0 tree) = [0, 1]"
proof -
  have "case collapse True demo_inductions (map Leaf demo_ops) of Inl _ \<Rightarrow> False
      | Inr tree \<Rightarrow> map fst (loop_nodes 0 tree) = [0, 1]"
    by code_simp
  then show ?thesis
    using collapse_exact [OF demo_spliced, of True] by (auto split: sum.splits)
qed

text \<open>
  C8. The flat view refines a Python list: each of its edits, with its index errors and its
  missing operations, has on the leaves of the tree exactly the effect the same call has on
  the flat list of them.
\<close>

theorem view_refines_list:
  assumes "distinct (map leaf_id (all_ops ops))"
  shows "rbind (view_run eq ed ops) (\<lambda>r. Inr (all_ops r)) = list_run eq ed (all_ops ops)"
proof (cases ed)
  case (AppendOp op)
  then show ?thesis by (simp add: view_run_def list_run_def view_append_def)
next
  case (InsertOp i op)
  then show ?thesis using view_insert_flat [OF assms] by (simp add: view_run_def)
next
  case (RemoveOp op)
  show ?thesis
  proof (cases "first_index eq (all_ops ops) op")
    case (Inr k)
    then show ?thesis using edit_delete [OF assms first_index_less [OF Inr]] RemoveOp
      by (simp add: view_run_def list_run_def view_remove_def)
  qed (simp add: RemoveOp view_run_def list_run_def view_remove_def)
next
  case (SetOp i op)
  then show ?thesis using view_setitem_flat [OF assms] by (simp add: view_run_def)
next
  case (DelOp i)
  show ?thesis
  proof (cases "py_index i (length (all_ops ops))")
    case (Inr k)
    then show ?thesis using edit_delete [OF assms py_index_less [OF Inr]] DelOp
      by (simp add: view_run_def list_run_def view_delitem_def)
  qed (simp add: DelOp view_run_def list_run_def view_delitem_def)
qed

definition demo_tree :: "entry list" where
  "demo_tree = [Leaf (demo_leaf 0 ''a'' [] [] None),
     LoopNode 0 [LoopNode 1 [Leaf (demo_leaf 1 ''b'' [0, 1] [] None), Leaf (demo_leaf 2 ''c'' [0, 1] [] None)] None ''4'' []] None ''4'' []]"

theorem view_refines_list_witness:
  "rbind (view_run (\<lambda>_ _. False) (InsertOp 1 (demo_leaf 9 ''x'' [] [] None)) demo_tree) (\<lambda>r. Inr (map leaf_id (all_ops r)))
     = Inr [0, 9, 1, 2]"
proof -
  have "distinct (map leaf_id (all_ops demo_tree))" by code_simp
  from view_refines_list [OF this, of "\<lambda>_ _. False" "InsertOp 1 (demo_leaf 9 ''x'' [] [] None)"]
  have r: "rbind (view_run (\<lambda>_ _. False) (InsertOp 1 (demo_leaf 9 ''x'' [] [] None)) demo_tree) (\<lambda>r. Inr (all_ops r))
      = list_run (\<lambda>_ _. False) (InsertOp 1 (demo_leaf 9 ''x'' [] [] None)) (all_ops demo_tree)" .
  have "list_run (\<lambda>_ _. False) (InsertOp 1 (demo_leaf 9 ''x'' [] [] None)) (all_ops demo_tree)
      = Inr [demo_leaf 0 ''a'' [] [] None, demo_leaf 9 ''x'' [] [] None, demo_leaf 1 ''b'' [0, 1] [] None, demo_leaf 2 ''c'' [0, 1] [] None]"
    by code_simp
  with r show ?thesis
    by (cases "view_run (\<lambda>_ _. False) (InsertOp 1 (demo_leaf 9 ''x'' [] [] None)) demo_tree") (auto simp: demo_leaf_def)
qed




lemma owning_list_nested:
  assumes "leaf_id m \<notin> leaf_id ` set pre"
  shows "owning_list (map Leaf pre @ [LoopNode a [LoopNode b (map Leaf (m # ls)) ib tb cb] ia ta ca]) (Inl (leaf_id m))
    = Some ([length pre, 0], 0)"
  using assms by (induction pre) (auto simp: next_entry_def)

lemma peel_keeps_prefix: "peel d (map Leaf pre @ es) = map Leaf pre @ peel d es"
  by (induction pre) simp_all

lemma upto_last_all: "\<forall>x \<in> set xs. P x \<Longrightarrow> upto_last P xs = xs"
  by (induction xs) (auto simp: upto_last_Cons list_ex_iff)

lemma peel_perfect_nest:
  assumes "leaf_path x = []" "length (leaf_path m) = 2" "\<forall>l \<in> set ls. leaf_path l = leaf_path m"
  shows "peel 0 [LoopNode a [LoopNode b (Leaf x # map Leaf (m # ls)) ib tb cb] ia ta ca]
    = [LoopNode a [Leaf x, LoopNode b (map Leaf (m # ls)) ib tb cb] ia ta ca]"
proof -
  obtain p q where m: "leaf_path m = [p, q]" using assms(2) by (auto simp: length_Suc_conv numeral_2_eq_2)
  have flat: "all_ops (map Leaf zs) = zs" for zs by (induction zs) simp_all
  have keys: "node_key [LoopNode b (Leaf x # map Leaf (m # ls)) ib tb cb] 0 = Some [p]"
    "node_key (Leaf x # map Leaf (m # ls)) 1 = Some [p, q]"
    using assms(1) m flat by (simp_all add: node_key_def)
  have mem: "\<forall>e \<in> set (map Leaf (m # ls)). belongs [p, q] e"
    using assms(3) m by (auto simp: belongs_def entry_path_def)
  have out: "\<not> belongs [p, q] (Leaf x)" using assms(1) by (simp add: belongs_def entry_path_def is_loop_node_def)
  have node: "belongs [p] (LoopNode n c i t k)" for n c i t k by (simp add: belongs_def is_loop_node_def)
  have run: "upto_last (belongs [p, q]) (map Leaf (m # ls)) = map Leaf (m # ls)" by (rule upto_last_all [OF mem])
  moreover have "after_last (belongs [p, q]) (map Leaf (m # ls)) = []"
    using upto_after_last [of "belongs [p, q]" "map Leaf (m # ls)"] unfolding run by (metis append_self_conv)
  moreover have "peel 2 (map Leaf (m # ls)) = map Leaf (m # ls)" by (rule peel_leaves) (auto simp: is_loop_node_def)
  moreover have "takeWhile (\<lambda>e. \<not> belongs [p, q] e) (Leaf x # map Leaf (m # ls)) = [Leaf x]"
    "dropWhile (\<lambda>e. \<not> belongs [p, q] e) (Leaf x # map Leaf (m # ls)) = map Leaf (m # ls)"
    using mem out by simp_all
  ultimately have inner: "peel 1 [LoopNode b (Leaf x # map Leaf (m # ls)) ib tb cb]
      = [Leaf x, LoopNode b (map Leaf (m # ls)) ib tb cb]"
    using keys(2) by (simp add: numeral_2_eq_2 del: list.map)
  have "upto_last (belongs [p]) [LoopNode n c i t k] = [LoopNode n c i t k]"
    "after_last (belongs [p]) [LoopNode n c i t k] = []" for n c i t k
    using node by (simp_all add: upto_last_Cons after_last_def)
  then show ?thesis using keys(1) node inner by (simp del: list.map)
qed

text \<open>
  An operation without loop information that is put, through the flat view, before the
  first operation of two perfectly nested loops lands in the inner body, and peeling moves it
  out of the inner loop only: whatever the two loops hold, it ends up at the head of the outer
  body, where it runs at every outer trip.
\<close>

lemma peel_stops_at_outer_loop:
  assumes "leaf_path x = []" "length (leaf_path m) = 2" "\<forall>l \<in> set ls. leaf_path l = leaf_path m"
    and "leaf_id m \<notin> leaf_id ` set pre"
  shows "rbind (view_insert (int (length pre)) x
      (map Leaf pre @ [LoopNode a [LoopNode b (map Leaf (m # ls)) ib tb cb] ia ta ca])) (\<lambda>tree. Inr (peel_non_members tree))
    = Inr (map Leaf pre @ [LoopNode a [Leaf x, LoopNode b (map Leaf (m # ls)) ib tb cb] ia ta ca])"
proof -
  let ?tree = "map Leaf pre @ [LoopNode a [LoopNode b (map Leaf (m # ls)) ib tb cb] ia ta ca]"
  let ?new = "map Leaf pre @ [LoopNode a [LoopNode b (Leaf x # map Leaf (m # ls)) ib tb cb] ia ta ca]"
  have flat: "all_ops (map Leaf zs @ es) = zs @ all_ops es" for zs es by (induction zs) simp_all
  have ops: "all_ops ?tree = pre @ m # ls" using flat [of ls "[]"] by (simp add: flat)
  have "edit_at [length pre, 0] (list_insert 0 (Leaf x)) ?tree = ?new"
    by (simp add: list_insert_def set_body_def body_of_def nth_append list_update_append)
  then have "view_insert (int (length pre)) x ?tree = Inr ?new"
    using owning_list_nested [OF assms(4)] unfolding view_insert_def ops
    by (simp add: locate_def holder_def Let_def)
  moreover have "peel_non_members ?new = peel 0 ?new"
    by (simp add: peel_non_members_def has_loop_nodes_def is_loop_node_def)
  ultimately show ?thesis using peel_perfect_nest [OF assms(1-3)] by (simp add: peel_keeps_prefix)
qed

lemma peel_stops_at_outer_loop_example:
  "rbind (view_insert 1 (demo_leaf 9 ''x'' [] [] None) demo_tree)
     (\<lambda>tree. Inr (map (map_prod leaf_id length) (walk (peel_non_members tree) []))) = Inr [(0, 0), (9, 1), (1, 2), (2, 2)]"
proof -
  let ?x = "demo_leaf 9 ''x'' [] [] None" and ?m = "demo_leaf 1 ''b'' [0, 1] [] None" and ?l = "demo_leaf 2 ''c'' [0, 1] [] None"
  let ?a = "demo_leaf 0 ''a'' [] [] None"
  have "leaf_path ?x = []" "length (leaf_path ?m) = 2" "\<forall>l \<in> set [?l]. leaf_path l = leaf_path ?m" by code_simp+
  from peel_stops_at_outer_loop [OF this, of "[?a]"]
  have "rbind (view_insert 1 ?x demo_tree) (\<lambda>tree. Inr (peel_non_members tree))
      = Inr [Leaf ?a, LoopNode 0 [Leaf ?x, LoopNode 1 [Leaf ?m, Leaf ?l] None ''4'' []] None ''4'' []]"
    by (simp add: demo_tree_def, simp add: demo_leaf_def)
  then show ?thesis
    by (cases "view_insert 1 ?x demo_tree") (auto simp: demo_leaf_def)
qed

end
