(* ===== verification/Dead_Code.thy ===== *)
theory Dead_Code
  imports Loop_Nodes
begin

text \<open>
  Dead code elimination before scheduling:
  \<^verbatim>\<open>src/torch_spyre/_inductor/deadcode_elimination.py\<close>.

  The pass runs either on the real list of operations, where an entry may be a loop node, or on
  the flat view of a tree (\<open>OpsView\<close>), where it only sees leaves.  Its result is specified twice:
  as the least set closed under what an observer needs, and by running the operations, with
  the effect of one operation on the buffers an argument.
\<close>

section \<open>What an entry reads, writes and mutates\<close>

text \<open>Operations are named \<open>op\<close>\<^emph>\<open>n\<close> and nodes \<open>loopnode\<close>\<^emph>\<open>n\<close>, so that the two never coincide.\<close>

definition operation_name :: "entry \<Rightarrow> string + nat" where
  "operation_name e = (case e of Leaf l \<Rightarrow> Inl (leaf_operation_name l) | LoopNode n _ _ _ _ \<Rightarrow> Inr n)"

definition entry_reads :: "entry \<Rightarrow> string set" where
  "entry_reads e = dep_name ` set (case e of Leaf l \<Rightarrow> op_reads (leaf_op l) | LoopNode _ b _ _ _ \<Rightarrow> fst (node_read_writes b))"

definition entry_writes :: "entry \<Rightarrow> string set" where
  "entry_writes e = dep_name ` set (case e of Leaf l \<Rightarrow> op_writes (leaf_op l) | LoopNode _ b _ _ _ \<Rightarrow> snd (node_read_writes b))"

definition entry_targets :: "entry \<Rightarrow> string list" where
  "entry_targets e = (case e of
     LoopNode _ b _ _ _ \<Rightarrow> mutation_targets b
   | Leaf l \<Rightarrow> (case mutation_target l of None \<Rightarrow> [] | Some t \<Rightarrow> [t]))"

definition leaf_has_side_effects :: "leaf \<Rightarrow> bool" where
  "leaf_has_side_effects l \<longleftrightarrow> mutation_target l \<noteq> None \<or> leaf_impure l"

definition leaf_target_is_live :: "leaf \<Rightarrow> string set \<Rightarrow> bool" where
  "leaf_target_is_live l live_bufs = (case mutation_target l of None \<Rightarrow> True | Some t \<Rightarrow> t \<in> live_bufs)"

definition has_side_effects :: "entry \<Rightarrow> bool" where
  "has_side_effects e = (case e of
     LoopNode _ b _ _ _ \<Rightarrow> list_ex leaf_has_side_effects (all_ops b)
   | Leaf l \<Rightarrow> leaf_has_side_effects l)"

definition mutation_target_is_live :: "entry \<Rightarrow> string set \<Rightarrow> bool" where
  "mutation_target_is_live e live_bufs = (case e of
     LoopNode _ b _ _ _ \<Rightarrow> list_ex (\<lambda>l. leaf_has_side_effects l \<and> leaf_target_is_live l live_bufs) (all_ops b)
   | Leaf l \<Rightarrow> leaf_target_is_live l live_bufs)"

section \<open>Liveness\<close>

record observed =
  output_names :: "string list"
  graph_inputs :: "string list"
  graph_constants :: "string list"

type_synonym live = "string set \<times> (string + nat) set"

definition visit :: "entry \<Rightarrow> live \<Rightarrow> live" where
  "visit e st = (case st of (live_bufs, live_ops) \<Rightarrow>
     if \<not> (has_side_effects e \<and> mutation_target_is_live e live_bufs) \<and> entry_writes e \<inter> live_bufs = {} then st
     else (live_bufs \<union> entry_reads e \<union> set (entry_targets e), insert (operation_name e) live_ops))"

definition walk_once :: "entry list \<Rightarrow> live \<Rightarrow> live" where
  "walk_once operations st = foldl (\<lambda>st e. visit e st) st (rev operations)"

text \<open>\<open>for _ in range(n)\<close> with the break: the lengths before and after a pass.\<close>

fun live_loop :: "entry list \<Rightarrow> nat \<Rightarrow> live \<Rightarrow> live" where
  "live_loop operations 0 st = st"
| "live_loop operations (Suc n) st =
     (let after = walk_once operations st in
      if (card (fst after), card (snd after)) = (card (fst st), card (snd st)) then after
      else live_loop operations n after)"

definition observable_buffers :: "observed \<Rightarrow> string set" where
  "observable_buffers g = set (output_names g) \<union> set (graph_inputs g) \<union> set (graph_constants g)"

definition live_state :: "observed \<Rightarrow> entry list \<Rightarrow> live" where
  "live_state g operations = live_loop operations (length operations + 1) (observable_buffers g, {})"

definition live_operations :: "observed \<Rightarrow> entry list \<Rightarrow> (string + nat) set" where
  "live_operations g operations = snd (live_state g operations)"

section \<open>Removal\<close>

definition dead_operations :: "observed \<Rightarrow> entry list \<Rightarrow> entry list" where
  "dead_operations g operations = filter (\<lambda>e. operation_name e \<notin> live_operations g operations) operations"

definition leaf_writes :: "leaf \<Rightarrow> string set" where
  "leaf_writes l = dep_name ` set (op_writes (leaf_op l))"

definition removed_by :: "entry list \<Rightarrow> string set" where
  "removed_by dead = \<Union> (leaf_writes ` set (all_ops dead))"

text \<open>\<open>list.remove\<close>: the first entry that is the operation or equals it; nodes compare by identity.\<close>

definition same_entry :: "(leaf \<Rightarrow> leaf \<Rightarrow> bool) \<Rightarrow> entry \<Rightarrow> entry \<Rightarrow> bool" where
  "same_entry eq e op = (ident e = ident op \<or> (case (e, op) of (Leaf l, Leaf m) \<Rightarrow> eq l m | _ \<Rightarrow> False))"

fun list_remove :: "('a \<Rightarrow> bool) \<Rightarrow> 'a list \<Rightarrow> 'a list result" where
  "list_remove P [] = Inl (ValueError ''list.remove(x): x not in list'')"
| "list_remove P (x # xs) = (if P x then Inr xs else rbind (list_remove P xs) (\<lambda>ys. Inr (x # ys)))"

fun remove_all :: "(entry \<Rightarrow> 'a \<Rightarrow> 'a result) \<Rightarrow> entry list \<Rightarrow> 'a \<Rightarrow> 'a result" where
  "remove_all del [] ops = Inr ops"
| "remove_all del (op # dead) ops = rbind (del op ops) (remove_all del dead)"

definition deadcode_elimination ::
  "(leaf \<Rightarrow> leaf \<Rightarrow> bool) \<Rightarrow> observed \<Rightarrow> entry list \<Rightarrow> (entry list \<times> string set) result" where
  "deadcode_elimination eq g operations =
     rbind (remove_all (\<lambda>op. list_remove (\<lambda>e. same_entry eq e op)) (dead_operations g operations) operations) (\<lambda>ops.
     Inr (ops, removed_by (dead_operations g operations)))"

text \<open>The same pass on a flat view: it sees the leaves, and removes through the view.\<close>

fun remove_leaf :: "(leaf \<Rightarrow> leaf \<Rightarrow> bool) \<Rightarrow> entry \<Rightarrow> entry list \<Rightarrow> entry list result" where
  "remove_leaf eq (Leaf l) ops = view_remove eq l ops"
| "remove_leaf eq (LoopNode n b i t c) ops = Inl (ValueError ''not in list'')"

definition deadcode_view ::
  "(leaf \<Rightarrow> leaf \<Rightarrow> bool) \<Rightarrow> observed \<Rightarrow> entry list \<Rightarrow> (entry list \<times> string set) result" where
  "deadcode_view eq g tree =
     (let dead = dead_operations g (map Leaf (all_ops tree)) in
      rbind (remove_all (remove_leaf eq) dead tree) (\<lambda>ops. Inr (ops, removed_by dead)))"

section \<open>Specifications\<close>

text \<open>The buffers an observer needs, and the entries that make them.\<close>

inductive needed_buffer :: "observed \<Rightarrow> entry list \<Rightarrow> string \<Rightarrow> bool"
  and needed_entry :: "observed \<Rightarrow> entry list \<Rightarrow> entry \<Rightarrow> bool"
  for g :: observed and ops :: "entry list" where
  observable: "b \<in> observable_buffers g \<Longrightarrow> needed_buffer g ops b"
| read_by: "needed_entry g ops e \<Longrightarrow> b \<in> entry_reads e \<Longrightarrow> needed_buffer g ops b"
| mutated_by: "needed_entry g ops e \<Longrightarrow> b \<in> set (entry_targets e) \<Longrightarrow> needed_buffer g ops b"
| writes: "e \<in> set ops \<Longrightarrow> b \<in> entry_writes e \<Longrightarrow> needed_buffer g ops b \<Longrightarrow> needed_entry g ops e"
| mutates: "e \<in> set ops \<Longrightarrow> b \<in> set (entry_targets e) \<Longrightarrow> needed_buffer g ops b \<Longrightarrow> needed_entry g ops e"
| impure: "e \<in> set ops \<Longrightarrow> l \<in> set (all_ops [e]) \<Longrightarrow> leaf_impure l \<Longrightarrow> mutation_target l = None
    \<Longrightarrow> needed_entry g ops e"

text \<open>Running a tree: a node runs its body as often as its trip count says.\<close>

type_synonym 'v store = "string \<Rightarrow> 'v"

fun exec_ops :: "(leaf \<Rightarrow> 'v store \<Rightarrow> 'v store) \<Rightarrow> (string \<Rightarrow> nat) \<Rightarrow> entry list \<Rightarrow> 'v store \<Rightarrow> 'v store" where
  "exec_ops run trips [] = id"
| "exec_ops run trips (Leaf l # es) = exec_ops run trips es \<circ> run l"
| "exec_ops run trips (LoopNode n b i t c # es) =
     exec_ops run trips es \<circ> (exec_ops run trips b ^^ trips t)"

definition leaf_targets :: "leaf \<Rightarrow> string set" where
  "leaf_targets l = set_option (mutation_target l)"

definition leaf_reads :: "leaf \<Rightarrow> string set" where
  "leaf_reads l = dep_name ` set (op_reads (leaf_op l))"

definition agree_on_bufs :: "string set \<Rightarrow> 'v store \<Rightarrow> 'v store \<Rightarrow> bool" where
  "agree_on_bufs B s s' \<longleftrightarrow> (\<forall>b \<in> B. s b = s' b)"

text \<open>
  Inductor's contract for the dependencies of an operation: it changes the buffers it declares,
  and what it puts there depends on the buffers it reads and mutates.
\<close>

definition declared_effects :: "(leaf \<Rightarrow> 'v store \<Rightarrow> 'v store) \<Rightarrow> bool" where
  "declared_effects run \<longleftrightarrow>
     (\<forall>l s b. b \<notin> leaf_writes l \<union> leaf_targets l \<longrightarrow> run l s b = s b)
   \<and> (\<forall>l s s'. agree_on_bufs (leaf_reads l \<union> leaf_targets l) s s' \<longrightarrow>
        agree_on_bufs (leaf_writes l \<union> leaf_targets l) (run l s) (run l s'))"

section \<open>The effects of an entry are those of its leaves\<close>

lemma set_ordered_union [simp]: "set (ordered_union xs ys) = set xs \<union> set ys"
  by (auto simp: ordered_union_def)

lemma set_mutation_targets: "set (mutation_targets b) = \<Union> (leaf_targets ` set (all_ops b))"
proof -
  let ?f = "\<lambda>targets l. case mutation_target l of None \<Rightarrow> targets
      | Some t \<Rightarrow> if t \<in> set targets then targets else targets @ [t]"
  have "set (foldl ?f ts ls) = set ts \<union> \<Union> (leaf_targets ` set ls)" for ts ls
    by (induction ls arbitrary: ts) (auto simp: leaf_targets_def split: option.splits)
  then show ?thesis by (simp add: mutation_targets_def)
qed

lemma body_reads_leaves: "dep_name ` set (body_reads b) = \<Union> (leaf_reads ` set (all_ops b))"
  by (induction b rule: body_reads.induct) (auto simp: leaf_reads_def image_Un)

lemma body_writes_leaves:
  "\<Union> (leaf_writes ` set (all_ops b)) \<subseteq> dep_name ` set (body_writes b)
   \<and> dep_name ` set (body_writes b) \<subseteq> \<Union> ((\<lambda>l. leaf_writes l \<union> leaf_targets l) ` set (all_ops b))"
proof (induction b rule: body_writes.induct)
  case (3 n b i t c es)
  have "dep_name ` set (map star_dep (mutation_targets b)) = \<Union> (leaf_targets ` set (all_ops b))"
    unfolding set_mutation_targets [symmetric] by (force simp: star_dep_def)
  moreover have "\<Union> ((\<lambda>l. leaf_writes l \<union> leaf_targets l) ` set (all_ops b))
      = \<Union> (leaf_writes ` set (all_ops b)) \<union> \<Union> (leaf_targets ` set (all_ops b))" by auto
  ultimately show ?case using 3 by (simp only: body_writes.simps all_ops.simps set_ordered_union image_Un set_append Union_Un_distrib) auto
next
  case (2 l es)
  then show ?case by (simp add: leaf_writes_def image_Un) blast
qed simp

lemma entry_reads_leaves: "entry_reads e = \<Union> (leaf_reads ` set (all_ops [e]))"
  by (cases e) (simp_all add: entry_reads_def leaf_reads_def node_read_writes_def body_reads_leaves)

lemma entry_targets_leaves: "set (entry_targets e) = \<Union> (leaf_targets ` set (all_ops [e]))"
  by (cases e) (auto simp: entry_targets_def set_mutation_targets leaf_targets_def split: option.splits)

lemma entry_writes_leaves:
  "\<Union> (leaf_writes ` set (all_ops [e])) \<subseteq> entry_writes e"
  "entry_writes e \<subseteq> \<Union> ((\<lambda>l. leaf_writes l \<union> leaf_targets l) ` set (all_ops [e]))"
proof -
  have "\<Union> (leaf_writes ` set (all_ops [e])) \<subseteq> entry_writes e
    \<and> entry_writes e \<subseteq> \<Union> ((\<lambda>l. leaf_writes l \<union> leaf_targets l) ` set (all_ops [e]))"
  proof (cases e)
    case (LoopNode n b i t c)
    have "dep_name ` set (map star_dep (mutation_targets b)) = \<Union> (leaf_targets ` set (all_ops b))"
      unfolding set_mutation_targets [symmetric] by (force simp: star_dep_def)
    then show ?thesis using body_writes_leaves [of b] LoopNode
      by (simp add: entry_writes_def node_read_writes_def image_Un) blast
  qed (auto simp: entry_writes_def leaf_writes_def)
  then show "\<Union> (leaf_writes ` set (all_ops [e])) \<subseteq> entry_writes e"
    "entry_writes e \<subseteq> \<Union> ((\<lambda>l. leaf_writes l \<union> leaf_targets l) ` set (all_ops [e]))" by simp_all
qed

section \<open>The loop reaches the least fixed point\<close>

definition wanted :: "string set \<Rightarrow> entry \<Rightarrow> bool" where
  "wanted B e \<longleftrightarrow> (\<exists>l \<in> set (all_ops [e]). leaf_impure l \<and> mutation_target l = None)
     \<or> set (entry_targets e) \<inter> B \<noteq> {} \<or> entry_writes e \<inter> B \<noteq> {}"

definition met :: "entry \<Rightarrow> live \<Rightarrow> bool" where
  "met e st \<longleftrightarrow> entry_reads e \<union> set (entry_targets e) \<subseteq> fst st \<and> operation_name e \<in> snd st"

definition grows :: "live \<Rightarrow> live \<Rightarrow> bool" where
  "grows st st' \<longleftrightarrow> fst st \<subseteq> fst st' \<and> snd st \<subseteq> snd st'"

lemma leaf_observable:
  "leaf_has_side_effects l \<and> leaf_target_is_live l B \<longleftrightarrow>
     (leaf_impure l \<and> mutation_target l = None) \<or> leaf_targets l \<inter> B \<noteq> {}"
  by (cases "mutation_target l") (auto simp: leaf_has_side_effects_def leaf_target_is_live_def leaf_targets_def)

lemma entry_observable:
  "has_side_effects e \<and> mutation_target_is_live e B \<longleftrightarrow>
     (\<exists>l \<in> set (all_ops [e]). leaf_has_side_effects l \<and> leaf_target_is_live l B)"
  by (cases e) (auto simp: has_side_effects_def mutation_target_is_live_def list_ex_iff)

lemma visit_eq:
  "visit e st = (if wanted (fst st) e
     then (fst st \<union> entry_reads e \<union> set (entry_targets e), insert (operation_name e) (snd st)) else st)"
proof -
  have "has_side_effects e \<and> mutation_target_is_live e B \<or> entry_writes e \<inter> B \<noteq> {} \<longleftrightarrow> wanted B e" for B
    unfolding entry_observable leaf_observable wanted_def entry_targets_leaves by blast
  then show ?thesis by (cases st) (auto simp: visit_def)
qed

lemma wanted_mono: "wanted B e \<Longrightarrow> B \<subseteq> B' \<Longrightarrow> wanted B' e"
  unfolding wanted_def by blast

lemma grows_refl [simp]: "grows st st"
  by (simp add: grows_def)

lemma grows_trans: "grows a b \<Longrightarrow> grows b c \<Longrightarrow> grows a c"
  unfolding grows_def by blast

lemma met_mono: "met e st \<Longrightarrow> grows st st' \<Longrightarrow> met e st'"
  unfolding met_def grows_def by blast

lemma visit_grows: "grows st (visit e st)"
  by (auto simp: visit_eq grows_def)

lemma fold_grows: "grows st (foldl (\<lambda>st e. visit e st) st es)"
proof (induction es arbitrary: st)
  case (Cons x es)
  then show ?case using grows_trans [OF visit_grows [of st x]] by simp
qed simp

lemma fold_visits: "e \<in> set es \<Longrightarrow> wanted (fst st) e \<Longrightarrow> met e (foldl (\<lambda>st e. visit e st) st es)"
proof (induction es arbitrary: st)
  case (Cons x es)
  show ?case
  proof (cases "e = x")
    case True
    then have "met e (visit x st)" using Cons.prems(2) by (auto simp: visit_eq met_def)
    then show ?thesis using met_mono fold_grows by fastforce
  next
    case False
    have "wanted (fst (visit x st)) e"
      using wanted_mono [OF Cons.prems(2)] visit_grows [of st x] unfolding grows_def by blast
    then show ?thesis using Cons False by simp
  qed
qed simp

lemma fold_changes:
  "foldl (\<lambda>st e. visit e st) st es \<noteq> st \<Longrightarrow>
   \<exists>e \<in> set es. \<not> met e st \<and> met e (foldl (\<lambda>st e. visit e st) st es)"
proof (induction es arbitrary: st)
  case (Cons x es)
  show ?case
  proof (cases "visit x st = st")
    case True
    then show ?thesis using Cons by auto
  next
    case False
    then have w: "wanted (fst st) x" by (auto simp: visit_eq split: if_splits)
    have "\<not> met x st"
    proof
      assume "met x st"
      then have "fst (visit x st) = fst st" "snd (visit x st) = snd st"
        by (auto simp: visit_eq met_def)
      then show False using False by (simp add: prod_eq_iff)
    qed
    then show ?thesis using fold_visits [of x "x # es" st] w by auto
  qed
qed simp

lemma walk_grows: "grows st (walk_once ops st)"
  unfolding walk_once_def by (rule fold_grows)

lemma walk_visits: "e \<in> set ops \<Longrightarrow> wanted (fst st) e \<Longrightarrow> met e (walk_once ops st)"
  unfolding walk_once_def by (rule fold_visits) simp_all

lemma walk_changes: "walk_once ops st \<noteq> st \<Longrightarrow> \<exists>e \<in> set ops. \<not> met e st \<and> met e (walk_once ops st)"
  unfolding walk_once_def using fold_changes [of st "rev ops"] by simp

text \<open>Every pass that changes something meets one more entry, so one pass more than entries is enough.\<close>

definition unmet :: "entry list \<Rightarrow> live \<Rightarrow> nat" where
  "unmet ops st = length (filter (\<lambda>e. \<not> met e st) ops)"

lemma length_filter_strict:
  "(\<forall>x \<in> set xs. P x \<longrightarrow> Q x) \<Longrightarrow> y \<in> set xs \<Longrightarrow> \<not> P y \<Longrightarrow> Q y \<Longrightarrow> length (filter P xs) < length (filter Q xs)"
proof (induction xs)
  case (Cons x xs)
  have le: "length (filter P xs) \<le> length (filter Q xs)"
    using Cons.prems(1) by (induction xs) (auto)
  show ?case using Cons le by (cases "x = y") (auto simp: less_Suc_eq_le)
qed simp

lemma walk_unmet: "walk_once ops st \<noteq> st \<Longrightarrow> unmet ops (walk_once ops st) < unmet ops st"
  using walk_changes [of ops st] length_filter_strict [of ops "\<lambda>e. \<not> met e (walk_once ops st)" "\<lambda>e. \<not> met e st"]
    met_mono walk_grows [of st ops] unfolding unmet_def by blast

definition finite_live :: "live \<Rightarrow> bool" where
  "finite_live st \<longleftrightarrow> finite (fst st) \<and> finite (snd st)"

lemma finite_walk: "finite_live st \<Longrightarrow> finite_live (walk_once ops st)"
proof -
  have r: "finite (entry_reads e)" for e by (simp add: entry_reads_def)
  have "finite_live st \<Longrightarrow> finite_live (foldl (\<lambda>st e. visit e st) st es)" for es st
    by (induction es arbitrary: st) (auto simp: visit_eq finite_live_def r)
  then show "finite_live st \<Longrightarrow> finite_live (walk_once ops st)" by (simp add: walk_once_def)
qed

lemma grown_cards:
  assumes "grows st st'" "finite_live st'" "card (fst st') = card (fst st)" "card (snd st') = card (snd st)"
  shows "st' = st"
  using assms card_subset_eq [of "fst st'" "fst st"] card_subset_eq [of "snd st'" "snd st"]
  by (simp add: grows_def finite_live_def prod_eq_iff)

lemma live_loop_stable:
  "finite_live st \<Longrightarrow> unmet ops st < n \<Longrightarrow>
   walk_once ops (live_loop ops n st) = live_loop ops n st \<and> grows st (live_loop ops n st) \<and> finite_live (live_loop ops n st)"
proof (induction n arbitrary: st)
  case (Suc n)
  let ?a = "walk_once ops st"
  note fin = finite_walk [OF Suc.prems(1), of ops]
  show ?case
  proof (cases "?a = st")
    case True
    then show ?thesis using Suc.prems by simp
  next
    case False
    then have "live_loop ops (Suc n) st = live_loop ops n ?a"
      using grown_cards [OF walk_grows fin] by (auto simp: Let_def)
    then show ?thesis
      using Suc.IH [OF fin] walk_unmet [OF False] Suc.prems(2) grows_trans [OF walk_grows [of st ops]] by simp
  qed
qed simp

lemma live_state_fixpoint:
  "walk_once ops (live_state g ops) = live_state g ops" "observable_buffers g \<subseteq> fst (live_state g ops)"
proof -
  let ?st = "(observable_buffers g, {}) :: live"
  have "unmet ops ?st < length ops + 1" by (simp add: unmet_def le_imp_less_Suc)
  moreover have "finite_live ?st" by (simp add: finite_live_def observable_buffers_def)
  ultimately have "walk_once ops (live_state g ops) = live_state g ops \<and> grows ?st (live_state g ops)"
    unfolding live_state_def using live_loop_stable [of ?st ops "length ops + 1"] by blast
  then show "walk_once ops (live_state g ops) = live_state g ops" "observable_buffers g \<subseteq> fst (live_state g ops)"
    by (simp_all add: grows_def)
qed

lemma live_state_closed: "e \<in> set ops \<Longrightarrow> wanted (fst (live_state g ops)) e \<Longrightarrow> met e (live_state g ops)"
  using walk_visits [of e ops "live_state g ops"] live_state_fixpoint(1) [of ops g] by simp

lemma needed_wanted: "e \<in> set ops \<Longrightarrow> wanted {b. needed_buffer g ops b} e \<Longrightarrow> needed_entry g ops e"
  unfolding wanted_def by (auto intro: needed_buffer_needed_entry.intros)

definition justified :: "observed \<Rightarrow> entry list \<Rightarrow> live \<Rightarrow> bool" where
  "justified g ops st \<longleftrightarrow> fst st \<subseteq> {b. needed_buffer g ops b} \<and> snd st \<subseteq> operation_name ` {e. needed_entry g ops e}"

lemma visit_justified: "justified g ops st \<Longrightarrow> e \<in> set ops \<Longrightarrow> justified g ops (visit e st)"
  using needed_wanted [OF _ wanted_mono [of "fst st" e]]
  by (auto simp: visit_eq justified_def intro: needed_buffer_needed_entry.read_by needed_buffer_needed_entry.mutated_by)

lemma live_loop_justified: "justified g ops st \<Longrightarrow> justified g ops (live_loop ops n st)"
proof (induction n arbitrary: st)
  case (Suc n)
  have "justified g ops st \<Longrightarrow> set es \<subseteq> set ops \<Longrightarrow> justified g ops (foldl (\<lambda>st e. visit e st) st es)" for es st
  proof (induction es arbitrary: st)
    case (Cons e es)
    then show ?case using visit_justified [of g ops st e] by simp
  qed simp
  then have "justified g ops (walk_once ops st)" using Suc.prems by (simp add: walk_once_def)
  then show ?case using Suc.IH by (simp add: Let_def)
qed simp

lemma needed_live:
  "(needed_buffer g ops b \<longrightarrow> b \<in> fst (live_state g ops)) \<and> (needed_entry g ops e \<longrightarrow> met e (live_state g ops))"
proof -
  have w: "wanted (fst (live_state g ops)) e \<Longrightarrow> e \<in> set ops \<Longrightarrow> met e (live_state g ops)" for e
    by (rule live_state_closed)
  have "(needed_buffer g ops b \<longrightarrow> b \<in> fst (live_state g ops))
    \<and> (needed_entry g ops e \<longrightarrow> met e (live_state g ops))" for b e
  proof (rule needed_buffer_needed_entry.induct, goal_cases)
    case (1 b)
    then show ?case using live_state_fixpoint(2) by blast
  next
    case (2 e b)
    then show ?case by (auto simp: met_def)
  next
    case (3 e b)
    then show ?case by (auto simp: met_def)
  next
    case (4 e b)
    then show ?case by (intro w) (auto simp: wanted_def)
  next
    case (5 e b)
    then show ?case by (intro w) (auto simp: wanted_def)
  next
    case (6 e l)
    then show ?case by (intro w) (auto simp: wanted_def)
  qed
  then show ?thesis by blast
qed

lemma live_buffers_exact: "fst (live_state g ops) = {b. needed_buffer g ops b}"
proof -
  have "justified g ops (live_state g ops)"
    unfolding live_state_def by (rule live_loop_justified) (auto simp: justified_def intro: needed_buffer_needed_entry.observable)
  then show ?thesis using needed_live by (auto simp: justified_def)
qed

text \<open>
  C17. Liveness is the least fixed point: the bounded iteration (one pass more than there are
  entries, with an early break) returns exactly the names of the entries an observer needs,
  needed buffers being those of the graph's outputs, inputs and constants, what a needed
  entry reads, and what it mutates, in whatever order the entries are listed.
\<close>

theorem live_operations_least: "live_operations g ops = operation_name ` {e. needed_entry g ops e}"
proof
  have "justified g ops (live_state g ops)"
    unfolding live_state_def by (rule live_loop_justified) (auto simp: justified_def intro: needed_buffer_needed_entry.observable)
  then show "live_operations g ops \<subseteq> operation_name ` {e. needed_entry g ops e}"
    by (simp add: live_operations_def justified_def)
  show "operation_name ` {e. needed_entry g ops e} \<subseteq> live_operations g ops"
    using needed_live [of g ops] by (auto simp: live_operations_def met_def)
qed

section \<open>Removal takes exactly the dead entries\<close>

text \<open>Equality of operations compares their names, among other fields.\<close>

definition eq_by_name :: "(leaf \<Rightarrow> leaf \<Rightarrow> bool) \<Rightarrow> bool" where
  "eq_by_name eq \<longleftrightarrow> (\<forall>l m. eq l m \<longrightarrow> leaf_operation_name l = leaf_operation_name m)"

definition well_named :: "entry list \<Rightarrow> bool" where
  "well_named ops \<longleftrightarrow> distinct (map operation_name ops) \<and> distinct (map ident ops)"

lemma well_namedD:
  assumes "well_named ops" "e \<in> set ops" "f \<in> set ops" "operation_name e = operation_name f \<or> ident e = ident f"
  shows "e = f"
  using assms unfolding well_named_def distinct_map inj_on_def by blast

lemma same_entry_iff:
  assumes "well_named ops" "eq_by_name eq" "e \<in> set ops" "op \<in> set ops"
  shows "same_entry eq e op \<longleftrightarrow> e = op"
proof
  assume "same_entry eq e op"
  then have "ident e = ident op \<or> operation_name e = operation_name op"
    using assms(2) by (auto simp: same_entry_def eq_by_name_def operation_name_def split: entry.splits)
  then show "e = op" using well_namedD [OF assms(1,3,4)] by blast
qed (simp add: same_entry_def)

lemma list_remove_only:
  "\<forall>x \<in> set xs. P x \<longleftrightarrow> x = y \<Longrightarrow> y \<in> set xs \<Longrightarrow> distinct xs \<Longrightarrow> list_remove P xs = Inr (filter (\<lambda>x. x \<noteq> y) xs)"
proof (induction xs)
  case (Cons x xs)
  show ?case
  proof (cases "x = y")
    case True
    then have "filter (\<lambda>z. z \<noteq> y) xs = xs" using Cons.prems(3) by (auto simp: filter_id_conv)
    then show ?thesis using True Cons.prems by simp
  next
    case False
    then show ?thesis using Cons by auto
  qed
qed simp

lemma well_named_filter: "well_named ops \<Longrightarrow> well_named (filter P ops)"
  by (auto simp: well_named_def distinct_map_filter)

lemma remove_all_filter:
  assumes "eq_by_name eq"
  shows "well_named ops \<Longrightarrow> set dead \<subseteq> set ops \<Longrightarrow> distinct dead \<Longrightarrow>
    remove_all (\<lambda>op. list_remove (\<lambda>e. same_entry eq e op)) dead ops = Inr (filter (\<lambda>e. e \<notin> set dead) ops)"
proof (induction dead arbitrary: ops)
  case (Cons op dead)
  have "list_remove (\<lambda>e. same_entry eq e op) ops = Inr (filter (\<lambda>e. e \<noteq> op) ops)"
    using Cons.prems same_entry_iff [OF Cons.prems(1) assms]
    by (intro list_remove_only) (auto simp: well_named_def distinct_map)
  moreover have "set dead \<subseteq> set (filter (\<lambda>e. e \<noteq> op) ops)" using Cons.prems by auto
  ultimately show ?case using Cons.IH [OF well_named_filter [OF Cons.prems(1)]] Cons.prems(3)
    by (simp add: conj_commute)
qed simp

lemma dead_filter: "filter (\<lambda>e. e \<notin> set (dead_operations g ops)) ops
    = filter (\<lambda>e. operation_name e \<in> live_operations g ops) ops"
  by (auto simp: dead_operations_def intro: filter_cong)

lemma deadcode_filters:
  assumes "eq_by_name eq" "well_named ops"
  shows "deadcode_elimination eq g ops
    = Inr (filter (\<lambda>e. operation_name e \<in> live_operations g ops) ops, removed_by (dead_operations g ops))"
proof -
  have "distinct (dead_operations g ops)" using assms(2) by (simp add: well_named_def distinct_map dead_operations_def)
  moreover have "set (dead_operations g ops) \<subseteq> set ops" by (auto simp: dead_operations_def)
  ultimately show ?thesis
    using remove_all_filter [OF assms(1,2), of "dead_operations g ops"] by (simp add: deadcode_elimination_def dead_filter)
qed

text \<open>Through the view, a leaf disappears from the body that holds it.\<close>

fun prune :: "(leaf \<Rightarrow> bool) \<Rightarrow> entry list \<Rightarrow> entry list" where
  "prune keep [] = []"
| "prune keep (Leaf l # es) = (if keep l then Leaf l # prune keep es else prune keep es)"
| "prune keep (LoopNode n b i t c # es) = LoopNode n (prune keep b) i t c # prune keep es"

lemma prune_append [simp]: "prune keep (xs @ ys) = prune keep xs @ prune keep ys"
  by (induction keep xs rule: prune.induct) auto

lemma all_ops_prune [simp]: "all_ops (prune keep es) = filter keep (all_ops es)"
  by (induction keep es rule: prune.induct) auto

lemma prune_prune [simp]: "prune P (prune Q es) = prune (\<lambda>l. Q l \<and> P l) es"
  by (induction Q es rule: prune.induct) auto

lemma prune_cong: "\<forall>l \<in> set (all_ops es). P l = Q l \<Longrightarrow> prune P es = prune Q es"
  by (induction P es rule: prune.induct) auto

lemma prune_all: "\<forall>l \<in> set (all_ops es). keep l \<Longrightarrow> prune keep es = es"
  by (induction keep es rule: prune.induct) auto

lemma owning_sound: "owning_list es (Inl i) = Some a \<Longrightarrow> i \<in> leaf_id ` set (all_ops es)"
proof (induction es arbitrary: a rule: all_ops.induct)
  case (3 n b i' t c es)
  then show ?case by (cases "owning_list b (Inl i)") auto
qed (auto split: if_splits)

lemma delete_prunes:
  assumes "owning_list es (Inl i) = Some (p, j)" "distinct (map leaf_id (all_ops es))"
  shows "edit_at p (list_delete j) es = prune (\<lambda>l. leaf_id l \<noteq> i) es"
  using assms
proof (induction p arbitrary: es)
  case Nil
  obtain l1 e l2 where d: "es = l1 @ e # l2" "length l1 = j" "ident e = Inl i" using owning_here [OF Nil(1)] by blast
  then obtain l where l: "e = Leaf l" "leaf_id l = i" by (cases e) (auto simp: ident_def)
  have "i \<notin> leaf_id ` set (all_ops l1)" "i \<notin> leaf_id ` set (all_ops l2)" using Nil(2) d(1) l by auto
  then have "prune (\<lambda>l. leaf_id l \<noteq> i) l1 = l1" "prune (\<lambda>l. leaf_id l \<noteq> i) l2 = l2"
    by (auto intro!: prune_all)
  then show ?case using d l by (simp add: list_delete_def)
next
  case (Cons k p)
  obtain l1 n b it tc c l2 where d: "es = l1 @ LoopNode n b it tc c # l2" "length l1 = k" "owning_list b (Inl i) = Some (p, j)"
    using owning_below [OF Cons.prems(1)] by blast
  have "edit_at p (list_delete j) b = prune (\<lambda>l. leaf_id l \<noteq> i) b"
    using Cons.IH [OF d(3)] Cons.prems(2) d(1) by simp
  moreover have "i \<notin> leaf_id ` set (all_ops l1)" "i \<notin> leaf_id ` set (all_ops l2)"
    using Cons.prems(2) d(1) owning_sound [OF d(3)] by auto
  then have "prune (\<lambda>l. leaf_id l \<noteq> i) l1 = l1" "prune (\<lambda>l. leaf_id l \<noteq> i) l2 = l2"
    by (auto intro!: prune_all)
  ultimately show ?case using d by (simp add: body_of_def set_body_def list_update_append nth_append)
qed

lemma first_index_self:
  assumes "eq_by_name eq" "distinct (map leaf_operation_name flat)" "distinct (map leaf_id flat)" "l \<in> set flat"
  obtains k where "first_index eq flat l = Inr k" "k < length flat" "flat ! k = l"
proof -
  let ?P = "\<lambda>k. leaf_id (flat ! k) = leaf_id l \<or> eq (flat ! k) l"
  have same: "flat ! k = l" if "?P k" "k < length flat" for k
  proof -
    have "leaf_id (flat ! k) = leaf_id l \<or> leaf_operation_name (flat ! k) = leaf_operation_name l"
      using that(1) assms(1) by (auto simp: eq_by_name_def)
    then show ?thesis using that(2) assms(2-4) unfolding distinct_map inj_on_def by (metis nth_mem)
  qed
  obtain i where "i < length flat" "flat ! i = l" using assms(4) by (auto simp: in_set_conv_nth)
  then have "find ?P [0..<length flat] \<noteq> None" by (auto simp: find_None_iff)
  then obtain k where k: "find ?P [0..<length flat] = Some k" by blast
  then have "?P k" "k < length flat" by (auto simp: find_Some_iff)
  then show ?thesis using that [of k] same k by (simp add: first_index_def)
qed

lemma view_remove_prunes:
  assumes "eq_by_name eq" "distinct (map leaf_operation_name (all_ops tree))" "distinct (map leaf_id (all_ops tree))"
    "l \<in> set (all_ops tree)"
  shows "view_remove eq l tree = Inr (prune (\<lambda>m. m \<noteq> l) tree)"
proof -
  obtain k where k: "first_index eq (all_ops tree) l = Inr k" "k < length (all_ops tree)" "all_ops tree ! k = l"
    by (rule first_index_self [OF assms])
  obtain p j where a: "owning_list tree (Inl (leaf_id l)) = Some (p, j)"
    using owning_complete [OF assms(4)] by auto
  have "prune (\<lambda>m. leaf_id m \<noteq> leaf_id l) tree = prune (\<lambda>m. m \<noteq> l) tree"
    by (rule prune_cong) (use assms(3,4) in \<open>auto simp: distinct_map inj_on_def\<close>)
  then show ?thesis using k a delete_prunes [OF a assms(3)]
    by (simp add: view_remove_def locate_def holder_def)
qed

lemma remove_leaves:
  assumes "eq_by_name eq"
  shows "distinct (map leaf_operation_name (all_ops tree)) \<Longrightarrow> distinct (map leaf_id (all_ops tree)) \<Longrightarrow>
    set ls \<subseteq> set (all_ops tree) \<Longrightarrow> distinct ls \<Longrightarrow>
    remove_all (remove_leaf eq) (map Leaf ls) tree = Inr (prune (\<lambda>m. m \<notin> set ls) tree)"
proof (induction ls arbitrary: tree)
  case (Cons l ls)
  let ?t = "prune (\<lambda>m. m \<noteq> l) tree"
  have "view_remove eq l tree = Inr ?t" using view_remove_prunes [OF assms Cons.prems(1,2), of l] Cons.prems(3) by simp
  moreover have "remove_all (remove_leaf eq) (map Leaf ls) ?t = Inr (prune (\<lambda>m. m \<notin> set ls) ?t)"
    by (rule Cons.IH) (use Cons.prems in \<open>auto simp: distinct_map_filter\<close>)
  ultimately show ?case by simp
next
  case Nil
  show ?case using prune_all [of tree "\<lambda>_. True"] by simp
qed

section \<open>What an observer sees is preserved\<close>

text \<open>A leaf the pass may treat as it does: kept with what it needs, or without effect on the live buffers.\<close>

definition sound_for :: "string set \<Rightarrow> (leaf \<Rightarrow> bool) \<Rightarrow> leaf \<Rightarrow> bool" where
  "sound_for B keep l \<longleftrightarrow> (keep l \<and> leaf_reads l \<union> leaf_targets l \<subseteq> B) \<or> (leaf_writes l \<union> leaf_targets l) \<inter> B = {}"

lemma agree_refl [simp]: "agree_on_bufs B s s"
  by (simp add: agree_on_bufs_def)

lemma run_frame:
  assumes "declared_effects run" "(leaf_writes l \<union> leaf_targets l) \<inter> B = {}" "agree_on_bufs B s s'"
  shows "agree_on_bufs B (run l s) s'" "agree_on_bufs B s (run l s')"
proof -
  have "run l s b = s b" if "b \<in> B" for s b
    using assms(1,2) that unfolding declared_effects_def by blast
  then show "agree_on_bufs B (run l s) s'" "agree_on_bufs B s (run l s')"
    using assms(3) by (simp_all add: agree_on_bufs_def)
qed

lemma run_agree:
  assumes "declared_effects run" "leaf_reads l \<union> leaf_targets l \<subseteq> B" "agree_on_bufs B s s'"
  shows "agree_on_bufs B (run l s) (run l s')"
proof -
  have "agree_on_bufs (leaf_reads l \<union> leaf_targets l) s s'" using assms(2,3) unfolding agree_on_bufs_def by blast
  then have "agree_on_bufs (leaf_writes l \<union> leaf_targets l) (run l s) (run l s')"
    using assms(1) unfolding declared_effects_def by blast
  moreover have "run l s b = s b" if "b \<notin> leaf_writes l \<union> leaf_targets l" for s b
    using assms(1) that unfolding declared_effects_def by blast
  ultimately show ?thesis using assms(3) unfolding agree_on_bufs_def by metis
qed

lemma exec_prune:
  assumes "declared_effects run"
  shows "\<forall>l \<in> set (all_ops es). sound_for B keep l \<Longrightarrow> agree_on_bufs B s s' \<Longrightarrow>
    agree_on_bufs B (exec_ops run trips (prune keep es) s) (exec_ops run trips es s')"
proof (induction keep es arbitrary: s s' rule: prune.induct)
  case (2 keep l es)
  let ?s = "if keep l then run l s else s"
  have "agree_on_bufs B ?s (run l s')"
  proof (cases "(leaf_writes l \<union> leaf_targets l) \<inter> B = {}")
    case True
    then show ?thesis using run_frame [OF assms True] 2(4) by simp
  next
    case False
    then have "keep l" "leaf_reads l \<union> leaf_targets l \<subseteq> B" using 2(3) by (auto simp: sound_for_def)
    then show ?thesis using run_agree [OF assms _ 2(4)] by simp
  qed
  then show ?case using 2 by (cases "keep l") auto
next
  case (3 keep n b i t c es)
  have "agree_on_bufs B ((exec_ops run trips (prune keep b) ^^ k) s) ((exec_ops run trips b ^^ k) s')" for k
    by (induction k) (use 3 in auto)
  then show ?case using 3(2,3) by auto
qed simp

lemma exec_nothing: "exec_ops run trips (prune (\<lambda>_. False) es) = id"
  by (induction "\<lambda>_::leaf. False" es rule: prune.induct) (simp_all add: id_funpow)

lemma exec_Cons: "exec_ops run trips (e # es) = exec_ops run trips es \<circ> exec_ops run trips [e]"
  by (cases e) simp_all

lemma exec_filter:
  assumes "declared_effects run"
    and "\<forall>e \<in> set ops. (keep e \<and> entry_reads e \<union> set (entry_targets e) \<subseteq> B)
       \<or> (entry_writes e \<union> set (entry_targets e)) \<inter> B = {}"
  shows "agree_on_bufs B s s' \<Longrightarrow> agree_on_bufs B (exec_ops run trips (filter keep ops) s) (exec_ops run trips ops s')"
  using assms(2)
proof (induction ops arbitrary: s s')
  case (Cons e ops)
  have untouched: "\<forall>l \<in> set (all_ops [e]). sound_for B k l" if "(entry_writes e \<union> set (entry_targets e)) \<inter> B = {}" for k
    using that entry_writes_leaves(1) [of e] entry_targets_leaves [of e] unfolding sound_for_def by blast
  have step: "agree_on_bufs B (if keep e then exec_ops run trips [e] s else s) (exec_ops run trips [e] s')"
  proof (cases "keep e")
    case True
    have "\<forall>l \<in> set (all_ops [e]). sound_for B (\<lambda>_. True) l"
    proof (cases "(entry_writes e \<union> set (entry_targets e)) \<inter> B = {}")
      case False
      then have "entry_reads e \<union> set (entry_targets e) \<subseteq> B" using Cons.prems(2) by auto
      then show ?thesis unfolding sound_for_def entry_reads_leaves entry_targets_leaves by blast
    qed (rule untouched)
    then show ?thesis using True exec_prune [OF assms(1) _ Cons.prems(1), of "[e]" "\<lambda>_. True"] prune_all [of "[e]" "\<lambda>_. True"]
      by simp
  next
    case False
    then have "\<forall>l \<in> set (all_ops [e]). sound_for B (\<lambda>_. False) l" using untouched Cons.prems(2) by auto
    then have "agree_on_bufs B (exec_ops run trips (prune (\<lambda>_. False) [e]) s) (exec_ops run trips [e] s')"
      by (intro exec_prune [OF assms(1) _ Cons.prems(1)])
    then show ?thesis using False unfolding exec_nothing by simp
  qed
  have "agree_on_bufs B (exec_ops run trips (filter keep ops) (if keep e then exec_ops run trips [e] s else s))
      (exec_ops run trips ops (exec_ops run trips [e] s'))"
    by (rule Cons.IH [OF step]) (use Cons.prems(2) in simp)
  then show ?case using exec_Cons [of run trips e ops] exec_Cons [of run trips e "filter keep ops"]
    by (cases "keep e") simp_all
qed simp

text \<open>What liveness decides of one entry.\<close>

lemma entry_decided:
  assumes "e \<in> set ops"
  shows "(operation_name e \<in> live_operations g ops \<and> entry_reads e \<union> set (entry_targets e) \<subseteq> fst (live_state g ops))
    \<or> (entry_writes e \<union> set (entry_targets e)) \<inter> fst (live_state g ops) = {}"
proof (cases "wanted (fst (live_state g ops)) e")
  case True
  then show ?thesis using live_state_closed [OF assms] by (auto simp: met_def live_operations_def)
qed (auto simp: wanted_def)

lemma kept_entry_reads:
  assumes "well_named ops" "e \<in> set ops" "operation_name e \<in> live_operations g ops"
  shows "entry_reads e \<subseteq> fst (live_state g ops)"
proof -
  have just: "justified g ops (live_state g ops)"
    unfolding live_state_def by (rule live_loop_justified) (auto simp: justified_def intro: needed_buffer_needed_entry.observable)
  then obtain f where f: "needed_entry g ops f" "operation_name f = operation_name e"
    using assms(3) by (auto simp: justified_def live_operations_def)
  then have "f \<in> set ops" by (auto elim: needed_entry.cases)
  then have "f = e" using well_namedD [OF assms(1) _ assms(2)] f(2) by blast
  then show ?thesis using f(1) needed_live [of g ops undefined e] by (auto simp: met_def)
qed

lemma removed_not_live: "removed_by (dead_operations g ops) \<inter> fst (live_state g ops) = {}"
proof -
  have "leaf_writes l \<inter> fst (live_state g ops) = {}" if "e \<in> set (dead_operations g ops)" "l \<in> set (all_ops [e])" for e l
    using entry_decided [of e ops g] entry_writes_leaves(1) [of e] that by (auto simp: dead_operations_def)
  moreover have "set (all_ops es) = (\<Union>e \<in> set es. set (all_ops [e]))" for es
  proof (induction es)
    case (Cons e es)
    then show ?case using all_ops_append [of "[e]" es] by simp
  qed simp
  ultimately have "leaf_writes l \<inter> fst (live_state g ops) = {}" if "l \<in> set (all_ops (dead_operations g ops))" for l
    using that by blast
  then show ?thesis unfolding removed_by_def by blast
qed

lemma impure_survives:
  assumes "e \<in> set ops" "l \<in> set (all_ops [e])" "leaf_impure l" "mutation_target l = None"
  shows "operation_name e \<in> live_operations g ops"
  using needed_live [of g ops undefined e] needed_buffer_needed_entry.impure [OF assms, of g]
  by (auto simp: met_def live_operations_def)

text \<open>
  Dead code elimination keeps what can be observed.  Whatever the operations compute, as long
  as each changes only the buffers it declares and computes them from the buffers it declares to
  read, the surviving entries leave the graph's outputs, inputs and constants as the original
  list does, for every trip count of its loops.  No buffer marked as removed is one of these or is
  read by a survivor, and no entry with an impure operation is removed.
\<close>

lemma deadcode_elimination_preserves:
  fixes run :: "leaf \<Rightarrow> 'v store \<Rightarrow> 'v store"
  assumes "declared_effects run" "eq_by_name eq" "well_named ops"
  shows "\<exists>ops' removed. deadcode_elimination eq g ops = Inr (ops', removed)
    \<and> agree_on_bufs (observable_buffers g) (exec_ops run trips ops' s) (exec_ops run trips ops s)
    \<and> removed \<inter> (observable_buffers g \<union> \<Union> (entry_reads ` set ops')) = {}
    \<and> filter (\<lambda>e. list_ex (\<lambda>l. leaf_impure l \<and> mutation_target l = None) (all_ops [e])) ops
      = filter (\<lambda>e. list_ex (\<lambda>l. leaf_impure l \<and> mutation_target l = None) (all_ops [e])) ops'"
proof -
  let ?B = "fst (live_state g ops)" and ?live = "\<lambda>e. operation_name e \<in> live_operations g ops"
  let ?impure = "\<lambda>e. list_ex (\<lambda>l. leaf_impure l \<and> mutation_target l = None) (all_ops [e])"
  have obs: "observable_buffers g \<subseteq> ?B" by (rule live_state_fixpoint(2))
  have "agree_on_bufs ?B (exec_ops run trips (filter ?live ops) s) (exec_ops run trips ops s)"
    using entry_decided by (intro exec_filter [OF assms(1)]) auto
  then have "agree_on_bufs (observable_buffers g) (exec_ops run trips (filter ?live ops) s) (exec_ops run trips ops s)"
    using obs unfolding agree_on_bufs_def by blast
  moreover have "\<Union> (entry_reads ` set (filter ?live ops)) \<subseteq> ?B" using kept_entry_reads [OF assms(3)] by auto
  then have "removed_by (dead_operations g ops) \<inter> (observable_buffers g \<union> \<Union> (entry_reads ` set (filter ?live ops))) = {}"
    using removed_not_live [of g ops] obs by blast
  moreover have "filter ?impure ops = filter ?impure (filter ?live ops)"
    unfolding filter_filter by (rule filter_cong [OF refl]) (auto simp: list_ex_iff intro: impure_survives)
  ultimately show ?thesis using deadcode_filters [OF assms(2,3), of g] by blast
qed

text \<open>Two leaves, one of them read by nobody, and a loop that writes into storage.\<close>

definition plain_leaf :: "nat \<Rightarrow> string \<Rightarrow> string list \<Rightarrow> string option \<Rightarrow> leaf" where
  "plain_leaf i n rs target = \<lparr>leaf_id = i, leaf_operation_name = ''op_'' @ n, leaf_is_computed = True, leaf_impure = False,
     leaf_op = \<lparr>op_name = n, op_is_extern = False, op_is_pointwise = True, op_has_target = True, op_loop_info = None,
       op_reads = map star_dep rs, op_writes = [star_dep n], op_mutation_target = target\<rparr>,
     leaf_carry = None, leaf_symbols = Some []\<rparr>"

definition dce_graph :: observed where
  "dce_graph = \<lparr>output_names = [''out''], graph_inputs = [''x''], graph_constants = []\<rparr>"

definition dce_ops :: "entry list" where
  "dce_ops = [Leaf (plain_leaf 0 ''acc'' [''x''] None), Leaf (plain_leaf 1 ''lost'' [''x''] None),
     LoopNode 0 [Leaf (plain_leaf 2 ''t'' [''acc''] None), Leaf (plain_leaf 3 ''u'' [''t''] (Some ''acc''))] None ''3'' [],
     Leaf (plain_leaf 4 ''out'' [''acc''] None)]"

text \<open>Each operation puts the sum of what it reads, plus one, into what it writes.\<close>

definition sum_run :: "leaf \<Rightarrow> (string \<Rightarrow> int) \<Rightarrow> string \<Rightarrow> int" where
  "sum_run l s b = (if b \<in> leaf_writes l \<union> leaf_targets l then sum s (leaf_reads l \<union> leaf_targets l) + 1 else s b)"

lemma sum_run_declared: "declared_effects sum_run"
  unfolding declared_effects_def agree_on_bufs_def sum_run_def by (auto intro!: sum.cong)

lemma dce_ops_named: "well_named dce_ops"
  by code_simp

lemma deadcode_elimination_preserves_example:
  "\<exists>removed. deadcode_elimination (\<lambda>_ _. False) dce_graph dce_ops
      = Inr (filter (\<lambda>e. operation_name e \<noteq> Inl ''op_lost'') dce_ops, removed)
    \<and> agree_on_bufs (observable_buffers dce_graph)
        (exec_ops sum_run (\<lambda>_. 3) (filter (\<lambda>e. operation_name e \<noteq> Inl ''op_lost'') dce_ops) (\<lambda>_. 0))
        (exec_ops sum_run (\<lambda>_. 3) dce_ops (\<lambda>_. 0))"
proof -
  have "case deadcode_elimination (\<lambda>_ _. False) dce_graph dce_ops of Inl _ \<Rightarrow> False
    | Inr (ops, removed) \<Rightarrow> ops = filter (\<lambda>e. operation_name e \<noteq> Inl ''op_lost'') dce_ops" by code_simp
  moreover have "eq_by_name (\<lambda>_ _. False)" by (simp add: eq_by_name_def)
  ultimately show ?thesis
    using deadcode_elimination_preserves [OF sum_run_declared _ dce_ops_named, of "\<lambda>_ _. False" dce_graph "\<lambda>_. 3" "\<lambda>_. 0"]
    by auto
qed

text \<open>
  C7. Dead code elimination through the flat view keeps what can be observed inside loops too:
  it removes exactly the leaves whose names are not live, each from the body that holds it, and the
  tree that is left computes the same outputs, inputs and constants for every trip count, although a
  read at the top of a body sees the write at its bottom on the next trip.
\<close>

theorem deadcode_view_preserves:
  fixes run :: "leaf \<Rightarrow> 'v store \<Rightarrow> 'v store"
  assumes "declared_effects run" "eq_by_name eq"
    and "distinct (map leaf_operation_name (all_ops tree))" "distinct (map leaf_id (all_ops tree))"
  shows "\<exists>tree' removed. deadcode_view eq g tree = Inr (tree', removed)
    \<and> all_ops tree' = filter (\<lambda>l. Inl (leaf_operation_name l) \<in> live_operations g (map Leaf (all_ops tree))) (all_ops tree)
    \<and> agree_on_bufs (observable_buffers g) (exec_ops run trips tree' s) (exec_ops run trips tree s)
    \<and> removed \<inter> (observable_buffers g \<union> \<Union> (leaf_reads ` set (all_ops tree'))) = {}"
proof -
  let ?ops = "map Leaf (all_ops tree)"
  let ?B = "fst (live_state g ?ops)" and ?live = "\<lambda>l. Inl (leaf_operation_name l) \<in> live_operations g ?ops"
  let ?ls = "filter (\<lambda>l. \<not> ?live l) (all_ops tree)"
  have named: "well_named ?ops"
    using assms(3,4) by (auto simp: well_named_def operation_name_def ident_def comp_def distinct_map inj_on_def)
  have dead: "dead_operations g ?ops = map Leaf ?ls"
    by (simp add: dead_operations_def filter_map comp_def operation_name_def)
  have "remove_all (remove_leaf eq) (map Leaf ?ls) tree = Inr (prune (\<lambda>m. m \<notin> set ?ls) tree)"
    by (rule remove_leaves [OF assms(2-4)]) (use assms(4) in \<open>auto simp: distinct_map\<close>)
  moreover have "prune (\<lambda>m. m \<notin> set ?ls) tree = prune ?live tree" by (rule prune_cong) auto
  ultimately have r: "deadcode_view eq g tree = Inr (prune ?live tree, removed_by (dead_operations g ?ops))"
    by (simp add: deadcode_view_def dead)
  have obs: "observable_buffers g \<subseteq> ?B" by (rule live_state_fixpoint(2))
  have leaf: "entry_reads (Leaf l) = leaf_reads l" "set (entry_targets (Leaf l)) = leaf_targets l" "entry_writes (Leaf l) = leaf_writes l" for l
    by (simp_all add: entry_reads_leaves entry_targets_leaves entry_writes_def leaf_writes_def)
  have "\<forall>l \<in> set (all_ops tree). sound_for ?B ?live l"
    using entry_decided [of "Leaf l" ?ops g for l] leaf by (auto simp: sound_for_def operation_name_def)
  then have "agree_on_bufs ?B (exec_ops run trips (prune ?live tree) s) (exec_ops run trips tree s)"
    by (rule exec_prune [OF assms(1)]) simp
  then have "agree_on_bufs (observable_buffers g) (exec_ops run trips (prune ?live tree) s) (exec_ops run trips tree s)"
    using obs unfolding agree_on_bufs_def by blast
  moreover have "\<Union> (leaf_reads ` set (filter ?live (all_ops tree))) \<subseteq> ?B"
    using kept_entry_reads [OF named, of "Leaf l" g for l] leaf by (auto simp: operation_name_def)
  then have "removed_by (dead_operations g ?ops) \<inter> (observable_buffers g \<union> \<Union> (leaf_reads ` set (filter ?live (all_ops tree)))) = {}"
    using removed_not_live [of g ?ops] obs by blast
  ultimately show ?thesis using r by simp
qed

theorem deadcode_view_preserves_witness:
  "\<exists>tree' removed. deadcode_view (\<lambda>_ _. False) dce_graph dce_ops = Inr (tree', removed)
    \<and> map leaf_id (all_ops tree') = [0, 2, 3, 4]
    \<and> agree_on_bufs (observable_buffers dce_graph) (exec_ops sum_run (\<lambda>_. 3) tree' (\<lambda>_. 0)) (exec_ops sum_run (\<lambda>_. 3) dce_ops (\<lambda>_. 0))"
proof -
  have "case deadcode_view (\<lambda>_ _. False) dce_graph dce_ops of Inl _ \<Rightarrow> False
    | Inr (tree', removed) \<Rightarrow> map leaf_id (all_ops tree') = [0, 2, 3, 4]" by code_simp
  moreover have "eq_by_name (\<lambda>_ _. False)" by (simp add: eq_by_name_def)
  moreover have "distinct (map leaf_operation_name (all_ops dce_ops))" "distinct (map leaf_id (all_ops dce_ops))" by code_simp+
  ultimately show ?thesis
    using deadcode_view_preserves [OF sum_run_declared, of "\<lambda>_ _. False" dce_ops dce_graph "\<lambda>_. 3" "\<lambda>_. 0"] by auto
qed


end
