(* ===== verification/Slice_Ownership.thy ===== *)
theory Slice_Ownership
  imports Spyre_Prelude "HOL-Library.Multiset"
begin

text \<open>
  Proofs that a core's slice of a device axis is a slice of loops:
  \<^verbatim>\<open>src/torch_spyre/_inductor/slice_ownership.py\<close>.

  A coordinate is a SymPy expression.  The code looks at its expanded form only, and this
  form is the data here: a constant and a sum of distinct atoms with coefficients, \<open>None\<close>
  where SymPy does not report an integer.  An atom is a loop, the floor of an affine form over
  an integer denominator in lowest terms, or anything else (\<open>Opaque\<close>, with its free symbols).
  The iteration space maps a loop to its extent, \<open>None\<close> again for an extent that is not an
  integer.  The value of a coordinate at a point of the space is defined where no part of it is
  opaque, and the theorems are about that value.
\<close>

section \<open>Coordinates\<close>

datatype atom = Sym string | Floor "(string \<times> int) list" int int | Opaque "string list"

record coordinate =
  const_term :: "int option"
  terms :: "(atom \<times> int option) list"

type_synonym iteration_space = "string \<rightharpoonup> int option"

fun atom_symbols :: "atom \<Rightarrow> string list" where
  "atom_symbols (Sym s) = [s]"
| "atom_symbols (Floor ns n0 d) = map fst ns"
| "atom_symbols (Opaque ss) = ss"

definition free_symbols :: "coordinate \<Rightarrow> string list" where
  "free_symbols c = remdups (concat (map (atom_symbols \<circ> fst) (terms c)))"

definition dot_loops :: "(string \<times> int) list \<Rightarrow> (string \<Rightarrow> int) \<Rightarrow> int" where
  "dot_loops ks env = sum_list (map (\<lambda>(s, k). k * env s) ks)"

section \<open>Containment in one loop\<close>

text \<open>The constant and the coefficients, where the coordinate is affine in its loops.\<close>

fun plain_terms :: "(atom \<times> int option) list \<Rightarrow> (string \<times> int) list option" where
  "plain_terms [] = Some []"
| "plain_terms ((Sym s, Some k) # ts) = map_option (Cons (s, k)) (plain_terms ts)"
| "plain_terms (t # ts) = None"

definition affine_form :: "coordinate \<Rightarrow> (int \<times> (string \<times> int) list) option" where
  "affine_form c = (case (const_term c, plain_terms (terms c)) of
     (Some o0, Some ks) \<Rightarrow> Some (o0, ks) | _ \<Rightarrow> None)"

definition integer_extent :: "iteration_space \<Rightarrow> string \<Rightarrow> int option" where
  "integer_extent space s = (case space s of Some (Some e) \<Rightarrow> if 0 < e then Some e else None | _ \<Rightarrow> None)"

definition other_span :: "(string \<times> int \<times> int) list \<Rightarrow> string \<Rightarrow> int" where
  "other_span loops loop = sum_list (map (\<lambda>(s, k, e). k * (e - 1)) (filter (\<lambda>(s, k, e). s \<noteq> loop) loops))"

definition slot_contained :: "int \<Rightarrow> int \<Rightarrow> int \<Rightarrow> int \<Rightarrow> int \<Rightarrow> int \<Rightarrow> bool" where
  "slot_contained origin step loop_width others width slot =
     (let low = origin + step * slot * loop_width; high = low + step * (loop_width - 1) + others in
      slot * width \<le> low \<and> low \<le> high \<and> high < (slot + 1) * width)"

definition loop_contains :: "int \<Rightarrow> int \<Rightarrow> int \<Rightarrow> (string \<times> int \<times> int) list \<Rightarrow> string \<times> int \<times> int \<Rightarrow> bool" where
  "loop_contains origin width split loops p =
     (case p of (loop, step, extent) \<Rightarrow> extent mod split = 0 \<and>
        list_all (slot_contained origin step (extent div split) (other_span loops loop) width) [0..split - 1])"

definition project_affine_slice_axis ::
  "coordinate \<Rightarrow> int \<Rightarrow> int \<Rightarrow> iteration_space \<Rightarrow> (string \<times> coordinate) option result" where
  "project_affine_slice_axis c device_extent split space =
     (let symbols = free_symbols c in
      if length symbols < 2 \<or> list_ex (\<lambda>s. space s = None) symbols then Inr None
      else case affine_form c of
        None \<Rightarrow> Inr None
      | Some (origin, ks) \<Rightarrow>
          if list_ex (\<lambda>(s, k). k \<le> 0) ks \<or> list_ex (\<lambda>s. integer_extent space s = None) symbols then Inr None
          else if split = 0 then Inl ZeroDivisionError
          else
            (let loops = map (\<lambda>(s, k). (s, k, the (integer_extent space s))) ks;
                 projections = filter (loop_contains origin (device_extent div split) split loops) loops
             in Inr (case projections of
                  [(loop, step, extent)] \<Rightarrow> Some (loop, \<lparr>const_term = Some origin, terms = [(Sym loop, Some step)]\<rparr>)
                | _ \<Rightarrow> None)))"

section \<open>One floor of an affine form\<close>

definition is_floor :: "atom \<Rightarrow> bool" where
  "is_floor a = (case a of Floor _ _ _ \<Rightarrow> True | _ \<Rightarrow> False)"

definition coefficient_of :: "(string \<times> int) list \<Rightarrow> string \<Rightarrow> int" where
  "coefficient_of ks s = sum_list (map snd (filter (\<lambda>(t, k). t = s) ks))"

text \<open>The numerator over the denominator \<open>d\<close> of an integer affine form plus a quotient.\<close>

definition scaled_numerator ::
  "int \<Rightarrow> (string \<times> int) list \<Rightarrow> (string \<times> int) list \<Rightarrow> int \<Rightarrow> int \<Rightarrow> string list \<Rightarrow> coordinate" where
  "scaled_numerator o0 ks ns n0 d symbols =
     \<lparr>const_term = Some (d * o0 + n0),
      terms = map (\<lambda>s. (Sym s, Some (d * coefficient_of ks s + coefficient_of ns s)))
        (filter (\<lambda>s. d * coefficient_of ks s + coefficient_of ns s \<noteq> 0) symbols)\<rparr>"

fun restrict_atom :: "string \<Rightarrow> atom \<Rightarrow> atom" where
  "restrict_atom loop (Floor ns n0 d) = Floor (filter (\<lambda>(s, k). s = loop) ns) n0 d"
| "restrict_atom loop a = a"

definition keeps_loop :: "string \<Rightarrow> atom \<Rightarrow> bool" where
  "keeps_loop loop a = (case a of Sym s \<Rightarrow> s = loop | _ \<Rightarrow> True)"

text \<open>The other loops set to zero.\<close>

definition restrict_to :: "string \<Rightarrow> coordinate \<Rightarrow> coordinate" where
  "restrict_to loop c = c\<lparr>terms := map (\<lambda>(a, k). (restrict_atom loop a, k)) (filter (\<lambda>(a, k). keeps_loop loop a) (terms c))\<rparr>"

definition project_floor_affine_slice_axis ::
  "coordinate \<Rightarrow> int \<Rightarrow> int \<Rightarrow> iteration_space \<Rightarrow> (string \<times> coordinate) option result" where
  "project_floor_affine_slice_axis c device_extent split space =
     (case filter (\<lambda>(a, k). is_floor a) (terms c) of
        [(Floor ns n0 d, Some k)] \<Rightarrow>
          (case affine_form (c\<lparr>terms := filter (\<lambda>(a, k). \<not> is_floor a) (terms c)\<rparr>) of
             None \<Rightarrow> Inr None
           | Some (o0, ks) \<Rightarrow>
               if k \<noteq> 1 \<or> d \<le> 0 then Inr None
               else rbind (project_affine_slice_axis (scaled_numerator o0 ks ns n0 d (free_symbols c))
                             (device_extent * d) split space) (\<lambda>projected.
                    Inr (map_option (\<lambda>(loop, _). (loop, restrict_to loop c)) projected)))
      | _ \<Rightarrow> Inr None)"

definition project_slice_axis ::
  "coordinate \<Rightarrow> int \<Rightarrow> int \<Rightarrow> iteration_space \<Rightarrow> bool \<Rightarrow> (string \<times> coordinate) option result" where
  "project_slice_axis c device_extent split space floor_only =
     rbind (if floor_only then Inr None else project_affine_slice_axis c device_extent split space) (\<lambda>projected.
     case projected of Some p \<Rightarrow> Inr (Some p)
     | None \<Rightarrow> project_floor_affine_slice_axis c device_extent split space)"

section \<open>Exact factors\<close>

text \<open>A digit: its coefficient, the atom it is, and the number of values it takes.\<close>

record digit =
  dig_coefficient :: int
  dig_atom :: atom
  dig_radix :: int

record slice_factor =
  fac_radix :: int
  fac_digit :: atom
  fac_factor :: int
  fac_remaining :: int

text \<open>\<open>sympy.Mod(sympy.floor(slot / remaining), factor)\<close> at a value of the slot.\<close>

definition fac_owner :: "slice_factor \<Rightarrow> int \<Rightarrow> int" where
  "fac_owner f slot = (slot div fac_remaining f) mod fac_factor f"

fun loop_digit :: "atom \<Rightarrow> (string \<times> int) option" where
  "loop_digit (Sym s) = Some (s, 1)"
| "loop_digit (Floor [(s, k)] n0 d) = (if k = 1 \<and> n0 = 0 \<and> 0 < d then Some (s, d) else None)"
| "loop_digit a = None"

fun read_digits :: "iteration_space \<Rightarrow> string list \<Rightarrow> (atom \<times> int option) list \<Rightarrow> digit list option" where
  "read_digits space seen [] = Some []"
| "read_digits space seen ((a, k) # ts) =
     (case (k, loop_digit a) of
        (Some k', Some (loop, divisor)) \<Rightarrow>
          (case integer_extent space loop of
             None \<Rightarrow> None
           | Some extent \<Rightarrow>
               if k' \<le> 0 \<or> loop \<in> set seen \<or> extent mod divisor \<noteq> 0 \<or> extent div divisor \<le> 1 then None
               else map_option (Cons \<lparr>dig_coefficient = k', dig_atom = a, dig_radix = extent div divisor\<rparr>)
                      (read_digits space (loop # seen) ts))
      | _ \<Rightarrow> None)"

fun factor_digits :: "int \<Rightarrow> int \<Rightarrow> digit list \<Rightarrow> slice_factor list option result" where
  "factor_digits stride remaining [] = Inr (if stride = 1 \<and> remaining = 1 then Some [] else None)"
| "factor_digits stride remaining (d # ds) =
     (let radix = dig_radix d in
      if stride mod radix \<noteq> 0 \<or> dig_coefficient d \<noteq> stride div radix then Inr None
      else
        (let factor = min radix remaining in
         if factor = 0 then Inl ZeroDivisionError
         else if radix mod factor \<noteq> 0 \<or> remaining mod factor \<noteq> 0 then Inr None
         else rbind (factor_digits (stride div radix) (remaining div factor) ds) (\<lambda>fs.
              Inr (map_option (Cons \<lparr>fac_radix = radix, fac_digit = dig_atom d, fac_factor = factor,
                                     fac_remaining = remaining div factor\<rparr>) fs))))"

definition factor_slice_axis ::
  "coordinate \<Rightarrow> int \<Rightarrow> int \<Rightarrow> iteration_space \<Rightarrow> slice_factor list option result" where
  "factor_slice_axis c device_extent split space =
     (if const_term c \<noteq> Some 0 then Inr None
      else case read_digits space [] (terms c) of
        None \<Rightarrow> Inr None
      | Some digits \<Rightarrow>
          if \<not> (2 \<le> length digits \<and> length digits \<le> 4) then Inr None
          else factor_digits device_extent split (sort_key (\<lambda>d. - dig_coefficient d) digits))"

section \<open>The value of a coordinate\<close>

fun atom_value :: "(string \<Rightarrow> int) \<Rightarrow> atom \<Rightarrow> int option" where
  "atom_value env (Sym s) = Some (env s)"
| "atom_value env (Floor ns n0 d) = Some ((dot_loops ns env + n0) div d)"
| "atom_value env (Opaque ss) = None"

fun terms_value :: "(string \<Rightarrow> int) \<Rightarrow> (atom \<times> int option) list \<Rightarrow> int option" where
  "terms_value env [] = Some 0"
| "terms_value env ((a, k) # ts) =
     (case (atom_value env a, k, terms_value env ts) of
        (Some x, Some k', Some v) \<Rightarrow> Some (k' * x + v) | _ \<Rightarrow> None)"

definition coordinate_value :: "(string \<Rightarrow> int) \<Rightarrow> coordinate \<Rightarrow> int option" where
  "coordinate_value env c =
     (case (const_term c, terms_value env (terms c)) of (Some o0, Some v) \<Rightarrow> Some (o0 + v) | _ \<Rightarrow> None)"

definition in_space :: "iteration_space \<Rightarrow> string list \<Rightarrow> (string \<Rightarrow> int) \<Rightarrow> bool" where
  "in_space space symbols env \<longleftrightarrow>
     (\<forall>s \<in> set symbols. \<exists>e. space s = Some (Some e) \<and> 0 \<le> env s \<and> env s < e)"

text \<open>Expansion collects like terms, in the coordinate and in the numerators of its floors.\<close>

definition expanded_form :: "coordinate \<Rightarrow> bool" where
  "expanded_form c \<longleftrightarrow> distinct (map fst (terms c))
     \<and> list_all (\<lambda>(a, k). case a of Floor ns n0 d \<Rightarrow> distinct (map fst ns) | _ \<Rightarrow> True) (terms c)"

section \<open>Containment is sound\<close>

lemma dot_loops_Nil [simp]: "dot_loops [] env = 0"
  by (simp add: dot_loops_def)

lemma dot_loops_Cons [simp]: "dot_loops ((s, k) # ks) env = k * env s + dot_loops ks env"
  by (simp add: dot_loops_def)

lemma plain_terms_value:
  assumes "plain_terms ts = Some ks"
  shows "terms_value env ts = Some (dot_loops ks env)" "map fst ts = map (Sym \<circ> fst) ks"
  using assms by (induction ts arbitrary: ks rule: plain_terms.induct) auto

lemma affine_form_value:
  assumes "affine_form c = Some (o0, ks)"
  shows "coordinate_value env c = Some (o0 + dot_loops ks env)" "map fst (terms c) = map (Sym \<circ> fst) ks"
  using assms plain_terms_value(1) [of "terms c" ks env] plain_terms_value(2) [of "terms c" ks]
  by (auto simp: affine_form_def coordinate_value_def split: option.splits)

lemma integer_extent_Some: "integer_extent space s = Some e \<longleftrightarrow> space s = Some (Some e) \<and> 0 < e"
  by (auto simp: integer_extent_def split: option.splits if_splits)

text \<open>One loop's share of an affine sum, and the range of the rest.\<close>

definition others_dot :: "(string \<times> int) list \<Rightarrow> string \<Rightarrow> (string \<Rightarrow> int) \<Rightarrow> int" where
  "others_dot ks loop env = dot_loops (filter (\<lambda>(s, k). s \<noteq> loop) ks) env"

lemma dot_loops_split:
  "distinct (map fst ks) \<Longrightarrow> (loop, step) \<in> set ks \<Longrightarrow> dot_loops ks env = step * env loop + others_dot ks loop env"
proof (induction ks)
  case (Cons x ks)
  obtain s k where x: "x = (s, k)" by fastforce
  show ?case
  proof (cases "s = loop")
    case True
    then have "filter (\<lambda>(s, k). s \<noteq> loop) ks = ks" using Cons.prems(1) x by (force simp: filter_id_conv)
    moreover have "k = step" using Cons.prems True x by force
    ultimately show ?thesis using True x by (simp add: others_dot_def)
  next
    case False
    then show ?thesis using Cons x by (auto simp: others_dot_def)
  qed
qed simp

lemma others_dot_bounds:
  assumes "\<forall>(s, k) \<in> set ks. 0 < k \<and> 0 \<le> env s \<and> env s < ext s"
  shows "0 \<le> others_dot ks loop env"
    "others_dot ks loop env \<le> other_span (map (\<lambda>(s, k). (s, k, ext s)) ks) loop"
proof -
  have "0 \<le> others_dot ks loop env \<and> others_dot ks loop env \<le> other_span (map (\<lambda>(s, k). (s, k, ext s)) ks) loop"
    using assms
  proof (induction ks)
    case (Cons x ks)
    obtain s k where x: "x = (s, k)" by fastforce
    have kx: "0 \<le> k * env s" "k * env s \<le> k * (ext s - 1)" using Cons.prems x by (auto intro: mult_left_mono)
    have ih: "0 \<le> others_dot ks loop env \<and> others_dot ks loop env \<le> other_span (map (\<lambda>(s, k). (s, k, ext s)) ks) loop"
      using Cons by simp
    have eqs: "others_dot (x # ks) loop env = (if s = loop then 0 else k * env s) + others_dot ks loop env"
      "other_span (map (\<lambda>(s, k). (s, k, ext s)) (x # ks)) loop
         = (if s = loop then 0 else k * (ext s - 1)) + other_span (map (\<lambda>(s, k). (s, k, ext s)) ks) loop"
      by (simp_all add: x others_dot_def other_span_def)
    show ?case
    proof (cases "s = loop")
      case True
      then show ?thesis unfolding eqs using ih by simp
    next
      case False
      then show ?thesis unfolding eqs using kx conjunct1 [OF ih] conjunct2 [OF ih] by (simp only: if_False) (intro conjI add_nonneg_nonneg add_mono)
    qed
  qed (simp add: others_dot_def other_span_def)
  then show "0 \<le> others_dot ks loop env"
    "others_dot ks loop env \<le> other_span (map (\<lambda>(s, k). (s, k, ext s)) ks) loop" by simp_all
qed

lemma slot_of_loop:
  assumes "0 < split" "0 < extent" "extent mod split = 0" "0 \<le> x" "x < (extent :: int)"
  shows "0 < extent div split" "0 \<le> x div (extent div split)" "x div (extent div split) < split"
proof -
  have e: "extent = split * (extent div split)" using assms(3) by (metis add_0_right mult_div_mod_eq)
  then show w: "0 < extent div split" using assms(1,2) by (metis zero_less_mult_pos)
  show "0 \<le> x div (extent div split)" using assms(4) w by (simp add: pos_imp_zdiv_nonneg_iff)
  show "x div (extent div split) < split" by (rule div_less_of_less_mult [OF w]) (use assms(5) e in simp)
qed

definition within_slice :: "int \<Rightarrow> int \<Rightarrow> int \<Rightarrow> bool" where
  "within_slice width slot v \<longleftrightarrow> slot * width \<le> v \<and> v < (slot + 1) * width"

lemma within_slice_div: "within_slice width slot v \<Longrightarrow> v div width = slot"
proof -
  assume h: "within_slice width slot v"
  then have "0 < width" by (auto simp: within_slice_def algebra_simps)
  then show ?thesis using h div_block_iff [of width v slot] by (simp add: within_slice_def algebra_simps)
qed

text \<open>The arithmetic of the proof: the whole rectangle of one loop partition lies in its slice.\<close>

lemma loop_contains_sound:
  assumes "loop_contains origin width split (map (\<lambda>(s, k). (s, k, ext s)) ks) (loop, step, ext loop)"
    and "0 < split" "distinct (map fst ks)" "(loop, step) \<in> set ks"
    and box: "\<forall>(s, k) \<in> set ks. 0 < k \<and> 0 \<le> env s \<and> env s < ext s"
  shows "within_slice width (env loop div (ext loop div split)) (origin + dot_loops ks env)"
proof -
  let ?lw = "ext loop div split" and ?others = "other_span (map (\<lambda>(s, k). (s, k, ext s)) ks) loop"
  let ?a = "env loop div ?lw"
  have l: "0 < step" "0 \<le> env loop" "env loop < ext loop" using box assms(4) by auto
  have m: "ext loop mod split = 0" using assms(1) by (simp add: loop_contains_def)
  note slot = slot_of_loop [OF assms(2) _ m l(2,3)]
  have a: "0 < ?lw" "0 \<le> ?a" "?a < split" using slot l by linarith+
  then have "?a \<in> set [0..split - 1]" by simp
  then have c: "slot_contained origin step ?lw ?others width ?a"
    using assms(1) by (simp add: loop_contains_def list_all_iff)
  have x: "?a * ?lw \<le> env loop" "env loop \<le> ?a * ?lw + (?lw - 1)"
    using mult_div_bounds [OF a(1), of "env loop"] by linarith+
  have "step * (?a * ?lw) \<le> step * env loop" "step * env loop \<le> step * (?a * ?lw + (?lw - 1))"
    using x l(1) by (auto intro: mult_left_mono)
  then show ?thesis
    using c others_dot_bounds [OF box, of loop] dot_loops_split [OF assms(3,4), of env]
    unfolding slot_contained_def within_slice_def Let_def by (simp add: algebra_simps)
qed

lemma affine_projection:
  assumes "project_affine_slice_axis c dev split space = Inr (Some (loop, line))"
    and "distinct (map fst (terms c))"
  obtains origin ks step e where "affine_form c = Some (origin, ks)" "(loop, step) \<in> set ks"
    "distinct (map fst ks)" "\<forall>(s, k) \<in> set ks. 0 < k \<and> integer_extent space s \<noteq> None"
    "integer_extent space loop = Some e" "split \<noteq> 0" "set (free_symbols c) = fst ` set ks"
    "loop_contains origin (dev div split) split (map (\<lambda>(s, k). (s, k, the (integer_extent space s))) ks) (loop, step, e)"
    "line = \<lparr>const_term = Some origin, terms = [(Sym loop, Some step)]\<rparr>"
proof -
  obtain origin ks where f: "affine_form c = Some (origin, ks)"
    using assms(1) by (auto simp: project_affine_slice_axis_def Let_def split: if_splits option.splits)
  let ?L = "map (\<lambda>(s, k). (s, k, the (integer_extent space s))) ks"
  note def = assms(1) [unfolded project_affine_slice_axis_def Let_def f option.case prod.case]
  have g: "\<not> list_ex (\<lambda>(s, k). k \<le> 0) ks" "\<not> list_ex (\<lambda>s. integer_extent space s = None) (free_symbols c)" "split \<noteq> 0"
    using def by (auto split: if_splits)
  have "(case filter (loop_contains origin (dev div split) split ?L) ?L of
      [(loop, step, extent)] \<Rightarrow> Some (loop, \<lparr>const_term = Some origin, terms = [(Sym loop, Some step)]\<rparr>) | _ \<Rightarrow> None)
      = Some (loop, line)"
    using def by (auto split: if_splits)
  then obtain step e where p: "filter (loop_contains origin (dev div split) split ?L) ?L = [(loop, step, e)]"
    "line = \<lparr>const_term = Some origin, terms = [(Sym loop, Some step)]\<rparr>"
    by (auto split: list.splits)
  have mem: "(loop, step, e) \<in> set ?L" "loop_contains origin (dev div split) split ?L (loop, step, e)"
    using arg_cong [OF p(1), of set] by auto
  note v = affine_form_value(2) [OF f]
  have fs: "set (free_symbols c) = fst ` set ks"
  proof -
    have "concat (map (atom_symbols \<circ> fst) (terms c)) = concat (map atom_symbols (map fst (terms c)))" by simp
    also have "\<dots> = map fst ks" unfolding v by (induction ks) auto
    finally show ?thesis by (simp add: free_symbols_def)
  qed
  have "distinct (map Sym (map fst ks))" using assms(2) unfolding v by (simp add: comp_def)
  then have dst: "distinct (map fst ks)" by (simp only: distinct_map)
  have ok: "\<forall>(s, k) \<in> set ks. 0 < k \<and> integer_extent space s \<noteq> None"
    using g(1,2) fs unfolding list_ex_iff by force
  have ls: "(loop, step) \<in> set ks" "e = the (integer_extent space loop)" using mem(1) by auto
  moreover have "integer_extent space loop = Some e" using ok ls by fastforce
  ultimately show ?thesis using that f dst ok g(3) fs mem(2) p(2) by blast
qed

lemma affine_within_slice:
  assumes "project_affine_slice_axis c dev split space = Inr (Some (loop, line))"
    and "distinct (map fst (terms c))" "0 < split" "in_space space (free_symbols c) env"
  shows "\<exists>e v. integer_extent space loop = Some e \<and> coordinate_value env c = Some v
    \<and> loop \<in> set (free_symbols c) \<and> within_slice (dev div split) (env loop div (e div split)) v"
proof -
  obtain origin ks step e where p: "affine_form c = Some (origin, ks)" "(loop, step) \<in> set ks"
    "distinct (map fst ks)" "\<forall>(s, k) \<in> set ks. 0 < k \<and> integer_extent space s \<noteq> None"
    "integer_extent space loop = Some e" "split \<noteq> 0" "set (free_symbols c) = fst ` set ks"
    "loop_contains origin (dev div split) split (map (\<lambda>(s, k). (s, k, the (integer_extent space s))) ks) (loop, step, e)"
    by (rule affine_projection [OF assms(1,2)])
  let ?ext = "\<lambda>s. the (integer_extent space s)"
  have "\<forall>(s, k) \<in> set ks. 0 < k \<and> 0 \<le> env s \<and> env s < ?ext s"
  proof clarify
    fix s k assume sk: "(s, k) \<in> set ks"
    then obtain x where "space s = Some (Some x)" "0 \<le> env s" "env s < x"
      using assms(4) p(7) unfolding in_space_def by force
    moreover obtain y where "integer_extent space s = Some y" using p(4) sk by auto
    ultimately show "0 < k \<and> 0 \<le> env s \<and> env s < ?ext s"
      using p(4) sk integer_extent_Some [of space s y] by auto
  qed
  with p(8) have "within_slice (dev div split) (env loop div (?ext loop div split)) (origin + dot_loops ks env)"
    using loop_contains_sound [of origin "dev div split" split ?ext ks loop step env] assms(3) p(2,3,5) by simp
  then show ?thesis using p(2,5,7) affine_form_value(1) [OF p(1), of env] by force
qed

text \<open>The line the projection returns is the coordinate with the other loops at zero.\<close>

definition others_at_zero :: "string \<Rightarrow> (string \<Rightarrow> int) \<Rightarrow> string \<Rightarrow> int" where
  "others_at_zero loop env = (\<lambda>s. if s = loop then env s else 0)"

lemma dot_loops_at_zero: "dot_loops (filter (\<lambda>(s, k). s = loop) ks) env = dot_loops ks (others_at_zero loop env)"
  by (induction ks) (auto simp: others_at_zero_def)

lemma others_dot_at_zero [simp]: "others_dot ks loop (others_at_zero loop env) = 0"
  unfolding others_dot_def by (induction ks) (auto simp: others_at_zero_def)

lemma in_space_at_zero: "in_space space ss env \<Longrightarrow> in_space space ss (others_at_zero loop env)"
  unfolding in_space_def others_at_zero_def by fastforce

lemma restrict_atom_value:
  "keeps_loop loop a \<Longrightarrow> atom_value env (restrict_atom loop a) = atom_value (others_at_zero loop env) a"
  by (cases a) (auto simp: keeps_loop_def dot_loops_at_zero others_at_zero_def)

lemma dropped_atom_value: "\<not> keeps_loop loop a \<Longrightarrow> atom_value (others_at_zero loop env) a = Some 0"
  by (cases a) (auto simp: keeps_loop_def others_at_zero_def)

lemma restrict_terms_value:
  "terms_value (others_at_zero loop env) ts = Some v \<Longrightarrow>
   terms_value env (map (\<lambda>(a, k). (restrict_atom loop a, k)) (filter (\<lambda>(a, k). keeps_loop loop a) ts)) = Some v"
proof (induction ts arbitrary: v)
  case (Cons t ts)
  obtain a k where t: "t = (a, k)" by fastforce
  obtain x k' w where p: "atom_value (others_at_zero loop env) a = Some x" "k = Some k'"
    "terms_value (others_at_zero loop env) ts = Some w" "v = k' * x + w"
    using Cons.prems unfolding t by (auto split: option.splits)
  show ?case
    using Cons.IH [OF p(3)] p restrict_atom_value [of loop a env] dropped_atom_value [of loop a env] t
    by (cases "keeps_loop loop a") auto
qed simp

lemma restrict_to_value:
  assumes "coordinate_value (others_at_zero loop env) c = Some v"
  shows "coordinate_value env (restrict_to loop c) = Some v"
proof -
  obtain o0 w where "const_term c = Some o0" "terms_value (others_at_zero loop env) (terms c) = Some w" "v = o0 + w"
    using assms by (auto simp: coordinate_value_def split: option.splits)
  then show ?thesis using restrict_terms_value [of loop env "terms c" w]
    by (simp add: coordinate_value_def restrict_to_def)
qed

text \<open>Clearing the denominator.\<close>

lemma terms_value_partition:
  "terms_value env (filter P ts) = Some x \<Longrightarrow> terms_value env (filter (\<lambda>t. \<not> P t) ts) = Some y \<Longrightarrow>
   terms_value env ts = Some (x + y)"
proof (induction ts arbitrary: x y)
  case (Cons t ts)
  then show ?case by (cases t; cases "P t") (auto split: option.splits simp: algebra_simps)
qed simp

lemma sum_coefficients:
  assumes "finite A" "fst ` set ks \<subseteq> A"
  shows "(\<Sum>s\<in>A. coefficient_of ks s * env s) = dot_loops ks env"
  using assms(2)
proof (induction ks)
  case (Cons x ks)
  obtain t k where x: "x = (t, k)" by fastforce
  have "coefficient_of (x # ks) s * env s = (if s = t then k * env t else 0) + coefficient_of ks s * env s" for s
    by (simp add: x coefficient_of_def algebra_simps)
  then show ?case using Cons x assms(1) by (simp add: sum.distrib)
qed (simp add: coefficient_of_def)

lemma terms_value_symbols:
  "terms_value env (map (\<lambda>s. (Sym s, Some (g s))) ss) = Some (sum_list (map (\<lambda>s. g s * env s) ss))"
  by (induction ss) auto

lemma sum_list_skip_zero: "sum_list (map f (filter P xs)) = (sum_list (map f xs) :: int)" if "\<forall>x. \<not> P x \<longrightarrow> f x = 0"
  using that by (induction xs) auto

lemma scaled_numerator_value:
  assumes "distinct ss" "fst ` set ks \<subseteq> set ss" "fst ` set ns \<subseteq> set ss"
  shows "coordinate_value env (scaled_numerator o0 ks ns n0 d ss)
    = Some (d * (o0 + dot_loops ks env) + dot_loops ns env + n0)"
proof -
  let ?g = "\<lambda>s. d * coefficient_of ks s + coefficient_of ns s"
  have "sum_list (map (\<lambda>s. ?g s * env s) (filter (\<lambda>s. ?g s \<noteq> 0) ss)) = (\<Sum>s\<in>set ss. ?g s * env s)"
    using sum_list_skip_zero [of "\<lambda>s. ?g s \<noteq> 0" "\<lambda>s. ?g s * env s" ss] assms(1) by (simp add: sum_list_distinct_conv_sum_set)
  also have "\<dots> = (\<Sum>s\<in>set ss. d * (coefficient_of ks s * env s) + coefficient_of ns s * env s)"
    by (rule sum.cong) (simp_all add: algebra_simps)
  also have "\<dots> = d * dot_loops ks env + dot_loops ns env"
    using sum_coefficients [of "set ss" ks env] sum_coefficients [of "set ss" ns env] assms(2,3)
    by (simp add: sum.distrib flip: sum_distrib_left)
  finally show ?thesis
    by (simp add: coordinate_value_def scaled_numerator_def terms_value_symbols algebra_simps)
qed

lemma scaled_numerator_symbols: "set (free_symbols (scaled_numerator o0 ks ns n0 d ss)) \<subseteq> set ss"
  by (auto simp: free_symbols_def scaled_numerator_def)

lemma within_slice_quotient:
  assumes "0 < d" "within_slice (w * d) slot n"
  shows "within_slice w slot (n div d)"
proof -
  have "slot * w * d \<le> n" using assms(2) by (simp add: within_slice_def mult_ac)
  then have "slot * w * d div d \<le> n div d" using assms(1) by (intro zdiv_mono1)
  then have "slot * w \<le> n div d" using assms(1) by simp
  moreover have "n div d < (slot + 1) * w"
    by (rule div_less_of_less_mult [OF assms(1)]) (use assms in \<open>simp add: within_slice_def mult_ac\<close>)
  ultimately show ?thesis by (simp add: within_slice_def)
qed

lemma floor_projection:
  assumes "project_floor_affine_slice_axis c dev split space = Inr (Some (loop, line))" "expanded_form c"
  obtains ns n0 d o0 ks line' where "filter (\<lambda>(a, k). is_floor a) (terms c) = [(Floor ns n0 d, Some 1)]"
    "affine_form (c\<lparr>terms := filter (\<lambda>(a, k). \<not> is_floor a) (terms c)\<rparr>) = Some (o0, ks)" "0 < d"
    "project_affine_slice_axis (scaled_numerator o0 ks ns n0 d (free_symbols c)) (dev * d) split space
       = Inr (Some (loop, line'))" "line = restrict_to loop c"
proof -
  obtain ns n0 d k where f: "filter (\<lambda>(a, k). is_floor a) (terms c) = [(Floor ns n0 d, Some k)]"
    using assms(1) unfolding project_floor_affine_slice_axis_def
    by (auto split: list.splits option.splits atom.splits prod.splits)
  note h1 = assms(1) [unfolded project_floor_affine_slice_axis_def f list.case prod.case atom.case option.case]
  obtain o0 ks where a: "affine_form (c\<lparr>terms := filter (\<lambda>(a, k). \<not> is_floor a) (terms c)\<rparr>) = Some (o0, ks)"
    using h1 by (auto split: option.splits)
  note h2 = h1 [unfolded a option.case prod.case]
  have kd: "k = 1" "0 < d" using h2 by (auto split: if_splits)
  have "rbind (project_affine_slice_axis (scaled_numerator o0 ks ns n0 d (free_symbols c)) (dev * d) split space)
      (\<lambda>projected. Inr (map_option (\<lambda>(loop, _). (loop, restrict_to loop c)) projected)) = Inr (Some (loop, line))"
    using h2 kd by simp
  then obtain q where q: "project_affine_slice_axis (scaled_numerator o0 ks ns n0 d (free_symbols c)) (dev * d) split space = Inr (Some q)"
    "(case q of (loop, _) \<Rightarrow> (loop, restrict_to loop c)) = (loop, line)"
    by (auto simp: rbind_def split: sum.splits)
  obtain lp ln where "q = (lp, ln)" by fastforce
  then show ?thesis using that [OF _ a kd(2), of ns n0 ln] f kd(1) q by auto
qed

lemma floor_value:
  assumes "filter (\<lambda>(a, k). is_floor a) (terms c) = [(Floor ns n0 d, Some 1)]"
    "affine_form (c\<lparr>terms := filter (\<lambda>(a, k). \<not> is_floor a) (terms c)\<rparr>) = Some (o0, ks)" "0 < d"
  shows "coordinate_value env c = Some ((d * (o0 + dot_loops ks env) + dot_loops ns env + n0) div d)"
    "fst ` set ks \<subseteq> set (free_symbols c)" "fst ` set ns \<subseteq> set (free_symbols c)"
proof -
  let ?P = "\<lambda>(a, k). is_floor a" and ?N = "\<lambda>(a, k). \<not> is_floor a"
  note v = affine_form_value [OF assms(2), simplified]
  have N: "?N = (\<lambda>t. \<not> ?P t)" by auto
  have c0: "const_term c = Some o0" using assms(2) by (auto simp: affine_form_def split: option.splits)
  have "terms_value env (filter ?N (terms c)) = Some (dot_loops ks env)"
    using v(1) [of env] c0 by (auto simp: coordinate_value_def split: option.splits)
  then have "terms_value env (filter (\<lambda>t. \<not> ?P t) (terms c)) = Some (dot_loops ks env)" by (simp only: N)
  with assms(1) have "terms_value env (terms c) = Some ((dot_loops ns env + n0) div d + dot_loops ks env)"
    by (intro terms_value_partition [of env ?P]) simp_all
  moreover have "(d * (o0 + dot_loops ks env) + dot_loops ns env + n0) div d
      = o0 + dot_loops ks env + (dot_loops ns env + n0) div d"
    using assms(3) div_mult_self2 [of d "dot_loops ns env + n0" "o0 + dot_loops ks env"] by (simp add: algebra_simps)
  ultimately show "coordinate_value env c = Some ((d * (o0 + dot_loops ks env) + dot_loops ns env + n0) div d)"
    using c0 by (simp add: coordinate_value_def)
  have "(Floor ns n0 d, Some 1) \<in> set (terms c)" using arg_cong [OF assms(1), of set] by auto
  then show "fst ` set ns \<subseteq> set (free_symbols c)" by (force simp: free_symbols_def)
  show "fst ` set ks \<subseteq> set (free_symbols c)"
  proof clarify
    fix s k assume "(s, k) \<in> set ks"
    then have "Sym s \<in> set (map fst (filter ?N (terms c)))" unfolding v(2) by force
    then show "fst (s, k) \<in> set (free_symbols c)" by (force simp: free_symbols_def)
  qed
qed

text \<open>What a projection promises: the coordinate lies in the slice of the loop's partition, and so does the line.\<close>

definition owned_by_loop :: "coordinate \<Rightarrow> int \<Rightarrow> int \<Rightarrow> iteration_space \<Rightarrow> string \<Rightarrow> (string \<Rightarrow> int) \<Rightarrow> bool" where
  "owned_by_loop c dev split space loop env \<longleftrightarrow>
     (\<exists>e v. space loop = Some (Some e) \<and> split dvd e \<and> coordinate_value env c = Some v
        \<and> loop \<in> set (free_symbols c) \<and> within_slice (dev div split) (env loop div (e div split)) v)"

lemma affine_owned:
  assumes "project_affine_slice_axis c dev split space = Inr (Some (loop, line))"
    and "distinct (map fst (terms c))" "0 < split" "in_space space (free_symbols c) env"
  shows "owned_by_loop c dev split space loop env"
proof -
  obtain origin step e ks where "integer_extent space loop = Some e"
    "loop_contains origin (dev div split) split (map (\<lambda>(s, k). (s, k, the (integer_extent space s))) ks) (loop, step, e)"
    by (rule affine_projection [OF assms(1,2)])
  then have "split dvd e" "space loop = Some (Some e)" by (auto simp: loop_contains_def integer_extent_Some)
  then show ?thesis using affine_within_slice [OF assms] by (auto simp: owned_by_loop_def integer_extent_Some)
qed

lemma affine_line_value:
  assumes "project_affine_slice_axis c dev split space = Inr (Some (loop, line))" "distinct (map fst (terms c))"
  shows "coordinate_value env line = coordinate_value (others_at_zero loop env) c"
proof -
  obtain origin ks step where p: "affine_form c = Some (origin, ks)" "(loop, step) \<in> set ks" "distinct (map fst ks)"
    "line = \<lparr>const_term = Some origin, terms = [(Sym loop, Some step)]\<rparr>"
    by (rule affine_projection [OF assms])
  have "dot_loops ks (others_at_zero loop env) = step * env loop"
    using dot_loops_split [OF p(3,2), of "others_at_zero loop env"] others_dot_at_zero [of ks loop env]
    by (simp add: others_at_zero_def)
  then show ?thesis
    using affine_form_value(1) [OF p(1), of "others_at_zero loop env"] p(4) by (simp add: coordinate_value_def)
qed

lemma floor_owned:
  assumes "project_floor_affine_slice_axis c dev split space = Inr (Some (loop, line))"
    and "expanded_form c" "0 < split" "split dvd dev" "in_space space (free_symbols c) env"
  shows "owned_by_loop c dev split space loop env" "line = restrict_to loop c"
proof -
  obtain ns n0 d o0 ks line' where p: "filter (\<lambda>(a, k). is_floor a) (terms c) = [(Floor ns n0 d, Some 1)]"
    "affine_form (c\<lparr>terms := filter (\<lambda>(a, k). \<not> is_floor a) (terms c)\<rparr>) = Some (o0, ks)" "0 < d"
    "project_affine_slice_axis (scaled_numerator o0 ks ns n0 d (free_symbols c)) (dev * d) split space
       = Inr (Some (loop, line'))" "line = restrict_to loop c"
    by (rule floor_projection [OF assms(1,2)])
  then show "line = restrict_to loop c" by simp
  note v = floor_value [OF p(1-3)]
  let ?s = "scaled_numerator o0 ks ns n0 d (free_symbols c)"
  have ds: "distinct (map fst (terms ?s))"
    by (auto simp: scaled_numerator_def free_symbols_def comp_def distinct_map inj_on_def)
  have "in_space space (free_symbols ?s) env"
    using assms(5) scaled_numerator_symbols unfolding in_space_def by blast
  from affine_owned [OF p(4) ds assms(3) this]
  obtain e n where e: "space loop = Some (Some e)" "split dvd e" "coordinate_value env ?s = Some n"
    "loop \<in> set (free_symbols ?s)" "within_slice (dev * d div split) (env loop div (e div split)) n"
    unfolding owned_by_loop_def by blast
  have n: "n = d * (o0 + dot_loops ks env) + dot_loops ns env + n0"
    using e(3) scaled_numerator_value [OF _ v(2,3), of env o0 n0 d] by (simp add: free_symbols_def)
  have "dev * d div split = dev div split * d" using assms(4) by (simp add: div_mult_swap mult.commute)
  then have "within_slice (dev div split) (env loop div (e div split)) (n div d)"
    using within_slice_quotient [OF p(3)] e(5) by simp
  then show "owned_by_loop c dev split space loop env"
    using e(1,2,4) v(1) [of env] n scaled_numerator_symbols unfolding owned_by_loop_def by blast
qed

lemma projection_cases:
  assumes "project_slice_axis c dev split space floor_only = Inr (Some (loop, line))"
  shows "project_affine_slice_axis c dev split space = Inr (Some (loop, line))
    \<or> project_floor_affine_slice_axis c dev split space = Inr (Some (loop, line))"
  using assms by (auto simp: project_slice_axis_def rbind_def split: sum.splits option.splits if_splits)

lemma projection_owned:
  assumes "project_slice_axis c dev split space floor_only = Inr (Some (loop, line))"
    and "expanded_form c" "0 < split" "split dvd dev" "in_space space (free_symbols c) env"
  shows "owned_by_loop c dev split space loop env"
  using projection_cases [OF assms(1)] affine_owned [OF _ _ assms(3,5)] floor_owned(1) [OF _ assms(2-5)] assms(2)
  by (auto simp: expanded_form_def)

lemma projection_line_value:
  assumes "project_slice_axis c dev split space floor_only = Inr (Some (loop, line))"
    and "expanded_form c" "0 < split" "split dvd dev" "in_space space (free_symbols c) env"
  shows "coordinate_value env line = coordinate_value (others_at_zero loop env) c"
  using projection_cases [OF assms(1)]
proof
  assume "project_affine_slice_axis c dev split space = Inr (Some (loop, line))"
  then show ?thesis using affine_line_value assms(2) by (auto simp: expanded_form_def)
next
  assume f: "project_floor_affine_slice_axis c dev split space = Inr (Some (loop, line))"
  then have "owned_by_loop c dev split space loop (others_at_zero loop env)"
    by (rule floor_owned(1)) (use assms(2-5) in_space_at_zero in auto)
  then show ?thesis using floor_owned(2) [OF f assms(2-5)] restrict_to_value [of loop env c]
    by (auto simp: owned_by_loop_def)
qed

text \<open>
  C4. A projected slice axis belongs to one loop.  Where the proof accepts a coordinate, at every
  point of the iteration space the slice of the device axis that the coordinate falls into is
  the partition of the returned loop, whose extent the split divides: the other loops never
  leave the slice.  The returned representative line falls into the same slice.
\<close>

theorem project_slice_axis_sound:
  assumes "project_slice_axis c dev split space floor_only = Inr (Some (loop, line))"
    and "expanded_form c" "0 < split" "split dvd dev" "in_space space (free_symbols c) env"
  shows "\<exists>e v u. space loop = Some (Some e) \<and> split dvd e \<and> 0 \<le> env loop \<and> env loop < e
    \<and> coordinate_value env c = Some v \<and> v div (dev div split) = env loop div (e div split)
    \<and> coordinate_value env line = Some u \<and> u div (dev div split) = env loop div (e div split)"
proof -
  obtain e v where v: "space loop = Some (Some e)" "split dvd e" "coordinate_value env c = Some v"
    "loop \<in> set (free_symbols c)" "within_slice (dev div split) (env loop div (e div split)) v"
    using projection_owned [OF assms] unfolding owned_by_loop_def by blast
  have "owned_by_loop c dev split space loop (others_at_zero loop env)"
    using projection_owned [OF assms(1-4) in_space_at_zero] assms(5) .
  then obtain u where "coordinate_value env line = Some u"
    "within_slice (dev div split) (env loop div (e div split)) u"
    using v(1) projection_line_value [OF assms] unfolding owned_by_loop_def by (auto simp: others_at_zero_def)
  moreover have "0 \<le> env loop \<and> env loop < e" using assms(5) v(1,4) unfolding in_space_def by force
  ultimately show ?thesis using v within_slice_div by blast
qed

text \<open>Attention repack: sixteen sticks at \<open>2 * h + floor (w / 64)\<close>, cut in four.\<close>

definition repack :: coordinate where
  "repack = \<lparr>const_term = Some 0, terms = [(Sym ''h'', Some 2), (Floor [(''w'', 1)] 0 64, Some 1)]\<rparr>"

definition repack_space :: iteration_space where
  "repack_space = [''h'' \<mapsto> Some 8, ''w'' \<mapsto> Some 128]"

lemma repack_projected:
  "project_slice_axis repack 16 4 repack_space False
     = Inr (Some (''h'', \<lparr>const_term = Some 0, terms = [(Sym ''h'', Some 2), (Floor [] 0 64, Some 1)]\<rparr>))"
  by code_simp

theorem project_slice_axis_sound_witness:
  "\<exists>e v u. repack_space ''h'' = Some (Some e) \<and> 4 dvd e \<and> 0 \<le> (5::int) \<and> 5 < e
    \<and> coordinate_value ((\<lambda>_. 0)(''h'' := 5, ''w'' := 100)) repack = Some v \<and> v div (16 div 4) = 5 div (e div 4)
    \<and> coordinate_value ((\<lambda>_. 0)(''h'' := 5, ''w'' := 100))
        \<lparr>const_term = Some 0, terms = [(Sym ''h'', Some 2), (Floor [] 0 64, Some 1)]\<rparr> = Some u
    \<and> u div (16 div 4) = 5 div (e div 4)"
proof -
  have "expanded_form repack" by (simp add: expanded_form_def repack_def)
  moreover have "in_space repack_space (free_symbols repack) ((\<lambda>_. 0)(''h'' := 5, ''w'' := 100))"
    by (simp add: in_space_def free_symbols_def repack_def repack_space_def)
  ultimately show ?thesis
    using project_slice_axis_sound [OF repack_projected, of "(\<lambda>_. 0)(''h'' := 5, ''w'' := 100)"] by simp
qed

section \<open>Factors are exact\<close>

definition digit_value :: "(string \<Rightarrow> int) \<Rightarrow> digit \<Rightarrow> int" where
  "digit_value env d = the (atom_value env (dig_atom d))"

definition digits_value :: "(string \<Rightarrow> int) \<Rightarrow> digit list \<Rightarrow> int" where
  "digits_value env ds = sum_list (map (\<lambda>d. dig_coefficient d * digit_value env d) ds)"

definition digit_in_range :: "(string \<Rightarrow> int) \<Rightarrow> digit \<Rightarrow> bool" where
  "digit_in_range env d \<longleftrightarrow> atom_value env (dig_atom d) = Some (digit_value env d)
     \<and> 0 \<le> digit_value env d \<and> digit_value env d < dig_radix d"

text \<open>The partition of the digit that a factor gives to the core of a slot.\<close>

definition owns_digit :: "(string \<Rightarrow> int) \<Rightarrow> int \<Rightarrow> slice_factor \<Rightarrow> bool" where
  "owns_digit env slot f \<longleftrightarrow>
     (\<exists>x. atom_value env (fac_digit f) = Some x \<and> x div (fac_radix f div fac_factor f) = fac_owner f slot)"

lemma loop_digit_range:
  assumes "loop_digit a = Some (loop, divisor)" "0 \<le> env loop" "env loop < extent" "extent mod divisor = 0"
  shows "\<exists>x. atom_value env a = Some x \<and> 0 \<le> x \<and> x < extent div divisor"
  using assms
proof (induction a rule: loop_digit.induct)
  case (2 s k n0 d)
  then have d: "k = 1" "n0 = 0" "0 < d" "loop = s" "divisor = d" by (auto split: if_splits)
  then have "extent = extent div d * d" using 2(4) by (metis add_0_right div_mult_mod_eq)
  then have "env s div d < extent div d" using 2(3) d div_less_of_less_mult [of d "env s" "extent div d"] by simp
  then show ?case using 2(2) d by (simp add: pos_imp_zdiv_nonneg_iff)
qed simp_all

lemma read_digits_range:
  assumes "read_digits space seen ts = Some ds" "\<forall>(a, k) \<in> set ts. in_space space (atom_symbols a) env"
  shows "terms_value env ts = Some (digits_value env ds) \<and> list_all (digit_in_range env) ds"
  using assms
proof (induction ts arbitrary: seen ds)
  case (Cons t ts)
  obtain a k where t: "t = (a, k)" by fastforce
  obtain k' loop divisor where l: "k = Some k'" "loop_digit a = Some (loop, divisor)"
    using Cons.prems(1) t by (auto split: option.splits)
  obtain extent ds' where d: "integer_extent space loop = Some extent" "extent mod divisor = 0"
    "read_digits space (loop # seen) ts = Some ds'"
    "ds = \<lparr>dig_coefficient = k', dig_atom = a, dig_radix = extent div divisor\<rparr> # ds'"
    using Cons.prems(1) t l by (auto split: option.splits if_splits)
  have "loop \<in> set (atom_symbols a)" using l(2) by (induction a rule: loop_digit.induct) (auto split: if_splits)
  then have "0 \<le> env loop" "env loop < extent"
    using Cons.prems(2) t d(1) by (auto simp: in_space_def integer_extent_Some)
  then obtain x where "atom_value env a = Some x" "0 \<le> x" "x < extent div divisor"
    using loop_digit_range [OF l(2) _ _ d(2)] by blast
  then show ?case using Cons.IH [OF d(3)] Cons.prems(2) t l d(4)
    by (simp add: digits_value_def digit_in_range_def digit_value_def)
qed (simp add: digits_value_def)

lemma digits_value_Nil [simp]: "digits_value env [] = 0"
  by (simp add: digits_value_def)

lemma digits_value_Cons [simp]: "digits_value env (d # ds) = dig_coefficient d * digit_value env d + digits_value env ds"
  by (simp add: digits_value_def)

lemma digits_value_sort [simp]: "digits_value env (sort_key g ds) = digits_value env ds"
proof -
  have "sum_mset (image_mset f (mset (sort_key g ds))) = sum_mset (image_mset f (mset ds))" for f :: "digit \<Rightarrow> int"
    by simp
  then show ?thesis unfolding digits_value_def sum_mset_sum_list [symmetric] mset_map .
qed

text \<open>One digit of a mixed radix number.\<close>

lemma mixed_radix_unique:
  assumes "0 \<le> b" "b < r" "0 \<le> d" "d < (r :: int)"
  shows "r * a + b = r * c + d \<longleftrightarrow> a = c \<and> b = d"
proof
  assume h: "r * a + b = r * c + d"
  have "(r * a + b) div r = a" "(r * c + d) div r = c" using assms by simp_all
  then have "a = c" using h by simp
  then show "a = c \<and> b = d" using h by simp
qed simp

lemma whole_digit_slice:
  assumes "0 \<le> rest" "rest < stride" "0 < rem" "rem dvd (stride :: int)" "0 < radix"
  shows "(stride * x + rest) div (stride div rem) = slot mod (radix * rem)
    \<longleftrightarrow> x = slot div rem mod radix \<and> rest div (stride div rem) = slot mod rem"
proof -
  obtain w where w: "stride = rem * w" using assms(4) by auto
  then have "0 < w" using assms(1-3) by (metis order_le_less_trans zero_less_mult_pos)
  then have d: "(stride * x + rest) div w = rem * x + rest div w"
    using div_mult_self2 [of w rest "rem * x"] w by (simp add: algebra_simps)
  have sw: "stride div rem = w" using w assms(3) by simp
  have r: "0 \<le> rest div w" "rest div w < rem"
    using assms(1,2) \<open>0 < w\<close> w div_less_of_less_mult [of w rest rem] by (simp_all add: pos_imp_zdiv_nonneg_iff)
  have s: "slot mod (radix * rem) = rem * (slot div rem mod radix) + slot mod rem"
    using zmod_zmult2_eq [of radix slot rem] assms(5) by (simp add: mult.commute)
  show ?thesis unfolding sw d s using assms(3) r by (intro mixed_radix_unique) auto
qed

lemma cut_digit_slice:
  assumes "0 \<le> rest" "rest < (stride :: int)" "0 < q"
  shows "(stride * x + rest) div (stride * q) = x div q"
proof -
  have "(stride * x + rest) div (stride * q) = (stride * x + rest) div stride div q"
    using assms(3) by (simp add: zdiv_zmult2_eq)
  also have "(stride * x + rest) div stride = x" using assms(1,2) by simp
  finally show ?thesis .
qed

lemma factor_digits_step:
  assumes "factor_digits stride remaining (d # ds) = Inr (Some fs)" "0 < remaining" "1 < dig_radix d"
  obtains stride' rem fs' where "stride = dig_radix d * stride'" "dig_coefficient d = stride'"
    "remaining = min (dig_radix d) remaining * rem" "min (dig_radix d) remaining dvd dig_radix d" "0 < rem"
    "factor_digits stride' rem ds = Inr (Some fs')"
    "fs = \<lparr>fac_radix = dig_radix d, fac_digit = dig_atom d, fac_factor = min (dig_radix d) remaining,
            fac_remaining = rem\<rparr> # fs'"
proof -
  let ?r = "dig_radix d"
  let ?f = "min ?r remaining"
  have g: "stride mod ?r = 0" "dig_coefficient d = stride div ?r" "?r mod ?f = 0" "remaining mod ?f = 0"
    using assms(1) unfolding factor_digits.simps Let_def by (auto split: if_splits)
  have f0: "0 < ?f" using assms(2,3) by simp
  have "rbind (factor_digits (stride div ?r) (remaining div ?f) ds) (\<lambda>fs.
      Inr (map_option (Cons \<lparr>fac_radix = ?r, fac_digit = dig_atom d, fac_factor = ?f, fac_remaining = remaining div ?f\<rparr>) fs))
      = Inr (Some fs)"
    using assms(1) g f0 unfolding factor_digits.simps Let_def by (auto split: if_splits)
  then obtain fs' where "factor_digits (stride div ?r) (remaining div ?f) ds = Inr (Some fs')"
    "fs = \<lparr>fac_radix = ?r, fac_digit = dig_atom d, fac_factor = ?f, fac_remaining = remaining div ?f\<rparr> # fs'"
    by (auto simp: rbind_def split: sum.splits)
  moreover have "stride = ?r * (stride div ?r)" "remaining = ?f * (remaining div ?f)"
    using g(1,4) by (metis add_0_right mult_div_mod_eq)+
  moreover have "0 < remaining div ?f" using calculation(4) assms(2) f0 by (metis zero_less_mult_pos)
  ultimately show ?thesis by (intro that [of "stride div ?r" "remaining div ?f" fs'] g(2)) (use g(3) in auto)
qed

lemma factor_digits_exact:
  assumes "factor_digits stride remaining ds = Inr (Some fs)" "0 < remaining"
    "list_all (digit_in_range env) ds" "list_all (\<lambda>d. 1 < dig_radix d) ds"
  shows "remaining dvd stride \<and> 0 \<le> digits_value env ds \<and> digits_value env ds < stride
    \<and> (digits_value env ds div (stride div remaining) = slot mod remaining \<longleftrightarrow> list_all (owns_digit env slot) fs)"
  using assms
proof (induction ds arbitrary: stride remaining fs)
  case (Cons d ds)
  let ?r = "dig_radix d" and ?x = "digit_value env d" and ?v = "digits_value env ds"
  let ?f = "min ?r remaining"
  have r1: "1 < ?r" and x: "atom_value env (dig_atom d) = Some ?x" "0 \<le> ?x" "?x < ?r"
    using Cons.prems(3,4) by (auto simp: digit_in_range_def)
  obtain s rem fs' where p: "stride = ?r * s" "dig_coefficient d = s" "remaining = ?f * rem" "?f dvd ?r" "0 < rem"
    "factor_digits s rem ds = Inr (Some fs')"
    "fs = \<lparr>fac_radix = ?r, fac_digit = dig_atom d, fac_factor = ?f, fac_remaining = rem\<rparr> # fs'"
    by (rule factor_digits_step [OF Cons.prems(1,2) r1])
  have ih: "rem dvd s" "0 \<le> ?v" "?v < s" "?v div (s div rem) = slot mod rem \<longleftrightarrow> list_all (owns_digit env slot) fs'"
    using Cons.IH [OF p(6,5)] Cons.prems(3,4) by auto
  have own: "list_all (owns_digit env slot) fs \<longleftrightarrow>
      ?x div (?r div ?f) = slot div rem mod ?f \<and> ?v div (s div rem) = slot mod rem"
    using p(7) ih(4) x(1) by (simp add: owns_digit_def fac_owner_def)
  have "s * ?x \<le> s * (?r - 1)" using x ih by (intro mult_left_mono) auto
  then have bounds: "0 \<le> s * ?x + ?v" "s * ?x + ?v < stride" using ih x p(1) by (simp_all add: algebra_simps)
  have "remaining dvd stride \<and> ((s * ?x + ?v) div (stride div remaining) = slot mod remaining
      \<longleftrightarrow> ?x div (?r div ?f) = slot div rem mod ?f \<and> ?v div (s div rem) = slot mod rem)"
  proof (cases "?r \<le> remaining")
    case True
    then have f: "?f = ?r" "remaining = ?r * rem" using p(3) by auto
    then have "stride div remaining = s div rem" using p(1) r1 by simp
    then show ?thesis using whole_digit_slice [OF ih(2,3) p(5) ih(1), of ?r ?x slot] f r1 p(1) ih(1) by simp
  next
    case False
    then have f: "?f = remaining" by simp
    then have rem1: "rem = 1" using p(3) Cons.prems(2) by simp
    obtain q where q: "?r = remaining * q" using p(4) f by auto
    then have q0: "0 < q" using r1 zero_less_mult_pos [OF _ Cons.prems(2), of q] by linarith
    have "stride div remaining = s * q" using p(1) q Cons.prems(2) by (simp add: mult_ac)
    moreover have "?r div ?f = q" using f q Cons.prems(2) by simp
    moreover have "?v div s = 0" using ih by simp
    ultimately show ?thesis using cut_digit_slice [OF ih(2,3) q0, of ?x] rem1 f q p(1) by simp
  qed
  then show ?case using bounds own p(2) by simp
next
  case Nil
  then show ?case by (simp split: if_splits)
qed

lemma read_digits_radix: "read_digits space seen ts = Some ds \<Longrightarrow> list_all (\<lambda>d. 1 < dig_radix d) ds"
proof (induction ts arbitrary: seen ds)
  case (Cons t ts)
  then show ?case by (cases t) (auto split: option.splits if_splits)
qed simp

lemma list_all_sort_key [simp]: "list_all P (sort_key g xs) = list_all P xs"
  by (simp add: list_all_iff)

text \<open>
  C6. Factors of a slice axis are exact.  Where the code factors a dense mixed-radix coordinate,
  the coordinate stays on the device axis, the split divides the axis, and the coordinate lies in
  the slice of a slot exactly when every digit lies in the partition that its factor gives to
  that slot: the slice is the product of the digits' partitions, with no gap and no overlap.
\<close>

theorem factor_slice_axis_exact:
  assumes "factor_slice_axis c dev split space = Inr (Some fs)" "0 < split"
    and "in_space space (free_symbols c) env" "0 \<le> slot" "slot < split"
  shows "\<exists>v. coordinate_value env c = Some v \<and> split dvd dev \<and> 0 \<le> v \<and> v < dev
    \<and> (v div (dev div split) = slot \<longleftrightarrow> list_all (owns_digit env slot) fs)"
proof -
  have c0: "const_term c = Some 0" using assms(1) by (auto simp: factor_slice_axis_def split: if_splits)
  obtain ds where ds: "read_digits space [] (terms c) = Some ds"
    "factor_digits dev split (sort_key (\<lambda>d. - dig_coefficient d) ds) = Inr (Some fs)"
    using assms(1) by (auto simp: factor_slice_axis_def split: if_splits option.splits)
  have "\<forall>(a, k) \<in> set (terms c). in_space space (atom_symbols a) env"
    using assms(3) by (fastforce simp: in_space_def free_symbols_def)
  note r = read_digits_range [OF ds(1) this]
  have "coordinate_value env c = Some (digits_value env ds)" using r c0 by (simp add: coordinate_value_def)
  moreover have "slot mod split = slot" using assms(4,5) by simp
  ultimately show ?thesis
    using factor_digits_exact [OF ds(2) assms(2), of env slot] r read_digits_radix [OF ds(1)] by simp
qed

theorem factor_slice_axis_exact_witness:
  "\<exists>v. coordinate_value ((\<lambda>_. 0)(''h'' := 5, ''w'' := 100)) repack = Some v \<and> (16::int) dvd 16 \<and> 0 \<le> v \<and> v < 16
    \<and> (v div (16 div 16) = 11 \<longleftrightarrow> list_all (owns_digit ((\<lambda>_. 0)(''h'' := 5, ''w'' := 100)) 11)
        [\<lparr>fac_radix = 8, fac_digit = Sym ''h'', fac_factor = 8, fac_remaining = 2\<rparr>,
         \<lparr>fac_radix = 2, fac_digit = Floor [(''w'', 1)] 0 64, fac_factor = 2, fac_remaining = 1\<rparr>])"
proof -
  have "factor_slice_axis repack 16 16 repack_space = Inr (Some
      [\<lparr>fac_radix = 8, fac_digit = Sym ''h'', fac_factor = 8, fac_remaining = 2\<rparr>,
       \<lparr>fac_radix = 2, fac_digit = Floor [(''w'', 1)] 0 64, fac_factor = 2, fac_remaining = 1\<rparr>])" by code_simp
  moreover have "in_space repack_space (free_symbols repack) ((\<lambda>_. 0)(''h'' := 5, ''w'' := 100))"
    by (simp add: in_space_def free_symbols_def repack_def repack_space_def)
  ultimately show ?thesis by (intro factor_slice_axis_exact [of repack 16 16 repack_space]) simp_all
qed

end
