(* ===== verification/Tiling_Space.thy ===== *)
theory Tiling_Space
  imports Plan_Solver "HOL-Library.Sublist" "HOL-Library.List_Lexorder" "HOL-Library.Product_Lexorder"
begin

text \<open>
  The coarse tilings an operation may take:
  \<^verbatim>\<open>src/torch_spyre/_inductor/wsr/enumerate_tilings.py\<close>, with the split counts it takes from
  \<^verbatim>\<open>src/torch_spyre/_inductor/wsr/span_overflow_hint_analysis.py\<close>.

  The space answers for one tiling at a time and the enumeration lists them all; a search moves
  between neighbours.  What the code asks of the operation's layouts (the stick dim, whether a
  split respects the sticks of the output and of the inputs and can be resized, whether the
  lowering resolves an axis, the reasons to refuse the whole operation) is data of the record
  \<open>tile_op\<close>.
\<close>

section \<open>Split counts\<close>

text \<open>\<open>math.isqrt\<close>: the largest \<open>m\<close> with \<open>m * m \<le> n\<close>.\<close>

definition isqrt :: "int \<Rightarrow> int" where
  "isqrt n = int (length (takeWhile (\<lambda>m. m * m \<le> n) [1..n]))"

definition divisors :: "int \<Rightarrow> int list" where
  "divisors n = sort (remdups (concat (map (\<lambda>i. if n mod i = 0 then [i, n div i] else []) [1..isqrt n])))"

definition max_auto_tile_split_count :: int where
  "max_auto_tile_split_count = 64"

definition max_splits :: nat where
  "max_splits = 16"

definition add_split :: "int list \<Rightarrow> int \<Rightarrow> int list \<Rightarrow> int list" where
  "add_split legal split selected = (if split \<in> set legal \<and> split \<notin> set selected then selected @ [split] else selected)"

fun add_until :: "nat \<Rightarrow> int list \<Rightarrow> (int \<Rightarrow> bool) \<Rightarrow> int list \<Rightarrow> int list \<Rightarrow> int list" where
  "add_until n legal P [] selected = selected"
| "add_until n legal P (split # rest) selected =
     (let selected' = if P split then add_split legal split selected else selected in
      if n \<le> length selected' then selected' else add_until n legal P rest selected')"

definition required_index :: "int list \<Rightarrow> int \<Rightarrow> nat" where
  "required_index legal required =
     (let k = length (takeWhile (\<lambda>s. s < required) legal) in if k < length legal then k else length legal - 1)"

definition cap_split_candidates :: "int list \<Rightarrow> int \<Rightarrow> int list" where
  "cap_split_candidates legal required =
     (if length legal \<le> max_splits then legal
      else (let small = add_until (min 5 max_splits) legal (\<lambda>s. 1 < s) legal (add_split legal 1 []);
                k = required_index legal required;
                near = fold (\<lambda>i sel. add_split legal (legal ! i) sel) [k - 2..<min (length legal) (k + 4)] small
            in take max_splits (sort (add_until max_splits legal (\<lambda>_. True) (rev legal) near))))"

section \<open>The operation\<close>

datatype extent = Static int | Symbolic string

record tile_op =
  op_ranges :: "extent list"
  op_is_reduction :: bool
  untileable_reason :: "string option"
  symbolic_extent_reason :: "string option"
  stick_dim :: "nat option"
  split_fits :: "nat \<Rightarrow> int \<Rightarrow> bool"
  lowering_rejection :: "nat \<Rightarrow> string option"
  reader_ranges :: "extent list list"
  reduction_ranges :: "extent list"
  reduction_extents :: "int option list"
  reduction_cuts_stick :: "nat \<Rightarrow> int \<Rightarrow> bool"

text \<open>\<open>None\<close>: raises \<open>Unsupported\<close>, which the caller below turns into a refusal.\<close>

definition split_candidates_for_host_dim :: "tile_op \<Rightarrow> nat \<Rightarrow> int \<Rightarrow> int list option" where
  "split_candidates_for_host_dim op d required =
     (if length (op_ranges op) \<le> d then None
      else case op_ranges op ! d of
        Symbolic _ \<Rightarrow> None
      | Static full \<Rightarrow>
          if full \<le> 1 then None
          else Some (cap_split_candidates
                 (filter (\<lambda>split. split = 1 \<or> (\<not> op_is_reduction op \<or> full div split > 1)
                    \<and> split \<le> max_auto_tile_split_count \<and> split_fits op d split) (divisors full))
                 required))"

definition output_split_counts :: "tile_op \<Rightarrow> nat \<Rightarrow> int list \<times> string option" where
  "output_split_counts op d = (case split_candidates_for_host_dim op d 1 of
       None \<Rightarrow> ([], Some ''unsupported'')
     | Some candidates \<Rightarrow>
         (let counts = filter (\<lambda>s. 1 < s) candidates in
          if counts = [] then ([], Some ''no exact divisor passes the checks'') else (counts, None)))"

definition unit_tile_breaks_a_reader :: "tile_op \<Rightarrow> nat \<Rightarrow> int \<Rightarrow> bool" where
  "unit_tile_breaks_a_reader op d n =
     (case op_ranges op ! d of
        Symbolic _ \<Rightarrow> False
      | Static full \<Rightarrow> full div n = 1
          \<and> list_ex (\<lambda>rs. length rs < length (op_ranges op) \<or> (rs ! d \<noteq> Static 1 \<and> rs \<noteq> op_ranges op)) (reader_ranges op))"

definition reduction_split_counts :: "tile_op \<Rightarrow> nat \<Rightarrow> int list" where
  "reduction_split_counts op red_pos =
     (case reduction_extents op ! red_pos of
        None \<Rightarrow> []
      | Some full \<Rightarrow>
          if full \<le> 1 then []
          else filter (\<lambda>split. 1 < split \<and> 1 < full div split \<and> split \<le> max_auto_tile_split_count
                 \<and> \<not> reduction_cuts_stick op red_pos split) (divisors full))"

section \<open>The space\<close>

text \<open>\<open>output_counts\<close>: a dictionary, in insertion order.\<close>

record TilingSpace =
  max_dims :: int
  output_counts :: "(int \<times> int list) list"

definition output_dims :: "TilingSpace \<Rightarrow> int list" where
  "output_dims sp = sort (map fst (output_counts sp))"

definition counts :: "TilingSpace \<Rightarrow> int \<Rightarrow> int list" where
  "counts sp d = (case map_of (output_counts sp) d of None \<Rightarrow> [] | Some cs \<Rightarrow> cs)"

definition admits :: "TilingSpace \<Rightarrow> TileSpec \<Rightarrow> bool" where
  "admits sp spec \<longleftrightarrow>
     (if is_untiled spec then True
      else if list_ex is_reduction spec then False
      else if list_ex (\<lambda>a. axis_count a \<notin> set (counts sp (host_dim a))) spec then False
      else if list_ex (\<lambda>(a, b). host_dim a \<ge> host_dim b) (zip spec (tl spec)) then False
      else int (length spec) \<le> max_dims sp)"

text \<open>\<open>itertools.combinations\<close>; \<open>itertools.product\<close> is \<^const>\<open>product_lists\<close>.\<close>

fun combinations :: "'a list \<Rightarrow> nat \<Rightarrow> 'a list list" where
  "combinations xs 0 = [[]]"
| "combinations [] (Suc n) = []"
| "combinations (x # xs) (Suc n) = map (Cons x) (combinations xs n) @ combinations xs (Suc n)"

definition output_axis :: "int \<Rightarrow> int \<Rightarrow> TileAxis" where
  "output_axis d c = \<lparr>host_dim = d, axis_count = c, is_reduction = False\<rparr>"

definition enumerate_space :: "TilingSpace \<Rightarrow> TileSpec list" where
  "enumerate_space sp =
     (let per_dim = map (\<lambda>d. (d, counts sp d)) (output_dims sp) in
      [] # concat (map (\<lambda>depth. concat (map (\<lambda>combo.
               map (\<lambda>cs. map2 output_axis (map fst combo) cs) (product_lists (map snd combo)))
             (combinations per_dim (nat depth))))
           [1..min (max_dims sp) (int (length per_dim))]))"

definition canonical_tiling :: "TileSpec \<Rightarrow> TileSpec" where
  "canonical_tiling spec = sort_key (\<lambda>a. (is_reduction a, host_dim a)) spec"

text \<open>\<open>dict.fromkeys\<close>: the first of equal elements.\<close>

fun first_of_equals :: "'a list \<Rightarrow> 'a list" where
  "first_of_equals [] = []"
| "first_of_equals (x # xs) = x # filter (\<lambda>y. y \<noteq> x) (first_of_equals xs)"

definition neighbours :: "TilingSpace \<Rightarrow> TileSpec \<Rightarrow> TileSpec list" where
  "neighbours sp spec =
     (let recounted = concat (map (\<lambda>i. map (\<lambda>c. spec[i := (spec ! i)\<lparr>axis_count := c\<rparr>])
              (filter (\<lambda>c. c \<noteq> axis_count (spec ! i)) (counts sp (host_dim (spec ! i))))) [0..<length spec]);
          removed = map (\<lambda>i. take i spec @ drop (Suc i) spec) [0..<length spec];
          tiled = map host_dim (filter (\<lambda>a. \<not> is_reduction a) spec);
          added = concat (map (\<lambda>d. map (\<lambda>c. spec @ [output_axis d c]) (counts sp d))
              (filter (\<lambda>d. d \<notin> set tiled) (output_dims sp)))
      in filter (\<lambda>c. c \<noteq> spec \<and> admits sp c) (first_of_equals (map canonical_tiling (recounted @ removed @ added))))"

section \<open>Building the space and the list of options\<close>

definition py_prefix :: "int \<Rightarrow> 'a list \<Rightarrow> 'a list" where
  "py_prefix n xs = take (nat (if n < 0 then int (length xs) + n else n)) xs"

definition offered_counts :: "tile_op \<Rightarrow> int \<Rightarrow> nat \<Rightarrow> int list option" where
  "offered_counts op max_splits_per_dim d =
     (if stick_dim op = Some d then None
      else (let (cs, reason) = output_split_counts op d;
                cs' = py_prefix max_splits_per_dim (filter (\<lambda>c. \<not> unit_tile_breaks_a_reader op d c) cs)
            in if reason \<noteq> None \<or> cs' = [] \<or> lowering_rejection op d \<noteq> None then None else Some cs'))"

definition build_tiling_space :: "tile_op \<Rightarrow> int \<Rightarrow> int \<Rightarrow> TilingSpace" where
  "build_tiling_space op dims max_splits_per_dim =
     (if untileable_reason op \<noteq> None \<or> stick_dim op = None \<or> symbolic_extent_reason op \<noteq> None
      then \<lparr>max_dims = dims, output_counts = []\<rparr>
      else \<lparr>max_dims = dims, output_counts = List.map_filter
              (\<lambda>d. map_option (Pair (int d)) (offered_counts op max_splits_per_dim d)) [0..<length (op_ranges op)]\<rparr>)"

definition canonical_key :: "TileSpec \<Rightarrow> nat \<times> (bool \<times> int \<times> int) list" where
  "canonical_key spec = (length spec, map (\<lambda>a. (is_reduction a, host_dim a, axis_count a)) spec)"

definition finalize_options :: "TileSpec list \<Rightarrow> int option \<Rightarrow> TileSpec list" where
  "finalize_options options max_options =
     (let rest = sort_key canonical_key (filter (\<lambda>s. \<not> is_untiled s) (first_of_equals options));
          result = [] # rest
      in case max_options of None \<Rightarrow> result
         | Some n \<Rightarrow> if int (length result) > n then py_prefix n result else result)"

definition reduction_options :: "tile_op \<Rightarrow> int \<Rightarrow> TileSpec list" where
  "reduction_options op max_splits_per_dim =
     concat (map (\<lambda>p. map (\<lambda>c. [\<lparr>host_dim = int p, axis_count = c, is_reduction = True\<rparr>])
         (py_prefix max_splits_per_dim (reduction_split_counts op p))) [0..<length (reduction_extents op)])"

definition enumerate_tile_options :: "bool \<Rightarrow> tile_op \<Rightarrow> int \<Rightarrow> int \<Rightarrow> int option \<Rightarrow> TileSpec list" where
  "enumerate_tile_options enable_reduction_tiling op dims max_splits_per_dim max_options =
     (let options = enumerate_space (build_tiling_space op dims max_splits_per_dim) in
      finalize_options
        (if untileable_reason op = None \<and> symbolic_extent_reason op = None \<and> op_is_reduction op
            \<and> enable_reduction_tiling \<and> list_all (\<lambda>r. r \<noteq> Static 1) (reduction_ranges op)
         then options @ reduction_options op max_splits_per_dim else options)
        max_options)"

section \<open>The list is the space\<close>

lemma combinations_set: "set (combinations xs n) = {ys. subseq ys xs \<and> length ys = n}"
proof (induction xs n rule: combinations.induct)
  case (3 x xs n)
  show ?case
  proof (rule set_eqI)
    fix ys
    show "ys \<in> set (combinations (x # xs) (Suc n)) \<longleftrightarrow> ys \<in> {ys. subseq ys (x # xs) \<and> length ys = Suc n}"
      using 3 by (cases ys) (auto dest: subseq_Cons')
  qed
qed auto

lemma subseq_sorted_wrt: "subseq xs ys \<Longrightarrow> sorted_wrt P ys \<Longrightarrow> sorted_wrt P xs"
proof (induction rule: list_emb.induct)
  case (list_emb_Cons2 x y xs ys)
  then show ?case by (auto dest: list_emb_set)
qed auto

lemma subseq_map_iff: "subseq zs (map f xs) \<longleftrightarrow> (\<exists>ys. subseq ys xs \<and> zs = map f ys)"
proof
  assume "subseq zs (map f xs)"
  then obtain N where "zs = nths (map f xs) N" by (auto simp: subseq_conv_nths)
  then show "\<exists>ys. subseq ys xs \<and> zs = map f ys" by (auto simp: nths_map subseq_conv_nths)
qed (auto intro: subseq_map)

lemma ascending_iff:
  "\<not> list_ex (\<lambda>(a, b). host_dim a \<ge> host_dim b) (zip spec (tl spec)) \<longleftrightarrow> sorted_wrt (<) (map host_dim spec)"
proof (induction spec)
  case (Cons a spec)
  show ?case
  proof (cases spec)
    case (Cons b rest)
    then show ?thesis using Cons.IH by (fastforce simp: list_ex_iff)
  qed simp
qed simp

lemma admits_iff:
  "admits sp spec \<longleftrightarrow> spec = [] \<or> ((\<forall>a \<in> set spec. \<not> is_reduction a \<and> axis_count a \<in> set (counts sp (host_dim a)))
     \<and> sorted_wrt (<) (map host_dim spec) \<and> int (length spec) \<le> max_dims sp)"
  unfolding ascending_iff [symmetric] by (auto simp: admits_def is_untiled_def list_ex_iff)

text \<open>The keys of a dictionary are distinct.\<close>

definition space_ok :: "TilingSpace \<Rightarrow> bool" where
  "space_ok sp \<longleftrightarrow> distinct (map fst (output_counts sp))"

lemma output_dims_sorted: "space_ok sp \<Longrightarrow> sorted_wrt (<) (output_dims sp)"
  by (simp add: output_dims_def space_ok_def strict_sorted_iff)

lemma counts_dim: "c \<in> set (counts sp d) \<Longrightarrow> d \<in> set (output_dims sp)"
proof -
  assume "c \<in> set (counts sp d)"
  then obtain cs where "map_of (output_counts sp) d = Some cs" by (cases "map_of (output_counts sp) d") (auto simp: counts_def)
  then have "(d, cs) \<in> set (output_counts sp)" by (rule map_of_SomeD)
  then show ?thesis by (force simp: output_dims_def)
qed

definition spec_over :: "TilingSpace \<Rightarrow> int list \<Rightarrow> TileSpec \<Rightarrow> bool" where
  "spec_over sp ds spec \<longleftrightarrow> (\<exists>cs. list_all2 (\<lambda>c d. c \<in> set (counts sp d)) cs ds \<and> spec = map2 output_axis ds cs)"

lemma in_layers:
  "x \<in> set ([] # concat (map F [1..min a b])) \<longleftrightarrow> x = [] \<or> (\<exists>n. 1 \<le> n \<and> n \<le> a \<and> n \<le> b \<and> x \<in> set (F n))"
  by auto

lemma in_enumerate:
  "spec \<in> set (enumerate_space sp) \<longleftrightarrow>
     spec = [] \<or> (\<exists>ds. subseq ds (output_dims sp) \<and> 1 \<le> length ds \<and> int (length ds) \<le> max_dims sp \<and> spec_over sp ds spec)"
proof -
  let ?f = "\<lambda>d. (d, counts sp d)"
  have combo: "spec \<in> set (concat (map (\<lambda>combo. map (\<lambda>cs. map2 output_axis (map fst combo) cs) (product_lists (map snd combo)))
        (combinations (map ?f (output_dims sp)) n)))
      \<longleftrightarrow> (\<exists>ds. subseq ds (output_dims sp) \<and> length ds = n \<and> spec_over sp ds spec)"
    (is "?L \<longleftrightarrow> ?R") for n
  proof
    assume ?L
    then obtain ds cs where "subseq ds (output_dims sp)" "length ds = n" "list_all2 (\<lambda>c d. c \<in> set (counts sp d)) cs ds"
      "spec = map2 output_axis ds cs"
      by (auto simp: combinations_set subseq_map_iff product_lists_set list.rel_map comp_def)
    then show ?R unfolding spec_over_def by blast
  next
    assume ?R
    then obtain ds cs where "subseq ds (output_dims sp)" "length ds = n" "list_all2 (\<lambda>c d. c \<in> set (counts sp d)) cs ds"
      "spec = map2 output_axis ds cs"
      unfolding spec_over_def by blast
    then show ?L
      by (auto simp: combinations_set subseq_map_iff product_lists_set list.rel_map comp_def intro!: bexI [of _ "map ?f ds"])
  qed
  show ?thesis
  proof
    assume "spec \<in> set (enumerate_space sp)"
    then have "spec = [] \<or> (\<exists>n. 1 \<le> n \<and> n \<le> max_dims sp \<and> spec \<in> set (concat (map (\<lambda>combo.
        map (\<lambda>cs. map2 output_axis (map fst combo) cs) (product_lists (map snd combo)))
        (combinations (map ?f (output_dims sp)) (nat n)))))"
      unfolding enumerate_space_def Let_def in_layers by blast
    then have "spec = [] \<or> (\<exists>n. 1 \<le> n \<and> n \<le> max_dims sp \<and> (\<exists>ds. subseq ds (output_dims sp) \<and> length ds = nat n \<and> spec_over sp ds spec))"
      unfolding combo .
    then show "spec = [] \<or> (\<exists>ds. subseq ds (output_dims sp) \<and> 1 \<le> length ds \<and> int (length ds) \<le> max_dims sp \<and> spec_over sp ds spec)"
      by (elim disjE exE conjE) auto
  next
    assume "spec = [] \<or> (\<exists>ds. subseq ds (output_dims sp) \<and> 1 \<le> length ds \<and> int (length ds) \<le> max_dims sp \<and> spec_over sp ds spec)"
    then consider "spec = []" | ds where "subseq ds (output_dims sp)" "1 \<le> length ds" "int (length ds) \<le> max_dims sp" "spec_over sp ds spec"
      by blast
    then show "spec \<in> set (enumerate_space sp)"
    proof cases
      case 2
      then have "length ds \<le> length (output_dims sp)" by (simp add: list_emb_length)
      then have n: "1 \<le> int (length ds)" "int (length ds) \<le> max_dims sp" "int (length ds) \<le> int (length (map ?f (output_dims sp)))"
        using 2 by simp_all
      have "spec \<in> set (concat (map (\<lambda>combo. map (\<lambda>cs. map2 output_axis (map fst combo) cs) (product_lists (map snd combo)))
        (combinations (map ?f (output_dims sp)) (nat (int (length ds))))))"
        unfolding combo nat_int using 2 by blast
      then show ?thesis unfolding enumerate_space_def Let_def in_layers using n by blast
    qed (simp add: enumerate_space_def)
  qed
qed

lemma spec_over_dims:
  "spec_over sp ds spec \<Longrightarrow> map host_dim spec = ds \<and> (\<forall>a \<in> set spec. \<not> is_reduction a \<and> axis_count a \<in> set (counts sp (host_dim a)))"
proof -
  assume "spec_over sp ds spec"
  then obtain cs where "list_all2 (\<lambda>c d. c \<in> set (counts sp d)) cs ds" "spec = map2 output_axis ds cs"
    by (auto simp: spec_over_def)
  then show ?thesis by (induction arbitrary: spec rule: list_all2_induct) (auto simp: output_axis_def)
qed

lemma spec_over_self:
  "\<forall>a \<in> set spec. \<not> is_reduction a \<and> axis_count a \<in> set (counts sp (host_dim a)) \<Longrightarrow> spec_over sp (map host_dim spec) spec"
  unfolding spec_over_def
proof (intro exI [of _ "map axis_count spec"] conjI)
  assume h: "\<forall>a \<in> set spec. \<not> is_reduction a \<and> axis_count a \<in> set (counts sp (host_dim a))"
  then show "list_all2 (\<lambda>c d. c \<in> set (counts sp d)) (map axis_count spec) (map host_dim spec)"
    by (induction spec) auto
  show "spec = map2 output_axis (map host_dim spec) (map axis_count spec)"
    using h by (induction spec) (auto simp: output_axis_def)
qed

text \<open>
  The enumeration is the space: a tiling is admitted exactly when the list of all
  tilings carries it, so a search that asks for one tiling at a time and a solver that walks
  the list decide over the same candidates.
\<close>

lemma admits_iff_enumerated:
  assumes "space_ok sp"
  shows "admits sp spec \<longleftrightarrow> spec \<in> set (enumerate_space sp)"
proof
  assume a: "admits sp spec"
  show "spec \<in> set (enumerate_space sp)"
  proof (cases "spec = []")
    case False
    then have h: "\<forall>a \<in> set spec. \<not> is_reduction a \<and> axis_count a \<in> set (counts sp (host_dim a))"
      "sorted_wrt (<) (map host_dim spec)" "int (length spec) \<le> max_dims sp"
      using a by (auto simp: admits_iff)
    have "set (map host_dim spec) \<subseteq> set (output_dims sp)" using h(1) counts_dim by fastforce
    then have "subseq (map host_dim spec) (output_dims sp)"
      using h(2) by (rule sorted_subset_imp_subseq) (simp add: output_dims_def)
    then show ?thesis using False h(3) spec_over_self [OF h(1)] by (auto simp: in_enumerate Suc_le_eq)
  qed (simp add: in_enumerate)
next
  assume "spec \<in> set (enumerate_space sp)"
  then consider "spec = []" | ds where "subseq ds (output_dims sp)" "int (length ds) \<le> max_dims sp" "spec_over sp ds spec"
    by (auto simp: in_enumerate)
  then show "admits sp spec"
  proof cases
    case 2
    then show ?thesis using spec_over_dims [OF 2(3)] subseq_sorted_wrt [OF 2(1) output_dims_sorted [OF assms]]
      by (auto simp: admits_iff)
  qed (simp add: admits_iff)
qed

definition demo_space :: TilingSpace where
  "demo_space = \<lparr>max_dims = 2, output_counts = [(2, [2, 4]), (0, [3])]\<rparr>"

lemma admits_iff_enumerated_example:
  "admits demo_space [output_axis 0 3, output_axis 2 4] \<and> [output_axis 0 3, output_axis 2 4] \<in> set (enumerate_space demo_space)
   \<and> \<not> admits demo_space [output_axis 2 4, output_axis 0 3] \<and> [output_axis 2 4, output_axis 0 3] \<notin> set (enumerate_space demo_space)"
proof -
  have ok: "space_ok demo_space" by (simp add: space_ok_def demo_space_def)
  have "admits demo_space [output_axis 0 3, output_axis 2 4]" "\<not> admits demo_space [output_axis 2 4, output_axis 0 3]"
    by code_simp+
  then show ?thesis using admits_iff_enumerated [OF ok] by blast
qed

section \<open>Every tiling can be reached\<close>

lemma first_of_equals_set [simp]: "set (first_of_equals xs) = set xs"
  by (induction xs) auto

lemma in_neighbours:
  "c \<in> set (neighbours sp spec) \<longleftrightarrow> c \<noteq> spec \<and> admits sp c \<and>
     ((\<exists>i < length spec. \<exists>n \<in> set (counts sp (host_dim (spec ! i))). n \<noteq> axis_count (spec ! i)
         \<and> c = canonical_tiling (spec[i := (spec ! i)\<lparr>axis_count := n\<rparr>]))
      \<or> (\<exists>i < length spec. c = canonical_tiling (take i spec @ drop (Suc i) spec))
      \<or> (\<exists>d \<in> set (output_dims sp). d \<notin> host_dim ` {a \<in> set spec. \<not> is_reduction a}
         \<and> (\<exists>n \<in> set (counts sp d). c = canonical_tiling (spec @ [output_axis d n]))))"
  unfolding neighbours_def Let_def by (auto simp: image_iff)

lemma canonical_fixed: "admits sp spec \<Longrightarrow> canonical_tiling spec = spec"
proof -
  assume "admits sp spec"
  then have "sorted_wrt (<) (map host_dim spec)" "\<forall>a \<in> set spec. \<not> is_reduction a" by (auto simp: admits_iff)
  then have "sorted (map (\<lambda>a. (is_reduction a, host_dim a)) spec)"
    by (induction spec) (auto simp: less_eq_prod_def)
  then show ?thesis
    unfolding canonical_tiling_def by (induction spec) (auto simp: insort_is_Cons)
qed

lemma admits_snocD: "admits sp (spec @ [a]) \<Longrightarrow> admits sp spec"
  by (auto simp: admits_iff sorted_wrt_append)

lemma drop_level: "admits sp (spec @ [a]) \<Longrightarrow> spec \<in> set (neighbours sp (spec @ [a]))"
proof -
  assume a: "admits sp (spec @ [a])"
  note s = admits_snocD [OF a]
  have "\<exists>i < length (spec @ [a]). spec = canonical_tiling (take i (spec @ [a]) @ drop (Suc i) (spec @ [a]))"
    using canonical_fixed [OF s] by (intro exI [of _ "length spec"]) simp
  then show ?thesis using s by (simp add: in_neighbours)
qed

lemma add_level: "admits sp (spec @ [a]) \<Longrightarrow> spec @ [a] \<in> set (neighbours sp spec)"
proof -
  assume h: "admits sp (spec @ [a])"
  then have a: "\<not> is_reduction a" "axis_count a \<in> set (counts sp (host_dim a))" "\<forall>b \<in> set spec. host_dim b < host_dim a"
    by (auto simp: admits_iff sorted_wrt_append)
  then have "a = output_axis (host_dim a) (axis_count a)" by (simp add: output_axis_def)
  moreover have "host_dim a \<notin> host_dim ` {b \<in> set spec. \<not> is_reduction b}" using a(3) by force
  ultimately show ?thesis using h a(2) counts_dim [OF a(2)] canonical_fixed [OF h] unfolding in_neighbours by fastforce
qed

inductive reaches :: "TilingSpace \<Rightarrow> TileSpec \<Rightarrow> TileSpec \<Rightarrow> bool" for sp where
  here: "reaches sp s s"
| move: "reaches sp s t \<Longrightarrow> u \<in> set (neighbours sp t) \<Longrightarrow> reaches sp s u"

lemma reaches_trans: "reaches sp t u \<Longrightarrow> reaches sp s t \<Longrightarrow> reaches sp s u"
  by (induction rule: reaches.induct) (auto intro: reaches.move)

lemma reaches_untiled: "admits sp spec \<Longrightarrow> reaches sp spec []"
proof (induction spec rule: rev_induct)
  case (snoc a spec)
  have "reaches sp (spec @ [a]) spec" using reaches.move [OF reaches.here drop_level [OF snoc.prems]] .
  then show ?case using reaches_trans [OF snoc.IH [OF admits_snocD [OF snoc.prems]]] by simp
qed (rule reaches.here)

lemma untiled_reaches: "admits sp spec \<Longrightarrow> reaches sp [] spec"
proof (induction spec rule: rev_induct)
  case (snoc a spec)
  show ?case using reaches.move [OF snoc.IH [OF admits_snocD [OF snoc.prems]] add_level [OF snoc.prems]] .
qed (rule reaches.here)

text \<open>
  The neighbourhood is connected: from any tiling of the space a search that moves by single
  level edits can reach every other one, and it never leaves the space.
\<close>

lemma neighbours_connected:
  assumes "admits sp s" "admits sp t"
  shows "reaches sp s t \<and> list_all (admits sp) (neighbours sp s)"
proof -
  have "reaches sp s t" by (rule reaches_trans [OF untiled_reaches [OF assms(2)] reaches_untiled [OF assms(1)]])
  moreover have "list_all (admits sp) (neighbours sp s)" by (simp add: list_all_iff in_neighbours)
  ultimately show ?thesis ..
qed

lemma neighbours_connected_example:
  "reaches demo_space [output_axis 0 3] [output_axis 2 4] \<and> list_all (admits demo_space) (neighbours demo_space [output_axis 0 3])"
proof -
  have "admits demo_space [output_axis 0 3]" "admits demo_space [output_axis 2 4]" by code_simp+
  then show ?thesis by (rule neighbours_connected)
qed

section \<open>What is offered is legal\<close>

lemma divisors_dvd: "d \<in> set (divisors n) \<Longrightarrow> d dvd n"
  by (auto simp: divisors_def mod_eq_0_iff_dvd split: if_splits)

lemma add_split_sub: "set (add_split legal x sel) \<subseteq> set legal \<union> set sel"
  by (auto simp: add_split_def)

lemma add_until_sub: "set sel \<subseteq> set legal \<Longrightarrow> set (add_until n legal P xs sel) \<subseteq> set legal"
proof (induction xs arbitrary: sel)
  case (Cons x xs)
  have "set (if P x then add_split legal x sel else sel) \<subseteq> set legal" using Cons.prems by (auto simp: add_split_def)
  then show ?case using Cons.IH by (simp add: Let_def)
qed simp

lemma cap_sub: "set (cap_split_candidates legal required) \<subseteq> set legal"
proof -
  have near: "set sel \<subseteq> set legal \<Longrightarrow> set (fold (\<lambda>i sel. add_split legal (legal ! i) sel) is sel) \<subseteq> set legal" for "is" sel
    by (induction "is" arbitrary: sel) (auto simp: add_split_def)
  have "set (add_until n legal P xs (fold (\<lambda>i sel. add_split legal (legal ! i) sel) is
      (add_until m legal Q ys (add_split legal 1 [])))) \<subseteq> set legal" for n P xs "is" m Q ys
    by (intro add_until_sub near) (auto simp: add_split_def)
  then have "set (sort (add_until n legal P xs (fold (\<lambda>i sel. add_split legal (legal ! i) sel) is
      (add_until m legal Q ys (add_split legal 1 []))))) \<subseteq> set legal" for n P xs "is" m Q ys by simp
  note capped = order_trans [OF set_take_subset this]
  show ?thesis
  proof (cases "length legal \<le> max_splits")
    case False
    show ?thesis unfolding cap_split_candidates_def Let_def if_not_P [OF False] by (rule capped)
  qed (simp add: cap_split_candidates_def)
qed

definition exact_split :: "int \<Rightarrow> int \<Rightarrow> bool" where
  "exact_split full n \<longleftrightarrow> n dvd full \<and> 1 < n \<and> n \<le> 64"

definition legal_output_axis :: "tile_op \<Rightarrow> TileAxis \<Rightarrow> bool" where
  "legal_output_axis op a \<longleftrightarrow> \<not> is_reduction a \<and> (\<exists>d full. host_dim a = int d \<and> d < length (op_ranges op)
     \<and> stick_dim op \<noteq> Some d \<and> op_ranges op ! d = Static full \<and> exact_split full (axis_count a)
     \<and> split_fits op d (axis_count a))"

definition legal_reduction_axis :: "tile_op \<Rightarrow> TileAxis \<Rightarrow> bool" where
  "legal_reduction_axis op a \<longleftrightarrow> is_reduction a \<and> (\<exists>p full. host_dim a = int p \<and> p < length (reduction_extents op)
     \<and> reduction_extents op ! p = Some full \<and> exact_split full (axis_count a) \<and> 1 < full div axis_count a
     \<and> \<not> reduction_cuts_stick op p (axis_count a))"

lemma in_py_prefix: "x \<in> set (py_prefix n xs) \<Longrightarrow> x \<in> set xs"
  by (auto simp: py_prefix_def dest: in_set_takeD)

lemma offered_legal:
  assumes "offered_counts op k d = Some cs" "c \<in> set cs" "d < length (op_ranges op)"
  shows "legal_output_axis op (output_axis (int d) c)"
proof -
  have st: "stick_dim op \<noteq> Some d" "c \<in> set (fst (output_split_counts op d))"
    using assms(1,2) by (auto simp: offered_counts_def Let_def split: if_splits prod.splits dest!: in_py_prefix)
  obtain full cs' where f: "op_ranges op ! d = Static full" "split_candidates_for_host_dim op d 1 = Some cs'"
    "c \<in> set cs'" "1 < c"
    using st(2) by (cases "op_ranges op ! d")
      (auto simp: output_split_counts_def split_candidates_for_host_dim_def Let_def split: option.splits if_splits)
  let ?legal = "filter (\<lambda>split. split = 1 \<or> (\<not> op_is_reduction op \<or> full div split > 1)
      \<and> split \<le> max_auto_tile_split_count \<and> split_fits op d split) (divisors full)"
  have "cs' = cap_split_candidates ?legal 1"
    using f(1,2) assms(3) by (simp add: split_candidates_for_host_dim_def split: if_splits)
  then have "c \<in> set ?legal" using f(3) cap_sub [of ?legal 1] by blast
  then show ?thesis using f(1,4) st(1) assms(3) divisors_dvd
    by (auto simp: legal_output_axis_def output_axis_def exact_split_def max_auto_tile_split_count_def)
qed

lemma built_counts:
  assumes "c \<in> set (counts (build_tiling_space op dims k) x)"
  shows "legal_output_axis op (output_axis x c)"
proof -
  let ?sp = "build_tiling_space op dims k"
  obtain cs where m: "map_of (output_counts ?sp) x = Some cs" "c \<in> set cs"
    using assms by (cases "map_of (output_counts ?sp) x") (auto simp: counts_def)
  then have "(x, cs) \<in> set (output_counts ?sp)" by (intro map_of_SomeD)
  then obtain d where "d < length (op_ranges op)" "offered_counts op k d = Some cs" "x = int d"
    by (auto simp: build_tiling_space_def List.map_filter_def split: if_splits option.splits)
  then show ?thesis using offered_legal m(2) by blast
qed

lemma map_filter_fst_sub:
  "subseq (map fst (List.map_filter (\<lambda>d. map_option (Pair (int d)) (g d)) ds)) (map int ds)"
  by (induction ds) (auto simp: map_filter_simps split: option.splits)

lemma build_ok: "space_ok (build_tiling_space op dims k)"
proof -
  have "distinct (map fst (List.map_filter (\<lambda>d. map_option (Pair (int d)) (offered_counts op k d)) [0..<length (op_ranges op)]))"
    using map_filter_fst_sub [of "offered_counts op k" "[0..<length (op_ranges op)]"]
    by (metis distinct_map distinct_upt inj_on_of_nat subseqs_distinctD in_set_subseqs)
  then show ?thesis by (simp add: build_tiling_space_def space_ok_def)
qed


lemma finalize_member: "spec \<in> set (finalize_options options mo) \<Longrightarrow> spec = [] \<or> spec \<in> set options"
  unfolding finalize_options_def Let_def by (auto split: option.splits if_splits dest!: in_py_prefix)

lemma untiled_first: "1 \<le> n \<Longrightarrow> hd (finalize_options options (Some n)) = []"
proof -
  assume n: "1 \<le> n"
  have "py_prefix n ([] # rest) = [] # take (nat n - 1) rest" for rest :: "TileSpec list"
    using n by (simp add: py_prefix_def take_Cons')
  then show ?thesis by (simp add: finalize_options_def Let_def)
qed

lemma reduction_option_legal:
  "spec \<in> set (reduction_options op k) \<Longrightarrow> \<exists>a. spec = [a] \<and> legal_reduction_axis op a"
  by (auto simp: reduction_options_def reduction_split_counts_def legal_reduction_axis_def exact_split_def
      max_auto_tile_split_count_def divisors_dvd split: option.splits if_splits dest!: in_py_prefix)

text \<open>
  C23. Every tiling offered is legal.  It is untiled, or a nest of at most the allowed number of
  output levels, outermost first by dim, each on a dim other than the stick dim whose static extent the count
  divides exactly, more than one and at most 64 tiles that pass the stick checks; or one level
  on a reduction dim, cut exactly and not down to single elements, never nested with another.
\<close>

theorem enumerate_tile_options_legal:
  assumes "spec \<in> set (enumerate_tile_options en op dims k mo)"
  shows "spec = []
    \<or> (sorted_wrt (<) (map host_dim spec) \<and> int (length spec) \<le> dims \<and> list_all (legal_output_axis op) spec)
    \<or> (\<exists>a. spec = [a] \<and> legal_reduction_axis op a)"
proof -
  let ?sp = "build_tiling_space op dims k"
  have "spec = [] \<or> spec \<in> set (enumerate_space ?sp) \<or> spec \<in> set (reduction_options op k)"
    using finalize_member assms by (fastforce simp: enumerate_tile_options_def Let_def split: if_splits)
  then consider "spec = []" | ds where "subseq ds (output_dims ?sp)" "int (length ds) \<le> max_dims ?sp" "spec_over ?sp ds spec"
    | "spec \<in> set (reduction_options op k)"
    by (auto simp: in_enumerate)
  then show ?thesis
  proof cases
    case 2
    note d = spec_over_dims [OF 2(3)]
    have "legal_output_axis op a" if "a \<in> set spec" for a
    proof -
      have "a = output_axis (host_dim a) (axis_count a)" using d that by (simp add: output_axis_def)
      then show ?thesis using built_counts d that by metis
    qed
    moreover have "sorted_wrt (<) (map host_dim spec)"
      using subseq_sorted_wrt [OF 2(1) output_dims_sorted [OF build_ok]] d by simp
    moreover have "int (length spec) \<le> dims"
      using 2(2) d by (auto simp: build_tiling_space_def split: if_splits)
    ultimately show ?thesis by (simp add: list_all_iff)
  next
    case 3
    then show ?thesis using reduction_option_legal by blast
  qed simp
qed

text \<open>A pointwise operation on 12 by 6 by 64 elements, the last dim the stick dim.\<close>

definition demo_tile_op :: tile_op where
  "demo_tile_op = \<lparr>op_ranges = [Static 12, Static 6, Static 64], op_is_reduction = False, untileable_reason = None,
     symbolic_extent_reason = None, stick_dim = Some 2, split_fits = (\<lambda>d n. True), lowering_rejection = (\<lambda>d. None),
     reader_ranges = [], reduction_ranges = [], reduction_extents = [], reduction_cuts_stick = (\<lambda>p n. False)\<rparr>"

theorem enumerate_tile_options_legal_witness:
  "[output_axis 0 4, output_axis 1 3] \<in> set (enumerate_tile_options True demo_tile_op 2 16 (Some 64))
   \<and> list_all (legal_output_axis demo_tile_op) [output_axis 0 4, output_axis 1 3]"
proof -
  have m: "[output_axis 0 4, output_axis 1 3] \<in> set (enumerate_tile_options True demo_tile_op 2 16 (Some 64))"
    by code_simp
  then show ?thesis using enumerate_tile_options_legal [OF m] by simp
qed


end
