(* ===== verification/Work_Division.thy ===== *)
theory Work_Division
  imports Tiling_Space "HOL-Library.AList"
begin

text \<open>
  Dividing the iteration space of an operation over the cores:
  \<^verbatim>\<open>src/torch_spyre/_inductor/work_division.py\<close>, the greedy distributor, the context a split is
  judged in, the enumeration of all legal splits and the space a search moves in.

  An iteration space is a dictionary from loop symbols to sizes, here the integers the code gets by
  concretizing the expressions; a symbolic dim has a maximal size and a granularity in
  \<open>symbol_meta\<close>.  A device coordinate is a sum of terms in one symbol each, as the code assumes of
  it, and such a term is a function of the symbol's value.  \<open>divs\<close> stands for SymPy's \<open>divisors\<close>.
\<close>

section \<open>Factors of one dim\<close>

type_synonym sizes = "(string \<times> int) list"
type_synonym domains = "(string \<times> int list) list"
type_synonym symbol_meta = "string \<rightharpoonup> int \<times> int"

definition get_or :: "('k \<times> 'v) list \<Rightarrow> 'k \<Rightarrow> 'v \<Rightarrow> 'v" where
  "get_or d k v = (case map_of d k of None \<Rightarrow> v | Some w \<Rightarrow> w)"

definition effective_size :: "sizes \<Rightarrow> symbol_meta \<Rightarrow> string \<Rightarrow> int" where
  "effective_size it_space meta v = (case meta v of Some (max_size, _) \<Rightarrow> max_size | None \<Rightarrow> get_or it_space v 1)"

definition valid_divisor_basis :: "sizes \<Rightarrow> symbol_meta \<Rightarrow> string \<Rightarrow> int" where
  "valid_divisor_basis it_space meta v = (case meta v of Some (_, granularity) \<Rightarrow> granularity | None \<Rightarrow> get_or it_space v 1)"

definition legal_split_factors :: "(int \<Rightarrow> int list) \<Rightarrow> string \<Rightarrow> int \<Rightarrow> domains \<Rightarrow> sizes \<Rightarrow> int list" where
  "legal_split_factors divs v basis allowed min_splits =
     (let factors = (case map_of allowed v of None \<Rightarrow> divs basis | Some a \<Rightarrow> filter (\<lambda>s. s \<in> set a) (divs basis))
      in filter (\<lambda>s. get_or min_splits v 1 \<le> s) factors)"

definition largest_legal_split :: "(int \<Rightarrow> int list) \<Rightarrow> string \<Rightarrow> int \<Rightarrow> int \<Rightarrow> domains \<Rightarrow> int result" where
  "largest_legal_split divs v basis max_cores allowed =
     (case find (\<lambda>s. s \<le> max_cores) (rev (legal_split_factors divs v basis allowed [])) of
        Some s \<Rightarrow> Inr s
      | None \<Rightarrow> if map_of allowed v \<noteq> None then Inl (RuntimeError ''No legal split within the cores'') else Inr 1)"

definition largest_legal_split_from ::
  "(int \<Rightarrow> int list) \<Rightarrow> string \<Rightarrow> int \<Rightarrow> int \<Rightarrow> int \<Rightarrow> int \<Rightarrow> domains \<Rightarrow> sizes \<Rightarrow> int result" where
  "largest_legal_split_from divs v basis current used max_cores allowed min_splits =
     (let factors = rev (legal_split_factors divs v basis allowed min_splits) in
      if current = 0 \<and> list_ex (\<lambda>s. current \<le> s) factors then Inl ZeroDivisionError
      else case find (\<lambda>s. current \<le> s \<and> used div current * s \<le> max_cores) factors of
             None \<Rightarrow> Inr current | Some s \<Rightarrow> Inr s)"

section \<open>The greedy distributor\<close>

record split_problem =
  iteration_sizes :: sizes
  core_budget :: int
  floors :: sizes
  dim_meta :: symbol_meta
  split_domains :: domains

definition factor_from :: "(int \<Rightarrow> int list) \<Rightarrow> split_problem \<Rightarrow> string \<Rightarrow> int \<Rightarrow> int \<Rightarrow> int result" where
  "factor_from divs P v current used =
     largest_legal_split_from divs v (valid_divisor_basis (iteration_sizes P) (dim_meta P) v) current used
       (core_budget P) (split_domains P) (floors P)"

fun most_splittable ::
  "(int \<Rightarrow> int list) \<Rightarrow> split_problem \<Rightarrow> sizes \<Rightarrow> int \<Rightarrow> (string \<times> int) option \<Rightarrow> string list \<Rightarrow> (string \<times> int) option result" where
  "most_splittable divs P sp used best [] = Inr best"
| "most_splittable divs P sp used best (d # ds) =
     (case map_of sp d of
        None \<Rightarrow> Inl KeyError
      | Some current \<Rightarrow> rbind (factor_from divs P d current used) (\<lambda>s.
          most_splittable divs P sp used
            (if current < s \<and> (case best of None \<Rightarrow> 0 | Some (_, b) \<Rightarrow> b) < s then Some (d, s) else best) ds))"

definition most_splittable_dim ::
  "(int \<Rightarrow> int list) \<Rightarrow> split_problem \<Rightarrow> sizes \<Rightarrow> int \<Rightarrow> string list \<Rightarrow> (string \<times> int) option result" where
  "most_splittable_dim divs P sp used dims = most_splittable divs P sp used None dims"

text \<open>A domain without one forces its smallest factor; \<open>min\<close> of an empty one raises.\<close>

definition forced_domains :: "split_problem \<Rightarrow> domains" where
  "forced_domains P = filter (\<lambda>(v, a). 1 \<notin> set a \<and> v \<notin> fst ` set (floors P)) (split_domains P)"

definition mandatory_splits :: "split_problem \<Rightarrow> sizes result" where
  "mandatory_splits P =
     (if list_ex (\<lambda>(v, a). a = []) (forced_domains P) then Inl (ValueError ''min() arg is an empty sequence'')
      else Inr (floors P @ map (\<lambda>(v, a). (v, foldl min (hd a) (tl a))) (forced_domains P)))"

fun reserve :: "split_problem \<Rightarrow> sizes \<Rightarrow> sizes \<times> int \<Rightarrow> (sizes \<times> int) result" where
  "reserve P [] st = Inr st"
| "reserve P ((v, m) # ms) (sp, used) =
     (if core_budget P < used * m then Inl (RuntimeError ''Cannot satisfy mandatory split within the cores'')
      else if (case map_of (split_domains P) v of None \<Rightarrow> False | Some a \<Rightarrow> m \<notin> set a)
      then Inl (RuntimeError ''Mandatory split is outside the legal domain'')
      else reserve P ms (AList.update v m sp, used * m))"

definition grow :: "string \<Rightarrow> int \<Rightarrow> int \<Rightarrow> sizes \<times> int \<Rightarrow> sizes \<times> int" where
  "grow v current s st = (case st of (sp, used) \<Rightarrow> (AList.update v s sp, used div current * s))"

fun distribute :: "(int \<Rightarrow> int list) \<Rightarrow> split_problem \<Rightarrow> string list \<Rightarrow> sizes \<times> int \<Rightarrow> (sizes \<times> int) result" where
  "distribute divs P [] st = Inr st"
| "distribute divs P (v # vs) (sp, used) =
     (if core_budget P \<le> used then Inr (sp, used)
      else case map_of sp v of
        None \<Rightarrow> Inl KeyError
      | Some current \<Rightarrow> rbind (factor_from divs P v current used) (\<lambda>s.
          distribute divs P vs (if current < s then grow v current s (sp, used) else (sp, used))))"

definition split_reductions :: "sizes \<Rightarrow> string list \<Rightarrow> string list result" where
  "split_reductions sp dims =
     (if list_ex (\<lambda>v. map_of sp v = None) dims then Inl KeyError
      else Inr (filter (\<lambda>v. 1 < get_or sp v 1) dims))"

definition multi_dim_iteration_space_split ::
  "(int \<Rightarrow> int list) \<Rightarrow> split_problem \<Rightarrow> string list \<Rightarrow> string list \<Rightarrow> sizes result" where
  "multi_dim_iteration_space_split divs P outs reds =
     rbind (mandatory_splits P) (\<lambda>mandatory.
     rbind (reserve P mandatory (map (\<lambda>(v, _). (v, 1)) (iteration_sizes P), 1)) (\<lambda>(sp, used).
     rbind (split_reductions sp reds) (\<lambda>committed.
     if 1 < length committed then Inl (RuntimeError ''at most one split reduction dimension'')
     else rbind (distribute divs P outs (sp, used)) (\<lambda>(sp, used).
       if reds = [] \<or> core_budget P \<le> used then Inr sp
       else rbind (most_splittable_dim divs P sp used (if committed = [] then reds else committed)) (\<lambda>best.
         case best of None \<Rightarrow> Inr sp
         | Some (d, s) \<Rightarrow> Inr (fst (grow d (get_or sp d 1) s (sp, used))))))))"

section \<open>Spans\<close>

definition MAX_SPAN_BYTES :: int where
  "MAX_SPAN_BYTES = 256 * 1024 * 1024"

record tensor_dep =
  td_coords :: "(string \<times> (int \<Rightarrow> int)) list list"
  td_device_size :: "int list"
  td_itemsize :: int
  td_indirect :: bool

definition coord_extent :: "sizes \<Rightarrow> sizes \<Rightarrow> symbol_meta \<Rightarrow> (string \<times> (int \<Rightarrow> int)) list \<Rightarrow> int" where
  "coord_extent sp it_space meta coord =
     sum_list (map (\<lambda>(v, term). term (effective_size it_space meta v div get_or sp v 1 - 1) - term 0) coord) + 1"

fun span_from :: "sizes \<Rightarrow> sizes \<Rightarrow> symbol_meta \<Rightarrow> tensor_dep \<Rightarrow> nat \<Rightarrow> (string \<times> (int \<Rightarrow> int)) list list \<Rightarrow> int" where
  "span_from sp it_space meta td d [] = td_itemsize td"
| "span_from sp it_space meta td d (coord # coords) =
     (if coord \<noteq> [] \<and> 1 < coord_extent sp it_space meta coord
      then coord_extent sp it_space meta coord * prod_list (drop (d + 1) (td_device_size td)) * td_itemsize td
      else span_from sp it_space meta td (d + 1) coords)"

definition get_per_core_span :: "tensor_dep \<Rightarrow> sizes \<Rightarrow> sizes \<Rightarrow> symbol_meta \<Rightarrow> int" where
  "get_per_core_span td sp it_space meta = span_from sp it_space meta td 0 (butlast (td_coords td))"

definition raise_if_per_core_overflow :: "tensor_dep list \<Rightarrow> sizes \<Rightarrow> sizes \<Rightarrow> symbol_meta \<Rightarrow> unit result" where
  "raise_if_per_core_overflow tds it_space sp meta =
     raise_if (list_ex (\<lambda>td. \<not> td_indirect td \<and> MAX_SPAN_BYTES < get_per_core_span td sp it_space meta) tds)
       (RuntimeError ''per-core tensor span exceeds the hardware limit'')"

section \<open>Priorities\<close>

definition prioritize_dimensions :: "string list \<Rightarrow> sizes \<Rightarrow> symbol_meta \<Rightarrow> string list \<times> string list" where
  "prioritize_dimensions coord_vars it_space meta =
     (let by_size = sort_key (\<lambda>v. - effective_size it_space meta v) in
      (by_size (filter (\<lambda>v. v \<in> set coord_vars) (map fst it_space)),
       by_size (filter (\<lambda>v. v \<notin> set coord_vars) (map fst it_space))))"

text \<open>\<open>_default_split\<close> after its call of the prioritizer.\<close>

definition default_split ::
  "(int \<Rightarrow> int list) \<Rightarrow> split_problem \<Rightarrow> string list \<Rightarrow> string list \<Rightarrow> string list \<times> string list \<Rightarrow> sizes result" where
  "default_split divs P coord_vars blocked priorities =
     (case priorities of (outs, reduction_dims) \<Rightarrow>
        (let committed = filter (\<lambda>v. v \<notin> set coord_vars) (map fst (floors P));
             reds = if committed \<noteq> [] then filter (\<lambda>v. v \<in> set committed) reduction_dims else reduction_dims
         in multi_dim_iteration_space_split divs P (filter (\<lambda>v. v \<notin> set blocked) outs)
              (filter (\<lambda>v. v \<notin> set blocked) reds)))"

section \<open>The context a split is judged in\<close>

record WorkDivisionContext =
  max_cores :: "int option"
  it_space :: sizes
  it_space_adjusted :: sizes
  stick_vars :: "string list"
  ctx_meta :: symbol_meta
  tensor_deps :: "tensor_dep list"
  reduction_vars :: "string list"
  blocked_vars :: "string list"
  allowed_splits :: domains
  span_min_splits :: sizes

definition ctx_axes :: "WorkDivisionContext \<Rightarrow> string list" where
  "ctx_axes c = map fst (it_space_adjusted c)"

definition factor_domain :: "(int \<Rightarrow> int list) \<Rightarrow> WorkDivisionContext \<Rightarrow> string \<Rightarrow> int list" where
  "factor_domain divs c v =
     legal_split_factors divs v
       (case ctx_meta c v of Some (_, granularity) \<Rightarrow> granularity
        | None \<Rightarrow> if v \<in> set (stick_vars c) then get_or (it_space_adjusted c) v 1 else get_or (it_space c) v 1)
       (allowed_splits c) (span_min_splits c)"

definition factors_in_domain :: "(int \<Rightarrow> int list) \<Rightarrow> WorkDivisionContext \<Rightarrow> sizes \<Rightarrow> bool" where
  "factors_in_domain divs c sp = list_all (\<lambda>(v, f). v \<in> set (ctx_axes c) \<and> f \<in> set (factor_domain divs c v)) sp"

definition within_core_budget :: "WorkDivisionContext \<Rightarrow> sizes \<Rightarrow> bool" where
  "within_core_budget c sp = (case max_cores c of None \<Rightarrow> True | Some n \<Rightarrow> prod_list (map snd sp) \<le> n)"

definition spans_within_cap :: "WorkDivisionContext \<Rightarrow> sizes \<Rightarrow> bool" where
  "spans_within_cap c sp = list_all (\<lambda>td. get_per_core_span td sp (it_space c) (ctx_meta c) \<le> MAX_SPAN_BYTES) (tensor_deps c)"

definition one_reduction_split_at_most :: "WorkDivisionContext \<Rightarrow> sizes \<Rightarrow> bool" where
  "one_reduction_split_at_most c sp = (length (filter (\<lambda>v. 1 < get_or sp v 1) (reduction_vars c)) \<le> 1)"

definition in_split_domains :: "WorkDivisionContext \<Rightarrow> sizes \<Rightarrow> bool" where
  "in_split_domains c sp = (\<not> list_ex (\<lambda>v. 1 < get_or sp v 1) (blocked_vars c)
     \<and> list_all (\<lambda>(v, allowed). get_or sp v 1 \<in> set allowed) (allowed_splits c))"

definition meets_span_floors :: "WorkDivisionContext \<Rightarrow> sizes \<Rightarrow> bool" where
  "meets_span_floors c sp = list_all (\<lambda>(v, minimum). minimum \<le> get_or sp v 1) (span_min_splits c)"

definition obeys_op_constraints :: "WorkDivisionContext \<Rightarrow> sizes \<Rightarrow> bool" where
  "obeys_op_constraints c sp = (one_reduction_split_at_most c sp \<and> in_split_domains c sp)"

definition is_legal :: "(int \<Rightarrow> int list) \<Rightarrow> WorkDivisionContext \<Rightarrow> sizes \<Rightarrow> bool" where
  "is_legal divs c sp =
     (factors_in_domain divs c sp \<and> within_core_budget c sp \<and> one_reduction_split_at_most c sp
      \<and> spans_within_cap c sp \<and> in_split_domains c sp \<and> meets_span_floors c sp)"

text \<open>\<open>None\<close>: a tiling without a per-tile frame.\<close>

definition enumerate_work_division_candidates :: "(int \<Rightarrow> int list) \<Rightarrow> WorkDivisionContext option \<Rightarrow> sizes list" where
  "enumerate_work_division_candidates divs ctx = (case ctx of None \<Rightarrow> []
     | Some c \<Rightarrow> filter (is_legal divs c) (map (zip (ctx_axes c)) (product_lists (map (factor_domain divs c) (ctx_axes c)))))"

section \<open>The space of divisions\<close>

text \<open>\<open>frames\<close>: the context of a tiling's per-tile frame, where it has one.\<close>

record OpSplitSpace =
  op_context :: WorkDivisionContext
  output_axes :: "string list"
  op_tiling :: "TilingSpace option"
  frames :: "TileSpec \<Rightarrow> WorkDivisionContext option"

definition context_for :: "OpSplitSpace \<Rightarrow> TileSpec \<Rightarrow> WorkDivisionContext option" where
  "context_for s t = (if is_untiled t then Some (op_context s) else frames s t)"

definition splits_of :: "OpSplitSpace \<Rightarrow> CoreDivision \<Rightarrow> sizes" where
  "splits_of s d = map (\<lambda>v. (v, get_or (splits d) v 1)) (ctx_axes (op_context s))"

definition division_of :: "OpSplitSpace \<Rightarrow> sizes \<Rightarrow> TileSpec \<Rightarrow> CoreDivision" where
  "division_of s sp t =
     (let sparse = filter (\<lambda>(v, f). 1 < f) sp in
      \<lparr>splits = sparse, reduction_syms = filter (\<lambda>v. v \<notin> set (output_axes s)) (map fst sparse),
       tiling = t, tile_splits = []\<rparr>)"

definition space_factor_domain :: "(int \<Rightarrow> int list) \<Rightarrow> OpSplitSpace \<Rightarrow> string \<Rightarrow> TileSpec \<Rightarrow> int list" where
  "space_factor_domain divs s v t = (case context_for s t of None \<Rightarrow> [] | Some c \<Rightarrow> factor_domain divs c v)"

definition admits_tiling :: "OpSplitSpace \<Rightarrow> TileSpec \<Rightarrow> bool" where
  "admits_tiling s t = (case op_tiling s of None \<Rightarrow> is_untiled t | Some ts \<Rightarrow> admits ts t \<and> context_for s t \<noteq> None)"

definition admits_split :: "(int \<Rightarrow> int list) \<Rightarrow> OpSplitSpace \<Rightarrow> sizes \<Rightarrow> TileSpec \<Rightarrow> bool" where
  "admits_split divs s sp t =
     (case (if admits_tiling s t then context_for s t else None) of None \<Rightarrow> False | Some c \<Rightarrow> is_legal divs c sp)"

definition tiling_options :: "OpSplitSpace \<Rightarrow> TileSpec \<Rightarrow> TileSpec list" where
  "tiling_options s t = (case op_tiling s of None \<Rightarrow> [] | Some ts \<Rightarrow> neighbours ts t)"

definition division_neighbours :: "(int \<Rightarrow> int list) \<Rightarrow> OpSplitSpace \<Rightarrow> CoreDivision \<Rightarrow> CoreDivision list" where
  "division_neighbours divs s d =
     (let current = splits_of s d; t = tiling d in
      concat (map (\<lambda>v. map (\<lambda>f. division_of s (AList.update v f current) t)
          (filter (\<lambda>f. f \<noteq> get_or current v 1 \<and> admits_split divs s (AList.update v f current) t)
            (space_factor_domain divs s v t))) (ctx_axes (op_context s)))
      @ map (division_of s current) (filter (admits_split divs s current) (tiling_options s t)))"

section \<open>Dictionaries of splits\<close>

text \<open>SymPy's \<open>divisors\<close>: the positive divisors of a positive number, in ascending order.\<close>

definition lists_divisors :: "(int \<Rightarrow> int list) \<Rightarrow> bool" where
  "lists_divisors divs \<longleftrightarrow> (\<forall>n. sorted (divs n) \<and> (\<forall>d \<in> set (divs n). 0 < d \<and> d dvd n)
     \<and> (0 < n \<longrightarrow> (\<forall>d. 0 < d \<and> d dvd n \<longrightarrow> d \<in> set (divs n))))"

lemma get_or_update [simp]: "get_or (AList.update v m sp) w x = (if w = v then m else get_or sp w x)"
  by (simp add: get_or_def update_conv')

lemma get_or_in: "distinct (map fst sp) \<Longrightarrow> (v, n) \<in> set sp \<Longrightarrow> get_or sp v x = n"
  by (simp add: get_or_def)

lemma get_or_key: "map_of sp v = Some n \<Longrightarrow> get_or sp v x = n"
  by (simp add: get_or_def)

lemma get_or_absent: "v \<notin> fst ` set sp \<Longrightarrow> get_or sp v x = x"
  using map_of_eq_None_iff [of sp v] by (simp add: get_or_def)

definition positive :: "sizes \<Rightarrow> bool" where
  "positive sp \<longleftrightarrow> (\<forall>(v, n) \<in> set sp. 1 \<le> n)"

lemma positive_get: "positive sp \<Longrightarrow> 1 \<le> get_or sp v 1"
  by (cases "map_of sp v") (auto simp: get_or_def positive_def dest!: map_of_SomeD)

lemma positive_prod: "positive sp \<Longrightarrow> 1 \<le> prod_list (map snd sp)"
proof (induction sp)
  case (Cons p sp)
  then have "1 \<le> snd p" "1 \<le> prod_list (map snd sp)" by (auto simp: positive_def)
  then show ?case using mult_mono [of 1 "snd p" 1 "prod_list (map snd sp)"] by simp
qed simp

lemma get_or_dvd: "get_or sp v (1 :: int) dvd prod_list (map snd sp)"
  by (induction sp) (auto simp: get_or_def split: option.splits)

lemma prod_update:
  "distinct (map fst sp) \<Longrightarrow> positive sp \<Longrightarrow>
   prod_list (map snd (AList.update v m sp)) = prod_list (map snd sp) div get_or sp v 1 * m"
proof (induction sp)
  case (Cons p sp)
  obtain w n where p: "p = (w, n)" by fastforce
  have n: "1 \<le> n" using Cons.prems(2) p by (simp add: positive_def)
  show ?case
  proof (cases "w = v")
    case True
    then show ?thesis using n p by (simp add: get_or_def)
  next
    case False
    then have g: "get_or (p # sp) v 1 = get_or sp v 1" using p by (simp add: get_or_def)
    have "prod_list (map snd (AList.update v m sp)) = prod_list (map snd sp) div get_or sp v 1 * m"
      using Cons by (simp add: positive_def)
    then show ?thesis unfolding g using False p get_or_dvd [of sp v] by (simp add: div_mult_swap)
  qed
qed (simp add: get_or_def)

lemma positive_update: "positive sp \<Longrightarrow> 1 \<le> m \<Longrightarrow> positive (AList.update v m sp)"
  by (induction sp) (auto simp: positive_def)

text \<open>What the distributor keeps of its state.\<close>

definition split_inv :: "split_problem \<Rightarrow> sizes \<times> int \<Rightarrow> bool" where
  "split_inv P st \<longleftrightarrow> distinct (map fst (fst st)) \<and> positive (fst st)
     \<and> snd st = prod_list (map snd (fst st)) \<and> snd st \<le> core_budget P"

definition problem_basis :: "split_problem \<Rightarrow> string \<Rightarrow> int" where
  "problem_basis P v = valid_divisor_basis (iteration_sizes P) (dim_meta P) v"

definition problem_factors :: "(int \<Rightarrow> int list) \<Rightarrow> split_problem \<Rightarrow> string \<Rightarrow> int list" where
  "problem_factors divs P v = legal_split_factors divs v (problem_basis P v) (split_domains P) (floors P)"

definition honours :: "split_problem \<Rightarrow> sizes \<Rightarrow> sizes \<Rightarrow> bool" where
  "honours P mandatory sp \<longleftrightarrow>
     (\<forall>v m. map_of (floors P) v = Some m \<longrightarrow> m \<le> get_or sp v 1)
   \<and> (\<forall>v a. map_of (split_domains P) v = Some a \<longrightarrow> get_or sp v 1 \<in> set a)
   \<and> (\<forall>v. get_or sp v 1 = 1 \<or> (v, get_or sp v 1) \<in> set mandatory \<or> get_or sp v 1 dvd problem_basis P v)"

lemma problem_factor_facts:
  assumes "lists_divisors divs" "s \<in> set (problem_factors divs P v)"
  shows "0 < s" "s dvd problem_basis P v" "get_or (floors P) v 1 \<le> s"
    "map_of (split_domains P) v = Some a \<Longrightarrow> s \<in> set a"
  using assms unfolding problem_factors_def legal_split_factors_def lists_divisors_def Let_def
  by (auto split: option.splits)

lemma factor_from_total:
  assumes "1 \<le> current"
  obtains s where "factor_from divs P v current used = Inr s"
    "s = current \<or> (current \<le> s \<and> used div current * s \<le> core_budget P \<and> s \<in> set (problem_factors divs P v))"
proof -
  let ?ok = "\<lambda>s. current \<le> s \<and> used div current * s \<le> core_budget P"
  have f: "factor_from divs P v current used
      = (case find ?ok (rev (problem_factors divs P v)) of None \<Rightarrow> Inr current | Some s \<Rightarrow> Inr s)"
    using assms by (simp add: factor_from_def largest_legal_split_from_def problem_factors_def problem_basis_def Let_def)
  show ?thesis
  proof (cases "find ?ok (rev (problem_factors divs P v))")
    case None
    then show ?thesis using that [of current] f by simp
  next
    case (Some s)
    then have "?ok s" "s \<in> set (problem_factors divs P v)" by (auto simp: find_Some_iff) (metis nth_mem set_rev length_rev)+
    then show ?thesis using that [of s] f Some by simp
  qed
qed

lemma find_last_max:
  "sorted xs \<Longrightarrow> find P (rev xs) = Some s \<Longrightarrow> x \<in> set xs \<Longrightarrow> P x \<Longrightarrow> x \<le> s"
proof (induction xs rule: rev_induct)
  case (snoc y xs)
  then show ?case by (auto simp: sorted_append split: if_splits)
qed simp

lemma factor_from_largest:
  assumes "lists_divisors divs" "1 \<le> current" "factor_from divs P v current used = Inr s"
    and "f \<in> set (problem_factors divs P v)" "s < f" "current \<le> f"
  shows "core_budget P < used div current * f"
proof (rule ccontr)
  let ?ok = "\<lambda>s. current \<le> s \<and> used div current * s \<le> core_budget P"
  assume "\<not> core_budget P < used div current * f"
  then have ok: "?ok f" using assms(6) by simp
  have fs: "factor_from divs P v current used
      = (case find ?ok (rev (problem_factors divs P v)) of None \<Rightarrow> Inr current | Some s \<Rightarrow> Inr s)"
    using assms(2) by (simp add: factor_from_def largest_legal_split_from_def problem_factors_def problem_basis_def Let_def)
  have "find ?ok (rev (problem_factors divs P v)) \<noteq> None" using ok assms(4) by (auto simp: find_None_iff)
  then have "find ?ok (rev (problem_factors divs P v)) = Some s" using fs assms(3) by auto
  moreover have "sorted (problem_factors divs P v)"
    using assms(1) unfolding problem_factors_def legal_split_factors_def lists_divisors_def Let_def
    by (auto split: option.splits intro: sorted_filter [of id, simplified])
  ultimately have "f \<le> s" using find_last_max [of "problem_factors divs P v" ?ok s f] assms(4) ok by blast
  then show False using assms(5) by simp
qed

lemma grow_inv:
  assumes "split_inv P (sp, used)" "1 \<le> s" "used div get_or sp v 1 * s \<le> core_budget P"
  shows "split_inv P (grow v (get_or sp v 1) s (sp, used))"
  using assms positive_update [of sp s v] prod_update [of sp v s] distinct_update [of sp v s]
  by (auto simp: split_inv_def grow_def)

lemma grow_honours:
  assumes "lists_divisors divs" "honours P mandatory sp" "s \<in> set (problem_factors divs P v)" "get_or sp v 1 \<le> s"
  shows "honours P mandatory (AList.update v s sp)"
  using assms(2,4) problem_factor_facts [OF assms(1,3)]
  unfolding honours_def by (auto intro: order_trans)


section \<open>The loops of the distributor\<close>

lemma keys_update: "fst ` set (AList.update v m sp) = insert v (fst ` set sp)"
  using dom_update [of v m sp] by (simp add: dom_map_of_conv_image_fst)

lemma reserve_spec:
  assumes "reserve P ms st = Inr st'" "split_inv P st" "distinct (map fst ms)" "positive ms"
    "\<forall>v \<in> fst ` set ms. get_or (fst st) v 1 = 1"
  shows "split_inv P st' \<and> fst ` set (fst st) \<subseteq> fst ` set (fst st')
    \<and> (\<forall>v. get_or (fst st') v 1 = get_or ms v (get_or (fst st) v 1))
    \<and> (\<forall>(v, m) \<in> set ms. \<forall>a. map_of (split_domains P) v = Some a \<longrightarrow> m \<in> set a)"
  using assms
proof (induction P ms st rule: reserve.induct)
  case (2 P v m ms sp used)
  have ok: "used * m \<le> core_budget P" "\<forall>a. map_of (split_domains P) v = Some a \<longrightarrow> m \<in> set a"
    "reserve P ms (AList.update v m sp, used * m) = Inr st'"
    using 2(2) by (auto split: if_splits option.splits)
  have m: "1 \<le> m" "positive ms" using 2(5) by (auto simp: positive_def)
  have one: "get_or sp v 1 = 1" using 2(6) by simp
  have inv: "split_inv P (AList.update v m sp, used * m)"
    using 2(3) ok(1) m(1) one prod_update [of sp v m] positive_update [of sp m v] distinct_update [of sp v m]
    by (simp add: split_inv_def)
  have fresh: "v \<notin> fst ` set ms" using 2(4) by simp
  have g: "\<not> core_budget P < used * m" "\<not> (case map_of (split_domains P) v of None \<Rightarrow> False | Some a \<Rightarrow> m \<notin> set a)"
    using ok(1,2) by (auto split: option.splits)
  have "\<forall>w \<in> fst ` set ms. get_or (fst (AList.update v m sp, used * m)) w 1 = 1" using 2(6) fresh by auto
  from 2(1) [OF g ok(3) inv _ m(2) this]
  have "split_inv P st' \<and> fst ` set (AList.update v m sp) \<subseteq> fst ` set (fst st')
    \<and> (\<forall>w. get_or (fst st') w 1 = get_or ms w (get_or (AList.update v m sp) w 1))
    \<and> (\<forall>(v, m) \<in> set ms. \<forall>a. map_of (split_domains P) v = Some a \<longrightarrow> m \<in> set a)"
    using 2(4) by simp
  moreover have "get_or ((v, m) # ms) w (get_or sp w 1) = get_or ms w (get_or (AList.update v m sp) w 1)" for w
    using get_or_absent [OF fresh] by (simp add: get_or_def update_conv')
  ultimately show ?case using ok(2) keys_update [of v m sp] by auto
qed (auto simp: get_or_def)

text \<open>A dim none of whose legal factors still fits into the budget.\<close>

definition saturated :: "(int \<Rightarrow> int list) \<Rightarrow> split_problem \<Rightarrow> sizes \<times> int \<Rightarrow> string \<Rightarrow> bool" where
  "saturated divs P st v \<longleftrightarrow> (\<forall>f \<in> set (problem_factors divs P v). get_or (fst st) v 1 < f \<longrightarrow>
     core_budget P < snd st div get_or (fst st) v 1 * f)"

lemma inv_div: "split_inv P (sp, used) \<Longrightarrow> used div get_or sp v 1 * get_or sp v 1 = used \<and> 1 \<le> used div get_or sp v 1"
proof -
  assume h: "split_inv P (sp, used)"
  have d: "get_or sp v 1 dvd used" "1 \<le> get_or sp v 1" "1 \<le> used"
    using h get_or_dvd [of sp v] positive_get [of sp v] positive_prod [of sp] by (auto simp: split_inv_def)
  then have e: "used div get_or sp v 1 * get_or sp v 1 = used" by simp
  moreover have "0 < used div get_or sp v 1" using d pos_imp_zdiv_pos_iff [of "get_or sp v 1" used] zdvd_imp_le [OF d(1)] by simp
  ultimately show ?thesis by simp
qed

lemma full_saturated: "split_inv P (sp, used) \<Longrightarrow> core_budget P \<le> used \<Longrightarrow> saturated divs P (sp, used) v"
  unfolding saturated_def
proof (intro ballI impI)
  fix f assume h: "split_inv P (sp, used)" "core_budget P \<le> used" "get_or (fst (sp, used)) v 1 < f"
  let ?q = "used div get_or sp v 1"
  have q: "?q * get_or sp v 1 = used" "1 \<le> ?q" using inv_div [OF h(1)] by auto
  have "?q * (get_or sp v 1 + 1) \<le> ?q * f" using h(3) q(2) by (intro mult_left_mono) auto
  then have "used + 1 \<le> ?q * f" using q by (simp add: algebra_simps)
  then show "core_budget P < snd (sp, used) div get_or (fst (sp, used)) v 1 * f" using h(2) by simp
qed

lemma saturated_grow:
  assumes "split_inv P (sp, used)" "saturated divs P (sp, used) w" "w \<noteq> v" "get_or sp v 1 \<le> s"
  shows "saturated divs P (grow v (get_or sp v 1) s (sp, used)) w"
proof -
  let ?q = "used div get_or sp v 1" and ?c = "get_or sp w 1"
  have pos: "1 \<le> ?c" using assms(1) positive_get by (auto simp: split_inv_def)
  have q: "?q * get_or sp v 1 = used" "1 \<le> ?q" using inv_div [OF assms(1)] by auto
  then have "used \<le> ?q * s" using assms(4) mult_left_mono [of "get_or sp v 1" s ?q] by simp
  then have "used div ?c \<le> ?q * s div ?c" using pos by (intro zdiv_mono1) auto
  moreover have "core_budget P < used div ?c * f" if "f \<in> set (problem_factors divs P w)" "?c < f" for f
    using assms(2) that by (simp add: saturated_def)
  moreover have "used div ?c * f \<le> ?q * s div ?c * f" if "?c < f" for f
    using calculation(1) pos that by (intro mult_right_mono) auto
  ultimately have "core_budget P < ?q * s div ?c * f" if "f \<in> set (problem_factors divs P w)" "?c < f" for f
    using that by (meson order_less_le_trans)
  then show ?thesis using assms(3) by (simp add: saturated_def grow_def)
qed

lemma saturated_here:
  assumes "lists_divisors divs" "split_inv P (sp, used)" "factor_from divs P v (get_or sp v 1) used = Inr s"
    "get_or sp v 1 \<le> s"
  shows "saturated divs P (if get_or sp v 1 < s then grow v (get_or sp v 1) s (sp, used) else (sp, used)) v"
proof -
  have c: "1 \<le> get_or sp v 1" using assms(2) positive_get by (auto simp: split_inv_def)
  have m: "core_budget P < used div get_or sp v 1 * f" if "f \<in> set (problem_factors divs P v)" "s < f" for f
    using factor_from_largest [OF assms(1) c assms(3) that] that assms(4) by simp
  show ?thesis
  proof (cases "get_or sp v 1 < s")
    case True
    then show ?thesis using m c by (simp add: saturated_def grow_def)
  next
    case False
    then show ?thesis using m assms(4) by (simp add: saturated_def)
  qed
qed

lemma grow_step:
  assumes "lists_divisors divs" "split_inv P (sp, used)" "honours P mand sp"
  obtains s where "factor_from divs P v (get_or sp v 1) used = Inr s" "get_or sp v 1 \<le> s"
    "get_or sp v 1 < s \<longrightarrow> split_inv P (grow v (get_or sp v 1) s (sp, used)) \<and> honours P mand (AList.update v s sp)"
proof -
  have c: "1 \<le> get_or sp v 1" using assms(2) positive_get by (auto simp: split_inv_def)
  obtain s where s: "factor_from divs P v (get_or sp v 1) used = Inr s"
    "s = get_or sp v 1 \<or> (get_or sp v 1 \<le> s \<and> used div get_or sp v 1 * s \<le> core_budget P \<and> s \<in> set (problem_factors divs P v))"
    by (rule factor_from_total [OF c])
  moreover have "split_inv P (grow v (get_or sp v 1) s (sp, used)) \<and> honours P mand (AList.update v s sp)" if "get_or sp v 1 < s"
    using s(2) that grow_inv [OF assms(2), of s v] grow_honours [OF assms(1,3), of s v] c by auto
  ultimately show ?thesis using that [of s] by auto
qed

lemma distribute_spec:
  assumes "lists_divisors divs"
  shows "split_inv P st \<Longrightarrow> honours P mand (fst st) \<Longrightarrow> set vs \<subseteq> fst ` set (fst st) \<Longrightarrow>
    \<exists>st'. distribute divs P vs st = Inr st' \<and> split_inv P st' \<and> honours P mand (fst st')
      \<and> fst ` set (fst st') = fst ` set (fst st) \<and> (\<forall>w. w \<notin> set vs \<longrightarrow> get_or (fst st') w 1 = get_or (fst st) w 1)
      \<and> (\<forall>w. saturated divs P st w \<or> w \<in> set vs \<longrightarrow> saturated divs P st' w)"
proof (induction vs arbitrary: st)
  case (Cons v vs)
  obtain sp used where st: "st = (sp, used)" by fastforce
  show ?case
  proof (cases "core_budget P \<le> used")
    case True
    then show ?thesis using Cons.prems(1,2) full_saturated [of P sp used divs] unfolding st by auto
  next
    case False
    obtain s where s: "factor_from divs P v (get_or sp v 1) used = Inr s" "get_or sp v 1 \<le> s"
      "get_or sp v 1 < s \<longrightarrow> split_inv P (grow v (get_or sp v 1) s (sp, used)) \<and> honours P mand (AList.update v s sp)"
      by (rule grow_step [OF assms Cons.prems(1,2) [unfolded st fst_conv], of v])
    let ?st = "if get_or sp v 1 < s then grow v (get_or sp v 1) s (sp, used) else (sp, used)"
    obtain current where "map_of sp v = Some current"
      using Cons.prems(3) st by (metis fst_conv list.set_intros(1) map_of_eq_None_iff not_None_eq subsetD)
    then have run: "distribute divs P (v # vs) st = distribute divs P vs ?st"
      using False s(1) st by (auto simp: get_or_key)
    have inv: "split_inv P ?st" "honours P mand (fst ?st)" using s(3) Cons.prems(1,2) st by (auto simp: grow_def)
    have keys: "fst ` set (fst ?st) = fst ` set sp" using Cons.prems(3) keys_update [of v s sp] st by (auto simp: grow_def)
    have sat: "saturated divs P ?st w" if "saturated divs P st w \<or> w = v" for w
      using that saturated_here [OF assms _ s(1,2)] saturated_grow [of P sp used divs w v s] Cons.prems(1) st s(2)
      by (cases "w = v") auto
    have "get_or (fst ?st) w 1 = get_or sp w 1" if "w \<noteq> v" for w using that by (simp add: grow_def)
    moreover obtain st' where "distribute divs P vs ?st = Inr st'" "split_inv P st'" "honours P mand (fst st')"
      "fst ` set (fst st') = fst ` set (fst ?st)" "\<forall>w. w \<notin> set vs \<longrightarrow> get_or (fst st') w 1 = get_or (fst ?st) w 1"
      "\<forall>w. saturated divs P ?st w \<or> w \<in> set vs \<longrightarrow> saturated divs P st' w"
      using Cons.IH [OF inv] Cons.prems(3) keys st by auto
    ultimately show ?thesis using run sat keys st by (intro exI [of _ st']) auto
  qed
qed auto


section \<open>What the distributor promises\<close>

text \<open>What its callers hand over.\<close>

definition problem_ok :: "split_problem \<Rightarrow> string list \<Rightarrow> string list \<Rightarrow> bool" where
  "problem_ok P outs reds \<longleftrightarrow> 1 \<le> core_budget P \<and> distinct (map fst (iteration_sizes P))
     \<and> distinct (map fst (floors P)) \<and> positive (floors P)
     \<and> distinct (map fst (split_domains P)) \<and> list_all (\<lambda>(v, a). a \<noteq> [] \<and> list_all (\<lambda>n. 1 \<le> n) a) (split_domains P)
     \<and> set outs \<union> set reds \<subseteq> fst ` set (iteration_sizes P) \<and> set outs \<inter> set reds = {} \<and> distinct reds"

lemma mandatory_facts:
  assumes "problem_ok P outs reds"
  obtains mand where "mandatory_splits P = Inr mand" "distinct (map fst mand)" "positive mand"
    "\<forall>v m. map_of (floors P) v = Some m \<longrightarrow> map_of mand v = Some m"
    "\<forall>v a. map_of (split_domains P) v = Some a \<and> map_of mand v = None \<longrightarrow> 1 \<in> set a"
proof -
  let ?F = "forced_domains P"
  let ?low = "\<lambda>(v, a). (v, foldl min (hd a) (tl a))"
  have dom: "distinct (map fst (split_domains P))" "\<forall>(v, a) \<in> set (split_domains P). a \<noteq> [] \<and> (\<forall>n \<in> set a. 1 \<le> n)"
    using assms by (auto simp: problem_ok_def list_all_iff)
  have F: "set ?F \<subseteq> set (split_domains P)" "\<forall>(v, a) \<in> set ?F. 1 \<notin> set a \<and> v \<notin> fst ` set (floors P)"
    by (auto simp: forced_domains_def)
  have ne: "\<not> list_ex (\<lambda>(v, a). a = []) ?F" using F(1) dom(2) by (fastforce simp: list_ex_iff)
  have fst: "map fst (map ?low ?F) = map fst ?F" by (simp add: comp_def case_prod_beta)
  have d: "distinct (map fst ?F)" using dom(1) by (simp add: forced_domains_def distinct_map_filter)
  have low: "1 \<le> foldl min (hd a) (tl a)" if "(v, a) \<in> set ?F" for v a
  proof -
    have "(v, a) \<in> set (split_domains P)" using that F(1) by blast
    then have "a \<noteq> []" "\<forall>n \<in> set a. 1 \<le> n" using dom(2) by auto
    then show ?thesis using foldl_min_in [of "hd a" "tl a"] by (metis hd_in_set insertE list.set_sel(2))
  qed
  show ?thesis
  proof (rule that [of "floors P @ map ?low ?F"])
    show "mandatory_splits P = Inr (floors P @ map ?low ?F)" using ne by (simp add: mandatory_splits_def)
    have "fst ` set (floors P) \<inter> fst ` set ?F = {}" using F(2) by force
    then show "distinct (map fst (floors P @ map ?low ?F))"
      using assms d unfolding map_append distinct_append fst set_map problem_ok_def by simp
    show "positive (floors P @ map ?low ?F)" using assms low by (auto simp: positive_def problem_ok_def)
    show "\<forall>v m. map_of (floors P) v = Some m \<longrightarrow> map_of (floors P @ map ?low ?F) v = Some m"
      by (simp add: map_add_Some_iff)
    show "\<forall>v a. map_of (split_domains P) v = Some a \<and> map_of (floors P @ map ?low ?F) v = None \<longrightarrow> 1 \<in> set a"
    proof (intro allI impI, rule ccontr)
      fix v a assume h: "map_of (split_domains P) v = Some a \<and> map_of (floors P @ map ?low ?F) v = None" "1 \<notin> set a"
      then have "v \<notin> fst ` set (floors P)" "v \<notin> fst ` set (map ?low ?F)"
        by (auto simp: map_add_None map_of_eq_None_iff)
      moreover have "(v, a) \<in> set ?F" using h calculation(1) by (auto simp: forced_domains_def dest!: map_of_SomeD)
      ultimately show False by force
    qed
  qed
qed

lemma most_splittable_spec:
  assumes "lists_divisors divs" "split_inv P (sp, used)" "honours P mand sp"
  shows "set ds \<subseteq> fst ` set sp \<Longrightarrow>
    (\<forall>d s. best = Some (d, s) \<longrightarrow> get_or sp d 1 < s \<and> d \<in> D
       \<and> split_inv P (grow d (get_or sp d 1) s (sp, used)) \<and> honours P mand (AList.update d s sp)) \<Longrightarrow> set ds \<subseteq> D \<Longrightarrow>
    \<exists>r. most_splittable divs P sp used best ds = Inr r
      \<and> (\<forall>d s. r = Some (d, s) \<longrightarrow> get_or sp d 1 < s \<and> d \<in> D
         \<and> split_inv P (grow d (get_or sp d 1) s (sp, used)) \<and> honours P mand (AList.update d s sp))"
proof (induction ds arbitrary: best)
  case (Cons d ds)
  obtain current where c: "map_of sp d = Some current"
    using Cons.prems(1) by (metis list.set_intros(1) map_of_eq_None_iff not_None_eq subsetD)
  obtain s where s: "factor_from divs P d (get_or sp d 1) used = Inr s" "get_or sp d 1 \<le> s"
    "get_or sp d 1 < s \<longrightarrow> split_inv P (grow d (get_or sp d 1) s (sp, used)) \<and> honours P mand (AList.update d s sp)"
    by (rule grow_step [OF assms, of d])
  let ?best = "if current < s \<and> (case best of None \<Rightarrow> 0 | Some (_, b) \<Rightarrow> b) < s then Some (d, s) else best"
  have "most_splittable divs P sp used best (d # ds) = most_splittable divs P sp used ?best ds"
    using c s(1) by (simp add: get_or_key [OF c])
  then show ?case using Cons.IH [of ?best] Cons.prems s(3) get_or_key [OF c, of 1] by auto
qed simp

lemma length_filter_le_one: "distinct xs \<Longrightarrow> \<forall>x \<in> set xs. Q x \<longrightarrow> x = d \<Longrightarrow> length (filter Q xs) \<le> 1"
proof (induction xs)
  case (Cons x xs)
  show ?case
  proof (cases "Q x")
    case True
    then have "filter Q xs = []" using Cons.prems by (auto simp: filter_empty_conv)
    then show ?thesis by simp
  next
    case False
    then show ?thesis using Cons by simp
  qed
qed simp

definition sound_split :: "split_problem \<Rightarrow> string list \<Rightarrow> sizes \<Rightarrow> sizes \<Rightarrow> bool" where
  "sound_split P reds mand sp \<longleftrightarrow> prod_list (map snd sp) \<le> core_budget P \<and> positive sp \<and> distinct (map fst sp)
     \<and> honours P mand sp \<and> length (filter (\<lambda>v. 1 < get_or sp v 1) reds) \<le> 1"

lemma reserve_error: "reserve P ms st = Inl e \<Longrightarrow> \<exists>m. e = RuntimeError m"
  by (induction P ms st rule: reserve.induct) (auto split: if_splits option.splits)

definition unsplit :: "split_problem \<Rightarrow> sizes" where
  "unsplit P = map (\<lambda>(v, _). (v, 1)) (iteration_sizes P)"

lemma unsplit_facts: "fst ` set (unsplit P) = fst ` set (iteration_sizes P)" "get_or (unsplit P) v 1 = 1"
  by (force simp: unsplit_def) (auto simp: unsplit_def get_or_def split: option.splits dest!: map_of_SomeD)

lemma unsplit_inv: "problem_ok P outs reds \<Longrightarrow> split_inv P (unsplit P, 1)"
proof -
  assume ok: "problem_ok P outs reds"
  have "prod_list (map snd (map (\<lambda>(v, _). (v, 1)) xs)) = (1 :: int)" for xs :: sizes by (induction xs) auto
  then have "prod_list (map snd (unsplit P)) = 1" by (simp only: unsplit_def)
  moreover have "map fst (unsplit P) = map fst (iteration_sizes P)" by (simp add: unsplit_def comp_def case_prod_beta)
  moreover have "positive (unsplit P)" by (auto simp: positive_def unsplit_def)
  ultimately show ?thesis using ok by (simp add: split_inv_def problem_ok_def)
qed

lemma reserved_state:
  assumes "problem_ok P outs reds" "mandatory_splits P = Inr mand" "reserve P mand (unsplit P, 1) = Inr (sp, used)"
  shows "split_inv P (sp, used) \<and> honours P mand sp \<and> set outs \<union> set reds \<subseteq> fst ` set sp"
proof -
  have mand: "distinct (map fst mand)" "positive mand"
    "\<forall>v m. map_of (floors P) v = Some m \<longrightarrow> map_of mand v = Some m"
    "\<forall>v a. map_of (split_domains P) v = Some a \<and> map_of mand v = None \<longrightarrow> 1 \<in> set a"
    using mandatory_facts [OF assms(1)] assms(2) by (metis sum.inject(2))+
  have r: "split_inv P (sp, used) \<and> fst ` set (unsplit P) \<subseteq> fst ` set sp
      \<and> (\<forall>v. get_or sp v 1 = get_or mand v (get_or (unsplit P) v 1))
      \<and> (\<forall>(v, m) \<in> set mand. \<forall>a. map_of (split_domains P) v = Some a \<longrightarrow> m \<in> set a)"
    using reserve_spec [OF assms(3) unsplit_inv [OF assms(1)] mand(1,2)] by (simp add: unsplit_facts)
  have g: "get_or sp v 1 = get_or mand v 1" for v using r unsplit_facts(2) by simp
  have "get_or sp v 1 \<in> set a" if a: "map_of (split_domains P) v = Some a" for v a
  proof (cases "map_of mand v")
    case None
    then show ?thesis using mand(4) a g [of v] by (simp add: get_or_def)
  next
    case (Some m)
    then have "(v, m) \<in> set mand" by (rule map_of_SomeD)
    then show ?thesis using r a g [of v] Some by (auto simp: get_or_def)
  qed
  moreover have "get_or sp v 1 = 1 \<or> (v, get_or sp v 1) \<in> set mand" for v
    using g [of v] by (cases "map_of mand v") (auto simp: get_or_def dest: map_of_SomeD)
  moreover have "m \<le> get_or sp v 1" if "map_of (floors P) v = Some m" for v m
    using mand(3) g that by (simp add: get_or_def)
  ultimately have "honours P mand sp" by (auto simp: honours_def)
  then show ?thesis using r assms(1) unsplit_facts(1) by (auto simp: problem_ok_def)
qed

text \<open>The reduction dims split so far, and the one that may still grow.\<close>

lemma reduction_growth:
  assumes "problem_ok P outs reds" "length (filter (\<lambda>v. 1 < get_or sp v 1) reds) \<le> 1"
    and "x \<in> set (if filter (\<lambda>v. 1 < get_or sp v 1) reds = [] then reds else filter (\<lambda>v. 1 < get_or sp v 1) reds)"
  shows "length (filter (\<lambda>v. 1 < get_or (AList.update x s sp) v 1) reds) \<le> 1"
proof (rule length_filter_le_one)
  let ?c = "filter (\<lambda>v. 1 < get_or sp v 1) reds"
  show "distinct reds" using assms(1) by (simp add: problem_ok_def)
  show "\<forall>y \<in> set reds. 1 < get_or (AList.update x s sp) y 1 \<longrightarrow> y = x"
  proof (intro ballI impI, rule ccontr)
    fix y assume y: "y \<in> set reds" "1 < get_or (AList.update x s sp) y 1" "y \<noteq> x"
    then have yc: "y \<in> set ?c" by simp
    then have ne: "?c \<noteq> []" by force
    then have xc: "x \<in> set ?c" using assms(3) by (simp only: if_False)
    have "card (set ?c) \<le> 1" using card_length [of ?c] assms(2) by linarith
    then show False using xc yc y(3) card_le_Suc0_iff_eq [of "set ?c"] by simp
  qed
qed

lemma grown_sound:
  assumes "problem_ok P outs reds" "split_inv P (sp, used)" "\<forall>v \<in> set outs. saturated divs P (sp, used) v"
    and "length (filter (\<lambda>v. 1 < get_or sp v 1) reds) \<le> 1"
    and "x \<in> set (if filter (\<lambda>v. 1 < get_or sp v 1) reds = [] then reds else filter (\<lambda>v. 1 < get_or sp v 1) reds)"
    and "get_or sp x 1 < s" "split_inv P (grow x (get_or sp x 1) s (sp, used))" "honours P mand (AList.update x s sp)"
  shows "sound_split P reds mand (AList.update x s sp)
    \<and> (\<forall>v \<in> set outs. saturated divs P (AList.update x s sp, prod_list (map snd (AList.update x s sp))) v)"
proof -
  have "x \<in> set reds" using assms(5) by (auto split: if_splits)
  then have "v \<noteq> x" if "v \<in> set outs" for v using assms(1) that unfolding problem_ok_def by blast
  then have "\<forall>v \<in> set outs. saturated divs P (grow x (get_or sp x 1) s (sp, used)) v"
    using saturated_grow [OF assms(2), of divs _ x s] assms(3,6) by auto
  then show ?thesis using assms(7,8) reduction_growth [OF assms(1,4,5), of s]
    by (simp add: sound_split_def split_inv_def grow_def)
qed

definition split_contract :: "(int \<Rightarrow> int list) \<Rightarrow> split_problem \<Rightarrow> string list \<Rightarrow> string list \<Rightarrow> sizes \<Rightarrow> sizes \<Rightarrow> bool" where
  "split_contract divs P outs reds mand sp \<longleftrightarrow>
     sound_split P reds mand sp \<and> (\<forall>v \<in> set outs. saturated divs P (sp, prod_list (map snd sp)) v)"

lemma distributed_contract:
  assumes "lists_divisors divs" "problem_ok P outs reds" "split_inv P (sp, used)" "honours P mand sp"
    "set outs \<union> set reds \<subseteq> fst ` set sp" "length (filter (\<lambda>v. 1 < get_or sp v 1) reds) \<le> 1"
  obtains sp2 where "rbind (distribute divs P outs (sp, used)) (\<lambda>(sp2, used2).
       if reds = [] \<or> core_budget P \<le> used2 then Inr sp2
       else rbind (most_splittable_dim divs P sp2 used2
              (if filter (\<lambda>v. 1 < get_or sp v 1) reds = [] then reds else filter (\<lambda>v. 1 < get_or sp v 1) reds)) (\<lambda>best.
         case best of None \<Rightarrow> Inr sp2 | Some (d, s) \<Rightarrow> Inr (fst (grow d (get_or sp2 d 1) s (sp2, used2))))) = Inr sp2"
    "split_contract divs P outs reds mand sp2"
proof -
  let ?c = "filter (\<lambda>v. 1 < get_or sp v 1) reds"
  obtain sp2 used2 where d: "distribute divs P outs (sp, used) = Inr (sp2, used2)" "split_inv P (sp2, used2)" "honours P mand sp2"
    "fst ` set sp2 = fst ` set sp" "\<forall>w. w \<notin> set outs \<longrightarrow> get_or sp2 w 1 = get_or sp w 1"
    "\<forall>w \<in> set outs. saturated divs P (sp2, used2) w"
    using distribute_spec [OF assms(1), of P "(sp, used)" mand outs] assms(3-5) by fastforce
  have "\<forall>v \<in> set reds. get_or sp2 v 1 = get_or sp v 1" using d(5) assms(2) by (auto simp: problem_ok_def)
  then have c2: "?c = filter (\<lambda>v. 1 < get_or sp2 v 1) reds" by (auto intro: filter_cong)
  have done2: "split_contract divs P outs reds mand sp2"
    using d(2,3,6) assms(6) c2 by (auto simp: split_contract_def sound_split_def split_inv_def)
  show ?thesis
  proof (cases "reds = [] \<or> core_budget P \<le> used2")
    case True
    then show ?thesis using that [OF _ done2] d(1) by simp
  next
    case False
    let ?e = "if ?c = [] then reds else ?c"
    have "set ?e \<subseteq> fst ` set sp2" using assms(5) d(4) by auto
    then obtain best where b: "most_splittable_dim divs P sp2 used2 ?e = Inr best"
      "\<forall>x s. best = Some (x, s) \<longrightarrow> get_or sp2 x 1 < s \<and> x \<in> set ?e
         \<and> split_inv P (grow x (get_or sp2 x 1) s (sp2, used2)) \<and> honours P mand (AList.update x s sp2)"
      using most_splittable_spec [OF assms(1) d(2,3), of ?e None "set ?e"] by (auto simp: most_splittable_dim_def)
    show ?thesis
    proof (cases best)
      case None
      then show ?thesis using that [OF _ done2] d(1) b(1) False by simp
    next
      case (Some xs)
      obtain x s where xs: "xs = (x, s)" by fastforce
      note bs = b(2) [rule_format, OF Some [unfolded xs]]
      have "split_contract divs P outs reds mand (AList.update x s sp2)"
        unfolding split_contract_def
        by (rule grown_sound [OF assms(2) d(2,6)]) (use bs assms(6) c2 in auto)
      then show ?thesis using that [of "AList.update x s sp2"] d(1) b(1) False Some xs by (simp add: grow_def)
    qed
  qed
qed

lemma multi_dim_contract:
  assumes "lists_divisors divs" "problem_ok P outs reds"
  shows "case multi_dim_iteration_space_split divs P outs reds of
      Inl e \<Rightarrow> \<exists>m. e = RuntimeError m
    | Inr sp \<Rightarrow> \<exists>mand. mandatory_splits P = Inr mand \<and> split_contract divs P outs reds mand sp"
proof -
  obtain mand where mand: "mandatory_splits P = Inr mand" using mandatory_facts [OF assms(2)] by metis
  show ?thesis
  proof (cases "reserve P mand (unsplit P, 1)")
    case (Inl e)
    then show ?thesis using mand reserve_error [OF Inl] by (simp add: multi_dim_iteration_space_split_def unsplit_def)
  next
    case (Inr st)
    obtain sp used where st: "st = (sp, used)" by fastforce
    note r = reserved_state [OF assms(2) mand Inr [unfolded st]]
    let ?c = "filter (\<lambda>v. 1 < get_or sp v 1) reds"
    have com: "split_reductions sp reds = Inr ?c"
      using r by (auto simp: split_reductions_def list_ex_iff map_of_eq_None_iff)
    show ?thesis
    proof (cases "1 < length ?c")
      case True
      then show ?thesis using mand Inr st com by (simp add: multi_dim_iteration_space_split_def unsplit_def)
    next
      case False
      then have "length ?c \<le> 1" by simp
      then obtain sp2 where "rbind (distribute divs P outs (sp, used)) (\<lambda>(sp2, used2).
         if reds = [] \<or> core_budget P \<le> used2 then Inr sp2
         else rbind (most_splittable_dim divs P sp2 used2 (if ?c = [] then reds else ?c)) (\<lambda>best.
           case best of None \<Rightarrow> Inr sp2 | Some (d, s) \<Rightarrow> Inr (fst (grow d (get_or sp2 d 1) s (sp2, used2))))) = Inr sp2"
        "split_contract divs P outs reds mand sp2"
        by (rule distributed_contract [OF assms conjunct1 [OF r] conjunct1 [OF conjunct2 [OF r]] conjunct2 [OF conjunct2 [OF r]]])
      moreover have "multi_dim_iteration_space_split divs P outs reds = rbind (distribute divs P outs (sp, used)) (\<lambda>(sp2, used2).
         if reds = [] \<or> core_budget P \<le> used2 then Inr sp2
         else rbind (most_splittable_dim divs P sp2 used2 (if ?c = [] then reds else ?c)) (\<lambda>best.
           case best of None \<Rightarrow> Inr sp2 | Some (d, s) \<Rightarrow> Inr (fst (grow d (get_or sp2 d 1) s (sp2, used2)))))"
        unfolding multi_dim_iteration_space_split_def mand rbind_simps unsplit_def [symmetric] Inr st prod.case com if_not_P [OF False] ..
      ultimately show ?thesis using mand by simp
    qed
  qed
qed



lemma divisor_listed: "lists_divisors divs \<Longrightarrow> 0 < n \<Longrightarrow> 0 < d \<Longrightarrow> d dvd n \<Longrightarrow> d \<in> set (divs n)"
  unfolding lists_divisors_def by blast

definition trial_divisors :: "int \<Rightarrow> int list" where
  "trial_divisors n = filter (\<lambda>d. n mod d = 0) [1..n]"

lemma trial_divisors_listed: "lists_divisors trial_divisors"
proof -
  have "sorted (trial_divisors n)" for n
    unfolding trial_divisors_def by (rule sorted_filter [of id, simplified]) (simp add: sorted_upto)
  then show ?thesis by (auto simp: lists_divisors_def trial_divisors_def mod_eq_0_iff_dvd dest: zdvd_imp_le)
qed

text \<open>A matmul with a committed floor on \<open>n\<close> and 24 cores.\<close>

definition demo_problem :: split_problem where
  "demo_problem = \<lparr>iteration_sizes = [(''m'', 12), (''n'', 8), (''k'', 6)], core_budget = 24, floors = [(''n'', 2)],
     dim_meta = Map.empty, split_domains = []\<rparr>"

lemma demo_problem_ok: "problem_ok demo_problem [''m'', ''n''] [''k'']"
  by code_simp


text \<open>
  No core is left that an output dim could use: for every output dim of the result, replacing
  its split by any larger legal factor (a divisor of the dim, in its domain and above its floor)
  would exceed the core budget.
\<close>

lemma output_dims_saturated:
  assumes "lists_divisors divs" "problem_ok P outs reds"
    and "multi_dim_iteration_space_split divs P outs reds = Inr sp" "v \<in> set outs"
    and "0 < problem_basis P v" "f dvd problem_basis P v" "get_or sp v 1 < f" "get_or (floors P) v 1 \<le> f"
    and "case map_of (split_domains P) v of None \<Rightarrow> True | Some a \<Rightarrow> f \<in> set a"
  shows "core_budget P < prod_list (map snd sp) div get_or sp v 1 * f"
proof -
  obtain mand where c: "split_contract divs P outs reds mand sp" using multi_dim_contract [OF assms(1,2)] assms(3) by auto
  then have "1 \<le> get_or sp v 1" using positive_get [of sp v] by (simp add: split_contract_def sound_split_def)
  then have "f \<in> set (divs (problem_basis P v))" using assms(6,7) by (intro divisor_listed [OF assms(1,5)]) simp_all
  then have "f \<in> set (problem_factors divs P v)"
    using assms(8,9) by (auto simp: problem_factors_def legal_split_factors_def Let_def split: option.splits)
  then show ?thesis using c assms(4,7) by (auto simp: split_contract_def saturated_def)
qed

lemma output_dims_saturated_example:
  "core_budget demo_problem < prod_list (map snd [(''m'', 12), (''n'', 2), (''k'', 1 :: int)]) div 2 * 4"
proof -
  have r: "multi_dim_iteration_space_split trial_divisors demo_problem [''m'', ''n''] [''k''] = Inr [(''m'', 12), (''n'', 2), (''k'', 1)]"
    by code_simp
  have "problem_basis demo_problem ''n'' = 8" "get_or [(''m'', 12), (''n'', 2), (''k'', 1 :: int)] ''n'' 1 = 2"
    "get_or (floors demo_problem) ''n'' 1 = 2" "map_of (split_domains demo_problem) ''n'' = None" by code_simp+
  then show ?thesis
    using output_dims_saturated [OF trial_divisors_listed demo_problem_ok r, of "''n''" 4] by simp
qed

section \<open>The candidates and the space\<close>

text \<open>
  The list of candidates carries exactly the legal splits: a dictionary is enumerated if and
  only if it has one factor per axis, in the order of the axes, and the context judges it legal.
\<close>

lemma candidates_are_the_legal_splits:
  "sp \<in> set (enumerate_work_division_candidates divs (Some c)) \<longleftrightarrow> map fst sp = ctx_axes c \<and> is_legal divs c sp"
proof -
  have "sp \<in> zip (ctx_axes c) ` set (product_lists (map (factor_domain divs c) (ctx_axes c)))
      \<longleftrightarrow> map fst sp = ctx_axes c \<and> list_all2 (\<lambda>f v. f \<in> set (factor_domain divs c v)) (map snd sp) (ctx_axes c)"
    (is "?L \<longleftrightarrow> ?R")
  proof
    assume ?L
    then obtain fs where "sp = zip (ctx_axes c) fs" "list_all2 (\<lambda>f v. f \<in> set (factor_domain divs c v)) fs (ctx_axes c)"
      by (auto simp: product_lists_set list.rel_map)
    then show ?R using list_all2_lengthD by fastforce
  next
    assume ?R
    then have "sp = zip (ctx_axes c) (map snd sp)" by (metis zip_map_fst_snd)
    then show ?L using \<open>?R\<close> by (auto simp: product_lists_set list.rel_map)
  qed
  moreover have "list_all2 (\<lambda>f v. f \<in> set (factor_domain divs c v)) (map snd sp) (ctx_axes c)"
    if "map fst sp = ctx_axes c" "is_legal divs c sp"
  proof -
    have "list_all2 (\<lambda>f v. f \<in> set (factor_domain divs c v)) (map snd sp) (map fst sp)"
      using that(2) by (simp add: is_legal_def factors_in_domain_def list_all_iff list.rel_map list_all2_same case_prod_beta)
    then show ?thesis using that(1) by simp
  qed
  ultimately show ?thesis by (auto simp: enumerate_work_division_candidates_def)
qed

lemma fst_update: "v \<in> fst ` set sp \<Longrightarrow> map fst (AList.update v f sp) = map fst sp"
  by (induction sp) auto

lemma splits_of_division:
  assumes "map fst sp = ctx_axes (op_context s)" "distinct (map fst sp)" "positive sp"
  shows "splits_of s (division_of s sp t) = sp"
proof -
  have "get_or (filter (\<lambda>(v, f). 1 < f) sp) v 1 = n" if "(v, n) \<in> set sp" for v n
  proof (cases "1 < n")
    case True
    then have "(v, n) \<in> set (filter (\<lambda>(v, f). 1 < f) sp)" using that by simp
    then show ?thesis using assms(2) by (intro get_or_in) (auto simp: distinct_map_filter)
  next
    case False
    then have "n = 1" using that assms(3) by (auto simp: positive_def)
    moreover have "v \<notin> fst ` set (filter (\<lambda>(v, f). 1 < f) sp)"
      using False that assms(2) by (auto dest: eq_key_imp_eq_value)
    ultimately show ?thesis by (simp add: get_or_absent)
  qed
  then have "map (\<lambda>v. (v, get_or (filter (\<lambda>(v, f). 1 < f) sp) v 1)) (map fst sp) = sp"
    by (simp add: comp_def) (rule map_idI, auto)
  then show ?thesis using assms(1) by (simp add: splits_of_def division_of_def Let_def)
qed

text \<open>
  A search never leaves the space: every division proposed as a neighbour, read back as one
  factor per axis, is admitted at the tiling it carries, and differs from the division it came
  from in one factor or in the tiling only.
\<close>

lemma division_neighbours_admitted:
  assumes "lists_divisors divs" "distinct (ctx_axes (op_context s))" "positive (splits d)" "n \<in> set (division_neighbours divs s d)"
  shows "admits_split divs s (splits_of s n) (tiling n)
    \<and> ((\<exists>v f. splits_of s n = AList.update v f (splits_of s d) \<and> tiling n = tiling d)
       \<or> (splits_of s n = splits_of s d \<and> tiling n \<in> set (tiling_options s (tiling d))))"
proof -
  let ?cur = "splits_of s d"
  have cur: "map fst ?cur = ctx_axes (op_context s)" "positive ?cur"
    using positive_get [OF assms(3)] by (auto simp: splits_of_def comp_def positive_def)
  have readback: "splits_of s (division_of s sp t) = sp" if "map fst sp = ctx_axes (op_context s)" "positive sp" for sp t
    using splits_of_division that assms(2) by simp
  have til: "tiling (division_of s sp t) = t" for sp t by (simp add: division_of_def Let_def)
  consider v f where "v \<in> set (ctx_axes (op_context s))" "f \<in> set (space_factor_domain divs s v (tiling d))"
      "admits_split divs s (AList.update v f ?cur) (tiling d)" "n = division_of s (AList.update v f ?cur) (tiling d)"
    | t where "t \<in> set (tiling_options s (tiling d))" "admits_split divs s ?cur t" "n = division_of s ?cur t"
    using assms(4) by (auto simp: division_neighbours_def Let_def)
  then show ?thesis
  proof cases
    case 1
    have "1 \<le> f" using 1(2) assms(1)
      by (auto simp: space_factor_domain_def factor_domain_def legal_split_factors_def lists_divisors_def Let_def
          split: option.splits if_splits prod.splits) fastforce+
    then have "positive (AList.update v f ?cur)" using cur(2) by (rule positive_update [rotated])
    moreover have "v \<in> fst ` set ?cur" using 1(1) cur(1) by (metis set_map)
    then have "map fst (AList.update v f ?cur) = ctx_axes (op_context s)" using cur(1) fst_update by metis
    ultimately show ?thesis using 1(3,4) readback til by auto
  next
    case 2
    then show ?thesis using readback [OF cur] til by auto
  qed
qed


end
