(* ===== verification/Spec2Isabelle.thy ===== *)
theory Spec2Isabelle
  imports Sharding Operation_Mapping Subrange_Transfer Sliding_Window Greedy_Solver Gap_Solver Hbm_Pool
    Bound_Buffers Exhaustive_Search Dead_Code Slice_Ownership Work_Division
begin

text \<open>
  A verification development for torch-spyre, the PyTorch backend of the Spyre accelerator.  It
  models the planning core of the compiler under \<^verbatim>\<open>src/torch_spyre\<close>: the Python code that decides
  where a value lives, on which core it is computed and in which loop it runs.  Below, file names
  are relative to \<^verbatim>\<open>src/torch_spyre/_inductor\<close> unless they start with \<^verbatim>\<open>src\<close>.

  \<^bold>\<open>The program and how its parts interact.\<close>
  PyTorch's Inductor hands the backend a list of operations with their reads and writes.  Dead
  operations are removed.  Counted loops are kept as a tree of loop nodes over that list, edited
  through a flat view, and checked for structure.  Work division splits an operation's dims over
  the cores and coarse tiling cuts them into tiles; core mapping turns splits into formulas from
  a core number to a slice, reconciles them with the tensors' owners, and certifies transfers
  between two ownerships.  The scratchpad allocator computes lifetimes, turns values into buffers
  bound to lifetimes, declares in-place pairs and relayout copies, and calls a layout solver
  (greedy, first fit, best fit, or the exhaustive search over core divisions that calls one of them at
  its leaves).  After fusion, what the scratchpad did not take may be pooled in HBM per kernel
  bundle.  Beside these stand the plan of sliding-window attention and the sharding API.

  \<^bold>\<open>Theories, in the order of their imports.\<close>
  \<^item> \<open>Spyre_Prelude\<close>: the error datatype (one constructor per exception class the sources raise), the
    result type \<open>error + 'a\<close> with \<open>rbind\<close>, \<open>and_then\<close>, \<open>raise_if\<close> and \<open>traverse\<close>, rounding to an
    alignment, disjointness of address intervals, and the generic list and map lemmas.
  \<^item> \<open>Plan_Solver\<close> (\<^verbatim>\<open>scratchpad/plan_solver.py\<close>): \<open>LifetimeBoundBuffer\<close> with its constructor checks,
    tilings, core divisions, residency verdicts, the in-place checks and the solver capabilities.
    The locale \<open>layout_solver\<close> states what a solver promises (a safe layout, the same buffers) and
    derives that no byte has two live holders; \<open>total_solver\<close> adds that a solve returns.
  \<^item> \<open>Greedy_Solver\<close> (\<^verbatim>\<open>scratchpad/greedy_solver.py\<close>): free-block search, in-place reuse, paired groups,
    the time walk.  An invariant of the walk discharges the solver locale.
  \<^item> \<open>Gap_Solver\<close> (\<^verbatim>\<open>scratchpad/firstfit_bestfit_solver.py\<close>): Kahn's sort of the in-place pairs, gaps, and
    the two gap policies as interpretations of the locale \<open>gap_policy\<close>.
  \<^item> \<open>Exhaustive_Search\<close> (\<^verbatim>\<open>scratchpad/exhaustive_search.py\<close>): the walk over all division choices, with
    optimality of the recorded leaf.
  \<^item> \<open>Buffer_Lifetimes\<close> (\<^verbatim>\<open>scratchpad/utils.py\<close>, \<^verbatim>\<open>loop_facts.py\<close>, \<^verbatim>\<open>loop_info.py\<close>): liveness, the widening of
    lifetimes over counted loops, the closure of constant-offset mutations.
  \<^item> \<open>Bound_Buffers\<close> (\<^verbatim>\<open>scratchpad/allocator.py\<close>, \<^verbatim>\<open>scratchpad/lx_relayout.py\<close>): the buffers the allocator
    hands to a solver, in-place edges, input clones, relayout destinations and the assertions on them.
  \<^item> \<open>Hbm_Pool\<close> (\<^verbatim>\<open>hbm_pool_planning.py\<close>): the free-list allocator behind the locale \<open>pool_allocator\<close>, live
    ranges, pool candidates, and the placement of alias groups bundle by bundle.
  \<^item> \<open>Loop_Nodes\<close> (\<^verbatim>\<open>loop_node.py\<close>, \<^verbatim>\<open>loop_checker.py\<close>): the tree of operations, the flat view with all its
    edits, \<open>collapse\<close>, \<open>expand\<close>, peeling and the structural checker.
  \<^item> \<open>Dead_Code\<close> (\<^verbatim>\<open>deadcode_elimination.py\<close>): liveness as a bounded iteration, removal from the list and
    through the flat view, and a semantics of operation trees over stores to judge it by.
  \<^item> \<open>Owner_Maps\<close>, \<open>Core_Mapping\<close>, \<open>Operation_Mapping\<close>, \<open>Subrange_Transfer\<close> (\<^verbatim>\<open>core_mapping.py\<close> and
    \<open>TensorWorkDivision\<close> of \<^verbatim>\<open>op_spec.py\<close>): owner formulas over the core number and their comparison; the
    layout generators, with a locale for what a generator provides; remapping onto aligned loop
    symbols and the mapping of an operation; certificates of rectangular transfers.
  \<^item> \<open>Slice_Ownership\<close> (\<^verbatim>\<open>slice_ownership.py\<close>): containment of a read in its owner's slice, by affine forms or
    by a floor, and the exact factoring of a slice over several loops.
  \<^item> \<open>Tiling_Space\<close> (\<^verbatim>\<open>wsr/enumerate_tilings.py\<close>, the split candidates of
    \<^verbatim>\<open>wsr/span_overflow_hint_analysis.py\<close>) and \<open>Work_Division\<close> (\<^verbatim>\<open>work_division.py\<close>): which tilings and
    splits are legal, their enumeration and neighbourhoods, and the greedy distribution of the cores.
  \<^item> \<open>Sliding_Window\<close> (\<^verbatim>\<open>sliding_window_plan.py\<close>) and \<open>Sharding\<close> (\<^verbatim>\<open>src/torch_spyre/sharding.py\<close>,
    \<^verbatim>\<open>src/torch_spyre/_native_placement.py\<close>, \<^verbatim>\<open>src/torch_spyre/_sharded_api.py\<close>), the latter with a locale for the
    placement backend.
  \<^item> This theory composes the allocator with a solver and the relayout checks with the greedy solver.

  \<^bold>\<open>What the lemmas show.\<close>
  Layouts: every returned layout is aligned, in bounds and free of overlaps but for the tick of a
  declared handover; solvers return on checked input; a buffer is left out only when nothing fits,
  groups are placed whole or not at all, and the exhaustive search is optimal.  Lifetimes: liveness is
  exact, and a value that a loop reads is alive during the whole loop.  Pool: blocks live at the same
  step are disjoint, usage and peak are exact.  Loops: collapse and expand are inverse, each node holds
  its loop's operations and trip count, the view acts as a Python list does.  Dead code: removal keeps
  every observable buffer for every interpretation of the operations and every trip count.  Ownership:
  generated layouts are bijections, derived mappings agree with every owner, remapped slots are the
  digits of the old ones, certified transfers move each element once and in bounds.  Division and
  tiling: what is returned or offered is legal.  Windows and shards: all attended positions are in the
  buffer, shards partition the tensor and native extents do not overlap.

  \<^bold>\<open>Conventions.\<close>
  Python integers are \<open>int\<close>, positions in lists \<open>nat\<close>, dictionaries maps or association lists where their
  order is observed, sets lists or \<open>set\<close>s.  A raise is a value \<open>Inl e\<close>.  Float quotients that only order
  candidates are exact rationals.  An object's identity is a number.  SymPy expressions appear as the
  small datatypes the code distinguishes (owner formulas, expanded affine forms); native functions,
  \<open>sympy.divisors\<close>, residency verdicts, device layouts and Python's equality of operations are
  arguments, with what the code relies on as named hypotheses that the witnesses instantiate.

  \<^bold>\<open>Termination.\<close>
  Every definition is total and none uses fuel of its own: recursion is structural or has a measure
  (the operations left and the remaining depth for \<open>wrap_ops\<close>, the size of the tree for \<open>peel\<close>, the names not
  yet reached for the closure of mutations, the heap and the degrees left for the topological sort, the
  candidate block size in \<open>Sliding_Window\<close>).
  The one bounded loop is the code's own, one pass more than there are operations in
  \<open>live_operations\<close>, and is proved to reach the fixed point.

  \<^bold>\<open>Not modelled.\<close>
  The co-optimising solvers (OR-Tools, simulated annealing) and cost models, which are external or
  floating-point searches; lowering, layout propagation, working-set rewrites, scheduling and fusion,
  which consist of calls into PyTorch and SymPy; code generation, whose formats are defined elsewhere;
  the C++ extension, the runtime glue, profiling, tools and tests.  Log messages and timings are left
  out everywhere.  The layout solvers are modelled from \<open>plan_layout\<close> on: the constructor's refusal of
  paired buffers by a solver without that capability is \<open>solver_init\<close> in \<open>Plan_Solver\<close>.
\<close>

section \<open>From the graph to the scratchpad layout\<close>

text \<open>A byte of \<open>b\<close> and a byte of \<open>c\<close> only coincide at tick \<open>t\<close> where one takes over the other's slot.\<close>

definition shares_only_handover :: "LifetimeBoundBuffer list \<Rightarrow> LifetimeBoundBuffer \<Rightarrow> int \<Rightarrow> bool" where
  "shares_only_handover out b t \<longleftrightarrow> (\<forall>c x. c \<in> set out \<and> c \<noteq> b \<and> holds_byte b t x \<and> holds_byte c t x \<longrightarrow>
     (handed_over b c \<and> t = start_time b) \<or> (handed_over c b \<and> t = start_time c))"

lemma bound_to_graph_erase: "erase_plan b = erase_plan c \<Longrightarrow> bound_to_graph g ov b = bound_to_graph g ov c"
  by (cases b, cases c) (simp add: erase_plan_def bound_to_graph_def)

text \<open>
  C2. From the graph to the layout: on a graph in single-assignment form, the allocator
  generates the buffers, the first-fit solver accepts them and returns a safe layout, and a
  value that a counted loop reads but does not create occupies its bytes alone at every
  operation of that loop, but for the single tick of an in-place handover.
\<close>

theorem lx_planning_safe:
  assumes "ssa_graph g" "mem_usage_ok g mu" "admitted_sized g mu reasons" "\<forall>l. 0 \<le> db l" "0 < al"
  shows "\<exists>bufs out. generate_buffers g db mu reasons ir ncores [] = Inr bufs
    \<and> firstfit_plan_layout limit al bufs = Inr out \<and> safe_layout limit al out
    \<and> (\<forall>b k j loop. b \<in> set out \<and> buf_address b \<noteq> None
         \<and> k < length (graph_operations g) \<and> in_loop (graph_operations g ! k) loop
         \<and> op_reads_name (graph_operations g ! k) (buf_name b)
         \<and> take (length loop) (born_in g (buf_name b)) \<noteq> loop
         \<and> j < length (graph_operations g) \<and> in_loop (graph_operations g ! j) loop
         \<longrightarrow> start_time b \<le> int j \<and> int j < end_time b \<and> shares_only_handover out b (int j))"
proof -
  obtain bufs where b: "generate_buffers g db mu reasons ir ncores [] = Inr bufs"
    using generate_buffers_total [OF assms(1-4), of "[]" ir ncores] by auto
  from generate_buffers_generated [OF assms(1,2,4) b] obtain ov mu' where
    g: "counted_loop_lifetime_overrides g = Inr ov" "mem_usage_ok g mu'" "distinct (map buf_name bufs)"
      "\<forall>b \<in> set bufs. generated g mu' db ncores ov b" by blast
  note acc = generated_accepted [OF assms(1) g(1,2) assms(4) g(3,4)]
  have none: "\<forall>b \<in> set bufs. buf_address b = None" using g(4) by (simp add: generated_def)
  from first_fit.gap_plan_returns [OF assms(5) acc none] obtain out where
    out: "gap_plan_layout pick_gap_first limit al bufs = Inr out" "safe_layout limit al out"
      "map erase_plan out = map erase_plan bufs" by blast
  have bound: "bound_to_graph g ov b" if bo: "b \<in> set out" for b
  proof -
    have "erase_plan b \<in> erase_plan ` set bufs" using arg_cong [OF out(3), of set] bo by (metis imageI set_map)
    then obtain b' where b': "b' \<in> set bufs" "erase_plan b = erase_plan b'" by (rule imageE)
    have "bound_to_graph g ov b'" using g(4) b'(1) unfolding generated_def by blast
    then show ?thesis using bound_to_graph_erase [OF b'(2)] by simp
  qed
  have "start_time b \<le> int j \<and> int j < end_time b \<and> shares_only_handover out b (int j)"
    if "b \<in> set out" "k < length (graph_operations g)" "in_loop (graph_operations g ! k) loop"
      "op_reads_name (graph_operations g ! k) (buf_name b)" "take (length loop) (born_in g (buf_name b)) \<noteq> loop"
      "j < length (graph_operations g)" "in_loop (graph_operations g ! j) loop" for b k j loop
    using loop_live [OF g(1) bound [OF that(1)] that(2-7)]
      first_fit.no_clobber [OF assms(5) acc(1) out(1) that(1)]
    unfolding shares_only_handover_def by blast
  then show ?thesis using b out(1,2) unfolding firstfit_plan_layout_def by blast
qed

text \<open>The loop of \<open>demo_loop\<close> planned: \<open>w\<close> is read by the first of its three operations.\<close>

theorem lx_planning_safe_witness:
  "\<exists>bufs out. generate_buffers demo_loop (\<lambda>_. 256) demo_usage (\<lambda>_. None) (\<lambda>_ _. None) (\<lambda>_. Some 1) [] = Inr bufs
     \<and> firstfit_plan_layout 4096 128 bufs = Inr out \<and> safe_layout 4096 128 out"
proof -
  have "ssa_graph demo_loop" "mem_usage_ok demo_loop demo_usage" "admitted_sized demo_loop demo_usage (\<lambda>_. None)"
    by code_simp+
  from lx_planning_safe [OF this, of "\<lambda>_. 256" 128 "\<lambda>_ _. None" "\<lambda>_. Some 1" 4096] show ?thesis by fastforce
qed

text \<open>
  C16. The two assertions on relayout groups never fail after a greedy solve: every source
  and its destinations are placed together or not at all, a placed source and its
  destinations share no byte, and the sources reported complete are exactly the placed ones.
\<close>

theorem relayout_groups_never_assert:
  assumes "0 < al" "relayout_ready bufs" "distinct (concat (map group_names bufs))"
    and "\<forall>b \<in> set bufs. \<forall>p \<in> set (lx_relayout_plans b). dest_name_of p \<notin> set (in_place_parents b)"
    and "append_lx_relayout_destinations g bufs = Inr bufs'" "greedy_plan_layout limit al bufs' = Inr out"
  shows "allocated_lx_relayout_sources out
    = Inr (map buf_name (filter (\<lambda>s. lx_relayout_plans s \<noteq> [] \<and> buf_address s \<noteq> None) out))"
proof -
  note ready = append_ready [OF assms(5,2,3,4)]
  have d: "distinct (map buf_name out)"
    using greedy.plan_names(1) [OF assms(6)] solver_input_distinct [OF ready(1)] by simp
  have "group_complete out s = Inr (buf_address s \<noteq> None)" if "s \<in> set out" for s
    by (rule group_complete_ok [OF d ready(2) greedy.plan_frame [OF assms(6)]
          greedy.plan_safe [OF assms(1) ready(1) assms(6)]
          greedy_pairs_together [OF assms(1) ready(1) assms(6)] that])
  then have "traverse (\<lambda>s. rbind (group_complete out s) (\<lambda>c. Inr (buf_name s, c)))
      (filter (\<lambda>b. lx_relayout_plans b \<noteq> []) out)
    = Inr (map (\<lambda>s. (buf_name s, buf_address s \<noteq> None)) (filter (\<lambda>b. lx_relayout_plans b \<noteq> []) out))"
    by (intro traverse_map) simp
  then show ?thesis
    by (simp add: allocated_lx_relayout_sources_def filter_map comp_def conj_commute)
qed

definition relayout_demo_graph :: graph where
  "relayout_demo_graph = \<lparr>graph_input_names = [],
     graph_operations = [demo_op ''p'' [] [], demo_op ''r'' [''p''] []],
     graph_device_layout = (\<lambda>_. Some ''L'')\<rparr>"

definition relayout_demo_plan :: LXRelayoutPlan where
  "relayout_demo_plan = \<lparr>plan_source_name = ''p'', plan_consumer_names = [''r''], plan_source_footprint = 128,
     plan_destination_footprint = 200, plan_source_address = None, plan_destination_address = None\<rparr>"

definition relayout_demo :: "LifetimeBoundBuffer list" where
  "relayout_demo = [(demo_bound ''p'' [0, 1] None)\<lparr>lx_relayout_plans := [relayout_demo_plan]\<rparr>]"

definition relayout_demo_split :: "LifetimeBoundBuffer list" where
  "relayout_demo_split = [(demo_bound ''__spyre_lx_relayout__:p:r'' [2, 3] None)\<lparr>buf_size := 256\<rparr>,
     (demo_bound ''p'' [1, 2] None)\<lparr>paired_with := [''__spyre_lx_relayout__:p:r''],
        lx_relayout_plans := [relayout_demo_plan]\<rparr>]"

lemma relayout_demo_run: "append_lx_relayout_destinations relayout_demo_graph relayout_demo = Inr relayout_demo_split"
  by code_simp

theorem relayout_groups_never_assert_witness:
  "\<exists>out. greedy_plan_layout 1024 128 relayout_demo_split = Inr out \<and> allocated_lx_relayout_sources out = Inr [''p'']"
proof -
  have "case greedy_plan_layout 1024 128 relayout_demo_split of Inl _ \<Rightarrow> False
      | Inr out \<Rightarrow> map buf_name (filter (\<lambda>s. lx_relayout_plans s \<noteq> [] \<and> buf_address s \<noteq> None) out) = [''p'']"
    by code_simp
  then obtain out where r: "greedy_plan_layout 1024 128 relayout_demo_split = Inr out"
    "map buf_name (filter (\<lambda>s. lx_relayout_plans s \<noteq> [] \<and> buf_address s \<noteq> None) out) = [''p'']"
    by (auto split: sum.splits)
  have "relayout_ready relayout_demo" "distinct (concat (map group_names relayout_demo))"
    "\<forall>b \<in> set relayout_demo. \<forall>p \<in> set (lx_relayout_plans b). dest_name_of p \<notin> set (in_place_parents b)"
    by code_simp+
  from relayout_groups_never_assert [OF _ this relayout_demo_run r(1)] r show ?thesis by auto
qed

section \<open>A slot handed over at the end of a loop\<close>

text \<open>
  The handover tick is not excluded from a loop: where the last textual read of a value born
  outside a loop is also the last operation of the loop, no lifetime bound widens it, so the
  reader may take the value's slot although the next iteration reads the value again.
\<close>

definition tail_demo :: graph where
  "tail_demo = \<lparr>graph_input_names = [],
     graph_operations = [demo_op ''w'' [] [], demo_op ''c'' [''w''] [0], demo_op ''y'' [''c''] []],
     graph_device_layout = (\<lambda>_. Some ''L'')\<rparr>"

definition tail_usage :: mem_usage where
  "tail_usage = map (\<lambda>(n, ins). (n, \<lparr>size_per_core = 256, core_div_mismatch = False, op_inputs = ins\<rparr>))
     [(''w'', []), (''c'', [''w'']), (''y'', [''c''])]"

text \<open>
  A loop-invariant value can lose its slot inside the loop.  In a graph of three
  operations, \<open>w\<close> is computed before a counted loop whose only operation reads \<open>w\<close> and
  writes \<open>c\<close>; the allocator declares \<open>w\<close> an in-place parent of \<open>c\<close>, the first-fit solver
  gives both the same address, and every iteration after the first reads what the previous
  one wrote.
\<close>

lemma loop_last_reader_takes_slot:
  "\<exists>bufs out w c. generate_buffers tail_demo (\<lambda>_. 256) tail_usage (\<lambda>_. None) (\<lambda>_ _. None) (\<lambda>_. None) [] = Inr bufs
     \<and> firstfit_plan_layout 4096 128 bufs = Inr out \<and> w \<in> set out \<and> c \<in> set out
     \<and> buf_name w = ''w'' \<and> buf_name c = ''c'' \<and> in_loop (graph_operations tail_demo ! 1) [0]
     \<and> op_reads_name (graph_operations tail_demo ! 1) ''w'' \<and> op_writes_name (graph_operations tail_demo ! 1) ''c''
     \<and> born_in tail_demo ''w'' = [] \<and> buf_address w = Some 0 \<and> buf_address c = Some 0"
proof -
  have "case generate_buffers tail_demo (\<lambda>_. 256) tail_usage (\<lambda>_. None) (\<lambda>_ _. None) (\<lambda>_. None) [] of Inl _ \<Rightarrow> False
    | Inr bufs \<Rightarrow> (case firstfit_plan_layout 4096 128 bufs of Inl _ \<Rightarrow> False
      | Inr out \<Rightarrow> map (\<lambda>b. (buf_name b, buf_address b)) (take 2 out) = [(''w'', Some 0), (''c'', Some 0)])"
    by code_simp
  then obtain bufs out where r: "generate_buffers tail_demo (\<lambda>_. 256) tail_usage (\<lambda>_. None) (\<lambda>_ _. None) (\<lambda>_. None) [] = Inr bufs"
    "firstfit_plan_layout 4096 128 bufs = Inr out"
    "map (\<lambda>b. (buf_name b, buf_address b)) (take 2 out) = [(''w'', Some 0), (''c'', Some 0)]"
    by (auto split: sum.splits)
  then obtain w c rest where "out = w # c # rest" "buf_name w = ''w''" "buf_address w = Some 0"
    "buf_name c = ''c''" "buf_address c = Some 0" by (cases out; cases "tl out") auto
  moreover have "in_loop (graph_operations tail_demo ! 1) [0]" "op_reads_name (graph_operations tail_demo ! 1) ''w''"
    "op_writes_name (graph_operations tail_demo ! 1) ''c''" "born_in tail_demo ''w'' = []" by code_simp+
  ultimately show ?thesis using r(1,2) by (intro exI [of _ bufs] exI [of _ out] exI [of _ w] exI [of _ c]) simp
qed

end
